(* ===== verification/Prelude.thy ===== *)
theory Prelude
  imports Main "HOL-Library.Word" "HOL-Library.Monad_Syntax"
begin

text \<open>
  Shared vocabulary of the development.

  \<^item> A Rust \<open>usize\<close> is a \<open>nat\<close>; its width is written out in the operations below, which
    are the operators of a build with overflow checks: \<open>None\<close> is a panic. A run for which the
    model returns \<open>Some\<close> has met no overflow, and a build without overflow checks
    computes the same values on it.
  \<^item> A panic (\<open>assert!\<close>, \<open>expect\<close>, an index out of bounds, an overflow) is \<open>None\<close> of an outer
    \<open>option\<close>, sequenced with the \<open>do\<close> notation of \<open>Monad_Syntax\<close>.
  \<^item> A Rust \<open>Result<T>\<close> is \<open>error + 't\<close>, \<open>Inl\<close> for \<open>Err\<close>; a function that can both panic
    and return an error has the type \<open>(error + 't) option\<close>.
  \<^item> Bit patterns that hardware reads (page table entries, descriptors) are machine words.
\<close>

section \<open>Types\<close>

type_synonym usize = nat
type_synonym u8 = "8 word"
type_synonym u16 = "16 word"
type_synonym u32 = "32 word"
type_synonym u64 = "64 word"

datatype error = Error (to_raw: "32 word")

type_synonym 'a result = "error + 'a"

definition INVALID_ARGUMENT :: error where "INVALID_ARGUMENT = Error 1"
definition INVALID_STATE :: error where "INVALID_STATE = Error 2"
definition BAD_ADDRESS :: error where "BAD_ADDRESS = Error 3"
definition OUT_OF_MEMORY :: error where "OUT_OF_MEMORY = Error 4"
definition RESOURCE_OVERLAP :: error where "RESOURCE_OVERLAP = Error 5"
definition OUT_OF_RESOURCES :: error where "OUT_OF_RESOURCES = Error 6"
definition NO_PERMS :: error where "NO_PERMS = Error 7"

lemmas error_defs = INVALID_ARGUMENT_def INVALID_STATE_def BAD_ADDRESS_def OUT_OF_MEMORY_def
  RESOURCE_OVERLAP_def OUT_OF_RESOURCES_def NO_PERMS_def

section \<open>Machine arithmetic on \<open>usize\<close>\<close>

definition USIZE_LIM :: nat where "USIZE_LIM = 2 ^ 64"

definition uadd :: "usize \<Rightarrow> usize \<Rightarrow> usize option" where
  "uadd a b = (if a + b < USIZE_LIM then Some (a + b) else None)"

definition usub :: "usize \<Rightarrow> usize \<Rightarrow> usize option" where
  "usub a b = (if b \<le> a then Some (a - b) else None)"

definition umul :: "usize \<Rightarrow> usize \<Rightarrow> usize option" where
  "umul a b = (if a * b < USIZE_LIM then Some (a * b) else None)"

definition udiv :: "usize \<Rightarrow> usize \<Rightarrow> usize option" where
  "udiv a b = (if b = 0 then None else Some (a div b))"

definition umod :: "usize \<Rightarrow> usize \<Rightarrow> usize option" where
  "umod a b = (if b = 0 then None else Some (a mod b))"

text \<open>A shift panics when its amount reaches the width; bits shifted out are dropped.\<close>

definition ushl :: "usize \<Rightarrow> usize \<Rightarrow> usize option" where
  "ushl a k = (if k < 64 then Some ((a * 2 ^ k) mod USIZE_LIM) else None)"

definition ushr :: "usize \<Rightarrow> usize \<Rightarrow> usize option" where
  "ushr a k = (if k < 64 then Some (a div 2 ^ k) else None)"

definition uassert :: "bool \<Rightarrow> unit option" where
  "uassert b = (if b then Some () else None)"

named_theorems panic_simps \<open>when a computation that may panic returns, and what\<close>

lemma uadd_Some_iff [panic_simps]: "uadd a b = Some c \<longleftrightarrow> a + b < USIZE_LIM \<and> c = a + b"
  by (auto simp: uadd_def)

lemma usub_Some_iff [panic_simps]: "usub a b = Some c \<longleftrightarrow> b \<le> a \<and> c = a - b"
  by (auto simp: usub_def)

lemma umul_Some_iff [panic_simps]: "umul a b = Some c \<longleftrightarrow> a * b < USIZE_LIM \<and> c = a * b"
  by (auto simp: umul_def)

lemma udiv_Some_iff [panic_simps]: "udiv a b = Some c \<longleftrightarrow> b \<noteq> 0 \<and> c = a div b"
  by (auto simp: udiv_def)

lemma umod_Some_iff [panic_simps]: "umod a b = Some c \<longleftrightarrow> b \<noteq> 0 \<and> c = a mod b"
  by (auto simp: umod_def)

lemma ushl_Some_iff [panic_simps]:
  "ushl a k = Some c \<longleftrightarrow> k < 64 \<and> c = (a * 2 ^ k) mod USIZE_LIM"
  by (auto simp: ushl_def)

lemma ushr_Some_iff [panic_simps]: "ushr a k = Some c \<longleftrightarrow> k < 64 \<and> c = a div 2 ^ k"
  by (auto simp: ushr_def)

lemma uassert_Some_iff [panic_simps]: "uassert b = Some u \<longleftrightarrow> b"
  by (simp add: uassert_def)

lemmas [panic_simps] = Option.bind_eq_Some_conv

lemmas machine_defs = uadd_def usub_def umul_def udiv_def umod_def ushl_def ushr_def
  uassert_def USIZE_LIM_def

text \<open>A left shift that stays in range is a multiplication.\<close>

lemma ushl_small: "k < 64 \<Longrightarrow> a * 2 ^ k < USIZE_LIM \<Longrightarrow> ushl a k = Some (a * 2 ^ k)"
  by (simp add: ushl_def)

lemma ushl_one [simp]: "ushl 1 k = Some (2 ^ k) \<longleftrightarrow> k < 64"
  using power_strict_increasing [of k 64 "2::nat"] by (auto simp: ushl_def USIZE_LIM_def)

section \<open>Computations with state, errors and panics\<close>

text \<open>
  A function that changes a state \<open>'s\<close> and returns a Rust \<open>Result\<close>: \<open>None\<close> is a panic, the state is the one at the point of return
  also when the result is an error. \<open>eff_bind\<close> is sequencing with the operator \<open>?\<close>.
\<close>

type_synonym ('s, 'e, 'a) eff = "'s \<Rightarrow> (('e + 'a) \<times> 's) option"

definition eff_return :: "'a \<Rightarrow> ('s, 'e, 'a) eff" where
  "eff_return x s = Some (Inr x, s)"

definition eff_fail :: "'e \<Rightarrow> ('s, 'e, 'a) eff" where
  "eff_fail e s = Some (Inl e, s)"

definition eff_panic :: "('s, 'e, 'a) eff" where
  "eff_panic s = None"

definition eff_bind :: "('s, 'e, 'a) eff \<Rightarrow> ('a \<Rightarrow> ('s, 'e, 'b) eff) \<Rightarrow> ('s, 'e, 'b) eff" where
  "eff_bind m f s = (case m s of
     None \<Rightarrow> None
   | Some (Inl e, s') \<Rightarrow> Some (Inl e, s')
   | Some (Inr x, s') \<Rightarrow> f x s')"

definition eff_lift :: "'a option \<Rightarrow> ('s, 'e, 'a) eff" where
  "eff_lift x s = (case x of None \<Rightarrow> None | Some y \<Rightarrow> Some (Inr y, s))"

definition eff_assert :: "bool \<Rightarrow> ('s, 'e, unit) eff" where
  "eff_assert b s = (if b then Some (Inr (), s) else None)"

definition eff_get :: "('s, 'e, 's) eff" where
  "eff_get s = Some (Inr s, s)"

definition eff_put :: "'s \<Rightarrow> ('s, 'e, unit) eff" where
  "eff_put s' s = Some (Inr (), s')"

lemma eff_bind_Inr [panic_simps]:
  "eff_bind m f s = Some (Inr y, s'') \<longleftrightarrow> (\<exists>x s'. m s = Some (Inr x, s') \<and> f x s' = Some (Inr y, s''))"
  by (auto simp: eff_bind_def split: option.splits sum.splits)

lemma eff_bind_Inl [panic_simps]:
  "eff_bind m f s = Some (Inl e, s'') \<longleftrightarrow> m s = Some (Inl e, s'') \<or> (\<exists>x s'. m s = Some (Inr x, s') \<and> f x s' = Some (Inl e, s''))"
  by (auto simp: eff_bind_def split: option.splits sum.splits)

lemma eff_bind_run:
  "m s = Some (Inr x, s') \<Longrightarrow> eff_bind m f s = f x s'"
  "m s = Some (Inl e, s') \<Longrightarrow> eff_bind m f s = Some (Inl e, s')"
  "m s = None \<Longrightarrow> eff_bind m f s = None"
  by (simp_all add: eff_bind_def)

lemma eff_return_Some [panic_simps]: "eff_return x s = Some (r, s') \<longleftrightarrow> r = Inr x \<and> s' = s"
  by (auto simp: eff_return_def)

lemma eff_fail_Some [panic_simps]: "eff_fail e s = Some (r, s') \<longleftrightarrow> r = Inl e \<and> s' = s"
  by (auto simp: eff_fail_def)

lemma eff_panic_None [panic_simps]: "eff_panic s = None"
  by (simp add: eff_panic_def)

lemma eff_lift_Some [panic_simps]: "eff_lift y s = Some (r, s') \<longleftrightarrow> (\<exists>v. y = Some v \<and> r = Inr v \<and> s' = s)"
  by (auto simp: eff_lift_def split: option.splits)

lemma eff_assert_Some [panic_simps]: "eff_assert b s = Some (r, s') \<longleftrightarrow> b \<and> r = Inr () \<and> s' = s"
  by (auto simp: eff_assert_def)

lemma eff_get_Some [panic_simps]: "eff_get s = Some (r, s') \<longleftrightarrow> r = Inr s \<and> s' = s"
  by (auto simp: eff_get_def)

lemma eff_put_Some [panic_simps]: "eff_put t s = Some (r, s') \<longleftrightarrow> r = Inr () \<and> s' = t"
  by (auto simp: eff_put_def)

lemmas eff_ops = eff_return_Some eff_fail_Some eff_panic_None eff_lift_Some eff_assert_Some eff_get_Some eff_put_Some

lemmas eff_defs = eff_return_def eff_fail_def eff_panic_def eff_lift_def eff_assert_def eff_get_def eff_put_def

section \<open>Powers of two and aligned blocks\<close>

text \<open>Two aligned blocks of power-of-two sizes are nested or disjoint.\<close>

lemma aligned_block_le:
  fixes p q n :: nat
  assumes "n dvd p" "n dvd q" "p < q + n"
  shows "p \<le> q"
proof -
  from assms obtain a b where "p = n * a" "q = n * b" by (auto elim!: dvdE)
  with assms(3) have "n * a < n * (b + 1)" by (simp add: algebra_simps)
  then have "a < b + 1" by (metis mult_less_cancel1)
  with \<open>p = n * a\<close> \<open>q = n * b\<close> show ?thesis by simp
qed

lemma aligned_nested:
  fixes p q m n :: nat
  assumes "m dvd n" "m dvd p" "n dvd q" "q < p + m" "p < q + n" "0 < m"
  shows "q \<le> p \<and> p + m \<le> q + n"
proof -
  from assms(1,3) have "m dvd q" by (rule dvd_trans)
  with assms(2,4) have le: "q \<le> p" by (metis aligned_block_le)
  have "m dvd q + n" using \<open>m dvd q\<close> assms(1) by simp
  then have "m dvd (q + n) - p" using assms(2) by (simp add: dvd_diff_nat)
  moreover have "0 < (q + n) - p" using assms(5) by simp
  ultimately have "m \<le> (q + n) - p" by (rule dvd_imp_le)
  with le assms(5) show ?thesis by simp
qed

lemma two_power_dvd_power: "i \<le> j \<Longrightarrow> (2 ^ i :: nat) dvd 2 ^ j"
  by (simp add: le_imp_power_dvd)

end
