(* ===== verification/Num_Utils.thy ===== *)
theory Num_Utils
  imports Prelude
begin

text \<open>
  The crates \<open>lib/num-utils\<close> and the integer intrinsics of \<open>core\<close> it uses. Every rounding function
  is proved against its order-theoretic specification (greatest multiple below, least multiple above,
  floor and ceiling of the binary logarithm), with the exact condition under which it does not panic.
\<close>

section \<open>Bit counting intrinsics of \<open>core\<close>\<close>

fun bit_length :: "nat \<Rightarrow> nat" where
  "bit_length n = (if n = 0 then 0 else Suc (bit_length (n div 2)))"

declare bit_length.simps [simp del]

definition leading_zeros :: "usize \<Rightarrow> nat" where
  "leading_zeros n = 64 - bit_length n"

fun trailing_zeros_pos :: "nat \<Rightarrow> nat" where
  "trailing_zeros_pos n = (if n = 0 \<or> odd n then 0 else Suc (trailing_zeros_pos (n div 2)))"

declare trailing_zeros_pos.simps [simp del]

definition trailing_zeros :: "usize \<Rightarrow> nat" where
  "trailing_zeros n = (if n = 0 then 64 else trailing_zeros_pos n)"

section \<open>The crate\<close>

definition align_down :: "usize \<Rightarrow> usize \<Rightarrow> usize option" where
  "align_down val align = do { q \<leftarrow> udiv val align; umul q align }"

definition align_up :: "usize \<Rightarrow> usize \<Rightarrow> usize option" where
  "align_up val align = do { s \<leftarrow> uadd val align; t \<leftarrow> usub s 1; align_down t align }"

definition div_ceil :: "usize \<Rightarrow> usize \<Rightarrow> usize option" where
  "div_ceil val divisor = do { s \<leftarrow> uadd val divisor; t \<leftarrow> usub s 1; udiv t divisor }"

definition log2 :: "usize \<Rightarrow> usize option" where
  "log2 val = do { s \<leftarrow> usub 64 (leading_zeros val); usub s 1 }"

definition log2_ceil :: "usize \<Rightarrow> usize option" where
  "log2_ceil val =
     (if val \<le> 1 then Some 0 else do { v \<leftarrow> usub val 1; l \<leftarrow> log2 v; uadd l 1 })"

section \<open>Bit lengths\<close>

lemma bit_length_0 [simp]: "bit_length 0 = 0"
  by (simp add: bit_length.simps)

lemma bit_length_pos: "0 < n \<Longrightarrow> bit_length n = Suc (bit_length (n div 2))"
  by (subst bit_length.simps) simp

lemma bit_length_bounds: "0 < n \<Longrightarrow> 2 ^ (bit_length n - 1) \<le> n \<and> n < 2 ^ bit_length n"
proof (induction n rule: bit_length.induct)
  case (1 n)
  show ?case
  proof (cases "n div 2 = 0")
    case True
    with "1.prems" have "n = 1" by simp
    then show ?thesis by (simp add: bit_length_pos)
  next
    case False
    with "1.prems" "1.IH" have ih: "2 ^ (bit_length (n div 2) - 1) \<le> n div 2"
      "n div 2 < 2 ^ bit_length (n div 2)" by auto
    obtain k where k: "bit_length (n div 2) = Suc k"
      using False by (metis bit_length_pos gr0I)
    show ?thesis
      using ih "1.prems" by (auto simp: bit_length_pos k)
  qed
qed

lemma bit_length_less_iff: "bit_length n \<le> k \<longleftrightarrow> n < 2 ^ k"
proof (cases "n = 0")
  case False
  then have b: "2 ^ (bit_length n - 1) \<le> n" "n < 2 ^ bit_length n"
    using bit_length_bounds by auto
  show ?thesis
  proof
    assume "bit_length n \<le> k"
    then have "(2::nat) ^ bit_length n \<le> 2 ^ k" by simp
    with b(2) show "n < 2 ^ k" by linarith
  next
    assume "n < 2 ^ k"
    with b(1) have "(2::nat) ^ (bit_length n - 1) < 2 ^ k" by linarith
    then have "bit_length n - 1 < k" by simp
    then show "bit_length n \<le> k" by linarith
  qed
qed simp

lemma trailing_zeros_dvd: "2 ^ trailing_zeros_pos n dvd n"
proof (induction n rule: trailing_zeros_pos.induct)
  case (1 n)
  show ?case
  proof (cases "n = 0 \<or> odd n")
    case True
    then show ?thesis by (simp add: trailing_zeros_pos.simps)
  next
    case False
    with 1 have "2 * 2 ^ trailing_zeros_pos (n div 2) dvd 2 * (n div 2)"
      by (metis dvd_refl mult_dvd_mono)
    with False show ?thesis by (simp add: trailing_zeros_pos.simps [of n])
  qed
qed

lemma trailing_zeros_greatest: "0 < n \<Longrightarrow> 2 ^ k dvd n \<Longrightarrow> k \<le> trailing_zeros_pos n"
proof (induction n arbitrary: k rule: trailing_zeros_pos.induct)
  case (1 n)
  show ?case
  proof (cases k)
    case (Suc j)
    with "1.prems" have ev: "even n" by (auto elim: dvd_trans [rotated])
    with "1.prems" Suc have "2 ^ j dvd n div 2"
      by (metis dvd_mult_div_cancel nat_mult_dvd_cancel_disj power_Suc zero_neq_numeral)
    with ev "1.prems" "1.IH" have "j \<le> trailing_zeros_pos (n div 2)" by auto
    with ev "1.prems" Suc show ?thesis by (simp add: trailing_zeros_pos.simps [of n])
  qed simp
qed

section \<open>Rounding\<close>

lemma align_down_Some_iff [panic_simps]:
  "align_down val align = Some r \<longleftrightarrow>
     align \<noteq> 0 \<and> val div align * align < USIZE_LIM \<and> r = val div align * align"
  by (auto simp: align_down_def panic_simps)

lemma align_down_eq: "val < USIZE_LIM \<Longrightarrow> 0 < align \<Longrightarrow> align_down val align = Some (val - val mod align)"
proof -
  assume a: "val < USIZE_LIM" "0 < align"
  have e: "val div align * align = val - val mod align" by (simp add: minus_mod_eq_div_mult)
  with a show ?thesis by (simp add: panic_simps)
qed

text \<open>\<open>align_up\<close> returns exactly when \<open>val + align\<close> does not overflow.\<close>

lemma align_up_Some_iff [panic_simps]:
  "align_up val align = Some r \<longleftrightarrow>
     0 < align \<and> val + align < USIZE_LIM \<and> r = (val + align - 1) div align * align"
proof -
  have le: "(val + align - Suc 0) div align * align \<le> val + align - Suc 0"
    by simp
  have "0 < align \<Longrightarrow> val + align < USIZE_LIM \<Longrightarrow> (val + align - Suc 0) div align * align < USIZE_LIM"
    by (rule le_less_trans [OF le]) simp
  then show ?thesis
    by (auto simp: align_up_def panic_simps)
qed

lemma align_up_spec:
  assumes "align_up val align = Some r"
  shows "align dvd r" "val \<le> r" "r < val + align" "\<And>m. align dvd m \<Longrightarrow> val \<le> m \<Longrightarrow> r \<le> m"
proof -
  from assms have a: "0 < align" and r: "r = (val + align - 1) div align * align"
    by (auto simp: panic_simps)
  have e: "r + (val + align - 1) mod align = val + align - 1"
    using div_mult_mod_eq [of "val + align - 1" align] r by simp
  have m: "(val + align - 1) mod align < align" using a by simp
  show d: "align dvd r" using r by simp
  show "val \<le> r" using e m by linarith
  show lt: "r < val + align" using e m a by linarith
  fix x assume x: "align dvd x" "val \<le> x"
  show "r \<le> x" using aligned_block_le [OF d x(1)] lt x(2) by linarith
qed

lemma align_up_aligned [simp]:
  "align dvd val \<Longrightarrow> 0 < align \<Longrightarrow> val + align < USIZE_LIM \<Longrightarrow> align_up val align = Some val"
  using align_up_spec [of val align] by (metis align_up_Some_iff dual_order.refl le_antisym)

lemma div_ceil_Some_iff [panic_simps]:
  "div_ceil val d = Some r \<longleftrightarrow> 0 < d \<and> val + d < USIZE_LIM \<and> r = (val + d - 1) div d"
  by (auto simp: div_ceil_def panic_simps)

lemma div_ceil_spec:
  assumes "div_ceil val d = Some r"
  shows "val \<le> r * d" "\<And>m. val \<le> m * d \<Longrightarrow> r \<le> m"
proof -
  from assms have d: "0 < d" and r: "r = (val + d - 1) div d" by (auto simp: panic_simps)
  have e: "r * d + (val + d - 1) mod d = val + d - 1"
    using div_mult_mod_eq [of "val + d - 1" d] r by simp
  have "(val + d - 1) mod d < d" using d by simp
  with e show "val \<le> r * d" by linarith
  fix m assume "val \<le> m * d"
  then have "val + d - 1 < (m + 1) * d" using d by (simp add: algebra_simps)
  then have "r < m + 1" using r d by (metis div_less_iff_less_mult)
  then show "r \<le> m" by simp
qed

lemma div_ceil_index_bound:
  assumes "div_ceil val d = Some r" "p < val"
  shows "p div d < r"
proof -
  have "p < r * d" using div_ceil_spec(1) [OF assms(1)] assms(2) by linarith
  moreover have "0 < d" using assms(1) by (simp add: panic_simps)
  ultimately show ?thesis by (simp add: div_less_iff_less_mult)
qed

section \<open>Logarithms\<close>

lemma log2_Some:
  assumes "0 < val" "val < USIZE_LIM"
  shows "log2 val = Some (bit_length val - 1)"
proof -
  have "bit_length val \<le> 64" using assms(2) by (simp add: bit_length_less_iff USIZE_LIM_def)
  moreover have "0 < bit_length val" using assms(1) by (simp add: bit_length_pos)
  ultimately show ?thesis by (auto simp: log2_def leading_zeros_def machine_defs)
qed

lemma log2_zero: "log2 0 = None"
  by (simp add: log2_def leading_zeros_def machine_defs)

lemma log2_spec:
  assumes "log2 val = Some r" "val < USIZE_LIM"
  shows "2 ^ r \<le> val" "val < 2 ^ (r + 1)"
proof -
  have v: "0 < val" using assms(1) log2_zero by (cases "val = 0") auto
  then have r: "r = bit_length val - 1" using log2_Some [OF v assms(2)] assms(1) by simp
  have "0 < bit_length val" using v by (simp add: bit_length_pos)
  then show "2 ^ r \<le> val" "val < 2 ^ (r + 1)" using bit_length_bounds [OF v] r by auto
qed

lemma log2_ceil_Some:
  assumes "val < USIZE_LIM"
  shows "\<exists>r. log2_ceil val = Some r \<and> r \<le> 64"
proof (cases "val \<le> 1")
  case False
  then have "log2 (val - 1) = Some (bit_length (val - 1) - 1)"
    using assms by (intro log2_Some) auto
  moreover have "bit_length (val - 1) \<le> 64"
    using assms by (simp add: bit_length_less_iff USIZE_LIM_def)
  ultimately show ?thesis using False by (auto simp: log2_ceil_def machine_defs)
qed (simp add: log2_ceil_def)

lemma log2_ceil_spec:
  assumes "log2_ceil val = Some r" "val < USIZE_LIM"
  shows "val \<le> 2 ^ r" "\<And>k. val \<le> 2 ^ k \<Longrightarrow> r \<le> k"
proof -
  have "val \<le> 2 ^ r \<and> (\<forall>k. val \<le> 2 ^ k \<longrightarrow> r \<le> k)"
  proof (cases "val \<le> 1")
    case True
    then show ?thesis using assms(1) by (simp add: log2_ceil_def)
  next
    case False
    with assms(1) obtain l where l: "log2 (val - 1) = Some l" "r = l + 1"
      by (auto simp: log2_ceil_def panic_simps)
    have b: "2 ^ l \<le> val - 1" "val - 1 < 2 ^ (l + 1)" using log2_spec [OF l(1)] assms(2) by auto
    have "r \<le> k" if k: "val \<le> 2 ^ k" for k
    proof -
      have "(2::nat) ^ l < 2 ^ k" using b(1) k False by linarith
      then show ?thesis using l(2) by simp
    qed
    with b(2) l(2) show ?thesis by simp
  qed
  then show "val \<le> 2 ^ r" "\<And>k. val \<le> 2 ^ k \<Longrightarrow> r \<le> k" by auto
qed

end
