(* ===== verification/Bitmap.thy ===== *)
theory Bitmap
  imports Num_Utils
begin

text \<open>
  The crate \<open>lib/bitmap\<close>: a bitmap borrowed over a byte slice. A slice is a list of bytes and an
  access past its end is a panic. The abstraction \<open>bits\<close> reads the bitmap as a set of indices; every
  operation is proved against it, and the laws are collected in the locale \<open>bit_array\<close>,
  through which the frame allocator and the slab heap use bitmaps.
\<close>

unbundle bit_operations_syntax

section \<open>The crate\<close>

type_synonym bitmap = "u8 list"

definition bytes_required :: "usize \<Rightarrow> usize option" where
  "bytes_required sz = div_ceil sz 8"

definition split_index :: "usize \<Rightarrow> usize \<times> usize" where
  "split_index index = (index div 8, index mod 8)"

definition bm_get :: "bitmap \<Rightarrow> usize \<Rightarrow> bool option" where
  "bm_get bytes index =
     (case split_index index of (byte, b) \<Rightarrow>
        if byte < length bytes then Some ((drop_bit b (bytes ! byte) AND 1) \<noteq> 0) else None)"

function first_zero_from :: "bitmap \<Rightarrow> usize \<Rightarrow> usize \<Rightarrow> usize option option" where
  "first_zero_from bytes i limit =
     (if i < limit
      then do { b \<leftarrow> bm_get bytes i;
                if \<not> b then Some (Some i) else first_zero_from bytes (Suc i) limit }
      else Some None)"
  by pat_completeness auto
termination by (relation "measure (\<lambda>(bytes, i, limit). limit - i)") auto

definition first_zero :: "bitmap \<Rightarrow> usize \<Rightarrow> usize option option" where
  "first_zero bytes limit = first_zero_from bytes 0 limit"

definition bm_set :: "bitmap \<Rightarrow> usize \<Rightarrow> bitmap option" where
  "bm_set bytes index =
     (case split_index index of (byte, b) \<Rightarrow>
        if byte < length bytes then Some (bytes[byte := bytes ! byte OR push_bit b 1]) else None)"

definition bm_unset :: "bitmap \<Rightarrow> usize \<Rightarrow> bitmap option" where
  "bm_unset bytes index =
     (case split_index index of (byte, b) \<Rightarrow>
        if byte < length bytes then Some (bytes[byte := bytes ! byte AND NOT (push_bit b 1)]) else None)"

definition bm_toggle :: "bitmap \<Rightarrow> usize \<Rightarrow> bitmap option" where
  "bm_toggle bytes index =
     (case split_index index of (byte, b) \<Rightarrow>
        if byte < length bytes then Some (bytes[byte := bytes ! byte XOR push_bit b 1]) else None)"

section \<open>Abstraction to a set of indices\<close>

definition bits :: "bitmap \<Rightarrow> usize \<Rightarrow> bool" where
  "bits bytes i = (i div 8 < length bytes \<and> bit (bytes ! (i div 8)) (i mod 8))"

definition bm_len :: "bitmap \<Rightarrow> usize" where
  "bm_len bytes = 8 * length bytes"

lemma bm_len_iff: "i < bm_len bytes \<longleftrightarrow> i div 8 < length bytes"
  by (auto simp: bm_len_def div_less_iff_less_mult mult.commute)

lemma div_mod_8_eq_iff: "(i div 8 = j div 8 \<and> i mod 8 = j mod 8) \<longleftrightarrow> i = (j::nat)"
  by (metis div_mult_mod_eq)

lemma drop_bit_and_one: "(drop_bit b (w::u8) AND 1 \<noteq> 0) \<longleftrightarrow> bit w b"
  by (simp add: and_one_eq bit_iff_odd_drop_bit odd_iff_mod_2_eq_one)

lemma bm_get_eq: "bm_get bytes i = (if i < bm_len bytes then Some (bits bytes i) else None)"
  by (auto simp: bm_get_def split_index_def bits_def bm_len_iff drop_bit_and_one)

lemma bit_power_u8: "bit ((2::u8) ^ b) n \<longleftrightarrow> n = b \<and> b < 8"
  by (auto simp: bit_exp_iff)

lemma bm_update_bits:
  assumes "i div 8 < length bytes"
    and "\<And>n. n < 8 \<Longrightarrow> bit w n = (if n = i mod 8 then v else bit (bytes ! (i div 8)) n)"
  shows "bits (bytes[i div 8 := w]) = (bits bytes)(i := v)"
proof
  fix j
  show "bits (bytes[i div 8 := w]) j = ((bits bytes)(i := v)) j"
  proof (cases "j div 8 = i div 8")
    case True
    then have "j = i \<longleftrightarrow> j mod 8 = i mod 8" using div_mod_8_eq_iff by metis
    with True assms show ?thesis by (auto simp: bits_def)
  next
    case False
    then show ?thesis using assms(1) by (auto simp: bits_def)
  qed
qed

lemma bm_set_spec:
  "i < bm_len bytes \<Longrightarrow> \<exists>b. bm_set bytes i = Some b \<and> bm_len b = bm_len bytes \<and> bits b = (bits bytes)(i := True)"
  unfolding bm_set_def split_index_def
  by (auto simp: bm_len_iff bm_len_def bit_or_iff bit_power_u8 intro!: bm_update_bits split: if_splits)

lemma bm_unset_spec:
  "i < bm_len bytes \<Longrightarrow> \<exists>b. bm_unset bytes i = Some b \<and> bm_len b = bm_len bytes \<and> bits b = (bits bytes)(i := False)"
  unfolding bm_unset_def split_index_def
  by (auto simp: bm_len_iff bm_len_def bit_and_iff bit_not_iff bit_power_u8 intro!: bm_update_bits split: if_splits)

lemma bm_toggle_spec:
  "i < bm_len bytes \<Longrightarrow> \<exists>b. bm_toggle bytes i = Some b \<and> bm_len b = bm_len bytes \<and> bits b = (bits bytes)(i := \<not> bits bytes i)"
  unfolding bm_toggle_def split_index_def
  by (auto simp: bm_len_iff bm_len_def bit_xor_iff bit_power_u8 bits_def intro!: bm_update_bits split: if_splits)

lemma bm_out_of_bounds:
  assumes "\<not> i < bm_len bytes"
  shows "bm_get bytes i = None" "bm_set bytes i = None" "bm_unset bytes i = None" "bm_toggle bytes i = None"
  using assms by (auto simp: bm_get_def bm_set_def bm_unset_def bm_toggle_def split_index_def bm_len_iff)

section \<open>Searching for a clear bit\<close>

declare first_zero_from.simps [simp del]

lemma first_zero_from_spec:
  assumes "limit \<le> bm_len bytes"
  shows "first_zero_from bytes i limit =
    Some (if \<exists>j. i \<le> j \<and> j < limit \<and> \<not> bits bytes j
          then Some (LEAST j. i \<le> j \<and> j < limit \<and> \<not> bits bytes j) else None)"
  using assms
proof (induction bytes i limit rule: first_zero_from.induct)
  case (1 bytes i limit)
  let ?P = "\<lambda>i j. i \<le> j \<and> j < limit \<and> \<not> bits bytes j"
  show ?case
  proof (cases "i < limit")
    case False
    then show ?thesis by (subst first_zero_from.simps) auto
  next
    case lt: True
    with "1.prems" have get: "bm_get bytes i = Some (bits bytes i)" by (simp add: bm_get_eq)
    show ?thesis
    proof (cases "bits bytes i")
      case False
      then have "(LEAST j. ?P i j) = i" using lt by (intro Least_equality) auto
      with False lt get show ?thesis by (subst first_zero_from.simps) auto
    next
      case True
      then have eq: "?P (Suc i) = ?P i" by (intro ext) (metis Suc_le_eq le_less)
      have "first_zero_from bytes i limit = first_zero_from bytes (Suc i) limit"
        using lt get True by (subst first_zero_from.simps) simp
      also have "\<dots> = Some (if \<exists>j. ?P (Suc i) j then Some (LEAST j. ?P (Suc i) j) else None)"
        using "1.IH" [OF lt get] True "1.prems" by simp
      finally show ?thesis unfolding eq .
    qed
  qed
qed

lemma first_zero_Some_Some:
  assumes "limit \<le> bm_len bytes"
  shows "first_zero bytes limit = Some (Some i) \<longleftrightarrow>
    i < limit \<and> \<not> bits bytes i \<and> (\<forall>j < i. bits bytes j)"
proof -
  let ?P = "\<lambda>j. j < limit \<and> \<not> bits bytes j"
  have eq: "first_zero bytes limit = Some (if \<exists>j. ?P j then Some (LEAST j. ?P j) else None)"
    unfolding first_zero_def first_zero_from_spec [OF assms] by simp
  show ?thesis
  proof
    assume "first_zero bytes limit = Some (Some i)"
    then have ex: "\<exists>j. ?P j" and i: "i = (LEAST j. ?P j)" unfolding eq by (auto split: if_splits)
    have pi: "?P i" unfolding i using ex by (rule LeastI_ex)
    have "bits bytes j" if "j < i" for j
      using not_less_Least [of j ?P] that pi i by auto
    with pi show "i < limit \<and> \<not> bits bytes i \<and> (\<forall>j < i. bits bytes j)" by blast
  next
    assume r: "i < limit \<and> \<not> bits bytes i \<and> (\<forall>j < i. bits bytes j)"
    then have "(LEAST j. ?P j) = i"
      by (intro Least_equality) (auto simp: not_less [symmetric])
    with r show "first_zero bytes limit = Some (Some i)" unfolding eq by auto
  qed
qed

lemma first_zero_Some_None:
  assumes "limit \<le> bm_len bytes"
  shows "first_zero bytes limit = Some None \<longleftrightarrow> (\<forall>j < limit. bits bytes j)"
  unfolding first_zero_def first_zero_from_spec [OF assms] by auto

section \<open>The interface bitmaps offer to their clients\<close>

locale bit_array =
  fixes get :: "'b \<Rightarrow> usize \<Rightarrow> bool option"
    and set_bit' :: "'b \<Rightarrow> usize \<Rightarrow> 'b option"
    and unset :: "'b \<Rightarrow> usize \<Rightarrow> 'b option"
    and toggle :: "'b \<Rightarrow> usize \<Rightarrow> 'b option"
    and first_clear :: "'b \<Rightarrow> usize \<Rightarrow> usize option option"
    and members :: "'b \<Rightarrow> usize \<Rightarrow> bool"
    and len :: "'b \<Rightarrow> usize"
  assumes get_eq: "get b i = (if i < len b then Some (members b i) else None)"
    and set_spec: "i < len b \<Longrightarrow> \<exists>c. set_bit' b i = Some c \<and> len c = len b \<and> members c = (members b)(i := True)"
    and unset_spec: "i < len b \<Longrightarrow> \<exists>c. unset b i = Some c \<and> len c = len b \<and> members c = (members b)(i := False)"
    and toggle_spec: "i < len b \<Longrightarrow> \<exists>c. toggle b i = Some c \<and> len c = len b \<and> members c = (members b)(i := \<not> members b i)"
    and first_clear_spec: "n \<le> len b \<Longrightarrow> first_clear b n = Some (Some i) \<longleftrightarrow> i < n \<and> \<not> members b i \<and> (\<forall>j < i. members b j)"
begin

text \<open>Claiming the first clear bit makes that bit, and no other, a member.\<close>

lemma claim_first:
  assumes "n \<le> len b" "\<exists>i < n. \<not> members b i"
  shows "\<exists>i c. first_clear b n = Some (Some i) \<and> i < n \<and> \<not> members b i \<and> set_bit' b i = Some c
    \<and> len c = len b \<and> members c = (members b)(i := True)"
proof -
  let ?i = "LEAST i. i < n \<and> \<not> members b i"
  have pi: "?i < n \<and> \<not> members b ?i" using assms(2) by (rule LeastI_ex)
  have "members b j" if "j < ?i" for j
  proof -
    have "\<not> (j < n \<and> \<not> members b j)" using that by (rule not_less_Least)
    with that pi show ?thesis by linarith
  qed
  with pi have "first_clear b n = Some (Some ?i)"
    by (subst first_clear_spec [OF assms(1)]) blast
  moreover have "?i < len b" using pi assms(1) by linarith
  then obtain c where "set_bit' b ?i = Some c" "len c = len b" "members c = (members b)(?i := True)"
    using set_spec by blast
  ultimately show ?thesis using pi by blast
qed

text \<open>Toggling twice restores the contents.\<close>

lemma toggle_toggle:
  assumes "i < len b" "toggle b i = Some c"
  shows "\<exists>d. toggle c i = Some d \<and> len d = len b \<and> members d = members b"
proof -
  from toggle_spec [OF assms(1)] assms(2)
  have l: "len c = len b" and m: "members c = (members b)(i := \<not> members b i)"
    by auto
  from l assms(1) have "i < len c" by simp
  then obtain d where d: "toggle c i = Some d" "len d = len c"
    "members d = (members c)(i := \<not> members c i)"
    using toggle_spec by blast
  have "members d = members b" unfolding d(3) m by simp
  with d l show ?thesis by simp
qed

end

interpretation bm: bit_array bm_get bm_set bm_unset bm_toggle first_zero bits bm_len
  by unfold_locales
    (rule bm_get_eq, erule bm_set_spec, erule bm_unset_spec, erule bm_toggle_spec, erule first_zero_Some_Some)

end
