(* ===== verification/Mm_Types.thy ===== *)
theory Mm_Types
  imports Bitmap
begin

text \<open>
  Addresses and page numbers (\<open>mm/types.rs\<close>), the address space layout (\<open>arch/x86_64/mm.rs\<close>, the paging
  constants of \<open>arch/x86_64/mmu.rs\<close>), the direct map (\<open>mm/physmap.rs\<close>) and the kernel image metadata
  (\<open>kimage.rs\<close>). The four address newtypes are transparent wrappers of \<open>usize\<close>; they are type
  synonyms here. The locale \<open>translate_phys\<close> is the contract of the trait \<open>TranslatePhys\<close>, through which the
  page table code reaches physical frames; it is interpreted for the direct map, the kernel image and
  the early identity map.
\<close>

section \<open>Paging constants\<close>

definition PAGE_SHIFT :: usize where "PAGE_SHIFT = 12"
definition PAGE_SIZE :: usize where "PAGE_SIZE = 2 ^ PAGE_SHIFT"
definition PT_LEVEL_COUNT :: usize where "PT_LEVEL_COUNT = 4"
definition PT_LEVEL_SHIFT :: usize where "PT_LEVEL_SHIFT = 9"
definition PT_ENTRY_COUNT :: usize where "PT_ENTRY_COUNT = 2 ^ PT_LEVEL_SHIFT"
definition PT_LEVEL_MASK :: usize where "PT_LEVEL_MASK = PT_ENTRY_COUNT - 1"

lemmas paging_consts = PAGE_SHIFT_def PAGE_SIZE_def PT_LEVEL_COUNT_def PT_LEVEL_SHIFT_def
  PT_ENTRY_COUNT_def PT_LEVEL_MASK_def

lemma PAGE_SIZE_eq: "PAGE_SIZE = 4096"
  by (simp add: paging_consts)

lemma PT_ENTRY_COUNT_eq: "PT_ENTRY_COUNT = 512"
  by (simp add: paging_consts)

section \<open>Flags and modes\<close>

text \<open>A \<open>bitflags\<close> value is its bit pattern; \<open>contains\<close> and \<open>set\<close> work on the masks of the source.\<close>

definition flag_contains :: "'a::len word \<Rightarrow> 'a word \<Rightarrow> bool" where
  "flag_contains x f \<longleftrightarrow> x AND f = f"

definition flag_set :: "'a::len word \<Rightarrow> 'a word \<Rightarrow> bool \<Rightarrow> 'a word" where
  "flag_set x f v = (if v then x OR f else x AND NOT f)"

definition PROT_READ :: u8 where "PROT_READ = push_bit 0 1"
definition PROT_WRITE :: u8 where "PROT_WRITE = push_bit 1 1"
definition PROT_EXECUTE :: u8 where "PROT_EXECUTE = push_bit 2 1"

lemmas prot_defs = PROT_READ_def PROT_WRITE_def PROT_EXECUTE_def

datatype cache_mode = Cached | WriteThrough | WriteCombining | Uncached

definition cache_mode_debug :: "cache_mode \<Rightarrow> string" where
  "cache_mode_debug m = (case m of Cached \<Rightarrow> ''C'' | WriteThrough \<Rightarrow> ''WT''
     | WriteCombining \<Rightarrow> ''WC'' | Uncached \<Rightarrow> ''UC'')"

datatype access_type = ReadAccess | WriteAccess | ExecuteAccess

datatype access_mode = UserMode | KernelMode

definition PERM_READ :: u8 where "PERM_READ = push_bit 0 1"
definition PERM_WRITE :: u8 where "PERM_WRITE = push_bit 1 1"
definition PERM_EXECUTE :: u8 where "PERM_EXECUTE = push_bit 2 1"
definition PERM_USER :: u8 where "PERM_USER = push_bit 3 1"
definition PERM_GLOBAL :: u8 where "PERM_GLOBAL = push_bit 4 1"

lemmas perm_defs = PERM_READ_def PERM_WRITE_def PERM_EXECUTE_def PERM_USER_def PERM_GLOBAL_def

definition write_flag :: "bool \<Rightarrow> char \<Rightarrow> string" where
  "write_flag flag name = [if flag then name else CHR ''-'']"

definition perms_debug :: "u8 \<Rightarrow> string" where
  "perms_debug p =
     write_flag (flag_contains p PERM_READ) (CHR ''r'') @
     write_flag (flag_contains p PERM_WRITE) (CHR ''w'') @
     write_flag (flag_contains p PERM_EXECUTE) (CHR ''x'') @
     write_flag (flag_contains p PERM_GLOBAL) (CHR ''g'') @
     write_flag (flag_contains p PERM_USER) (CHR ''u'')"

section \<open>Addresses and page numbers\<close>

type_synonym phys_addr = usize
type_synonym virt_addr = usize
type_synonym pfn = usize
type_synonym vpn = usize

definition frame_offset :: "phys_addr \<Rightarrow> usize" where
  "frame_offset a = a mod PAGE_SIZE"

definition containing_frame :: "phys_addr \<Rightarrow> pfn" where
  "containing_frame a = a div 2 ^ PAGE_SHIFT"

definition containing_tail_frame :: "phys_addr \<Rightarrow> pfn option" where
  "containing_tail_frame a = do { s \<leftarrow> uadd a PAGE_SIZE; t \<leftarrow> usub s 1; ushr t PAGE_SHIFT }"

definition page_offset :: "virt_addr \<Rightarrow> usize" where
  "page_offset a = a mod PAGE_SIZE"

definition containing_page :: "virt_addr \<Rightarrow> vpn" where
  "containing_page a = a div 2 ^ PAGE_SHIFT"

definition containing_tail_page :: "virt_addr \<Rightarrow> vpn option" where
  "containing_tail_page a = do { s \<leftarrow> uadd a PAGE_SIZE; t \<leftarrow> usub s 1; ushr t PAGE_SHIFT }"

text \<open>The shift in \<open>addr\<close> drops the bits above the width of a \<open>usize\<close>.\<close>

definition pfn_addr :: "pfn \<Rightarrow> phys_addr" where
  "pfn_addr p = (p * 2 ^ PAGE_SHIFT) mod USIZE_LIM"

definition vpn_addr :: "vpn \<Rightarrow> virt_addr" where
  "vpn_addr v = (v * 2 ^ PAGE_SHIFT) mod USIZE_LIM"

definition to_virt :: "phys_addr \<Rightarrow> (pfn \<Rightarrow> vpn option) \<Rightarrow> virt_addr option" where
  "to_virt a f = do { v \<leftarrow> f (containing_frame a); uadd (vpn_addr v) (frame_offset a) }"

definition to_phys :: "virt_addr \<Rightarrow> (vpn \<Rightarrow> pfn option) \<Rightarrow> phys_addr option" where
  "to_phys a f = do { p \<leftarrow> f (containing_page a); uadd (pfn_addr p) (page_offset a) }"

definition pt_index :: "vpn \<Rightarrow> usize \<Rightarrow> usize" where
  "pt_index v level = (v div 2 ^ (PT_LEVEL_SHIFT * level)) AND PT_LEVEL_MASK"

text \<open>The macro \<open>impl_arith_helpers\<close>: the operators of the four newtypes.\<close>

definition addr_align_down :: "usize \<Rightarrow> usize \<Rightarrow> usize option" where
  "addr_align_down a align = align_down a align"

definition addr_align_up :: "usize \<Rightarrow> usize \<Rightarrow> usize option" where
  "addr_align_up a align = align_up a align"

definition addr_checked_add :: "usize \<Rightarrow> usize \<Rightarrow> usize option" where
  "addr_checked_add a rhs = (if a + rhs < USIZE_LIM then Some (a + rhs) else None)"

section \<open>Layout of the address space\<close>

definition KERNEL_ASPACE_BASE :: vpn where "KERNEL_ASPACE_BASE = 0xFFFF800000000"
definition KERNEL_ASPACE_END :: vpn where "KERNEL_ASPACE_END = 0x10000000000000"
definition LOW_ASPACE_BASE :: vpn where "LOW_ASPACE_BASE = 0x200"
definition LOW_ASPACE_END :: vpn where "LOW_ASPACE_END = 0x800000000"
definition PHYS_MAP_BASE :: vpn where "PHYS_MAP_BASE = 0xFFFF800000000"
definition PHYS_MAP_MAX_PAGES :: usize where "PHYS_MAP_MAX_PAGES = 0x400000000"
definition EARLY_MAP_PT_PAGES :: usize where "EARLY_MAP_PT_PAGES = 10"
definition BOOTHEAP_EARLYMAP_MAX_PAGES :: usize where "BOOTHEAP_EARLYMAP_MAX_PAGES = 0x40000"
definition LOWMEM_LIMIT :: pfn where "LOWMEM_LIMIT = 0x100"
definition RESERVED_RANGES :: "(pfn \<times> pfn) list" where "RESERVED_RANGES = [(0, LOWMEM_LIMIT)]"

lemmas layout_consts = KERNEL_ASPACE_BASE_def KERNEL_ASPACE_END_def LOW_ASPACE_BASE_def
  LOW_ASPACE_END_def PHYS_MAP_BASE_def PHYS_MAP_MAX_PAGES_def

section \<open>The direct map of physical memory\<close>

definition pfn_to_physmap :: "pfn \<Rightarrow> vpn option" where
  "pfn_to_physmap p = uadd PHYS_MAP_BASE p"

definition paddr_to_physmap :: "phys_addr \<Rightarrow> virt_addr option" where
  "paddr_to_physmap a = to_virt a pfn_to_physmap"

definition physmap_to_pfn :: "vpn \<Rightarrow> pfn option" where
  "physmap_to_pfn v = do {
     e \<leftarrow> uadd PHYS_MAP_BASE PHYS_MAP_MAX_PAGES;
     uassert (PHYS_MAP_BASE \<le> v \<and> v < e);
     usub v PHYS_MAP_BASE }"

definition PhysmapPfnTranslator_translate :: "pfn \<Rightarrow> vpn option" where
  "PhysmapPfnTranslator_translate phys = pfn_to_physmap phys"

section \<open>Kernel image metadata\<close>

text \<open>The section symbols are set by the linker; \<open>kernel_phys\<close> is the static that \<open>init\<close> writes.\<close>

record kimage =
  kernel_phys :: pfn
  sym_virt_start :: virt_addr
  sym_virt_end :: virt_addr
  sym_code_start :: virt_addr
  sym_code_end :: virt_addr
  sym_rodata_start :: virt_addr
  sym_rodata_end :: virt_addr
  sym_data_start :: virt_addr
  sym_data_end :: virt_addr

definition kimage_init :: "phys_addr \<Rightarrow> kimage \<Rightarrow> kimage" where
  "kimage_init kernel_paddr k = k\<lparr>kernel_phys := containing_frame kernel_paddr\<rparr>"

definition phys_base :: "kimage \<Rightarrow> pfn" where
  "phys_base k = kernel_phys k"

definition virt_base :: "kimage \<Rightarrow> vpn" where
  "virt_base k = containing_page (sym_virt_start k)"

definition virt_end :: "kimage \<Rightarrow> vpn" where
  "virt_end k = containing_page (sym_virt_end k)"

definition total_pages :: "kimage \<Rightarrow> usize option" where
  "total_pages k = usub (virt_end k) (virt_base k)"

definition phys_end :: "kimage \<Rightarrow> pfn option" where
  "phys_end k = do { n \<leftarrow> total_pages k; uadd (phys_base k) n }"

definition contains_phys :: "kimage \<Rightarrow> pfn \<Rightarrow> bool option" where
  "contains_phys k p = do { e \<leftarrow> phys_end k; Some (phys_base k \<le> p \<and> p < e) }"

definition code_base :: "kimage \<Rightarrow> vpn" where
  "code_base k = containing_page (sym_code_start k)"
definition code_end :: "kimage \<Rightarrow> vpn" where
  "code_end k = containing_page (sym_code_end k)"
definition code_pages :: "kimage \<Rightarrow> usize option" where
  "code_pages k = usub (code_end k) (code_base k)"

definition rodata_base :: "kimage \<Rightarrow> vpn" where
  "rodata_base k = containing_page (sym_rodata_start k)"
definition rodata_end :: "kimage \<Rightarrow> vpn" where
  "rodata_end k = containing_page (sym_rodata_end k)"
definition rodata_pages :: "kimage \<Rightarrow> usize option" where
  "rodata_pages k = usub (rodata_end k) (rodata_base k)"

definition data_base :: "kimage \<Rightarrow> vpn" where
  "data_base k = containing_page (sym_data_start k)"
definition data_end :: "kimage \<Rightarrow> vpn" where
  "data_end k = containing_page (sym_data_end k)"
definition data_pages :: "kimage \<Rightarrow> usize option" where
  "data_pages k = usub (data_end k) (data_base k)"

definition vpn_from_kernel_pfn :: "kimage \<Rightarrow> pfn \<Rightarrow> vpn option" where
  "vpn_from_kernel_pfn k p = do {
     uassert (phys_base k \<le> p);
     n \<leftarrow> total_pages k;
     e \<leftarrow> uadd (phys_base k) n;
     uassert (p < e);
     d \<leftarrow> usub p (phys_base k);
     uadd (virt_base k) d }"

definition pfn_from_kernel_vpn :: "kimage \<Rightarrow> vpn \<Rightarrow> pfn option" where
  "pfn_from_kernel_vpn k v = do {
     uassert (virt_base k \<le> v);
     uassert (v < virt_end k);
     d \<leftarrow> usub v (virt_base k);
     uadd (phys_base k) d }"

definition KernelPfnTranslator_translate :: "kimage \<Rightarrow> pfn \<Rightarrow> vpn option" where
  "KernelPfnTranslator_translate k phys = vpn_from_kernel_pfn k phys"

definition EarlyMapPfnTranslator_translate :: "kimage \<Rightarrow> pfn \<times> pfn \<Rightarrow> pfn \<Rightarrow> vpn option" where
  "EarlyMapPfnTranslator_translate k rng phys = do {
     c \<leftarrow> contains_phys k phys;
     if c then vpn_from_kernel_pfn k phys
     else do { uassert (fst rng \<le> phys \<and> phys < snd rng); Some phys } }"

section \<open>Page arithmetic\<close>

lemma nat_and_mask: "(x::nat) AND (2 ^ n - 1) = x mod 2 ^ n"
proof -
  have "x AND mask n = take_bit n x" by (rule take_bit_eq_mask [symmetric])
  then show ?thesis by (simp only: mask_eq_exp_minus_1 take_bit_eq_mod)
qed

lemma pt_index_eq: "pt_index v level = v div 2 ^ (9 * level) mod 512"
  using nat_and_mask [of "v div 2 ^ (9 * level)" 9] by (simp add: pt_index_def paging_consts)

lemma pt_index_less: "pt_index v level < PT_ENTRY_COUNT"
  by (simp add: pt_index_eq PT_ENTRY_COUNT_eq)

lemma containing_frame_addr: "p * 4096 < USIZE_LIM \<Longrightarrow> containing_frame (pfn_addr p) = p"
  by (simp add: containing_frame_def pfn_addr_def PAGE_SHIFT_def)

lemma containing_page_addr: "v * 4096 < USIZE_LIM \<Longrightarrow> containing_page (vpn_addr v) = v"
  by (simp add: containing_page_def vpn_addr_def PAGE_SHIFT_def)

lemma page_offset_addr: "page_offset (vpn_addr v) = 0"
proof -
  have "(4096::nat) dvd USIZE_LIM" by (simp add: USIZE_LIM_def)
  then show ?thesis by (simp add: page_offset_def vpn_addr_def PAGE_SHIFT_def PAGE_SIZE_eq mod_mod_cancel)
qed

lemma addr_split:
  assumes "a < USIZE_LIM"
  shows "pfn_addr (containing_frame a) + frame_offset a = a" "frame_offset a < PAGE_SIZE"
proof -
  have "a div 4096 * 4096 \<le> a" by simp
  then have "a div 4096 * 4096 < USIZE_LIM" using assms by linarith
  then show "pfn_addr (containing_frame a) + frame_offset a = a"
    by (simp add: pfn_addr_def containing_frame_def frame_offset_def PAGE_SHIFT_def PAGE_SIZE_eq)
  show "frame_offset a < PAGE_SIZE" by (simp add: frame_offset_def PAGE_SIZE_eq)
qed

lemma containing_tail_frame_spec:
  assumes "containing_tail_frame a = Some r"
  shows "a \<le> r * PAGE_SIZE" "r * PAGE_SIZE < a + PAGE_SIZE"
  using assms by (auto simp: containing_tail_frame_def panic_simps PAGE_SHIFT_def PAGE_SIZE_eq)

lemma containing_tail_frame_Some:
  "a + PAGE_SIZE < USIZE_LIM \<Longrightarrow> containing_tail_frame a = Some ((a + PAGE_SIZE - 1) div PAGE_SIZE)"
  by (simp add: containing_tail_frame_def panic_simps PAGE_SHIFT_def PAGE_SIZE_eq)

text \<open>The direct map is an injective translation, and a round trip through it is the identity.\<close>

lemma pfn_to_physmap_Some: "p < PHYS_MAP_MAX_PAGES \<Longrightarrow> pfn_to_physmap p = Some (PHYS_MAP_BASE + p)"
  by (simp add: pfn_to_physmap_def panic_simps layout_consts USIZE_LIM_def)

lemma physmap_round_trip:
  assumes "p < PHYS_MAP_MAX_PAGES" "pfn_to_physmap p = Some v"
  shows "physmap_to_pfn v = Some p"
  using assms by (auto simp: pfn_to_physmap_Some physmap_to_pfn_def panic_simps layout_consts USIZE_LIM_def)

lemma physmap_to_pfn_inverse:
  assumes "physmap_to_pfn v = Some p"
  shows "p < PHYS_MAP_MAX_PAGES \<and> pfn_to_physmap p = Some v"
  using assms by (auto simp: pfn_to_physmap_def physmap_to_pfn_def panic_simps layout_consts USIZE_LIM_def)

lemma paddr_to_physmap_eq:
  assumes "a < PHYS_MAP_MAX_PAGES * PAGE_SIZE"
  shows "paddr_to_physmap a = Some (PHYS_MAP_BASE * PAGE_SIZE + a)"
proof -
  have p: "containing_frame a < PHYS_MAP_MAX_PAGES"
    using assms by (simp add: containing_frame_def PAGE_SHIFT_def PAGE_SIZE_eq div_less_iff_less_mult)
  have a: "a = containing_frame a * 4096 + frame_offset a" "frame_offset a < 4096"
    by (simp_all add: containing_frame_def frame_offset_def PAGE_SHIFT_def PAGE_SIZE_eq)
  have v: "vpn_addr (PHYS_MAP_BASE + containing_frame a) = PHYS_MAP_BASE * 4096 + containing_frame a * 4096"
    using p by (simp add: vpn_addr_def PAGE_SHIFT_def layout_consts USIZE_LIM_def)
  have "vpn_addr (PHYS_MAP_BASE + containing_frame a) + frame_offset a = PHYS_MAP_BASE * PAGE_SIZE + a"
    using v a(1) by (simp add: PAGE_SIZE_eq)
  moreover have "PHYS_MAP_BASE * PAGE_SIZE + a < USIZE_LIM"
    using assms by (simp add: layout_consts PAGE_SIZE_eq USIZE_LIM_def)
  ultimately show ?thesis
    using p by (simp add: paddr_to_physmap_def to_virt_def pfn_to_physmap_Some panic_simps)
qed

lemma kernel_pfn_round_trip:
  assumes "vpn_from_kernel_pfn k p = Some v"
  shows "pfn_from_kernel_vpn k v = Some p"
  using assms
  by (auto simp: vpn_from_kernel_pfn_def pfn_from_kernel_vpn_def total_pages_def panic_simps)

lemma kernel_vpn_round_trip:
  assumes "pfn_from_kernel_vpn k v = Some p" "v < USIZE_LIM" "phys_base k + (virt_end k - virt_base k) < USIZE_LIM"
  shows "vpn_from_kernel_pfn k p = Some v"
  using assms
  by (auto simp: vpn_from_kernel_pfn_def pfn_from_kernel_vpn_def total_pages_def panic_simps)

section \<open>The contract of \<open>TranslatePhys\<close>\<close>

text \<open>
  The page table code only needs that distinct frames are accessed at distinct virtual pages.
  \<open>accessible\<close> is the set of frames for which the translation does not panic.
\<close>

locale translate_phys =
  fixes translate :: "pfn \<Rightarrow> vpn option"
  assumes translate_inj: "translate p = Some v \<Longrightarrow> translate q = Some v \<Longrightarrow> p = q"
begin

definition accessible :: "pfn set" where
  "accessible = {p. translate p \<noteq> None}"

lemma translate_eq_iff: "p \<in> accessible \<Longrightarrow> translate p = translate q \<longleftrightarrow> p = q"
  using translate_inj by (auto simp: accessible_def)

end

interpretation physmap: translate_phys PhysmapPfnTranslator_translate
  by unfold_locales (auto simp: PhysmapPfnTranslator_translate_def pfn_to_physmap_def panic_simps)

interpretation kernel_image: translate_phys "KernelPfnTranslator_translate k" for k
  by unfold_locales
    (metis KernelPfnTranslator_translate_def kernel_pfn_round_trip option.inject)

lemma early_map_translate_phys:
  assumes "snd rng \<le> virt_base k"
  shows "translate_phys (EarlyMapPfnTranslator_translate k rng)"
proof
  fix p q v
  assume "EarlyMapPfnTranslator_translate k rng p = Some v" "EarlyMapPfnTranslator_translate k rng q = Some v"
  then show "p = q" using assms
    by (auto simp: EarlyMapPfnTranslator_translate_def vpn_from_kernel_pfn_def panic_simps split: if_splits)
qed

end
