(* ===== verification/Buddy.thy ===== *)
theory Buddy
  imports Mm_Types
begin

text \<open>
  The abstract buddy system that \<open>mm/pmm.rs\<close> implements: a state is a function \<open>F\<close> from orders to the
  sets of free blocks (by their base frame), and the free memory is the set \<open>pages F\<close> of frames the blocks
  cover. \<open>buddy_inv\<close> says that free blocks are aligned, lie below \<open>N\<close>, do not overlap and are
  maximally merged; the block structure is then determined by the set of free frames (\<open>canonical\<close>).
  The last section has the bit-level facts about buddies and parents.
\<close>

definition ORDER_COUNT :: usize where "ORDER_COUNT = 16"

definition blk :: "nat \<Rightarrow> nat \<Rightarrow> nat set" where
  "blk k p = {p..<p + 2 ^ k}"

definition buddy :: "nat \<Rightarrow> nat \<Rightarrow> nat" where
  "buddy k p = p XOR 2 ^ k"

definition parent :: "nat \<Rightarrow> nat \<Rightarrow> nat" where
  "parent k p = p div 2 ^ Suc k * 2 ^ Suc k"

definition pages :: "(nat \<Rightarrow> nat set) \<Rightarrow> nat set" where
  "pages F = (\<Union>k<ORDER_COUNT. \<Union>p\<in>F k. blk k p)"

definition buddy_inv :: "nat \<Rightarrow> (nat \<Rightarrow> nat set) \<Rightarrow> bool" where
  "buddy_inv N F \<longleftrightarrow>
     (\<forall>k<ORDER_COUNT. \<forall>p\<in>F k. 2 ^ k dvd p \<and> p + 2 ^ k \<le> N) \<and>
     (\<forall>k<ORDER_COUNT. \<forall>j<ORDER_COUNT. \<forall>p\<in>F k. \<forall>q\<in>F j. (k, p) \<noteq> (j, q) \<longrightarrow> blk k p \<inter> blk j q = {}) \<and>
     (\<forall>k<ORDER_COUNT - 1. \<forall>p\<in>F k. buddy k p \<notin> F k)"

text \<open>The split bit of a pair of buddies says whether exactly one of them is free.\<close>

definition split_ok :: "nat \<Rightarrow> (nat \<Rightarrow> nat set) \<Rightarrow> (nat \<Rightarrow> nat \<Rightarrow> bool) \<Rightarrow> bool" where
  "split_ok N F S \<longleftrightarrow>
     (\<forall>k<ORDER_COUNT - 1. \<forall>p<N. 2 ^ k dvd p \<longrightarrow> S k (p div 2 ^ Suc k) = ((p \<in> F k) \<noteq> (buddy k p \<in> F k)))"

section \<open>Buddies and parents\<close>

lemma xor_one_nat: "(a::nat) XOR 1 = (if even a then a + 1 else a - 1)"
  using xor_Suc_0_eq [of a] by auto

lemma buddy_mult: "buddy k (a * 2 ^ k) = (if even a then a + 1 else a - 1) * 2 ^ k"
proof -
  have "push_bit k a XOR push_bit k 1 = push_bit k (a XOR 1)" by (rule push_bit_xor [symmetric])
  then show ?thesis by (simp add: buddy_def push_bit_eq_mult xor_one_nat [simplified])
qed

lemma odd_mult_div: "0 < n \<Longrightarrow> (2 * a + 1) * n div (2 * n) = (a::nat)"
  by (simp only: div_mult_mult2)

lemma buddy_cases:
  assumes "2 ^ k dvd p"
  obtains (even) a where "p = 2 * a * 2 ^ k" "buddy k p = p + 2 ^ k" "parent k p = p"
    | (odd) a where "p = (2 * a + 1) * 2 ^ k" "buddy k p = p - 2 ^ k" "parent k p = p - 2 ^ k" "2 ^ k \<le> p"
proof -
  from assms obtain c where c: "p = c * 2 ^ k" by (metis dvdE mult.commute)
  show thesis
  proof (cases "even c")
    case True
    then obtain a where a: "c = 2 * a" by (elim evenE)
    have "parent k p = p" by (simp add: c a parent_def)
    then show thesis using True by (intro even [of a]) (simp_all add: c a buddy_mult)
  next
    case False
    then obtain a where a: "c = 2 * a + 1" by (elim oddE)
    have "parent k p = p - 2 ^ k"
      unfolding parent_def c a power_Suc by (subst odd_mult_div) simp_all
    moreover have "buddy k p = p - 2 ^ k" using buddy_mult [of k c] by (simp add: c a)
    ultimately show thesis by (intro odd [of a]) (simp_all add: c a)
  qed
qed

lemma buddy_aligned: "2 ^ k dvd p \<Longrightarrow> 2 ^ k dvd buddy k p"
  by (cases rule: buddy_cases) auto

lemma parent_aligned [simp]: "2 ^ Suc k dvd parent k p"
  by (simp add: parent_def)

lemma buddy_buddy [simp]: "buddy k (buddy k p) = p"
  by (simp add: buddy_def xor.assoc)

lemma buddy_neq: "buddy k p \<noteq> p"
proof
  assume "buddy k p = p"
  then have "p XOR buddy k p = 0" by simp
  then show False by (simp add: buddy_def xor.assoc [symmetric])
qed

lemma buddy_index:
  assumes "2 ^ k dvd p"
  shows "buddy k p div 2 ^ Suc k = p div 2 ^ Suc k"
  using assms
proof (cases rule: buddy_cases)
  case (even a)
  then have "buddy k p = (2 * a + 1) * 2 ^ k" by simp
  then have "buddy k p div 2 ^ Suc k = a" by (simp only: power_Suc) (rule odd_mult_div, simp)
  then show ?thesis using even(1) by simp
next
  case (odd a)
  then have "buddy k p = 2 * a * 2 ^ k" by simp
  moreover have "p div 2 ^ Suc k = a" unfolding odd(1) power_Suc by (rule odd_mult_div) simp
  ultimately show ?thesis by simp
qed

lemma parent_blk: "2 ^ k dvd p \<Longrightarrow> blk (Suc k) (parent k p) = blk k p \<union> blk k (buddy k p)"
  by (cases rule: buddy_cases) (auto simp: blk_def)

lemma buddy_blk_disjoint: "2 ^ k dvd p \<Longrightarrow> blk k p \<inter> blk k (buddy k p) = {}"
  by (cases rule: buddy_cases) (auto simp: blk_def)

lemma blk_nonempty [simp]: "p \<in> blk k p"
  by (simp add: blk_def)

lemma blk_bound: "0 < N \<Longrightarrow> blk k p \<subseteq> {..<N} \<longleftrightarrow> p + 2 ^ k \<le> N"
proof
  assume "blk k p \<subseteq> {..<N}"
  moreover have "p + 2 ^ k - 1 \<in> blk k p"
  proof -
    have "(1::nat) \<le> 2 ^ k" by simp
    then have "p \<le> p + 2 ^ k - 1" "p + 2 ^ k - 1 < p + 2 ^ k" by linarith+
    then show ?thesis unfolding blk_def by simp
  qed
  ultimately have "p + 2 ^ k - 1 < N" by blast
  then show "p + 2 ^ k \<le> N" by linarith
qed (auto simp: blk_def)

lemma blk_nested:
  assumes "k \<le> j" "2 ^ k dvd p" "2 ^ j dvd q" "blk k p \<inter> blk j q \<noteq> {}"
  shows "blk k p \<subseteq> blk j q"
proof -
  from assms(4) obtain x where "x \<in> blk k p" "x \<in> blk j q" by blast
  then have "q < p + 2 ^ k" "p < q + 2 ^ j" by (auto simp: blk_def)
  then have "q \<le> p \<and> p + 2 ^ k \<le> q + 2 ^ j"
    using assms two_power_dvd_power [OF assms(1)] by (intro aligned_nested) auto
  then show ?thesis by (auto simp: blk_def)
qed

lemma same_index_cases:
  assumes "2 ^ k dvd p" "2 ^ k dvd q" "p div 2 ^ Suc k = q div 2 ^ Suc k"
  shows "q = p \<or> q = buddy k p"
proof -
  have par: "parent k q = parent k p" using assms(3) by (simp add: parent_def)
  from assms(1) show ?thesis
  proof (cases rule: buddy_cases)
    case p: (even a)
    from assms(2) show ?thesis by (cases rule: buddy_cases) (use p par in auto)
  next
    case p: (odd a)
    from assms(2) show ?thesis by (cases rule: buddy_cases) (use p par in auto)
  qed
qed

section \<open>Taking a free block and adding a free block\<close>

lemma buddy_invD:
  assumes "buddy_inv N F" "k < ORDER_COUNT" "p \<in> F k"
  shows "2 ^ k dvd p" "p + 2 ^ k \<le> N"
  using assms by (auto simp: buddy_inv_def)

lemma buddy_inv_disjoint:
  "buddy_inv N F \<Longrightarrow> k < ORDER_COUNT \<Longrightarrow> j < ORDER_COUNT \<Longrightarrow> p \<in> F k \<Longrightarrow> q \<in> F j \<Longrightarrow>
    blk k p \<inter> blk j q \<noteq> {} \<Longrightarrow> k = j \<and> p = q"
  unfolding buddy_inv_def by blast

lemma buddy_inv_merged:
  "buddy_inv N F \<Longrightarrow> k < ORDER_COUNT - 1 \<Longrightarrow> p \<in> F k \<Longrightarrow> buddy k p \<notin> F k"
  by (auto simp: buddy_inv_def)

lemma pages_remove:
  assumes "buddy_inv N F" "k < ORDER_COUNT" "p \<in> F k"
  shows "pages (F(k := F k - {p})) = pages F - blk k p"
proof -
  have "x \<in> pages (F(k := F k - {p})) \<longleftrightarrow> x \<in> pages F - blk k p" for x
  proof
    assume "x \<in> pages (F(k := F k - {p}))"
    then obtain j q where jq: "j < ORDER_COUNT" "q \<in> (F(k := F k - {p})) j" "x \<in> blk j q"
      by (auto simp: pages_def)
    then have "q \<in> F j" and ne: "\<not> (j = k \<and> q = p)" by (auto split: if_splits)
    then have "x \<notin> blk k p"
      using buddy_inv_disjoint [OF assms(1) jq(1) assms(2) _ assms(3)] jq(3) by auto
    with jq \<open>q \<in> F j\<close> show "x \<in> pages F - blk k p" by (auto simp: pages_def)
  next
    assume "x \<in> pages F - blk k p"
    then obtain j q where jq: "j < ORDER_COUNT" "q \<in> F j" "x \<in> blk j q" "x \<notin> blk k p"
      by (auto simp: pages_def)
    then have "q \<in> (F(k := F k - {p})) j" by auto
    with jq show "x \<in> pages (F(k := F k - {p}))" unfolding pages_def by blast
  qed
  then show ?thesis by blast
qed

lemma buddy_inv_remove:
  assumes "buddy_inv N F"
  shows "buddy_inv N (F(k := F k - {p}))"
  using assms by (auto simp: buddy_inv_def split: if_splits)

lemma pages_insert:
  assumes "k < ORDER_COUNT"
  shows "pages (F(k := insert p (F k))) = pages F \<union> blk k p"
proof (intro equalityI subsetI)
  fix x assume "x \<in> pages (F(k := insert p (F k)))"
  then obtain j q where jq: "j < ORDER_COUNT" "q \<in> (F(k := insert p (F k))) j" "x \<in> blk j q"
    by (auto simp: pages_def)
  then have "q \<in> F j \<or> j = k \<and> q = p" by (auto split: if_splits)
  with jq show "x \<in> pages F \<union> blk k p" unfolding pages_def by blast
next
  fix x assume "x \<in> pages F \<union> blk k p"
  then obtain j q where jq: "j < ORDER_COUNT" "x \<in> blk j q" "q \<in> F j \<or> j = k \<and> q = p"
    using assms unfolding pages_def by blast
  then have "q \<in> (F(k := insert p (F k))) j" by auto
  with jq show "x \<in> pages (F(k := insert p (F k)))" unfolding pages_def by blast
qed

lemma buddy_inv_insert:
  assumes inv: "buddy_inv N F" and k: "k < ORDER_COUNT" and al: "2 ^ k dvd p" "p + 2 ^ k \<le> N"
    and fresh: "blk k p \<inter> pages F = {}" and unmerged: "k < ORDER_COUNT - 1 \<Longrightarrow> buddy k p \<notin> F k"
  shows "buddy_inv N (F(k := insert p (F k)))"
proof -
  let ?G = "F(k := insert p (F k))"
  have out: "blk j q \<inter> blk k p = {}" if "j < ORDER_COUNT" "q \<in> F j" for j q
    using fresh that by (auto simp: pages_def)
  have "\<forall>i<ORDER_COUNT. \<forall>q\<in>?G i. 2 ^ i dvd q \<and> q + 2 ^ i \<le> N"
    using inv al by (auto simp: buddy_inv_def)
  moreover have "blk i a \<inter> blk j b = {}"
    if "i < ORDER_COUNT" "j < ORDER_COUNT" "a \<in> ?G i" "b \<in> ?G j" "(i, a) \<noteq> (j, b)" for i j a b
  proof -
    from that(3) have "a \<in> F i \<or> i = k \<and> a = p" by (auto split: if_splits)
    moreover from that(4) have "b \<in> F j \<or> j = k \<and> b = p" by (auto split: if_splits)
    ultimately show ?thesis
      using that out [of i a] out [of j b] buddy_inv_disjoint [OF inv that(1,2), of a b] by blast
  qed
  moreover have "buddy i q \<notin> ?G i" if "i < ORDER_COUNT - 1" "q \<in> ?G i" for i q
    using that inv unmerged buddy_neq [of i q] buddy_neq [of k p] buddy_buddy [of k q]
    by (auto simp: buddy_inv_def split: if_splits)
  ultimately show ?thesis unfolding buddy_inv_def by blast
qed

text \<open>Each change of membership is matched by one toggle of the split bit.\<close>

definition toggle_split :: "(nat \<Rightarrow> nat \<Rightarrow> bool) \<Rightarrow> nat \<Rightarrow> nat \<Rightarrow> nat \<Rightarrow> nat \<Rightarrow> bool" where
  "toggle_split S k p = S(k := (S k)(p div 2 ^ Suc k := \<not> S k (p div 2 ^ Suc k)))"

lemma split_ok_toggle:
  assumes "split_ok N F S" "2 ^ k dvd p" "\<And>q. q \<noteq> p \<Longrightarrow> (q \<in> X) = (q \<in> F k)" "(p \<in> X) \<noteq> (p \<in> F k)"
  shows "split_ok N (F(k := X)) (toggle_split S k p)"
  unfolding split_ok_def
proof (intro allI impI)
  fix j q
  assume j: "j < ORDER_COUNT - 1" and q: "q < N" "2 ^ j dvd q"
  then have old: "S j (q div 2 ^ Suc j) = ((q \<in> F j) \<noteq> (buddy j q \<in> F j))"
    using assms(1) by (auto simp: split_ok_def)
  show "toggle_split S k p j (q div 2 ^ Suc j) = ((q \<in> (F(k := X)) j) \<noteq> (buddy j q \<in> (F(k := X)) j))"
  proof (cases "j = k \<and> q div 2 ^ Suc k = p div 2 ^ Suc k")
    case True
    then consider "q = p" | "q = buddy k p" using same_index_cases assms(2) q by metis
    then show ?thesis
    proof cases
      case 1
      then show ?thesis using True old assms(3) [of "buddy k p"] assms(4) buddy_neq [of k p]
        by (auto simp: toggle_split_def)
    next
      case 2
      then show ?thesis using True old assms(3) [of "buddy k p"] assms(4) buddy_neq [of k p]
        by (auto simp: toggle_split_def)
    qed
  next
    case False
    have "j = k \<Longrightarrow> q \<noteq> p \<and> buddy k q \<noteq> p"
      using False buddy_index [of k q] q by auto
    then show ?thesis using False old assms(3) by (auto simp: toggle_split_def)
  qed
qed

section \<open>The free frames determine the blocks\<close>

lemma covering_block:
  assumes inv: "buddy_inv N F"
  shows "k < ORDER_COUNT \<Longrightarrow> 2 ^ k dvd p \<Longrightarrow> blk k p \<subseteq> pages F \<Longrightarrow>
    \<exists>j q. k \<le> j \<and> j < ORDER_COUNT \<and> q \<in> F j \<and> blk k p \<subseteq> blk j q"
proof (induction k arbitrary: p)
  case 0
  then have "p \<in> pages F" by auto
  then show ?case by (auto simp: pages_def blk_def)
next
  case (Suc k)
  have al: "2 ^ k dvd p" using Suc.prems(2) by (rule dvd_trans [rotated]) simp
  then have bal: "2 ^ k dvd buddy k p" by (rule buddy_aligned)
  have "p mod 2 ^ Suc k = 0" using Suc.prems(2) by presburger
  then have par: "parent k p = p" by (simp add: parent_def minus_mod_eq_div_mult [symmetric])
  have halves: "blk (Suc k) p = blk k p \<union> blk k (buddy k p)" using parent_blk [OF al] par by simp
  obtain j q where jq: "k \<le> j" "j < ORDER_COUNT" "q \<in> F j" "blk k p \<subseteq> blk j q"
    using Suc.IH [of p] Suc.prems halves al by auto
  obtain i r where ir: "k \<le> i" "i < ORDER_COUNT" "r \<in> F i" "blk k (buddy k p) \<subseteq> blk i r"
    using Suc.IH [of "buddy k p"] Suc.prems halves bal by auto
  have whole: "blk (Suc k) p \<subseteq> blk l s" if "Suc k \<le> l" "l < ORDER_COUNT" "s \<in> F l" "blk (Suc k) p \<inter> blk l s \<noteq> {}" for l s
    using blk_nested [OF that(1) Suc.prems(2) _ that(4)] buddy_invD(1) [OF inv that(2,3)] by blast
  show ?case
  proof (cases "j = k \<and> i = k")
    case False
    then consider "Suc k \<le> j" | "Suc k \<le> i" using jq(1) ir(1) by linarith
    then show ?thesis
    proof cases
      case 1
      then show ?thesis using whole [of j q] jq halves blk_nonempty [of p k] by blast
    next
      case 2
      then show ?thesis using whole [of i r] ir halves blk_nonempty [of "buddy k p" k] by blast
    qed
  next
    case True
    have "q = p" using jq True blk_nested [of k k q p] buddy_invD(1) [OF inv jq(2,3)] al
      by (metis aligned_block_le atLeastLessThan_iff blk_def blk_nonempty le_antisym subsetD)
    moreover have "r = buddy k p" using ir True buddy_invD(1) [OF inv ir(2,3)] bal
      by (metis aligned_block_le atLeastLessThan_iff blk_def blk_nonempty le_antisym subsetD)
    ultimately show ?thesis using buddy_inv_merged [OF inv, of k p] jq ir True Suc.prems(1) by auto
  qed
qed

text \<open>An aligned block is available exactly when some free block of its order or above exists around it.\<close>

lemma canonical:
  assumes inv: "buddy_inv N F" and k: "k < ORDER_COUNT"
  shows "p \<in> F k \<longleftrightarrow> 2 ^ k dvd p \<and> blk k p \<subseteq> pages F \<and>
    (k = ORDER_COUNT - 1 \<or> \<not> blk (Suc k) (parent k p) \<subseteq> pages F)"
proof
  assume p: "p \<in> F k"
  have sub: "blk k p \<subseteq> pages F" using p k by (auto simp: pages_def)
  have "False" if big: "blk (Suc k) (parent k p) \<subseteq> pages F" and lt: "k \<noteq> ORDER_COUNT - 1"
  proof -
    have "Suc k < ORDER_COUNT" using lt k by (simp add: ORDER_COUNT_def)
    then obtain j q where jq: "Suc k \<le> j" "j < ORDER_COUNT" "q \<in> F j" "blk (Suc k) (parent k p) \<subseteq> blk j q"
      using covering_block [OF inv _ parent_aligned big] by blast
    have "p \<in> blk j q" using jq(4) parent_blk [OF buddy_invD(1) [OF inv k p]] by auto
    then have "blk k p \<inter> blk j q \<noteq> {}" using blk_nonempty by blast
    then show False using buddy_inv_disjoint [OF inv k jq(2) p jq(3)] jq(1) by simp
  qed
  then show "2 ^ k dvd p \<and> blk k p \<subseteq> pages F \<and> (k = ORDER_COUNT - 1 \<or> \<not> blk (Suc k) (parent k p) \<subseteq> pages F)"
    using sub buddy_invD(1) [OF inv k p] by blast
next
  assume r: "2 ^ k dvd p \<and> blk k p \<subseteq> pages F \<and> (k = ORDER_COUNT - 1 \<or> \<not> blk (Suc k) (parent k p) \<subseteq> pages F)"
  then obtain j q where jq: "k \<le> j" "j < ORDER_COUNT" "q \<in> F j" "blk k p \<subseteq> blk j q"
    using covering_block [OF inv k] by blast
  have jpages: "blk j q \<subseteq> pages F" using jq by (auto simp: pages_def)
  have "j = k"
  proof (rule ccontr)
    assume "j \<noteq> k"
    then have "Suc k \<le> j" using jq(1) by simp
    moreover have "blk (Suc k) (parent k p) \<inter> blk j q \<noteq> {}"
      using jq(4) parent_blk [of k p] r blk_nonempty [of p k] by blast
    ultimately have "blk (Suc k) (parent k p) \<subseteq> blk j q"
      using blk_nested [OF _ parent_aligned] buddy_invD(1) [OF inv jq(2,3)] by blast
    with jpages r have "k = ORDER_COUNT - 1" by blast
    with \<open>Suc k \<le> j\<close> jq(2) show False by simp
  qed
  moreover have "q = p"
    using jq \<open>j = k\<close> r buddy_invD(1) [OF inv jq(2,3)]
    by (metis aligned_block_le atLeastLessThan_iff blk_def blk_nonempty le_antisym subsetD)
  ultimately show "p \<in> F k" using jq(3) by simp
qed

end
