(* ===== verification/Intrusive_List.thy ===== *)
theory Intrusive_List
  imports Prelude
begin

text \<open>
  The intrusive doubly linked list of the crate \<open>intrusive_collections\<close>, which is not part of the repository.
  The kernel links free page frames, slabs and threads through it. Its operations are a record
  that the models take as an argument, and its documented behaviour is the locale \<open>intrusive_list\<close>, over an
  abstraction \<open>elems\<close> to the sequence of linked elements. Two laws are conditional because the crate's
  are: inserting needs an element that is not linked, and removing through a pointer needs an
  element that is. A client that breaks either condition can prove nothing about the result.
\<close>

record ('a, 'l) ll_ops =
  ll_new :: 'l
  ll_push_front :: "'a \<Rightarrow> 'l \<Rightarrow> 'l"
  ll_push_back :: "'a \<Rightarrow> 'l \<Rightarrow> 'l"
  ll_pop_front :: "'l \<Rightarrow> ('a \<times> 'l) option"
  ll_remove :: "'a \<Rightarrow> 'l \<Rightarrow> 'l"

locale intrusive_list =
  fixes L :: "('a, 'l) ll_ops"
    and elems :: "'l \<Rightarrow> 'a list"
  assumes elems_new: "elems (ll_new L) = []"
    and elems_push_front: "x \<notin> set (elems l) \<Longrightarrow> elems (ll_push_front L x l) = x # elems l"
    and elems_push_back: "x \<notin> set (elems l) \<Longrightarrow> elems (ll_push_back L x l) = elems l @ [x]"
    and pop_front_None: "ll_pop_front L l = None \<longleftrightarrow> elems l = []"
    and pop_front_Some: "ll_pop_front L l = Some (x, l') \<Longrightarrow> elems l = x # elems l'"
    and elems_remove: "x \<in> set (elems l) \<Longrightarrow> elems (ll_remove L x l) = remove1 x (elems l)"
begin

lemma pop_front_Cons:
  assumes "elems l = x # xs"
  obtains l' where "ll_pop_front L l = Some (x, l')" "elems l' = xs"
proof (cases "ll_pop_front L l")
  case None
  then show thesis using assms by (simp add: pop_front_None)
next
  case (Some r)
  obtain y l' where r: "r = (y, l')" by (cases r)
  with Some have "elems l = y # elems l'" by (simp add: pop_front_Some)
  with assms Some r that show thesis by simp
qed

lemma push_then_pop:
  assumes "x \<notin> set (elems l)"
  obtains l' where "ll_pop_front L (ll_push_front L x l) = Some (x, l')" "elems l' = elems l"
  using pop_front_Cons elems_push_front [OF assms] by metis

end

text \<open>The sequence of elements itself satisfies the laws.\<close>

definition seq_list :: "('a, 'a list) ll_ops" where
  "seq_list = \<lparr>ll_new = [], ll_push_front = (#), ll_push_back = (\<lambda>x l. l @ [x]),
     ll_pop_front = (\<lambda>l. case l of [] \<Rightarrow> None | x # xs \<Rightarrow> Some (x, xs)), ll_remove = remove1\<rparr>"

interpretation seq_ll: intrusive_list seq_list "\<lambda>l. l"
  by unfold_locales (auto simp: seq_list_def split: list.splits)

end
