(* ===== verification/Boot_Heap.thy ===== *)
theory Boot_Heap
  imports Mm_Types
begin

text \<open>
  The two allocators that exist before the frame allocator (\<open>mm/early.rs\<close>): the boot heap, a bump allocator over
  a physical range, and the bump allocator of page table frames inside the kernel image. The
  locale \<open>page_table_alloc\<close> is the contract of the trait \<open>PageTableAlloc\<close>: an allocator hands out a frame of
  its pool at most once.
\<close>

section \<open>Allocation layouts of \<open>core\<close>\<close>

record layout =
  lay_size :: usize
  lay_align :: usize

text \<open>\<open>Layout::from_size_align\<close>: the alignment is a power of two and the padded size fits an \<open>isize\<close>.\<close>

definition is_pow2 :: "usize \<Rightarrow> bool" where
  "is_pow2 a \<longleftrightarrow> a \<noteq> 0 \<and> a AND (a - 1) = 0"

definition layout_from_size_align :: "usize \<Rightarrow> usize \<Rightarrow> layout option" where
  "layout_from_size_align sz al =
     (if is_pow2 al \<and> sz \<le> 2 ^ 63 - al then Some \<lparr>lay_size = sz, lay_align = al\<rparr> else None)"

section \<open>The boot heap\<close>

record boot_heap =
  bh_base :: phys_addr
  bh_cur :: phys_addr
  bh_end :: phys_addr

definition boot_heap_new :: "phys_addr \<times> phys_addr \<Rightarrow> boot_heap" where
  "boot_heap_new rng = \<lparr>bh_base = fst rng, bh_cur = fst rng, bh_end = snd rng\<rparr>"

definition boot_heap_range :: "boot_heap \<Rightarrow> phys_addr \<times> phys_addr" where
  "boot_heap_range h = (bh_base h, bh_end h)"

definition boot_heap_used_range :: "boot_heap \<Rightarrow> phys_addr \<times> phys_addr" where
  "boot_heap_used_range h = (bh_base h, bh_cur h)"

definition alloc_phys :: "boot_heap \<Rightarrow> layout \<Rightarrow> (phys_addr \<times> boot_heap) option" where
  "alloc_phys h lay = do {
     base \<leftarrow> addr_align_up (bh_cur h) (lay_align lay);
     if base > bh_end h \<or> lay_size lay > bh_end h - base then None
     else do { cur \<leftarrow> uadd base (lay_size lay); Some (base, h\<lparr>bh_cur := cur\<rparr>) } }"

text \<open>A \<open>PageTableSpace\<close> is one page, aligned to a page.\<close>

definition page_table_layout :: layout where
  "page_table_layout = \<lparr>lay_size = 0x1000, lay_align = 0x1000\<rparr>"

definition boot_heap_allocate :: "boot_heap \<Rightarrow> (boot_heap \<times> pfn result) option" where
  "boot_heap_allocate h = do {
     (a, h') \<leftarrow> alloc_phys h page_table_layout;
     Some (h', Inr (containing_frame a)) }"

section \<open>The allocator of early page tables\<close>

record bump_pt_alloc =
  bp_cur :: pfn
  bp_end :: pfn

definition bump_allocate :: "bump_pt_alloc \<Rightarrow> (bump_pt_alloc \<times> pfn result) option" where
  "bump_allocate b =
     (if bp_cur b \<ge> bp_end b then Some (b, Inl OUT_OF_MEMORY)
      else do { c \<leftarrow> uadd (bp_cur b) 1; Some (b\<lparr>bp_cur := c\<rparr>, Inr (bp_cur b)) })"

section \<open>Every allocation is fresh\<close>

lemma alloc_phys_Some:
  assumes "alloc_phys h lay = Some (a, h')"
  shows "lay_align lay dvd a" "bh_cur h \<le> a" "a + lay_size lay = bh_cur h'" "bh_cur h' \<le> bh_end h"
    "bh_base h' = bh_base h" "bh_end h' = bh_end h"
proof -
  from assms have up: "align_up (bh_cur h) (lay_align lay) = Some a"
    and r: "a \<le> bh_end h" "lay_size lay \<le> bh_end h - a" "h' = h\<lparr>bh_cur := a + lay_size lay\<rparr>"
    by (auto simp: alloc_phys_def addr_align_up_def panic_simps split: if_splits)
  show "lay_align lay dvd a" "bh_cur h \<le> a" using align_up_spec(1,2) [OF up] by auto
  show "a + lay_size lay = bh_cur h'" "bh_cur h' \<le> bh_end h" "bh_base h' = bh_base h" "bh_end h' = bh_end h"
    using r by auto
qed

text \<open>
  The boot heap panics only when the padded request does not fit: the bump pointer never leaves the range, and
  successive allocations do not overlap.
\<close>

lemma alloc_phys_returns:
  assumes "bh_end h + lay_align lay < USIZE_LIM" "0 < lay_align lay" "bh_cur h \<le> bh_end h"
    and "align_up (bh_cur h) (lay_align lay) = Some a"
  shows "alloc_phys h lay \<noteq> None \<longleftrightarrow> a + lay_size lay \<le> bh_end h"
  using assms by (auto simp: alloc_phys_def addr_align_up_def panic_simps uadd_def)

lemma boot_heap_allocate_Some:
  assumes "boot_heap_allocate h = Some (h', r)"
  obtains p where "r = Inr p" "p * PAGE_SIZE + PAGE_SIZE = bh_cur h'" "bh_cur h \<le> p * PAGE_SIZE"
    "bh_cur h' \<le> bh_end h" "bh_end h' = bh_end h"
proof -
  from assms obtain a where a: "alloc_phys h page_table_layout = Some (a, h')" "r = Inr (containing_frame a)"
    by (auto simp: boot_heap_allocate_def panic_simps)
  note al = alloc_phys_Some [OF a(1), unfolded page_table_layout_def, simplified]
  have "containing_frame a * PAGE_SIZE = a"
    using al(1) by (auto simp: containing_frame_def PAGE_SHIFT_def PAGE_SIZE_eq)
  then show thesis using that [OF a(2)] al by (simp add: PAGE_SIZE_eq)
qed

section \<open>The contract of \<open>PageTableAlloc\<close>\<close>

locale page_table_alloc =
  fixes allocate :: "'a \<Rightarrow> ('a \<times> pfn result) option"
    and ok :: "'a \<Rightarrow> bool"
    and pool :: "'a \<Rightarrow> pfn set"
  assumes allocate_Inr: "ok s \<Longrightarrow> allocate s = Some (s', Inr p) \<Longrightarrow> p \<in> pool s \<and> pool s' \<subseteq> pool s - {p}"
    and allocate_Inl: "ok s \<Longrightarrow> allocate s = Some (s', Inl e) \<Longrightarrow> pool s' \<subseteq> pool s"
    and allocate_ok: "ok s \<Longrightarrow> allocate s = Some (s', r) \<Longrightarrow> ok s'"
begin

lemma pool_shrinks: "ok s \<Longrightarrow> allocate s = Some (s', r) \<Longrightarrow> pool s' \<subseteq> pool s"
  by (cases r) (use allocate_Inr allocate_Inl in blast)+

text \<open>Two successive allocations never return the same frame.\<close>

lemma allocate_distinct:
  assumes "ok s" "allocate s = Some (s', Inr p)" "allocate s' = Some (s'', Inr q)"
  shows "p \<noteq> q"
  using allocate_Inr [OF assms(1,2)] allocate_Inr [OF allocate_ok [OF assms(1,2)] assms(3)] by blast

end

definition boot_heap_pool :: "boot_heap \<Rightarrow> pfn set" where
  "boot_heap_pool h = {p. bh_cur h \<le> p * PAGE_SIZE \<and> p * PAGE_SIZE + PAGE_SIZE \<le> bh_end h}"

definition bump_pool :: "bump_pt_alloc \<Rightarrow> pfn set" where
  "bump_pool b = {bp_cur b..<bp_end b}"

interpretation boot_heap_pt: page_table_alloc boot_heap_allocate "\<lambda>_. True" boot_heap_pool
proof
  fix s s' :: boot_heap and p
  assume "boot_heap_allocate s = Some (s', Inr p)"
  then obtain q where q: "Inr p = (Inr q :: pfn result)" "q * PAGE_SIZE + PAGE_SIZE = bh_cur s'"
    "bh_cur s \<le> q * PAGE_SIZE" "bh_cur s' \<le> bh_end s" "bh_end s' = bh_end s"
    by (rule boot_heap_allocate_Some)
  have "x * PAGE_SIZE \<noteq> p * PAGE_SIZE" if "q * PAGE_SIZE + PAGE_SIZE \<le> x * PAGE_SIZE" for x
    using that q(1) by (simp add: PAGE_SIZE_eq)
  then show "p \<in> boot_heap_pool s \<and> boot_heap_pool s' \<subseteq> boot_heap_pool s - {p}"
    using q by (auto simp: boot_heap_pool_def)
next
  fix s s' :: boot_heap and e :: error
  assume "boot_heap_allocate s = Some (s', Inl e)"
  then show "boot_heap_pool s' \<subseteq> boot_heap_pool s"
    by (auto simp: boot_heap_allocate_def panic_simps)
qed simp

interpretation bump_pt: page_table_alloc bump_allocate "\<lambda>_. True" bump_pool
  by unfold_locales (auto simp: bump_allocate_def bump_pool_def panic_simps split: if_splits)

end
