(* ===== verification/Pmm.thy ===== *)
theory Pmm
  imports Buddy Intrusive_List Boot_Heap
begin

text \<open>
  The physical frame allocator \<open>mm/pmm.rs\<close>. A free block is represented in memory by a list node at
  its address in the direct map, so the free lists hold those addresses; the split maps are the
  bitmaps of \<open>Bitmap\<close>. \<open>pmm_inv\<close> relates the representation to the abstract buddy system of
  \<open>Buddy\<close>. Under it no operation panics, \<open>allocate\<close> removes one aligned block from the set of free frames and
  fails only when there is none, and \<open>deallocate\<close> adds a block and merges it as far as possible.
\<close>

section \<open>Free blocks as list nodes\<close>

definition free_link_from_pfn :: "pfn \<Rightarrow> virt_addr option" where
  "free_link_from_pfn p = do { v \<leftarrow> pfn_to_physmap p; Some (vpn_addr v) }"

definition pfn_from_free_link :: "virt_addr \<Rightarrow> pfn option" where
  "pfn_from_free_link link = do {
     uassert (page_offset link = 0);
     physmap_to_pfn (containing_page link) }"

section \<open>One order of the buddy system\<close>

record 'l buddy_level =
  free_list :: 'l
  free_blocks :: usize
  splitmap :: bitmap

definition bl_toggle_parent_split :: "'l buddy_level \<Rightarrow> usize \<Rightarrow> 'l buddy_level option" where
  "bl_toggle_parent_split lv index = do {
     s \<leftarrow> bm_toggle (splitmap lv) index; Some (lv\<lparr>splitmap := s\<rparr>) }"

definition bl_is_parent_split :: "'l buddy_level \<Rightarrow> usize \<Rightarrow> bool option" where
  "bl_is_parent_split lv index = bm_get (splitmap lv) index"

definition push_free :: "(virt_addr, 'l) ll_ops \<Rightarrow> 'l buddy_level \<Rightarrow> pfn \<Rightarrow> 'l buddy_level option" where
  "push_free L lv p = do {
     link \<leftarrow> free_link_from_pfn p;
     n \<leftarrow> uadd (free_blocks lv) 1;
     Some (lv\<lparr>free_list := ll_push_front L link (free_list lv), free_blocks := n\<rparr>) }"

definition remove_free :: "(virt_addr, 'l) ll_ops \<Rightarrow> 'l buddy_level \<Rightarrow> pfn \<Rightarrow> 'l buddy_level option" where
  "remove_free L lv p = do {
     link \<leftarrow> free_link_from_pfn p;
     n \<leftarrow> usub (free_blocks lv) 1;
     Some (lv\<lparr>free_list := ll_remove L link (free_list lv), free_blocks := n\<rparr>) }"

definition pop_free :: "(virt_addr, 'l) ll_ops \<Rightarrow> 'l buddy_level \<Rightarrow> (pfn option \<times> 'l buddy_level) option" where
  "pop_free L lv =
     (case ll_pop_front L (free_list lv) of
        None \<Rightarrow> Some (None, lv)
      | Some (link, l) \<Rightarrow> do {
          n \<leftarrow> usub (free_blocks lv) 1;
          p \<leftarrow> pfn_from_free_link link;
          Some (Some p, lv\<lparr>free_list := l, free_blocks := n\<rparr>) })"

section \<open>The manager\<close>

record 'l phys_manager =
  pm_total_pages :: usize
  levels :: "'l buddy_level list"

definition splitmap_index :: "pfn \<Rightarrow> usize \<Rightarrow> usize option" where
  "splitmap_index p order = do { k \<leftarrow> uadd order 1; ushr p k }"

definition buddy_of :: "pfn \<Rightarrow> usize \<Rightarrow> pfn option" where
  "buddy_of p order = do { b \<leftarrow> ushl 1 order; Some (p XOR b) }"

definition parent_of :: "pfn \<Rightarrow> usize \<Rightarrow> pfn option" where
  "parent_of p order = do { b \<leftarrow> ushl 1 order; Some (p AND ((USIZE_LIM - 1) XOR b)) }"

definition level_at :: "'l phys_manager \<Rightarrow> usize \<Rightarrow> 'l buddy_level option" where
  "level_at pm order = (if order < length (levels pm) then Some (levels pm ! order) else None)"

definition set_level :: "'l phys_manager \<Rightarrow> usize \<Rightarrow> 'l buddy_level \<Rightarrow> 'l phys_manager" where
  "set_level pm order lv = pm\<lparr>levels := (levels pm)[order := lv]\<rparr>"

fun new_levels :: "(virt_addr, 'l) ll_ops \<Rightarrow> pfn \<Rightarrow> usize list \<Rightarrow> boot_heap \<Rightarrow> ('l buddy_level list \<times> boot_heap) option" where
  "new_levels L max_pfn [] bh = Some ([], bh)"
| "new_levels L max_pfn (order # os) bh = do {
     k \<leftarrow> uadd order 1;
     d \<leftarrow> ushl 1 k;
     splitmap_bits \<leftarrow> div_ceil max_pfn d;
     splitmap_bytes \<leftarrow> bytes_required splitmap_bits;
     lay \<leftarrow> layout_from_size_align splitmap_bytes 1;
     (paddr, bh1) \<leftarrow> alloc_phys bh lay;
     _ \<leftarrow> paddr_to_physmap paddr;
     (ls, bh2) \<leftarrow> new_levels L max_pfn os bh1;
     Some (\<lparr>free_list = ll_new L, free_blocks = 0, splitmap = replicate splitmap_bytes 0\<rparr> # ls, bh2) }"

definition pm_new :: "(virt_addr, 'l) ll_ops \<Rightarrow> pfn \<Rightarrow> boot_heap \<Rightarrow> ('l phys_manager \<times> boot_heap) option" where
  "pm_new L max_pfn bh = do {
     (ls, bh1) \<leftarrow> new_levels L max_pfn [0..<ORDER_COUNT] bh;
     Some (\<lparr>pm_total_pages = 0, levels = ls\<rparr>, bh1) }"

definition pm_toggle_parent_split :: "'l phys_manager \<Rightarrow> pfn \<Rightarrow> usize \<Rightarrow> 'l phys_manager option" where
  "pm_toggle_parent_split pm p order = do {
     index \<leftarrow> splitmap_index p order;
     lv \<leftarrow> level_at pm order;
     lv' \<leftarrow> bl_toggle_parent_split lv index;
     Some (set_level pm order lv') }"

definition pm_is_parent_split :: "'l phys_manager \<Rightarrow> pfn \<Rightarrow> usize \<Rightarrow> bool option" where
  "pm_is_parent_split pm p order = do {
     index \<leftarrow> splitmap_index p order;
     lv \<leftarrow> level_at pm order;
     bl_is_parent_split lv index }"

function find_free :: "(virt_addr, 'l) ll_ops \<Rightarrow> 'l phys_manager \<Rightarrow> usize \<Rightarrow> ((pfn \<times> usize) option \<times> 'l phys_manager) option" where
  "find_free L pm found_order =
     (if found_order < ORDER_COUNT then do {
        lv \<leftarrow> level_at pm found_order;
        (found, lv') \<leftarrow> pop_free L lv;
        case found of
          Some p \<Rightarrow> Some (Some (p, found_order), set_level pm found_order lv')
        | None \<Rightarrow> find_free L (set_level pm found_order lv') (found_order + 1) }
      else Some (None, pm))"
  by pat_completeness auto
termination by (relation "measure (\<lambda>(L, pm, k). ORDER_COUNT - k)") auto

function split_down :: "(virt_addr, 'l) ll_ops \<Rightarrow> 'l phys_manager \<Rightarrow> pfn \<Rightarrow> usize \<Rightarrow> usize \<Rightarrow> 'l phys_manager option" where
  "split_down L pm p cur_order found_order =
     (if cur_order < found_order then do {
        pm1 \<leftarrow> pm_toggle_parent_split pm p cur_order;
        b \<leftarrow> buddy_of p cur_order;
        lv \<leftarrow> level_at pm1 cur_order;
        lv' \<leftarrow> push_free L lv b;
        split_down L (set_level pm1 cur_order lv') p (cur_order + 1) found_order }
      else Some pm)"
  by pat_completeness auto
termination by (relation "measure (\<lambda>(L, pm, p, c, f). f - c)") auto

definition pm_allocate :: "(virt_addr, 'l) ll_ops \<Rightarrow> 'l phys_manager \<Rightarrow> usize \<Rightarrow> (pfn option \<times> 'l phys_manager) option" where
  "pm_allocate L pm order =
     (if order \<ge> ORDER_COUNT then Some (None, pm)
      else do {
        (found, pm1) \<leftarrow> find_free L pm order;
        case found of
          None \<Rightarrow> Some (None, pm1)
        | Some (p, found_order) \<Rightarrow> do {
            pm2 \<leftarrow> pm_toggle_parent_split pm1 p found_order;
            pm3 \<leftarrow> split_down L pm2 p order found_order;
            Some (Some p, pm3) } })"

function dealloc_loop :: "(virt_addr, 'l) ll_ops \<Rightarrow> 'l phys_manager \<Rightarrow> pfn \<Rightarrow> usize \<Rightarrow> ('l phys_manager \<times> pfn \<times> usize) option" where
  "dealloc_loop L pm p order =
     (if order < ORDER_COUNT - 1 then do {
        pm1 \<leftarrow> pm_toggle_parent_split pm p order;
        s \<leftarrow> pm_is_parent_split pm1 p order;
        if s then Some (pm1, p, order)
        else do {
          b \<leftarrow> buddy_of p order;
          lv \<leftarrow> level_at pm1 order;
          lv' \<leftarrow> remove_free L lv b;
          q \<leftarrow> parent_of p order;
          dealloc_loop L (set_level pm1 order lv') q (order + 1) } }
      else Some (pm, p, order))"
  by pat_completeness auto
termination by (relation "measure (\<lambda>(L, pm, p, k). ORDER_COUNT - k)") auto

definition pm_deallocate :: "(virt_addr, 'l) ll_ops \<Rightarrow> 'l phys_manager \<Rightarrow> pfn \<Rightarrow> usize \<Rightarrow> 'l phys_manager option" where
  "pm_deallocate L pm p order = do {
     b \<leftarrow> ushl 1 order;
     m \<leftarrow> usub b 1;
     uassert (p AND m = 0);
     (pm1, q, k) \<leftarrow> dealloc_loop L pm p order;
     lv \<leftarrow> level_at pm1 k;
     lv' \<leftarrow> push_free L lv q;
     Some (set_level pm1 k lv') }"

function add_range_loop :: "(virt_addr, 'l) ll_ops \<Rightarrow> 'l phys_manager \<Rightarrow> pfn \<Rightarrow> pfn \<Rightarrow> 'l phys_manager option" where
  "add_range_loop L pm start end =
     (if start < end then do {
        remaining_order \<leftarrow> log2 (end - start);
        let order = min (min (trailing_zeros start) remaining_order) (ORDER_COUNT - 1);
        pm1 \<leftarrow> pm_deallocate L pm start order;
        start' \<leftarrow> uadd start (2 ^ order);
        add_range_loop L pm1 start' end }
      else Some pm)"
  by pat_completeness auto
termination by (relation "measure (\<lambda>(L, pm, s, e). e - s)") (auto simp: uadd_Some_iff intro!: diff_less_mono2)

definition pm_add_free_range :: "(virt_addr, 'l) ll_ops \<Rightarrow> 'l phys_manager \<Rightarrow> pfn \<Rightarrow> pfn \<Rightarrow> 'l phys_manager option" where
  "pm_add_free_range L pm start end = do {
     sz \<leftarrow> usub end start;
     pm1 \<leftarrow> add_range_loop L pm start end;
     t \<leftarrow> uadd (pm_total_pages pm1) sz;
     Some (pm1\<lparr>pm_total_pages := t\<rparr>) }"

fun free_pages_from :: "usize \<Rightarrow> 'l buddy_level list \<Rightarrow> usize option" where
  "free_pages_from order [] = Some 0"
| "free_pages_from order (lv # lvs) = do {
     n \<leftarrow> ushl (free_blocks lv) order;
     r \<leftarrow> free_pages_from (order + 1) lvs;
     uadd n r }"

definition pm_free_pages :: "'l phys_manager \<Rightarrow> usize option" where
  "pm_free_pages pm = free_pages_from 0 (levels pm)"

text \<open>The figures that \<open>dump_usage\<close> logs: total, used and free pages with their sizes in bytes, and the number of free blocks of every order.\<close>

record usage =
  us_total :: "usize \<times> usize"
  us_used :: "usize \<times> usize"
  us_free :: "usize \<times> usize"
  us_blocks :: "usize list"

definition pm_dump_usage :: "'l phys_manager \<Rightarrow> usage option" where
  "pm_dump_usage pm = do {
     free \<leftarrow> pm_free_pages pm;
     used \<leftarrow> usub (pm_total_pages pm) free;
     total_bytes \<leftarrow> umul (pm_total_pages pm) PAGE_SIZE;
     used_bytes \<leftarrow> umul used PAGE_SIZE;
     free_bytes \<leftarrow> umul free PAGE_SIZE;
     uassert (ORDER_COUNT \<le> length (levels pm));
     Some \<lparr>us_total = (pm_total_pages pm, total_bytes), us_used = (used, used_bytes), us_free = (free, free_bytes),
       us_blocks = map (\<lambda>order. free_blocks (levels pm ! order)) [0..<ORDER_COUNT]\<rparr> }"

section \<open>The global allocator and owned frames\<close>

text \<open>The static \<open>PHYS_MANAGER\<close>: its operations panic until \<open>init\<close> has run, and \<open>init\<close> panics when it has.\<close>

definition pmm_init :: "(virt_addr, 'l) ll_ops \<Rightarrow> pfn \<Rightarrow> boot_heap \<Rightarrow> 'l phys_manager option \<Rightarrow> ('l phys_manager option \<times> boot_heap) option" where
  "pmm_init L max_pfn bh st = do {
     uassert (st = None);
     (pm, bh') \<leftarrow> pm_new L max_pfn bh;
     Some (Some pm, bh') }"

definition pmm_allocate :: "(virt_addr, 'l) ll_ops \<Rightarrow> 'l phys_manager option \<Rightarrow> usize \<Rightarrow> (pfn option \<times> 'l phys_manager option) option" where
  "pmm_allocate L st order = do {
     pm \<leftarrow> st;
     (r, pm') \<leftarrow> pm_allocate L pm order;
     Some (r, Some pm') }"

definition pmm_deallocate :: "(virt_addr, 'l) ll_ops \<Rightarrow> 'l phys_manager option \<Rightarrow> pfn \<Rightarrow> usize \<Rightarrow> 'l phys_manager option option" where
  "pmm_deallocate L st p order = do {
     pm \<leftarrow> st;
     pm' \<leftarrow> pm_deallocate L pm p order;
     Some (Some pm') }"

definition pmm_add_free_range :: "(virt_addr, 'l) ll_ops \<Rightarrow> 'l phys_manager option \<Rightarrow> pfn \<Rightarrow> pfn \<Rightarrow> 'l phys_manager option option" where
  "pmm_add_free_range L st start end = do {
     pm \<leftarrow> st;
     pm' \<leftarrow> pm_add_free_range L pm start end;
     Some (Some pm') }"

definition frame_box_new :: "(virt_addr, 'l) ll_ops \<Rightarrow> usize \<Rightarrow> 'l phys_manager option \<Rightarrow> (pfn result \<times> 'l phys_manager option) option" where
  "frame_box_new L order st = do {
     (r, st') \<leftarrow> pmm_allocate L st order;
     Some (case r of None \<Rightarrow> Inl OUT_OF_MEMORY | Some p \<Rightarrow> Inr p, st') }"

definition frame_box_drop :: "(virt_addr, 'l) ll_ops \<Rightarrow> usize \<Rightarrow> pfn \<Rightarrow> 'l phys_manager option \<Rightarrow> 'l phys_manager option option" where
  "frame_box_drop L order p st = pmm_deallocate L st p order"

section \<open>Abstraction\<close>

declare find_free.simps [simp del] split_down.simps [simp del] dealloc_loop.simps [simp del]
  add_range_loop.simps [simp del]

definition link_of :: "pfn \<Rightarrow> virt_addr" where
  "link_of p = (PHYS_MAP_BASE + p) * 4096"

definition level_free :: "('l \<Rightarrow> virt_addr list) \<Rightarrow> 'l buddy_level \<Rightarrow> pfn set" where
  "level_free elems lv = {p. p < PHYS_MAP_MAX_PAGES \<and> link_of p \<in> set (elems (free_list lv))}"

definition free_sets :: "('l \<Rightarrow> virt_addr list) \<Rightarrow> 'l phys_manager \<Rightarrow> nat \<Rightarrow> pfn set" where
  "free_sets elems pm k = (if k < length (levels pm) then level_free elems (levels pm ! k) else {})"

definition split_bits :: "'l phys_manager \<Rightarrow> nat \<Rightarrow> nat \<Rightarrow> bool" where
  "split_bits pm k = bits (splitmap (levels pm ! k))"

definition level_wf :: "('l \<Rightarrow> virt_addr list) \<Rightarrow> nat \<Rightarrow> nat \<Rightarrow> 'l buddy_level \<Rightarrow> bool" where
  "level_wf elems N k lv \<longleftrightarrow>
     distinct (elems (free_list lv)) \<and> free_blocks lv = length (elems (free_list lv)) \<and>
     set (elems (free_list lv)) \<subseteq> link_of ` {..<PHYS_MAP_MAX_PAGES} \<and>
     (\<forall>p<N. p div 2 ^ Suc k < bm_len (splitmap lv))"

definition pmm_wf :: "('l \<Rightarrow> virt_addr list) \<Rightarrow> nat \<Rightarrow> 'l phys_manager \<Rightarrow> bool" where
  "pmm_wf elems N pm \<longleftrightarrow> length (levels pm) = ORDER_COUNT \<and> N \<le> PHYS_MAP_MAX_PAGES \<and>
     (\<forall>k<ORDER_COUNT. level_wf elems N k (levels pm ! k))"

definition pmm_inv :: "('l \<Rightarrow> virt_addr list) \<Rightarrow> nat \<Rightarrow> 'l phys_manager \<Rightarrow> bool" where
  "pmm_inv elems N pm \<longleftrightarrow> pmm_wf elems N pm \<and> buddy_inv N (free_sets elems pm) \<and>
     split_ok N (free_sets elems pm) (split_bits pm)"

abbreviation free_frames :: "('l \<Rightarrow> virt_addr list) \<Rightarrow> 'l phys_manager \<Rightarrow> pfn set" where
  "free_frames elems pm \<equiv> pages (free_sets elems pm)"

lemma link_of_eq_iff [simp]: "link_of p = link_of q \<longleftrightarrow> p = q"
  by (simp add: link_of_def)

lemma free_link_from_pfn_eq: "p < PHYS_MAP_MAX_PAGES \<Longrightarrow> free_link_from_pfn p = Some (link_of p)"
  by (simp add: free_link_from_pfn_def pfn_to_physmap_Some vpn_addr_def link_of_def PAGE_SHIFT_def
      layout_consts USIZE_LIM_def)

lemma pfn_from_free_link_eq: "p < PHYS_MAP_MAX_PAGES \<Longrightarrow> pfn_from_free_link (link_of p) = Some p"
proof -
  assume p: "p < PHYS_MAP_MAX_PAGES"
  let ?v = "PHYS_MAP_BASE + p"
  have lim: "?v * 4096 < USIZE_LIM" using p by (simp add: layout_consts USIZE_LIM_def)
  then have "vpn_addr ?v = link_of p" by (simp add: vpn_addr_def link_of_def PAGE_SHIFT_def)
  then have "page_offset (link_of p) = 0" "containing_page (link_of p) = ?v"
    using page_offset_addr [of ?v] containing_page_addr [OF lim] by simp_all
  then show ?thesis
    using physmap_round_trip [OF p pfn_to_physmap_Some [OF p]]
    by (simp add: pfn_from_free_link_def uassert_def)
qed

lemma level_wfD:
  assumes "level_wf elems N k lv"
  shows "free_blocks lv = card (level_free elems lv)" "free_blocks lv \<le> PHYS_MAP_MAX_PAGES"
    "set (elems (free_list lv)) = link_of ` level_free elems lv"
proof -
  have s: "set (elems (free_list lv)) = link_of ` level_free elems lv"
    using assms by (auto simp: level_wf_def level_free_def)
  then show "set (elems (free_list lv)) = link_of ` level_free elems lv" .
  have "free_blocks lv = card (set (elems (free_list lv)))"
    using assms by (simp add: level_wf_def distinct_card)
  also have "\<dots> = card (level_free elems lv)"
    unfolding s by (rule card_image) (simp add: inj_on_def)
  finally show c: "free_blocks lv = card (level_free elems lv)" .
  have "level_free elems lv \<subseteq> {..<PHYS_MAP_MAX_PAGES}" by (auto simp: level_free_def)
  then have "card (level_free elems lv) \<le> card {..<PHYS_MAP_MAX_PAGES}" by (intro card_mono) auto
  with c show "free_blocks lv \<le> PHYS_MAP_MAX_PAGES" by simp
qed

lemma free_sets_set_level:
  "length (levels pm) = ORDER_COUNT \<Longrightarrow> k < ORDER_COUNT \<Longrightarrow>
    free_sets elems (set_level pm k lv) = (free_sets elems pm)(k := level_free elems lv)"
  by (auto simp: free_sets_def set_level_def fun_eq_iff)

lemma split_bits_set_level:
  "length (levels pm) = ORDER_COUNT \<Longrightarrow> k < ORDER_COUNT \<Longrightarrow>
    split_bits (set_level pm k lv) = (split_bits pm)(k := bits (splitmap lv))"
  by (auto simp: split_bits_def set_level_def fun_eq_iff)

lemma pmm_wf_set_level:
  "pmm_wf elems N pm \<Longrightarrow> k < ORDER_COUNT \<Longrightarrow> level_wf elems N k lv \<Longrightarrow> pmm_wf elems N (set_level pm k lv)"
  by (auto simp: pmm_wf_def set_level_def nth_list_update)

lemma pmm_wfD:
  assumes "pmm_wf elems N pm" "k < ORDER_COUNT"
  shows "level_at pm k = Some (levels pm ! k)" "level_wf elems N k (levels pm ! k)"
    "free_sets elems pm k = level_free elems (levels pm ! k)"
  using assms by (auto simp: pmm_wf_def level_at_def free_sets_def)

lemma set_level_total [simp]: "pm_total_pages (set_level pm k lv) = pm_total_pages pm"
  by (simp add: set_level_def)

lemmas set_level_sets = free_sets_set_level split_bits_set_level

section \<open>The primitive steps\<close>

lemma splitmap_index_eq: "k < ORDER_COUNT \<Longrightarrow> splitmap_index p k = Some (p div 2 ^ Suc k)"
  by (simp add: splitmap_index_def machine_defs ORDER_COUNT_def)

lemma buddy_of_eq: "k < ORDER_COUNT \<Longrightarrow> buddy_of p k = Some (buddy k p)"
  using ushl_one [of k] by (simp add: buddy_of_def buddy_def ORDER_COUNT_def)

lemma parent_of_eq:
  assumes "k < ORDER_COUNT" "2 ^ k dvd p" "p < USIZE_LIM"
  shows "parent_of p k = Some (parent k p)"
proof -
  have k: "k < 64" using assms(1) by (simp add: ORDER_COUNT_def)
  have lim: "(2::nat) ^ 64 - 1 = mask 64" by (simp add: mask_eq_exp_minus_1)
  have low: "\<not> bit p n" if "n < k" for n
  proof -
    have "take_bit k p = 0" using assms(2) by (simp add: take_bit_eq_mod mod_eq_0_iff_dvd)
    then show ?thesis using that by (metis bit_take_bit_iff bit_0_eq bot_apply bot_bool_def)
  qed
  have high: "\<not> bit p n" if "64 \<le> n" for n
  proof -
    have "take_bit 64 p = p" using assms(3) by (simp add: take_bit_nat_eq_self_iff USIZE_LIM_def)
    then show ?thesis using that by (metis bit_take_bit_iff not_le)
  qed
  have "p AND (mask 64 XOR 2 ^ k) = push_bit (Suc k) (drop_bit (Suc k) p)"
  proof (rule bit_eqI)
    fix n
    show "bit (p AND (mask 64 XOR 2 ^ k)) n = bit (push_bit (Suc k) (drop_bit (Suc k) p)) n"
      using low [of n] high [of n] k
      by (cases "n < k"; cases "n = k"; cases "64 \<le> n")
        (auto simp: bit_and_iff bit_xor_iff bit_mask_iff bit_exp_iff bit_push_bit_iff bit_drop_bit_eq
          simp del: push_bit_Suc)
  qed
  then show ?thesis using k ushl_one [of k]
    by (simp add: parent_of_def parent_def lim [simplified] push_bit_eq_mult drop_bit_eq_div USIZE_LIM_def del: push_bit_Suc drop_bit_Suc)
qed

lemma toggle_step:
  assumes wf: "pmm_wf elems N pm" and k: "k < ORDER_COUNT" and p: "p < N"
  obtains pm' where "pm_toggle_parent_split pm p k = Some pm'" "pmm_wf elems N pm'"
    "free_sets elems pm' = free_sets elems pm" "split_bits pm' = toggle_split (split_bits pm) k p"
    "pm_total_pages pm' = pm_total_pages pm"
proof -
  let ?lv = "levels pm ! k" and ?i = "p div 2 ^ Suc k"
  note lw = pmm_wfD [OF wf k]
  have len: "length (levels pm) = ORDER_COUNT" using wf by (simp add: pmm_wf_def)
  have "?i < bm_len (splitmap ?lv)" using lw(2) p by (simp add: level_wf_def)
  then obtain s where s: "bm_toggle (splitmap ?lv) ?i = Some s" "bm_len s = bm_len (splitmap ?lv)"
    "bits s = (bits (splitmap ?lv))(?i := \<not> bits (splitmap ?lv) ?i)"
    using bm.toggle_spec by blast
  let ?pm = "set_level pm k (?lv\<lparr>splitmap := s\<rparr>)"
  have "pm_toggle_parent_split pm p k = Some ?pm"
    by (simp add: pm_toggle_parent_split_def bl_toggle_parent_split_def splitmap_index_eq [OF k] lw(1) s(1) [simplified])
  moreover have "pmm_wf elems N ?pm"
    using lw(2) s(2) by (intro pmm_wf_set_level wf k) (simp add: level_wf_def)
  moreover have "free_sets elems ?pm = free_sets elems pm"
    unfolding free_sets_set_level [OF len k] using lw(3) by (simp add: level_free_def fun_eq_iff)
  moreover have "split_bits ?pm = toggle_split (split_bits pm) k p"
    unfolding split_bits_set_level [OF len k] using s(3) by (simp add: toggle_split_def split_bits_def)
  ultimately show thesis using that by simp
qed

lemma is_parent_split_step:
  assumes wf: "pmm_wf elems N pm" and k: "k < ORDER_COUNT" and p: "p < N"
  shows "pm_is_parent_split pm p k = Some (split_bits pm k (p div 2 ^ Suc k))"
proof -
  note lw = pmm_wfD [OF wf k]
  have "p div 2 ^ Suc k < bm_len (splitmap (levels pm ! k))" using lw(2) p by (simp add: level_wf_def)
  then show ?thesis
    by (simp add: pm_is_parent_split_def bl_is_parent_split_def splitmap_index_eq [OF k] lw(1) bm.get_eq
        split_bits_def del: power_Suc)
qed

text \<open>The free lists, over any implementation of the intrusive list.\<close>

locale frame_list = intrusive_list L elems
  for L :: "(virt_addr, 'l) ll_ops" and elems :: "'l \<Rightarrow> virt_addr list"
begin

lemma level_free_push:
  assumes "p < PHYS_MAP_MAX_PAGES" "p \<notin> level_free elems lv"
  shows "elems (ll_push_front L (link_of p) (free_list lv)) = link_of p # elems (free_list lv)"
  using assms by (intro elems_push_front) (simp add: level_free_def)

lemma push_step:
  assumes wf: "pmm_wf elems N pm" and k: "k < ORDER_COUNT" and p: "p < N" "p \<notin> free_sets elems pm k"
  obtains lv where "push_free L (levels pm ! k) p = Some lv" "pmm_wf elems N (set_level pm k lv)"
    "free_sets elems (set_level pm k lv) = (free_sets elems pm)(k := insert p (free_sets elems pm k))"
    "split_bits (set_level pm k lv) = split_bits pm"
proof -
  let ?lv = "levels pm ! k"
  note lw = pmm_wfD [OF wf k]
  have len: "length (levels pm) = ORDER_COUNT" and pN: "p < PHYS_MAP_MAX_PAGES"
    using wf p(1) by (auto simp: pmm_wf_def)
  have el: "elems (ll_push_front L (link_of p) (free_list ?lv)) = link_of p # elems (free_list ?lv)"
    using p(2) lw(3) by (intro level_free_push pN) simp
  have "free_blocks ?lv + 1 < USIZE_LIM"
    using level_wfD(2) [OF lw(2)] by (simp add: layout_consts USIZE_LIM_def)
  then have push: "push_free L ?lv p = Some (?lv\<lparr>free_list := ll_push_front L (link_of p) (free_list ?lv),
      free_blocks := free_blocks ?lv + 1\<rparr>)" (is "_ = Some ?new")
    by (simp add: push_free_def free_link_from_pfn_eq [OF pN] uadd_def)
  have "level_wf elems N k ?new"
    using lw(2,3) p(2) pN by (auto simp: level_wf_def el level_free_def)
  then have w: "pmm_wf elems N (set_level pm k ?new)" by (intro pmm_wf_set_level wf k)
  have "level_free elems ?new = insert p (free_sets elems pm k)"
    unfolding lw(3) using pN by (auto simp: level_free_def el)
  then have "free_sets elems (set_level pm k ?new) = (free_sets elems pm)(k := insert p (free_sets elems pm k))"
    unfolding free_sets_set_level [OF len k] by simp
  moreover have "split_bits (set_level pm k ?new) = split_bits pm"
    unfolding split_bits_set_level [OF len k] by (simp add: split_bits_def fun_eq_iff)
  ultimately show thesis using push w that by blast
qed

lemma remove_step:
  assumes wf: "pmm_wf elems N pm" and k: "k < ORDER_COUNT" and p: "p \<in> free_sets elems pm k"
  obtains lv where "remove_free L (levels pm ! k) p = Some lv" "pmm_wf elems N (set_level pm k lv)"
    "free_sets elems (set_level pm k lv) = (free_sets elems pm)(k := free_sets elems pm k - {p})"
    "split_bits (set_level pm k lv) = split_bits pm"
proof -
  let ?lv = "levels pm ! k"
  note lw = pmm_wfD [OF wf k]
  have len: "length (levels pm) = ORDER_COUNT" using wf by (auto simp: pmm_wf_def)
  from p have pN: "p < PHYS_MAP_MAX_PAGES" and inl: "link_of p \<in> set (elems (free_list ?lv))"
    unfolding lw(3) by (auto simp: level_free_def)
  have el: "elems (ll_remove L (link_of p) (free_list ?lv)) = remove1 (link_of p) (elems (free_list ?lv))"
    by (rule elems_remove [OF inl])
  have dist: "distinct (elems (free_list ?lv))" and fb: "free_blocks ?lv = length (elems (free_list ?lv))"
    using lw(2) by (simp_all add: level_wf_def)
  have "1 \<le> free_blocks ?lv" using inl unfolding fb by (cases "elems (free_list ?lv)") auto
  then have rem: "remove_free L ?lv p = Some (?lv\<lparr>free_list := ll_remove L (link_of p) (free_list ?lv),
      free_blocks := free_blocks ?lv - 1\<rparr>)" (is "_ = Some ?new")
    by (simp add: remove_free_def free_link_from_pfn_eq [OF pN] usub_def)
  have "level_wf elems N k ?new"
    using lw(2) inl by (auto simp: level_wf_def el length_remove1 dest: notin_set_remove1)
  then have w: "pmm_wf elems N (set_level pm k ?new)" by (intro pmm_wf_set_level wf k)
  have "level_free elems ?new = free_sets elems pm k - {p}"
    unfolding lw(3) using dist by (auto simp: level_free_def el)
  then have "free_sets elems (set_level pm k ?new) = (free_sets elems pm)(k := free_sets elems pm k - {p})"
    unfolding free_sets_set_level [OF len k] by simp
  moreover have "split_bits (set_level pm k ?new) = split_bits pm"
    unfolding split_bits_set_level [OF len k] by (simp add: split_bits_def fun_eq_iff)
  ultimately show thesis using rem w that by blast
qed

lemma pop_step_None:
  assumes wf: "pmm_wf elems N pm" and k: "k < ORDER_COUNT" and e: "free_sets elems pm k = {}"
  shows "pop_free L (levels pm ! k) = Some (None, levels pm ! k)"
proof -
  note lw = pmm_wfD [OF wf k]
  have "elems (free_list (levels pm ! k)) = []"
    using level_wfD(3) [OF lw(2)] e unfolding lw(3) by simp
  then show ?thesis by (simp add: pop_free_def pop_front_None [THEN iffD2])
qed

lemma pop_step_Some:
  assumes wf: "pmm_wf elems N pm" and k: "k < ORDER_COUNT" and ne: "free_sets elems pm k \<noteq> {}"
  obtains p lv where "pop_free L (levels pm ! k) = Some (Some p, lv)" "p \<in> free_sets elems pm k"
    "pmm_wf elems N (set_level pm k lv)"
    "free_sets elems (set_level pm k lv) = (free_sets elems pm)(k := free_sets elems pm k - {p})"
    "split_bits (set_level pm k lv) = split_bits pm"
proof -
  let ?lv = "levels pm ! k"
  note lw = pmm_wfD [OF wf k]
  have len: "length (levels pm) = ORDER_COUNT" using wf by (auto simp: pmm_wf_def)
  have s: "set (elems (free_list ?lv)) = link_of ` free_sets elems pm k"
    using level_wfD(3) [OF lw(2)] lw(3) by simp
  then obtain x xs where xs: "elems (free_list ?lv) = x # xs" using ne by (cases "elems (free_list ?lv)") auto
  with s obtain p where p: "x = link_of p" "p \<in> free_sets elems pm k"
    by (metis imageE list.set_intros(1))
  then have pN: "p < PHYS_MAP_MAX_PAGES" unfolding lw(3) by (simp add: level_free_def)
  obtain l where l: "ll_pop_front L (free_list ?lv) = Some (x, l)" "elems l = xs"
    using pop_front_Cons [OF xs] .
  have fb: "free_blocks ?lv = Suc (length xs)" and dist: "distinct (x # xs)"
    using lw(2) xs by (simp_all add: level_wf_def)
  then have pop: "pop_free L ?lv = Some (Some p, ?lv\<lparr>free_list := l, free_blocks := length xs\<rparr>)" (is "_ = Some (_, ?new)")
    by (simp add: pop_free_def l(1) p(1) pfn_from_free_link_eq [OF pN] usub_def)
  have "level_wf elems N k ?new" using lw(2) xs l(2) by (auto simp: level_wf_def)
  then have w: "pmm_wf elems N (set_level pm k ?new)" by (intro pmm_wf_set_level wf k)
  have "level_free elems ?new = free_sets elems pm k - {p}"
    unfolding lw(3) using dist by (auto simp: level_free_def l(2) xs p(1))
  then have "free_sets elems (set_level pm k ?new) = (free_sets elems pm)(k := free_sets elems pm k - {p})"
    unfolding free_sets_set_level [OF len k] by simp
  moreover have "split_bits (set_level pm k ?new) = split_bits pm"
    unfolding split_bits_set_level [OF len k] by (simp add: split_bits_def fun_eq_iff)
  ultimately show thesis using pop w p(2) that by blast
qed

end

section \<open>Allocation\<close>

lemma free_bounds:
  assumes "pmm_inv elems N pm" "k < ORDER_COUNT" "p \<in> free_sets elems pm k"
  shows "2 ^ k dvd p" "p + 2 ^ k \<le> N" "p < N" "blk k p \<subseteq> free_frames elems pm"
proof -
  have "buddy_inv N (free_sets elems pm)" using assms(1) by (simp add: pmm_inv_def)
  from buddy_invD [OF this assms(2,3)] show "2 ^ k dvd p" and le: "p + 2 ^ k \<le> N" .
  have "(0::nat) < 2 ^ k" by simp
  with le show "p < N" by linarith
  show "blk k p \<subseteq> free_frames elems pm" using assms(2,3) by (auto simp: pages_def)
qed

lemma pages_disjoint_notin: "k < ORDER_COUNT \<Longrightarrow> p \<notin> pages F \<Longrightarrow> p \<notin> F k"
  using blk_nonempty [of p k] unfolding pages_def by blast

context frame_list
begin

lemma find_free_spec:
  assumes inv: "pmm_inv elems N pm" and k: "k \<le> ORDER_COUNT"
  shows "(\<exists>p fo pm'. find_free L pm k = Some (Some (p, fo), pm') \<and> k \<le> fo \<and> fo < ORDER_COUNT \<and>
      p \<in> free_sets elems pm fo \<and> pmm_wf elems N pm' \<and> split_bits pm' = split_bits pm \<and>
      free_sets elems pm' = (free_sets elems pm)(fo := free_sets elems pm fo - {p}) \<and>
      pm_total_pages pm' = pm_total_pages pm) \<or>
    find_free L pm k = Some (None, pm) \<and> (\<forall>j. k \<le> j \<and> j < ORDER_COUNT \<longrightarrow> free_sets elems pm j = {})"
  using k
proof (induction "ORDER_COUNT - k" arbitrary: k)
  case 0
  then show ?case by (subst (2) find_free.simps) auto
next
  case (Suc d)
  then have k: "k < ORDER_COUNT" by simp
  have wf: "pmm_wf elems N pm" using inv by (simp add: pmm_inv_def)
  note lw = pmm_wfD [OF wf k]
  show ?case
  proof (cases "free_sets elems pm k = {}")
    case True
    have same: "set_level pm k (levels pm ! k) = pm" by (simp add: set_level_def)
    have step: "find_free L pm k = find_free L pm (Suc k)"
      by (subst find_free.simps) (simp add: k lw(1) pop_step_None [OF wf k True] same)
    have emp: "(\<forall>j. k \<le> j \<and> j < ORDER_COUNT \<longrightarrow> free_sets elems pm j = {}) \<longleftrightarrow>
        (\<forall>j. Suc k \<le> j \<and> j < ORDER_COUNT \<longrightarrow> free_sets elems pm j = {})"
      using True by (metis le_less_Suc_eq not_less_eq_eq Suc_leD le_eq_less_or_eq Suc_le_eq)
    have "d = ORDER_COUNT - Suc k" "Suc k \<le> ORDER_COUNT" using Suc.hyps(2) k by simp_all
    from Suc.hyps(1) [OF this] show ?thesis unfolding step emp by (blast dest: Suc_leD)
  next
    case False
    from pop_step_Some [OF wf k False] obtain p lv where s: "pop_free L (levels pm ! k) = Some (Some p, lv)"
      "p \<in> free_sets elems pm k" "pmm_wf elems N (set_level pm k lv)"
      "free_sets elems (set_level pm k lv) = (free_sets elems pm)(k := free_sets elems pm k - {p})"
      "split_bits (set_level pm k lv) = split_bits pm" .
    have "find_free L pm k = Some (Some (p, k), set_level pm k lv)"
      by (subst find_free.simps) (simp add: k lw(1) s(1))
    with s k show ?thesis by (intro disjI1 exI [of _ p] exI [of _ k] exI [of _ "set_level pm k lv"]) simp
  qed
qed

lemma split_down_spec:
  assumes "pmm_inv elems N pm" "2 ^ fo dvd p" "p + 2 ^ fo \<le> N" "order \<le> cur" "cur \<le> fo" "fo < ORDER_COUNT"
    and "blk fo p \<inter> free_frames elems pm = {p + 2 ^ order..<p + 2 ^ cur}"
  shows "\<exists>pm'. split_down L pm p cur fo = Some pm' \<and> pmm_inv elems N pm' \<and>
    free_frames elems pm' = free_frames elems pm \<union> {p + 2 ^ cur..<p + 2 ^ fo} \<and>
    pm_total_pages pm' = pm_total_pages pm"
  using assms
proof (induction "fo - cur" arbitrary: cur pm)
  case 0
  then show ?case by (subst split_down.simps) simp
next
  case (Suc d)
  let ?b = "p + 2 ^ cur"
  have cur: "cur < fo" "cur < ORDER_COUNT" using Suc.hyps(2) Suc.prems(6) by simp_all
  have al: "2 ^ Suc cur dvd p" "2 ^ cur dvd p"
    using dvd_trans [OF two_power_dvd_power Suc.prems(2)] cur(1) by (simp_all del: power_Suc)
  have big: "(2::nat) ^ Suc cur \<le> 2 ^ fo" "(2::nat) ^ order \<le> 2 ^ cur"
    using cur(1) Suc.prems(4) by (auto intro: power_increasing simp del: power_Suc)
  from al(2) have b: "buddy cur p = ?b"
  proof (cases rule: buddy_cases)
    case (odd a)
    from al(1) odd(1) have "2 * 2 ^ cur dvd (2 * a + 1) * 2 ^ cur" by simp
    then have "even (2 * a + 1)" by (metis dvd_times_right_cancel_iff power_not_zero zero_neq_numeral)
    then show ?thesis by simp
  qed simp
  have pos: "(0::nat) < 2 ^ cur" "(0::nat) < 2 ^ order" by simp_all
  have bounds: "p < N" "?b < N" "?b + 2 ^ cur \<le> N"
    using Suc.prems(3) big(1) pos unfolding power_Suc by linarith+
  have inside: "x \<in> {p + 2 ^ order..<?b}" if "x \<in> free_frames elems pm" "x \<in> blk fo p" for x
    using Suc.prems(7) that by blast
  have sub: "blk cur ?b \<subseteq> blk fo p" using big(1) by (auto simp: blk_def)
  have out: "p \<notin> free_frames elems pm" using inside [of p] pos by auto
  have "x \<notin> free_frames elems pm" if "x \<in> blk cur ?b" for x
    using inside [of x] that sub by (auto simp: blk_def)
  then have out2: "blk cur ?b \<inter> free_frames elems pm = {}" by blast
  have wf: "pmm_wf elems N pm" and binv: "buddy_inv N (free_sets elems pm)"
    and sok: "split_ok N (free_sets elems pm) (split_bits pm)" using Suc.prems(1) by (auto simp: pmm_inv_def)
  from toggle_step [OF wf cur(2) bounds(1)] obtain pm1 where t: "pm_toggle_parent_split pm p cur = Some pm1"
    "pmm_wf elems N pm1" "free_sets elems pm1 = free_sets elems pm"
    "split_bits pm1 = toggle_split (split_bits pm) cur p" "pm_total_pages pm1 = pm_total_pages pm" .
  have bnot: "?b \<notin> free_sets elems pm cur"
    using out2 blk_nonempty [of ?b cur] by - (rule pages_disjoint_notin [OF cur(2), of _ "free_sets elems pm"], blast)
  from push_step [OF t(2) cur(2) bounds(2)] bnot t(3) obtain lv where u: "push_free L (levels pm1 ! cur) ?b = Some lv"
    "pmm_wf elems N (set_level pm1 cur lv)"
    "free_sets elems (set_level pm1 cur lv) = (free_sets elems pm)(cur := insert ?b (free_sets elems pm cur))"
    "split_bits (set_level pm1 cur lv) = split_bits pm1" by metis
  let ?pm = "set_level pm1 cur lv"
  have al_b: "2 ^ cur dvd ?b" using al(2) by simp
  have tog: "toggle_split (split_bits pm) cur p = toggle_split (split_bits pm) cur ?b"
    using buddy_index [OF al(2)] by (simp only: toggle_split_def b)
  have bb: "buddy cur ?b = p" using buddy_buddy [of cur p] by (simp add: b)
  have "buddy_inv N (free_sets elems ?pm)" unfolding u(3)
    using out2 bb pages_disjoint_notin [OF cur(2) out]
    by (intro buddy_inv_insert binv cur(2) al_b bounds(3)) simp_all
  moreover have "split_ok N (free_sets elems ?pm) (split_bits ?pm)" unfolding u(3,4) t(4) tog
    using bnot by (intro split_ok_toggle sok al_b) auto
  ultimately have inv': "pmm_inv elems N ?pm" using u(2) by (simp add: pmm_inv_def)
  have pg: "free_frames elems ?pm = free_frames elems pm \<union> {?b..<p + 2 ^ Suc cur}"
    unfolding u(3) pages_insert [OF cur(2)] by (simp add: blk_def mult_2 add.assoc)
  have "blk fo p \<inter> free_frames elems ?pm = {p + 2 ^ order..<p + 2 ^ Suc cur}"
  proof -
    have e: "blk cur ?b = {?b..<p + 2 ^ Suc cur}" by (simp add: blk_def mult_2 add.assoc)
    have "blk fo p \<inter> free_frames elems ?pm = {p + 2 ^ order..<?b} \<union> {?b..<p + 2 ^ Suc cur}"
      unfolding pg Int_Un_distrib Suc.prems(7) using sub unfolding e by blast
    also have "\<dots> = {p + 2 ^ order..<p + 2 ^ Suc cur}"
      using big(2) by (intro ivl_disj_un_two(3)) auto
    finally show ?thesis .
  qed
  moreover have "d = fo - Suc cur" "order \<le> Suc cur" "Suc cur \<le> fo" using Suc.hyps(2) Suc.prems(4) cur by simp_all
  ultimately obtain pm' where "split_down L ?pm p (Suc cur) fo = Some pm'" "pmm_inv elems N pm'"
    "free_frames elems pm' = free_frames elems ?pm \<union> {p + 2 ^ Suc cur..<p + 2 ^ fo}"
    "pm_total_pages pm' = pm_total_pages ?pm"
    using Suc.hyps(1) [of "Suc cur" ?pm] inv' Suc.prems(2,3,6) by blast
  moreover have "split_down L pm p cur fo = split_down L ?pm p (Suc cur) fo"
    by (subst split_down.simps) (simp add: cur t(1) buddy_of_eq b pmm_wfD(1) [OF t(2)] u(1))
  moreover have "{?b..<p + 2 ^ Suc cur} \<union> {p + 2 ^ Suc cur..<p + 2 ^ fo} = {?b..<p + 2 ^ fo}"
    using big(1) by (intro ivl_disj_un_two(3)) auto
  ultimately show ?case using pg t(5) by (simp add: Un_assoc)
qed

end

context frame_list
begin

text \<open>
  \<open>allocate\<close> never panics. It returns \<open>None\<close> exactly when no aligned block of the requested size is
  wholly free; otherwise it takes such a block out of the free frames and leaves the others.
\<close>

lemma allocate_spec:
  assumes inv: "pmm_inv elems N pm" and order: "order < ORDER_COUNT"
  shows "(\<exists>p pm'. pm_allocate L pm order = Some (Some p, pm') \<and> pmm_inv elems N pm' \<and>
      2 ^ order dvd p \<and> blk order p \<subseteq> free_frames elems pm \<and>
      free_frames elems pm' = free_frames elems pm - blk order p \<and> pm_total_pages pm' = pm_total_pages pm) \<or>
    pm_allocate L pm order = Some (None, pm) \<and> \<not> (\<exists>p. 2 ^ order dvd p \<and> blk order p \<subseteq> free_frames elems pm)"
proof -
  let ?F = "free_sets elems pm"
  have wf: "pmm_wf elems N pm" and binv: "buddy_inv N ?F" and sok: "split_ok N ?F (split_bits pm)"
    using inv by (auto simp: pmm_inv_def)
  from find_free_spec [OF inv less_imp_le [OF order]]
  consider (hit) p fo pm1 where "find_free L pm order = Some (Some (p, fo), pm1)" "order \<le> fo" "fo < ORDER_COUNT"
      "p \<in> ?F fo" "pmm_wf elems N pm1" "split_bits pm1 = split_bits pm"
      "free_sets elems pm1 = ?F(fo := ?F fo - {p})" "pm_total_pages pm1 = pm_total_pages pm"
    | (miss) "find_free L pm order = Some (None, pm)" "\<forall>j. order \<le> j \<and> j < ORDER_COUNT \<longrightarrow> ?F j = {}"
    by blast
  then show ?thesis
  proof cases
    case hit
    note fb = free_bounds [OF inv hit(3,4)]
    from toggle_step [OF hit(5,3) fb(3)] obtain pm2 where t: "pm_toggle_parent_split pm1 p fo = Some pm2"
      "pmm_wf elems N pm2" "free_sets elems pm2 = free_sets elems pm1"
      "split_bits pm2 = toggle_split (split_bits pm1) fo p" "pm_total_pages pm2 = pm_total_pages pm1" .
    have "buddy_inv N (free_sets elems pm2)" unfolding t(3) hit(7) by (rule buddy_inv_remove [OF binv])
    moreover have "split_ok N (free_sets elems pm2) (split_bits pm2)"
      unfolding t(3,4) hit(6,7) using hit(4) by (intro split_ok_toggle sok fb(1)) auto
    ultimately have inv2: "pmm_inv elems N pm2" using t(2) by (simp add: pmm_inv_def)
    have pg: "free_frames elems pm2 = free_frames elems pm - blk fo p"
      unfolding t(3) hit(7) by (rule pages_remove [OF binv hit(3,4)])
    have "blk fo p \<inter> free_frames elems pm2 = {p + 2 ^ order..<p + 2 ^ order}" unfolding pg by auto
    from split_down_spec [OF inv2 fb(1,2) order_refl hit(2,3) this] obtain pm3 where
      d: "split_down L pm2 p order fo = Some pm3" "pmm_inv elems N pm3"
      "free_frames elems pm3 = free_frames elems pm2 \<union> {p + 2 ^ order..<p + 2 ^ fo}"
      "pm_total_pages pm3 = pm_total_pages pm2" by blast
    have le: "(2::nat) ^ order \<le> 2 ^ fo" using hit(2) by (intro power_increasing) auto
    then have sub: "blk order p \<subseteq> blk fo p" by (auto simp: blk_def)
    have "{p + 2 ^ order..<p + 2 ^ fo} = blk fo p - blk order p" using le by (auto simp: blk_def)
    then have "free_frames elems pm3 = free_frames elems pm - blk order p"
      unfolding d(3) pg using sub fb(4) by blast
    moreover have "pm_allocate L pm order = Some (Some p, pm3)"
      using order by (simp add: pm_allocate_def hit(1) t(1) d(1))
    moreover have "2 ^ order dvd p" using fb(1) hit(2) by (metis dvd_trans two_power_dvd_power)
    ultimately show ?thesis using d(2,4) t(5) hit(8) sub fb(4) by (metis order_trans)
  next
    case miss
    have "pm_allocate L pm order = Some (None, pm)" using order by (simp add: pm_allocate_def miss(1))
    moreover have "\<not> (\<exists>p. 2 ^ order dvd p \<and> blk order p \<subseteq> pages ?F)"
      using covering_block [OF binv order] miss(2) by blast
    ultimately show ?thesis by simp
  qed
qed

section \<open>Deallocation\<close>

lemma dealloc_loop_spec:
  assumes "pmm_inv elems N pm" "k < ORDER_COUNT" "2 ^ k dvd p" "p + 2 ^ k \<le> N" "blk k p \<inter> free_frames elems pm = {}"
  shows "\<exists>pm' q j. dealloc_loop L pm p k = Some (pm', q, j) \<and> j < ORDER_COUNT \<and> pmm_wf elems N pm' \<and>
    buddy_inv N (free_sets elems pm') \<and> 2 ^ j dvd q \<and> q + 2 ^ j \<le> N \<and> blk j q \<inter> free_frames elems pm' = {} \<and>
    (j < ORDER_COUNT - 1 \<longrightarrow> buddy j q \<notin> free_sets elems pm' j) \<and>
    split_ok N ((free_sets elems pm')(j := insert q (free_sets elems pm' j))) (split_bits pm') \<and>
    free_frames elems pm' \<union> blk j q = free_frames elems pm \<union> blk k p \<and> pm_total_pages pm' = pm_total_pages pm"
  using assms
proof (induction "ORDER_COUNT - k" arbitrary: k p pm rule: less_induct)
  case less
  let ?F = "free_sets elems pm"
  have wf: "pmm_wf elems N pm" and binv: "buddy_inv N ?F" and sok: "split_ok N ?F (split_bits pm)"
    using less.prems(1) by (auto simp: pmm_inv_def)
  have pnot: "p \<notin> ?F k"
    using less.prems(5) blk_nonempty [of p k] by - (rule pages_disjoint_notin [OF less.prems(2), of _ ?F], blast)
  show ?case
  proof (cases "k < ORDER_COUNT - 1")
    case False
    then have "dealloc_loop L pm p k = Some (pm, p, k)" by (subst dealloc_loop.simps) simp
    moreover have "split_ok N (?F(k := insert p (?F k))) (split_bits pm)"
      using sok False less.prems(2) by (auto simp: split_ok_def)
    ultimately show ?thesis using wf binv less.prems False
      by (intro exI [of _ pm] exI [of _ p] exI [of _ k] conjI) simp_all
  next
    case k: True
    have pN: "p < N" using less.prems(4) zero_less_power [of "2::nat" k] by linarith
    from toggle_step [OF wf less.prems(2) pN] obtain pm1 where t: "pm_toggle_parent_split pm p k = Some pm1"
      "pmm_wf elems N pm1" "free_sets elems pm1 = ?F" "split_bits pm1 = toggle_split (split_bits pm) k p"
      "pm_total_pages pm1 = pm_total_pages pm" .
    have sok1: "split_ok N (?F(k := insert p (?F k))) (split_bits pm1)"
      unfolding t(4) using pnot by (intro split_ok_toggle sok less.prems(3)) auto
    have bit: "split_bits pm1 k (p div 2 ^ Suc k) \<longleftrightarrow> buddy k p \<notin> ?F k"
      using sok1 k pN less.prems(3) buddy_neq [of k p] by (auto simp: split_ok_def)
    note q = is_parent_split_step [OF t(2) less.prems(2) pN]
    show ?thesis
    proof (cases "buddy k p \<in> ?F k")
      case False
      then have "dealloc_loop L pm p k = Some (pm1, p, k)"
        using k bit by (subst dealloc_loop.simps) (simp add: t(1) q)
      then show ?thesis using t binv less.prems False sok1
        by (intro exI [of _ pm1] exI [of _ p] exI [of _ k] conjI) simp_all
    next
      case True
      let ?b = "buddy k p"
      from remove_step [OF t(2) less.prems(2)] True t(3) obtain lv where
        r: "remove_free L (levels pm1 ! k) ?b = Some lv" "pmm_wf elems N (set_level pm1 k lv)"
        "free_sets elems (set_level pm1 k lv) = ?F(k := ?F k - {?b})"
        "split_bits (set_level pm1 k lv) = split_bits pm1" by metis
      let ?pm = "set_level pm1 k lv"
      have alb: "2 ^ k dvd ?b" by (rule buddy_aligned [OF less.prems(3)])
      have pg: "free_frames elems ?pm = free_frames elems pm - blk k ?b"
        unfolding r(3) by (rule pages_remove [OF binv less.prems(2) True])
      have "split_ok N (?F(k := ?F k - {?b})) (toggle_split (split_bits pm) k ?b)"
        using True by (intro split_ok_toggle sok alb) auto
      moreover have "toggle_split (split_bits pm) k ?b = split_bits ?pm"
        unfolding r(4) t(4) using buddy_index [OF less.prems(3)] by (simp only: toggle_split_def)
      ultimately have inv: "pmm_inv elems N ?pm"
        unfolding pmm_inv_def r(3) using r(2) buddy_inv_remove [OF binv] by simp
      have bsub: "blk k ?b \<subseteq> free_frames elems pm" using True less.prems(2) by (auto simp: pages_def)
      have par: "blk (Suc k) (parent k p) = blk k p \<union> blk k ?b" by (rule parent_blk [OF less.prems(3)])
      have disj: "blk (Suc k) (parent k p) \<inter> free_frames elems ?pm = {}"
        unfolding par pg using less.prems(5) by blast
      have un: "free_frames elems ?pm \<union> blk (Suc k) (parent k p) = free_frames elems pm \<union> blk k p"
        unfolding par pg using bsub by blast
      have pb: "parent k p + 2 ^ Suc k \<le> N"
        using less.prems(3,4) free_bounds(2) [OF less.prems(1,2) True]
        by (cases rule: buddy_cases) auto
      have "p < USIZE_LIM" using pN wf by (simp add: pmm_wf_def layout_consts USIZE_LIM_def)
      then have step: "dealloc_loop L pm p k = dealloc_loop L ?pm (parent k p) (Suc k)"
        using k bit True less.prems(2,3)
        by (subst dealloc_loop.simps) (simp add: t(1) q buddy_of_eq parent_of_eq pmm_wfD(1) [OF t(2)] r(1))
      have k1: "ORDER_COUNT - Suc k < ORDER_COUNT - k" "Suc k < ORDER_COUNT" using k less.prems(2) by simp_all
      show ?thesis
        unfolding step un [symmetric] using less.hyps [OF k1(1) inv k1(2) parent_aligned pb disj] t(5)
        by simp
    qed
  qed
qed

end

context frame_list
begin

text \<open>
  \<open>deallocate\<close> of an aligned block that lies in the managed range and has no free frame never panics, and adds
  the block to the free frames.
\<close>

lemma deallocate_spec:
  assumes inv: "pmm_inv elems N pm" and k: "k < ORDER_COUNT" and p: "2 ^ k dvd p" "p + 2 ^ k \<le> N"
    and fresh: "blk k p \<inter> free_frames elems pm = {}"
  shows "\<exists>pm'. pm_deallocate L pm p k = Some pm' \<and> pmm_inv elems N pm' \<and>
    free_frames elems pm' = free_frames elems pm \<union> blk k p \<and> pm_total_pages pm' = pm_total_pages pm"
proof -
  from dealloc_loop_spec [OF assms] obtain pm1 q j where
    l: "dealloc_loop L pm p k = Some (pm1, q, j)" "j < ORDER_COUNT" "pmm_wf elems N pm1"
    "buddy_inv N (free_sets elems pm1)" "2 ^ j dvd q" "q + 2 ^ j \<le> N" "blk j q \<inter> free_frames elems pm1 = {}"
    "j < ORDER_COUNT - 1 \<Longrightarrow> buddy j q \<notin> free_sets elems pm1 j"
    "split_ok N ((free_sets elems pm1)(j := insert q (free_sets elems pm1 j))) (split_bits pm1)"
    "free_frames elems pm1 \<union> blk j q = free_frames elems pm \<union> blk k p" "pm_total_pages pm1 = pm_total_pages pm"
    by blast
  have qN: "q < N" using l(6) zero_less_power [of "2::nat" j] by linarith
  have "q \<notin> free_frames elems pm1" using l(7) blk_nonempty [of q j] by blast
  from push_step [OF l(3,2) qN pages_disjoint_notin [OF l(2) this]] obtain lv where
    u: "push_free L (levels pm1 ! j) q = Some lv" "pmm_wf elems N (set_level pm1 j lv)"
    "free_sets elems (set_level pm1 j lv) = (free_sets elems pm1)(j := insert q (free_sets elems pm1 j))"
    "split_bits (set_level pm1 j lv) = split_bits pm1" .
  have "ushl 1 k = Some (2 ^ k)" using k by (subst ushl_one) (simp add: ORDER_COUNT_def)
  moreover have "p AND (2 ^ k - 1) = 0" using p(1) by (simp only: nat_and_mask mod_eq_0_iff_dvd)
  ultimately have "pm_deallocate L pm p k = Some (set_level pm1 j lv)"
    by (simp add: pm_deallocate_def usub_def uassert_def l(1) pmm_wfD(1) [OF l(3,2)] u(1))
  moreover have "pmm_inv elems N (set_level pm1 j lv)"
    unfolding pmm_inv_def u(3,4) using u(2) buddy_inv_insert [OF l(4,2,5,6,7,8)] l(9) by simp
  moreover have "free_frames elems (set_level pm1 j lv) = free_frames elems pm \<union> blk k p"
    unfolding u(3) pages_insert [OF l(2)] by (rule l(10))
  ultimately show ?thesis using l(11) by simp
qed

lemma add_range_loop_spec:
  assumes "pmm_inv elems N pm" "start \<le> end" "end \<le> N" "{start..<end} \<inter> free_frames elems pm = {}"
  shows "\<exists>pm'. add_range_loop L pm start end = Some pm' \<and> pmm_inv elems N pm' \<and>
    free_frames elems pm' = free_frames elems pm \<union> {start..<end} \<and> pm_total_pages pm' = pm_total_pages pm"
  using assms
proof (induction "end - start" arbitrary: start pm rule: less_induct)
  case less
  have lim: "N < USIZE_LIM" using less.prems(1) by (simp add: pmm_inv_def pmm_wf_def layout_consts USIZE_LIM_def)
  show ?case
  proof (cases "start < end")
    case False
    then show ?thesis using less.prems by (subst add_range_loop.simps) simp
  next
    case True
    have d: "0 < end - start" "end - start < USIZE_LIM" using True less.prems(3) lim by simp_all
    obtain r where r: "log2 (end - start) = Some r" using log2_Some [OF d] by blast
    define k where "k = min (min (trailing_zeros start) r) (ORDER_COUNT - 1)"
    have k: "k < ORDER_COUNT" "k \<le> trailing_zeros start" "k \<le> r" by (auto simp: k_def ORDER_COUNT_def)
    have "2 ^ k \<le> (2::nat) ^ r" using k(3) by (intro power_increasing) auto
    then have le: "start + 2 ^ k \<le> end" using log2_spec(1) [OF r d(2)] True by linarith
    have al: "2 ^ k dvd start"
    proof (cases "start = 0")
      case False
      then have "2 ^ trailing_zeros start dvd start" using trailing_zeros_dvd [of start] by (simp add: trailing_zeros_def)
      then show ?thesis by (rule dvd_trans [OF two_power_dvd_power [OF k(2)]])
    qed simp
    have sub: "blk k start \<subseteq> {start..<end}" using le by (auto simp: blk_def)
    obtain pm1 where s: "pm_deallocate L pm start k = Some pm1" "pmm_inv elems N pm1"
      "free_frames elems pm1 = free_frames elems pm \<union> blk k start" "pm_total_pages pm1 = pm_total_pages pm"
      using deallocate_spec [OF less.prems(1) k(1) al] le less.prems(3,4) sub by (meson disjoint_iff order_trans subset_iff)
    have "uadd start (2 ^ k) = Some (start + 2 ^ k)" using le less.prems(3) lim by (simp add: uadd_def)
    then have step: "add_range_loop L pm start end = add_range_loop L pm1 (start + 2 ^ k) end"
      using True by (subst add_range_loop.simps) (simp add: r k_def [symmetric] s(1) Let_def del: One_nat_def)
    have "{start + 2 ^ k..<end} \<subseteq> {start..<end} - blk k start" by (auto simp: blk_def)
    then have "{start + 2 ^ k..<end} \<inter> free_frames elems pm1 = {}"
      unfolding s(3) using less.prems(4) by blast
    moreover have "end - (start + 2 ^ k) < end - start" using True by (intro diff_less_mono2) simp_all
    ultimately have ih: "\<exists>pm'. add_range_loop L pm1 (start + 2 ^ k) end = Some pm' \<and> pmm_inv elems N pm' \<and>
        free_frames elems pm' = free_frames elems pm1 \<union> {start + 2 ^ k..<end} \<and> pm_total_pages pm' = pm_total_pages pm1"
      using less.hyps s(2) le less.prems(3) by blast
    have "blk k start \<union> {start + 2 ^ k..<end} = {start..<end}"
      using le unfolding blk_def by (intro ivl_disj_un_two(3)) auto
    then show ?thesis using ih unfolding step s(3,4) Un_assoc by simp
  qed
qed

lemma add_free_range_spec:
  assumes "pmm_inv elems N pm" "start \<le> end" "end \<le> N" "{start..<end} \<inter> free_frames elems pm = {}"
    "pm_total_pages pm + (end - start) < USIZE_LIM"
  shows "\<exists>pm'. pm_add_free_range L pm start end = Some pm' \<and> pmm_inv elems N pm' \<and>
    free_frames elems pm' = free_frames elems pm \<union> {start..<end} \<and>
    pm_total_pages pm' = pm_total_pages pm + (end - start)"
proof -
  from add_range_loop_spec [OF assms(1-4)] obtain pm' where l: "add_range_loop L pm start end = Some pm'"
    "pmm_inv elems N pm'" "free_frames elems pm' = free_frames elems pm \<union> {start..<end}"
    "pm_total_pages pm' = pm_total_pages pm" by blast
  let ?pm = "pm'\<lparr>pm_total_pages := pm_total_pages pm + (end - start)\<rparr>"
  have "pm_add_free_range L pm start end = Some ?pm"
    using assms(2,5) l(4) by (simp add: pm_add_free_range_def usub_def uadd_def l(1))
  moreover have fs: "free_sets elems ?pm = free_sets elems pm'" "split_bits ?pm = split_bits pm'"
    by (simp_all add: free_sets_def split_bits_def fun_eq_iff)
  moreover have "pmm_inv elems N ?pm" using l(2) unfolding pmm_inv_def pmm_wf_def fs by simp
  ultimately show ?thesis using l(3) by simp
qed

end

section \<open>Counting\<close>

lemma card_pages:
  assumes inv: "buddy_inv N F"
  shows "card (pages F) = (\<Sum>k<ORDER_COUNT. card (F k) * 2 ^ k)"
proof -
  let ?I = "Sigma {..<ORDER_COUNT} F"
  have fin: "finite (F k)" if "k < ORDER_COUNT" for k
  proof (rule finite_subset)
    show "F k \<subseteq> {..N}" using buddy_invD(2) [OF inv that] by fastforce
  qed simp
  have "pages F = (\<Union>(k, p)\<in>?I. blk k p)" by (auto simp: pages_def)
  also have "card \<dots> = (\<Sum>i\<in>?I. card (case i of (k, p) \<Rightarrow> blk k p))"
  proof (rule card_UN_disjoint)
    show "finite ?I" using fin by (intro finite_SigmaI) auto
    show "\<forall>i\<in>?I. finite (case i of (k, p) \<Rightarrow> blk k p)" by (auto simp: blk_def)
    show "\<forall>i\<in>?I. \<forall>j\<in>?I. i \<noteq> j \<longrightarrow> (case i of (k, p) \<Rightarrow> blk k p) \<inter> (case j of (k, p) \<Rightarrow> blk k p) = {}"
      using inv unfolding buddy_inv_def by auto
  qed
  also have "\<dots> = (\<Sum>(k, p)\<in>?I. 2 ^ k)" by (intro sum.cong) (auto simp: blk_def)
  also have "\<dots> = (\<Sum>k<ORDER_COUNT. \<Sum>p\<in>F k. 2 ^ k)" using fin by (subst sum.Sigma) auto
  finally show ?thesis by simp
qed

lemma free_frames_bounds:
  assumes "pmm_inv elems N pm"
  shows "free_frames elems pm \<subseteq> {..<N}" "finite (free_frames elems pm)" "card (free_frames elems pm) \<le> N"
proof -
  show s: "free_frames elems pm \<subseteq> {..<N}"
  proof
    fix x assume "x \<in> free_frames elems pm"
    then obtain k p where "k < ORDER_COUNT" "p \<in> free_sets elems pm k" "x \<in> blk k p" by (auto simp: pages_def)
    then show "x \<in> {..<N}" using free_bounds(2) [OF assms] by (fastforce simp: blk_def)
  qed
  then show "finite (free_frames elems pm)" by (rule finite_subset) simp
  show "card (free_frames elems pm) \<le> N" using card_mono [OF _ s] by simp
qed

lemma free_blocks_card:
  assumes inv: "pmm_inv elems N pm" and k: "k < ORDER_COUNT"
  shows "free_blocks (levels pm ! k) = card (free_sets elems pm k)"
proof -
  have wf: "pmm_wf elems N pm" using inv by (simp add: pmm_inv_def)
  show ?thesis using level_wfD(1) pmm_wfD(2,3) [OF wf k] by metis
qed

lemma free_pages_spec:
  assumes inv: "pmm_inv elems N pm"
  shows "pm_free_pages pm = Some (card (free_frames elems pm))"
proof -
  let ?S = "\<lambda>k. \<Sum>j = k..<ORDER_COUNT. card (free_sets elems pm j) * 2 ^ j"
  have wf: "pmm_wf elems N pm" and binv: "buddy_inv N (free_sets elems pm)" using inv by (auto simp: pmm_inv_def)
  have total: "?S 0 = card (free_frames elems pm)" by (simp add: card_pages [OF binv] atLeast0LessThan)
  have lim: "?S k < USIZE_LIM" for k
  proof -
    have "?S k \<le> ?S 0" by (intro sum_mono2) auto
    also have "\<dots> \<le> N" using total free_frames_bounds(3) [OF inv] by simp
    also have "\<dots> < USIZE_LIM" using wf by (simp add: pmm_wf_def layout_consts USIZE_LIM_def)
    finally show ?thesis .
  qed
  have "free_pages_from k (drop k (levels pm)) = Some (?S k)" if "k \<le> ORDER_COUNT" for k
    using that
  proof (induction "ORDER_COUNT - k" arbitrary: k)
    case 0
    then show ?case using wf by (simp add: pmm_wf_def)
  next
    case (Suc d)
    then have k: "k < ORDER_COUNT" by simp
    have e: "drop k (levels pm) = levels pm ! k # drop (Suc k) (levels pm)"
      using k wf by (intro Cons_nth_drop_Suc [symmetric]) (simp add: pmm_wf_def)
    have s: "?S k = card (free_sets elems pm k) * 2 ^ k + ?S (Suc k)" using k by (rule sum.atLeast_Suc_lessThan)
    have fb: "free_blocks (levels pm ! k) = card (free_sets elems pm k)"
      by (rule free_blocks_card [OF inv k])
    have "ushl (card (free_sets elems pm k)) k = Some (card (free_sets elems pm k) * 2 ^ k)"
      using k lim [of k] s by (intro ushl_small) (auto simp: ORDER_COUNT_def)
    then show ?case unfolding e using Suc.hyps(1) [of "Suc k"] Suc.hyps(2) k lim [of k] s
      by (simp add: fb uadd_def)
  qed
  from this [of 0] show ?thesis by (simp only: pm_free_pages_def drop_0 total le0)
qed

section \<open>Creation\<close>

definition splitmap_size :: "nat \<Rightarrow> nat \<Rightarrow> nat" where
  "splitmap_size N k = N div 2 ^ (k + 4) + 1"

lemma splitmap_bytes_spec:
  assumes "N \<le> PHYS_MAP_MAX_PAGES" "k < ORDER_COUNT"
  obtains nbits nbytes where "uadd k 1 = Some (Suc k)" "ushl 1 (Suc k) = Some (2 ^ Suc k)"
    "div_ceil N (2 ^ Suc k) = Some nbits"
    "bytes_required nbits = Some nbytes" "nbytes \<le> splitmap_size N k" "nbytes \<le> 2 ^ 40"
    "\<forall>p<N. p div 2 ^ Suc k < 8 * nbytes"
proof -
  have k: "k < 16" "k < 63" using assms(2) by (simp_all add: ORDER_COUNT_def)
  let ?d = "2 ^ Suc k :: nat" let ?bits = "(N + ?d - 1) div ?d" let ?bytes = "(?bits + 8 - 1) div 8"
  have d: "0 < ?d" by simp
  have dlim: "?d \<le> 2 ^ 16" using k(1) by (intro power_increasing) auto
  have N: "N \<le> 2 ^ 34" using assms(1) by (simp add: layout_consts)
  have b1: "div_ceil N ?d = Some ?bits"
    using d dlim N by (simp add: div_ceil_Some_iff USIZE_LIM_def del: power_Suc)
  have le: "?bits \<le> N div ?d + 1"
  proof -
    have "(N + ?d - 1) div ?d \<le> (N + ?d) div ?d" by (intro div_le_mono) simp
    also have "\<dots> = N div ?d + 1" using d by (simp only: div_add_self2)
    finally show ?thesis .
  qed
  have le2: "N div ?d \<le> 2 ^ 34" using N div_le_dividend le_trans by blast
  have b2: "bytes_required ?bits = Some ?bytes"
    using le le2 by (simp add: bytes_required_def div_ceil_Some_iff USIZE_LIM_def del: power_Suc)
  have "?bytes \<le> (N div ?d + 8) div 8" using le by (intro div_le_mono) linarith
  also have "\<dots> = N div ?d div 8 + 1" by simp
  finally have bound: "?bytes \<le> N div ?d div 8 + 1" .
  have "N div ?d div 8 = N div 2 ^ (k + 4)" by (simp add: div_mult2_eq [symmetric] power_add mult.commute)
  then have sz: "?bytes \<le> splitmap_size N k" using bound by (simp add: splitmap_size_def)
  have "N div ?d div 8 \<le> 2 ^ 34" using le2 by simp
  then have big: "?bytes \<le> 2 ^ 40" using bound by simp
  have idx: "p div ?d < 8 * ?bytes" if "p < N" for p
  proof -
    have "p div ?d < ?bits" using div_ceil_index_bound [OF b1 that] .
    also have "?bits \<le> ?bytes * 8" using div_ceil_spec(1) [of ?bits 8 ?bytes] b2 by (simp add: bytes_required_def)
    finally show ?thesis by simp
  qed
  show thesis
  proof (rule that [OF _ _ b1 b2 sz big])
    show "uadd k 1 = Some (Suc k)" using k by (simp add: uadd_def USIZE_LIM_def)
    show "ushl 1 (Suc k) = Some (2 ^ Suc k)" using k(2) by (subst ushl_one) simp
    show "\<forall>p<N. p div ?d < 8 * ?bytes" using idx by blast
  qed
qed

lemma bits_replicate_zero [simp]: "bits (replicate n 0) = (\<lambda>_. False)"
  by (auto simp: bits_def fun_eq_iff)

context frame_list
begin

lemma new_levels_spec:
  assumes "N \<le> PHYS_MAP_MAX_PAGES" "\<forall>k\<in>set os. k < ORDER_COUNT" "bh_end bh \<le> PHYS_MAP_MAX_PAGES * PAGE_SIZE"
    and "bh_cur bh + (\<Sum>k\<leftarrow>os. splitmap_size N k) < bh_end bh"
  shows "\<exists>ls bh'. new_levels L N os bh = Some (ls, bh') \<and> length ls = length os \<and>
    bh_cur bh \<le> bh_cur bh' \<and> bh_cur bh' \<le> bh_cur bh + (\<Sum>k\<leftarrow>os. splitmap_size N k) \<and>
    bh_base bh' = bh_base bh \<and> bh_end bh' = bh_end bh \<and>
    (\<forall>i<length os. level_wf elems N (os ! i) (ls ! i) \<and> level_free elems (ls ! i) = {} \<and>
       bits (splitmap (ls ! i)) = (\<lambda>_. False))"
  using assms(2-)
proof (induction os arbitrary: bh)
  case Nil
  then show ?case by simp
next
  case (Cons k os)
  have k: "k < ORDER_COUNT" using Cons.prems(1) by simp
  from splitmap_bytes_spec [OF assms(1) k] obtain nbits n where b: "uadd k 1 = Some (Suc k)"
    "ushl 1 (Suc k) = Some (2 ^ Suc k)" "div_ceil N (2 ^ Suc k) = Some nbits"
    "bytes_required nbits = Some n" "n \<le> splitmap_size N k" "n \<le> 2 ^ 40" "\<forall>p<N. p div 2 ^ Suc k < 8 * n" .
  have lay: "layout_from_size_align n 1 = Some \<lparr>lay_size = n, lay_align = 1\<rparr>"
    using b(6) by (simp add: layout_from_size_align_def is_pow2_def)
  have lim: "bh_end bh < USIZE_LIM" using Cons.prems(2) by (simp add: layout_consts PAGE_SIZE_eq USIZE_LIM_def)
  have fit: "bh_cur bh + n < bh_end bh" using Cons.prems(3) b(5) by simp
  have "addr_align_up (bh_cur bh) 1 = Some (bh_cur bh)"
    using fit lim by (simp add: addr_align_up_def align_up_Some_iff)
  then have al: "alloc_phys bh \<lparr>lay_size = n, lay_align = 1\<rparr> = Some (bh_cur bh, bh\<lparr>bh_cur := bh_cur bh + n\<rparr>)"
    using fit lim by (simp add: alloc_phys_def uadd_def)
  have pm: "paddr_to_physmap (bh_cur bh) = Some (PHYS_MAP_BASE * PAGE_SIZE + bh_cur bh)"
    using fit Cons.prems(2) by (intro paddr_to_physmap_eq) simp
  let ?bh = "bh\<lparr>bh_cur := bh_cur bh + n\<rparr>" and ?lv = "\<lparr>free_list = ll_new L, free_blocks = 0, splitmap = replicate n 0\<rparr>"
  obtain ls bh' where r: "new_levels L N os ?bh = Some (ls, bh')" "length ls = length os"
    "bh_cur ?bh \<le> bh_cur bh'" "bh_cur bh' \<le> bh_cur ?bh + (\<Sum>k\<leftarrow>os. splitmap_size N k)"
    "bh_base bh' = bh_base ?bh" "bh_end bh' = bh_end ?bh"
    "\<forall>i<length os. level_wf elems N (os ! i) (ls ! i) \<and> level_free elems (ls ! i) = {} \<and>
       bits (splitmap (ls ! i)) = (\<lambda>_. False)"
    using Cons.IH [of ?bh] Cons.prems b(5) by auto
  have "new_levels L N (k # os) bh = Some (?lv # ls, bh')"
    unfolding new_levels.simps b(1) Option.bind.bind_lunit b(2-4) lay al by (simp add: pm r(1))
  moreover have "level_wf elems N k ?lv" "level_free elems ?lv = {}"
    using b(7) by (auto simp: level_wf_def level_free_def elems_new bm_len_def)
  ultimately show ?case using r b(5) by (auto simp: nth_Cons split: nat.splits)
qed

lemma new_spec:
  assumes "N \<le> PHYS_MAP_MAX_PAGES" "bh_end bh \<le> PHYS_MAP_MAX_PAGES * PAGE_SIZE"
    and "bh_cur bh + (\<Sum>k\<leftarrow>[0..<ORDER_COUNT]. splitmap_size N k) < bh_end bh"
  shows "\<exists>pm bh'. pm_new L N bh = Some (pm, bh') \<and> pmm_inv elems N pm \<and> free_frames elems pm = {} \<and>
    pm_total_pages pm = 0 \<and> bh_cur bh \<le> bh_cur bh' \<and> bh_cur bh' < bh_end bh \<and>
    bh_base bh' = bh_base bh \<and> bh_end bh' = bh_end bh"
proof -
  obtain ls bh' where l: "new_levels L N [0..<ORDER_COUNT] bh = Some (ls, bh')" "length ls = ORDER_COUNT"
    "bh_cur bh \<le> bh_cur bh'" "bh_cur bh' \<le> bh_cur bh + (\<Sum>k\<leftarrow>[0..<ORDER_COUNT]. splitmap_size N k)"
    "bh_base bh' = bh_base bh" "bh_end bh' = bh_end bh"
    and lv: "\<forall>i<ORDER_COUNT. level_wf elems N i (ls ! i) \<and> level_free elems (ls ! i) = {} \<and>
       bits (splitmap (ls ! i)) = (\<lambda>_. False)"
    using new_levels_spec [OF assms(1) _ assms(2,3)] by auto
  let ?pm = "\<lparr>pm_total_pages = 0, levels = ls\<rparr>"
  have F: "free_sets elems ?pm = (\<lambda>_. {})" using lv l(2) by (auto simp: free_sets_def fun_eq_iff)
  have "pmm_wf elems N ?pm" using lv l(2) assms(1) by (simp add: pmm_wf_def)
  moreover have "split_ok N (\<lambda>_. {}) (split_bits ?pm)" using lv by (simp add: split_ok_def split_bits_def)
  ultimately have "pmm_inv elems N ?pm" unfolding pmm_inv_def F by (simp add: buddy_inv_def)
  moreover have "pm_new L N bh = Some (?pm, bh')" by (simp add: pm_new_def l(1))
  moreover have "free_frames elems ?pm = {}" unfolding F by (simp add: pages_def)
  ultimately show ?thesis using l assms(3) by auto
qed

end

section \<open>Runs of the allocator\<close>

text \<open>
  A run starts from a new manager and makes the calls of the public interface. The state carries, beside the
  manager, the frames \<open>owned\<close> reported by \<open>add_free_range\<close> and the blocks \<open>live\<close> that are allocated and not yet freed.
  The premises are the safety conditions documented for the calls, and nothing more.
\<close>

record 'l pmm_run =
  manager :: "'l phys_manager"
  owned :: "pfn set"
  live :: "(pfn \<times> nat) set"

definition live_frames :: "(pfn \<times> nat) set \<Rightarrow> pfn set" where
  "live_frames A = (\<Union>(p, k)\<in>A. blk k p)"

inductive pmm_reach :: "(virt_addr, 'l) ll_ops \<Rightarrow> nat \<Rightarrow> 'l phys_manager \<Rightarrow> 'l pmm_run \<Rightarrow> bool"
  for L :: "(virt_addr, 'l) ll_ops" and N :: nat and pm0 :: "'l phys_manager" where
  reach_new: "pmm_reach L N pm0 \<lparr>manager = pm0, owned = {}, live = {}\<rparr>"
| reach_add: "pmm_reach L N pm0 s \<Longrightarrow> start \<le> end \<Longrightarrow> end \<le> N \<Longrightarrow> {start..<end} \<inter> owned s = {} \<Longrightarrow>
    pm_add_free_range L (manager s) start end = Some pm \<Longrightarrow>
    pmm_reach L N pm0 (s\<lparr>manager := pm, owned := owned s \<union> {start..<end}\<rparr>)"
| reach_alloc: "pmm_reach L N pm0 s \<Longrightarrow> pm_allocate L (manager s) k = Some (Some p, pm) \<Longrightarrow>
    pmm_reach L N pm0 (s\<lparr>manager := pm, live := insert (p, k) (live s)\<rparr>)"
| reach_fail: "pmm_reach L N pm0 s \<Longrightarrow> pm_allocate L (manager s) k = Some (None, pm) \<Longrightarrow>
    pmm_reach L N pm0 (s\<lparr>manager := pm\<rparr>)"
| reach_free: "pmm_reach L N pm0 s \<Longrightarrow> (p, k) \<in> live s \<Longrightarrow> pm_deallocate L (manager s) p k = Some pm \<Longrightarrow>
    pmm_reach L N pm0 (s\<lparr>manager := pm, live := live s - {(p, k)}\<rparr>)"

definition disjoint_blocks :: "(pfn \<times> nat) set \<Rightarrow> bool" where
  "disjoint_blocks A \<longleftrightarrow>
     (\<forall>p k q j. (p, k) \<in> A \<longrightarrow> (q, j) \<in> A \<longrightarrow> (p, k) \<noteq> (q, j) \<longrightarrow> blk k p \<inter> blk j q = {})"

definition run_inv :: "('l \<Rightarrow> virt_addr list) \<Rightarrow> nat \<Rightarrow> 'l pmm_run \<Rightarrow> bool" where
  "run_inv elems N s \<longleftrightarrow> pmm_inv elems N (manager s) \<and> owned s \<subseteq> {..<N} \<and>
     free_frames elems (manager s) \<inter> live_frames (live s) = {} \<and>
     free_frames elems (manager s) \<union> live_frames (live s) = owned s \<and>
     pm_total_pages (manager s) = card (owned s) \<and>
     (\<forall>(p, k)\<in>live s. k < ORDER_COUNT \<and> 2 ^ k dvd p) \<and>
     disjoint_blocks (live s)"

lemma live_frames_insert [simp]: "live_frames (insert (p, k) A) = blk k p \<union> live_frames A"
  by (simp add: live_frames_def)

lemma live_frames_mem: "(p, k) \<in> A \<Longrightarrow> blk k p \<subseteq> live_frames A"
  by (auto simp: live_frames_def)

lemma live_frames_remove:
  assumes "(p, k) \<in> A" "disjoint_blocks A"
  shows "live_frames (A - {(p, k)}) = live_frames A - blk k p"
proof (intro equalityI subsetI)
  fix x assume "x \<in> live_frames (A - {(p, k)})"
  then obtain q j where "(q, j) \<in> A" "(q, j) \<noteq> (p, k)" "x \<in> blk j q" by (auto simp: live_frames_def)
  with assms show "x \<in> live_frames A - blk k p" unfolding live_frames_def disjoint_blocks_def by blast
next
  fix x assume "x \<in> live_frames A - blk k p"
  then show "x \<in> live_frames (A - {(p, k)})" unfolding live_frames_def by blast
qed

lemma live_block_bound:
  assumes "run_inv elems N s" "(p, k) \<in> live s"
  shows "k < ORDER_COUNT" "2 ^ k dvd p" "p + 2 ^ k \<le> N" "blk k p \<inter> free_frames elems (manager s) = {}"
proof -
  show "k < ORDER_COUNT" "2 ^ k dvd p" using assms by (auto simp: run_inv_def)
  have sub: "blk k p \<subseteq> live_frames (live s)" by (rule live_frames_mem [OF assms(2)])
  then show "blk k p \<inter> free_frames elems (manager s) = {}" using assms(1) unfolding run_inv_def by blast
  have "blk k p \<subseteq> {..<N}" using sub assms(1) unfolding run_inv_def by blast
  moreover from this have "0 < N" using blk_nonempty [of p k] by (cases N) auto
  ultimately show "p + 2 ^ k \<le> N" by (simp add: blk_bound)
qed

context frame_list
begin

lemma run_inv_add:
  assumes inv: "run_inv elems N s" and r: "start \<le> end" "end \<le> N" "{start..<end} \<inter> owned s = {}"
  obtains pm where "pm_add_free_range L (manager s) start end = Some pm"
    "run_inv elems N (s\<lparr>manager := pm, owned := owned s \<union> {start..<end}\<rparr>)"
proof -
  have pinv: "pmm_inv elems N (manager s)" and own: "owned s \<subseteq> {..<N}"
    and tot: "pm_total_pages (manager s) = card (owned s)"
    using inv by (auto simp: run_inv_def)
  have fin: "finite (owned s)" using own by (rule finite_subset) simp
  have "owned s \<union> {start..<end} \<subseteq> {..<N}" using own r(2) by auto
  then have "card (owned s \<union> {start..<end}) \<le> card {..<N}" by (rule card_mono [rotated]) simp
  then have c: "card (owned s) + (end - start) \<le> N" using card_Un_disjoint [of "owned s" "{start..<end}"] fin r(3)
    by (simp add: Int_commute)
  have "N < USIZE_LIM" using pinv by (simp add: pmm_inv_def pmm_wf_def layout_consts USIZE_LIM_def)
  then have lim: "pm_total_pages (manager s) + (end - start) < USIZE_LIM" using c tot by simp
  have "free_frames elems (manager s) \<subseteq> owned s" using inv unfolding run_inv_def by blast
  then have dis: "{start..<end} \<inter> free_frames elems (manager s) = {}" using r(3) by blast
  from add_free_range_spec [OF pinv r(1,2) dis lim] obtain pm where pm: "pm_add_free_range L (manager s) start end = Some pm" "pmm_inv elems N pm"
    "free_frames elems pm = free_frames elems (manager s) \<union> {start..<end}"
    "pm_total_pages pm = pm_total_pages (manager s) + (end - start)"
    by blast
  have "run_inv elems N (s\<lparr>manager := pm, owned := owned s \<union> {start..<end}\<rparr>)"
    unfolding run_inv_def
  proof (intro conjI)
    show "pm_total_pages (manager (s\<lparr>manager := pm, owned := owned s \<union> {start..<end}\<rparr>)) =
      card (owned (s\<lparr>manager := pm, owned := owned s \<union> {start..<end}\<rparr>))"
      using pm(4) tot fin r(3) by (simp add: card_Un_disjoint Int_commute)
  qed (use inv pm r(2,3) in \<open>auto simp: run_inv_def\<close>)
  with pm(1) that show thesis by blast
qed

lemma run_inv_alloc:
  assumes inv: "run_inv elems N s" and a: "pm_allocate L (manager s) k = Some (Some p, pm)"
  shows "run_inv elems N (s\<lparr>manager := pm, live := insert (p, k) (live s)\<rparr>)" "blk k p \<subseteq> free_frames elems (manager s)"
proof -
  have pinv: "pmm_inv elems N (manager s)" using inv by (auto simp: run_inv_def)
  have k: "k < ORDER_COUNT" using a by (auto simp: pm_allocate_def split: if_splits)
  from allocate_spec [OF pinv k] a have r: "pmm_inv elems N pm" "2 ^ k dvd p" "blk k p \<subseteq> free_frames elems (manager s)"
    "free_frames elems pm = free_frames elems (manager s) - blk k p" "pm_total_pages pm = pm_total_pages (manager s)"
    by auto
  show "blk k p \<subseteq> free_frames elems (manager s)" by (rule r(3))
  have new: "blk k p \<inter> blk j q = {}" if "(q, j) \<in> live s" for q j
    using live_block_bound(4) [OF inv that] r(3) by blast
  show "run_inv elems N (s\<lparr>manager := pm, live := insert (p, k) (live s)\<rparr>)"
    unfolding run_inv_def
  proof (intro conjI)
    let ?s = "s\<lparr>manager := pm, live := insert (p, k) (live s)\<rparr>"
    show "disjoint_blocks (live ?s)"
      using inv new unfolding run_inv_def disjoint_blocks_def by simp blast
    show "free_frames elems (manager ?s) \<inter> live_frames (live ?s) = {}"
      using inv unfolding run_inv_def by (simp add: r(4)) blast
    show "free_frames elems (manager ?s) \<union> live_frames (live ?s) = owned ?s"
      using inv r(3) unfolding run_inv_def by (simp add: r(4)) blast
  qed (use inv r k in \<open>auto simp: run_inv_def\<close>)
qed

lemma run_inv_free:
  assumes inv: "run_inv elems N s" and l: "(p, k) \<in> live s"
  obtains pm where "pm_deallocate L (manager s) p k = Some pm"
    "run_inv elems N (s\<lparr>manager := pm, live := live s - {(p, k)}\<rparr>)"
proof -
  have pinv: "pmm_inv elems N (manager s)" and dis: "disjoint_blocks (live s)"
    using inv by (auto simp: run_inv_def)
  note lb = live_block_bound [OF inv l]
  from deallocate_spec [OF pinv lb] obtain pm where pm: "pm_deallocate L (manager s) p k = Some pm" "pmm_inv elems N pm"
    "free_frames elems pm = free_frames elems (manager s) \<union> blk k p" "pm_total_pages pm = pm_total_pages (manager s)"
    by blast
  have lf: "live_frames (live s - {(p, k)}) = live_frames (live s) - blk k p" by (rule live_frames_remove [OF l dis])
  have "run_inv elems N (s\<lparr>manager := pm, live := live s - {(p, k)}\<rparr>)"
    unfolding run_inv_def
  proof (intro conjI)
    let ?s = "s\<lparr>manager := pm, live := live s - {(p, k)}\<rparr>"
    show "free_frames elems (manager ?s) \<inter> live_frames (live ?s) = {}"
      using inv unfolding run_inv_def by (simp add: pm(3) lf) blast
    show "free_frames elems (manager ?s) \<union> live_frames (live ?s) = owned ?s"
      using inv live_frames_mem [OF l] unfolding run_inv_def by (simp add: pm(3) lf) blast
    show "disjoint_blocks (live ?s)"
      using dis by (simp add: disjoint_blocks_def)
  qed (use inv pm in \<open>auto simp: run_inv_def\<close>)
  with pm(1) that show thesis by blast
qed

lemma run_inv_reach:
  assumes "pmm_reach L N pm0 s" "pmm_inv elems N pm0" "free_frames elems pm0 = {}" "pm_total_pages pm0 = 0"
  shows "run_inv elems N s"
  using assms
proof (induction rule: pmm_reach.induct)
  case reach_new
  then show ?case by (simp add: run_inv_def live_frames_def disjoint_blocks_def)
next
  case (reach_add s start "end" pm)
  then show ?case using run_inv_add [of N s start "end"] by (metis option.inject)
next
  case (reach_alloc s k p pm)
  then show ?case using run_inv_alloc(1) by blast
next
  case (reach_fail s k pm)
  then have inv: "run_inv elems N s" by blast
  then have "pm = manager s"
    using allocate_spec [of N "manager s" k] reach_fail.hyps(2) by (cases "k < ORDER_COUNT") (auto simp: run_inv_def pm_allocate_def)
  then show ?case using inv by simp
next
  case (reach_free s p k pm)
  then show ?case using run_inv_free [of N s p k] by (metis option.inject)
qed

end

interpretation seq_fl: frame_list seq_list "\<lambda>l. l"
  by unfold_locales

section \<open>An example\<close>

text \<open>A manager of 1024 frames on the sequence lists, with 44 free frames from frame 256 on.\<close>

definition example_heap :: boot_heap where
  "example_heap = \<lparr>bh_base = 0x200000, bh_cur = 0x200000, bh_end = 0x300000\<rparr>"

definition example_pmm :: "virt_addr list phys_manager option" where
  "example_pmm = do { (pm, _) \<leftarrow> pm_new seq_list 1024 example_heap; pm_add_free_range seq_list pm 256 300 }"

lemma example_heap_room: "bh_cur example_heap + (\<Sum>k\<leftarrow>[0..<ORDER_COUNT]. splitmap_size 1024 k) < bh_end example_heap"
  "bh_end example_heap \<le> PHYS_MAP_MAX_PAGES * PAGE_SIZE" "(1024::nat) \<le> PHYS_MAP_MAX_PAGES"
  by (simp_all add: example_heap_def ORDER_COUNT_def splitmap_size_def upt_rec layout_consts PAGE_SIZE_eq)

lemma example_new:
  obtains pm bh where "pm_new seq_list 1024 example_heap = Some (pm, bh)" "pmm_inv (\<lambda>l. l) 1024 pm"
    "free_frames (\<lambda>l. l) pm = {}" "pm_total_pages pm = 0"
  using seq_fl.new_spec [OF example_heap_room(3,2,1)] by blast

lemma example_pmm_inv:
  obtains pm where "example_pmm = Some pm" "pmm_inv (\<lambda>l. l) 1024 pm" "free_frames (\<lambda>l. l) pm = {256..<300}"
proof -
  obtain pm0 bh where n: "pm_new seq_list 1024 example_heap = Some (pm0, bh)" "pmm_inv (\<lambda>l. l) 1024 pm0"
    "free_frames (\<lambda>l. l) pm0 = {}" "pm_total_pages pm0 = 0" by (rule example_new)
  have "\<exists>pm. pm_add_free_range seq_list pm0 256 300 = Some pm \<and> pmm_inv (\<lambda>l. l) 1024 pm \<and>
    free_frames (\<lambda>l. l) pm = {256..<300}"
    using seq_fl.add_free_range_spec [OF n(2), of 256 300] n(3,4) by (simp add: USIZE_LIM_def) blast
  then show thesis using n(1) that by (auto simp: example_pmm_def)
qed

section \<open>Properties\<close>

text \<open>
  C2. \<open>PhysManager::allocate\<close> never panics on a consistent manager. It returns \<open>None\<close>, changing nothing, exactly when the order
  is not one the allocator serves (\<open>ORDER_COUNT\<close> or more) or no aligned block of \<open>2 ^ order\<close> frames is wholly free. Otherwise it returns the base of such a block, the free frames
  lose that block and nothing else, and the manager stays consistent.
\<close>

theorem allocate_correct:
  assumes "frame_list L elems" "pmm_inv elems N pm"
  shows "\<exists>r pm'. pm_allocate L pm order = Some (r, pm') \<and> pmm_inv elems N pm' \<and>
    (case r of
       None \<Rightarrow> pm' = pm \<and> (order \<ge> ORDER_COUNT \<or> \<not> (\<exists>p. 2 ^ order dvd p \<and> blk order p \<subseteq> free_frames elems pm))
     | Some p \<Rightarrow> order < ORDER_COUNT \<and> 2 ^ order dvd p \<and> blk order p \<subseteq> free_frames elems pm \<and>
         free_frames elems pm' = free_frames elems pm - blk order p)"
proof (cases "order < ORDER_COUNT")
  case True
  from frame_list.allocate_spec [OF assms True] assms(2) True show ?thesis by fastforce
next
  case False
  then show ?thesis using assms(2) by (simp add: pm_allocate_def)
qed

lemma example_block: "blk 5 256 \<subseteq> {256..<300::nat}" "(2::nat) ^ 5 dvd 256" "5 < ORDER_COUNT"
  by (auto simp: blk_def ORDER_COUNT_def)

theorem allocate_correct_witness:
  "\<exists>pm pm' p. example_pmm = Some pm \<and> pm_allocate seq_list pm 5 = Some (Some p, pm') \<and> 2 ^ 5 dvd p \<and>
     free_frames (\<lambda>l. l) pm' = {256..<300} - blk 5 p"
proof -
  obtain pm where e: "example_pmm = Some pm" "pmm_inv (\<lambda>l. l) 1024 pm" "free_frames (\<lambda>l. l) pm = {256..<300}"
    by (rule example_pmm_inv)
  from allocate_correct [OF seq_fl.frame_list_axioms e(2), of 5] example_block e(1,3) show ?thesis
    by (auto split: option.splits)
qed

text \<open>
  C3. \<open>PhysManager::deallocate\<close> of an aligned block inside the managed range, none of whose frames is free, never panics. The
  free frames gain exactly the block, and the manager stays consistent: in particular no two free buddies are left
  unmerged, and every split bit says whether exactly one of its two buddies is free.
\<close>

theorem deallocate_correct:
  assumes "frame_list L elems" "pmm_inv elems N pm" "order < ORDER_COUNT" "2 ^ order dvd p" "p + 2 ^ order \<le> N"
    "blk order p \<inter> free_frames elems pm = {}"
  shows "\<exists>pm'. pm_deallocate L pm p order = Some pm' \<and> pmm_inv elems N pm' \<and>
    free_frames elems pm' = free_frames elems pm \<union> blk order p"
  using frame_list.deallocate_spec [OF assms] by blast

theorem deallocate_correct_witness:
  "\<exists>pm pm'. example_pmm = Some pm \<and> pm_deallocate seq_list pm 512 3 = Some pm' \<and>
     free_frames (\<lambda>l. l) pm' = {256..<300} \<union> {512..<520}"
proof -
  obtain pm where e: "example_pmm = Some pm" "pmm_inv (\<lambda>l. l) 1024 pm" "free_frames (\<lambda>l. l) pm = {256..<300}"
    by (rule example_pmm_inv)
  have "(3::nat) < ORDER_COUNT" "(2::nat) ^ 3 dvd 512" "512 + (2::nat) ^ 3 \<le> 1024" "blk 3 512 = {512..<520}"
    by (simp_all add: ORDER_COUNT_def blk_def)
  with deallocate_correct [OF seq_fl.frame_list_axioms e(2), of 3 512] e(1,3) show ?thesis by simp blast
qed

text \<open>
  C4. Freeing a block right after allocating it restores every free set: what the splits of \<open>allocate\<close> took apart, the merges of
  \<open>deallocate\<close> put together again, whatever order the block was split from.
\<close>

theorem allocate_deallocate_round_trip:
  assumes fl: "frame_list L elems" and inv: "pmm_inv elems N pm" and a: "pm_allocate L pm order = Some (Some p, pm1)"
  shows "\<exists>pm2. pm_deallocate L pm1 p order = Some pm2 \<and> free_sets elems pm2 = free_sets elems pm"
proof -
  have k: "order < ORDER_COUNT" using a by (auto simp: pm_allocate_def split: if_splits)
  from frame_list.allocate_spec [OF fl inv k] a have r: "pmm_inv elems N pm1" "2 ^ order dvd p"
    "blk order p \<subseteq> free_frames elems pm" "free_frames elems pm1 = free_frames elems pm - blk order p" by auto
  have sub: "blk order p \<subseteq> {..<N}" using r(3) free_frames_bounds(1) [OF inv] by blast
  then have "p < N" using blk_nonempty [of p order] by blast
  then have "p + 2 ^ order \<le> N" using sub blk_bound [of N order p] by simp
  then obtain pm2 where d: "pm_deallocate L pm1 p order = Some pm2" "pmm_inv elems N pm2"
    "free_frames elems pm2 = free_frames elems pm1 \<union> blk order p"
    using frame_list.deallocate_spec [OF fl r(1) k r(2)] r(4) by blast
  have "free_frames elems pm2 = free_frames elems pm" unfolding d(3) r(4) using r(3) by blast
  then have "q \<in> free_sets elems pm2 k \<longleftrightarrow> q \<in> free_sets elems pm k" if "k < ORDER_COUNT" for q k
    using canonical [OF _ that, of N] inv d(2) by (simp add: pmm_inv_def)
  moreover have "free_sets elems pm' k = {}" if "pmm_inv elems N pm'" "\<not> k < ORDER_COUNT" for pm' k
    using that by (simp add: pmm_inv_def pmm_wf_def free_sets_def)
  ultimately have "free_sets elems pm2 k = free_sets elems pm k" for k using inv d(2) by blast
  with d(1) show ?thesis by blast
qed

theorem allocate_deallocate_round_trip_witness:
  "\<exists>pm p pm1 pm2. example_pmm = Some pm \<and> pm_allocate seq_list pm 5 = Some (Some p, pm1) \<and>
     pm_deallocate seq_list pm1 p 5 = Some pm2 \<and> free_sets (\<lambda>l. l) pm2 = free_sets (\<lambda>l. l) pm"
proof -
  obtain pm where e: "example_pmm = Some pm" "pmm_inv (\<lambda>l. l) 1024 pm" "free_frames (\<lambda>l. l) pm = {256..<300}"
    by (rule example_pmm_inv)
  obtain p pm1 where a: "pm_allocate seq_list pm 5 = Some (Some p, pm1)"
    using seq_fl.allocate_spec [OF e(2) example_block(3)] example_block e(3) by auto
  from allocate_deallocate_round_trip [OF seq_fl.frame_list_axioms e(2) a] e(1) a show ?thesis by blast
qed

text \<open>
  C5. \<open>PhysManager::add_free_range\<close> on a range that holds no free frame never panics, makes exactly the frames of the range
  free, and counts them in \<open>total_pages\<close>, however the range splits into aligned power-of-two blocks.
\<close>

theorem add_free_range_correct:
  assumes "frame_list L elems" "pmm_inv elems N pm" "start \<le> end" "end \<le> N"
    "{start..<end} \<inter> free_frames elems pm = {}" "pm_total_pages pm + (end - start) < USIZE_LIM"
  shows "\<exists>pm'. pm_add_free_range L pm start end = Some pm' \<and> pmm_inv elems N pm' \<and>
    free_frames elems pm' = free_frames elems pm \<union> {start..<end} \<and>
    pm_total_pages pm' = pm_total_pages pm + (end - start)"
  by (rule frame_list.add_free_range_spec [OF assms])

theorem add_free_range_correct_witness:
  "\<exists>pm bh pm'. pm_new seq_list 1024 example_heap = Some (pm, bh) \<and> pm_add_free_range seq_list pm 3 1021 = Some pm' \<and>
     free_frames (\<lambda>l. l) pm' = {3..<1021} \<and> pm_total_pages pm' = 1018"
proof -
  obtain pm bh where n: "pm_new seq_list 1024 example_heap = Some (pm, bh)" "pmm_inv (\<lambda>l. l) 1024 pm"
    "free_frames (\<lambda>l. l) pm = {}" "pm_total_pages pm = 0" by (rule example_new)
  from add_free_range_correct [OF seq_fl.frame_list_axioms n(2), of 3 1021] n show ?thesis
    by (simp add: USIZE_LIM_def) blast
qed

text \<open>
  C1. In every run of calls to the frame allocator that starts from a consistent empty manager and keeps the documented
  safety conditions, live allocations are aligned, never overlap each other or a free frame, and lie in
  the memory reported to the allocator; freeing any of them does not panic; and the usage report does not
  underflow and is exact: the reported, the live and the free frames, each with its size in bytes, and the free blocks of every order.
\<close>

theorem pmm_run_safe:
  assumes fl: "frame_list L elems" and r: "pmm_reach L N pm0 s"
    and new: "pmm_inv elems N pm0" "free_frames elems pm0 = {}" "pm_total_pages pm0 = 0"
  shows "disjoint_blocks (live s) \<and> free_frames elems (manager s) \<inter> live_frames (live s) = {} \<and>
    live_frames (live s) \<subseteq> owned s \<and> (\<forall>p k. (p, k) \<in> live s \<longrightarrow> 2 ^ k dvd p \<and> pm_deallocate L (manager s) p k \<noteq> None) \<and>
    pm_dump_usage (manager s) = Some \<lparr>us_total = (card (owned s), card (owned s) * PAGE_SIZE),
      us_used = (card (live_frames (live s)), card (live_frames (live s)) * PAGE_SIZE),
      us_free = (card (free_frames elems (manager s)), card (free_frames elems (manager s)) * PAGE_SIZE),
      us_blocks = map (\<lambda>k. card (free_sets elems (manager s) k)) [0..<ORDER_COUNT]\<rparr>"
proof -
  have inv: "run_inv elems N s" by (rule frame_list.run_inv_reach [OF fl r new])
  then have pinv: "pmm_inv elems N (manager s)" and split: "free_frames elems (manager s) \<union> live_frames (live s) = owned s"
    and dis: "free_frames elems (manager s) \<inter> live_frames (live s) = {}" and own: "owned s \<subseteq> {..<N}"
    and tot: "pm_total_pages (manager s) = card (owned s)" by (auto simp: run_inv_def)
  have fin: "finite (owned s)" using own by (rule finite_subset) simp
  then have c: "card (owned s) = card (free_frames elems (manager s)) + card (live_frames (live s))"
    using split dis by (metis card_Un_disjoint finite_Un)
  have "card (owned s) \<le> N" using card_mono [OF _ own] by simp
  then have "card (owned s) * 4096 < USIZE_LIM" using pinv
    by (simp add: pmm_inv_def pmm_wf_def layout_consts USIZE_LIM_def)
  moreover have "length (levels (manager s)) = ORDER_COUNT" using pinv by (simp add: pmm_inv_def pmm_wf_def)
  ultimately have "pm_dump_usage (manager s) = Some \<lparr>us_total = (card (owned s), card (owned s) * PAGE_SIZE),
      us_used = (card (live_frames (live s)), card (live_frames (live s)) * PAGE_SIZE),
      us_free = (card (free_frames elems (manager s)), card (free_frames elems (manager s)) * PAGE_SIZE),
      us_blocks = map (\<lambda>k. card (free_sets elems (manager s) k)) [0..<ORDER_COUNT]\<rparr>"
    by (simp add: pm_dump_usage_def free_pages_spec [OF pinv] tot c usub_def umul_def PAGE_SIZE_eq uassert_def free_blocks_card [OF pinv])
  moreover have "2 ^ k dvd p \<and> pm_deallocate L (manager s) p k \<noteq> None" if "(p, k) \<in> live s" for p k
    using live_block_bound(2) [OF inv that] frame_list.run_inv_free [OF fl inv that] by auto
  ultimately show ?thesis using inv split unfolding run_inv_def by blast
qed

theorem pmm_run_safe_witness:
  "\<exists>pm bh pm1 p pm2 s. pm_new seq_list 1024 example_heap = Some (pm, bh) \<and> pm_add_free_range seq_list pm 256 300 = Some pm1 \<and>
     pm_allocate seq_list pm1 5 = Some (Some p, pm2) \<and> s = \<lparr>manager = pm2, owned = {256..<300}, live = {(p, 5)}\<rparr> \<and>
     free_frames (\<lambda>l. l) pm2 \<inter> blk 5 p = {} \<and> pm_deallocate seq_list pm2 p 5 \<noteq> None \<and> pm_dump_usage pm2 \<noteq> None"
proof -
  obtain pm bh where n: "pm_new seq_list 1024 example_heap = Some (pm, bh)" "pmm_inv (\<lambda>l. l) 1024 pm"
    "free_frames (\<lambda>l. l) pm = {}" "pm_total_pages pm = 0" by (rule example_new)
  obtain pm1 where a: "pm_add_free_range seq_list pm 256 300 = Some pm1" "pmm_inv (\<lambda>l. l) 1024 pm1"
    "free_frames (\<lambda>l. l) pm1 = {256..<300}"
    using example_pmm_inv n(1) by (auto simp: example_pmm_def)
  obtain p pm2 where b: "pm_allocate seq_list pm1 5 = Some (Some p, pm2)"
    using seq_fl.allocate_spec [OF a(2) example_block(3)] example_block a(3) by auto
  let ?s0 = "\<lparr>manager = pm, owned = {}, live = {}\<rparr>"
  have "pmm_reach seq_list 1024 pm (?s0\<lparr>manager := pm1, owned := owned ?s0 \<union> {256..<300}\<rparr>)"
    by (rule reach_add [OF reach_new]) (use a(1) in simp_all)
  from reach_alloc [OF this, of 5 p pm2] b
  have r: "pmm_reach seq_list 1024 pm \<lparr>manager = pm2, owned = {256..<300}, live = {(p, 5)}\<rparr>" by simp
  from pmm_run_safe [OF seq_fl.frame_list_axioms r n(2-4)] n(1) a(1) b show ?thesis
    by (auto simp: live_frames_def)
qed

text \<open>
  C26. \<open>PhysManager::new\<close> does not panic when the boot heap has room for the split maps, about one bit per frame in all, and returns
  a consistent manager with no free frame. The split maps come out of the unused part of the boot heap.
\<close>

theorem pm_new_correct:
  assumes "frame_list L elems" "N \<le> PHYS_MAP_MAX_PAGES" "bh_end bh \<le> PHYS_MAP_MAX_PAGES * PAGE_SIZE"
    and "bh_cur bh + (\<Sum>k\<leftarrow>[0..<ORDER_COUNT]. splitmap_size N k) < bh_end bh"
  shows "\<exists>pm bh'. pm_new L N bh = Some (pm, bh') \<and> pmm_inv elems N pm \<and> free_frames elems pm = {} \<and>
    pm_total_pages pm = 0 \<and> bh_cur bh \<le> bh_cur bh' \<and> bh_cur bh' < bh_end bh"
  using frame_list.new_spec [OF assms] by blast

theorem pm_new_correct_witness:
  "\<exists>pm bh'. pm_new seq_list 1024 example_heap = Some (pm, bh') \<and> free_frames (\<lambda>l. l) pm = {} \<and> bh_cur bh' < 0x300000"
  using pm_new_correct [OF seq_fl.frame_list_axioms example_heap_room(3,2,1)] by (auto simp: example_heap_def)

end
