(* ===== verification/Bytes.thy ===== *)
theory Bytes
  imports Num_Utils
begin

text \<open>
  Values as bytes and text: little-endian integers, values of a fixed layout (\<open>repr(C)\<close> structures that the boot loader
  writes and the kernel reads in place), byte slices, decimal and hexadecimal numbers. The locale \<open>pod_type\<close> is what a
  reader of such values relies on: encoding has the size of the type and is undone by decoding.
\<close>

section \<open>Slices\<close>

text \<open>\<open>&buf[from..to]\<close>: panics when the range is not inside the buffer.\<close>

definition slice :: "'a list \<Rightarrow> usize \<Rightarrow> usize \<Rightarrow> 'a list option" where
  "slice buf from to = (if from \<le> to \<and> to \<le> length buf then Some (take (to - from) (drop from buf)) else None)"

definition put_bytes :: "usize \<Rightarrow> 'a list \<Rightarrow> 'a list \<Rightarrow> 'a list" where
  "put_bytes off bs buf = take off buf @ bs @ drop (off + length bs) buf"

lemma slice_Some_iff [panic_simps]:
  "slice buf a b = Some s \<longleftrightarrow> a \<le> b \<and> b \<le> length buf \<and> s = take (b - a) (drop a buf)"
  by (auto simp: slice_def)

lemma length_put_bytes [simp]: "off + length bs \<le> length buf \<Longrightarrow> length (put_bytes off bs buf) = length buf"
  by (simp add: put_bytes_def)

lemma take_put_bytes: "n \<le> off \<Longrightarrow> off \<le> length buf \<Longrightarrow> take n (put_bytes off bs buf) = take n buf"
  by (simp add: put_bytes_def min_def)

lemma read_put_bytes: "off \<le> length buf \<Longrightarrow> n = length bs \<Longrightarrow> take n (drop off (put_bytes off bs buf)) = bs"
  by (simp add: put_bytes_def)

lemma read_put_bytes_before:
  assumes "a + n \<le> off" "off + length bs \<le> length buf"
  shows "take n (drop a (put_bytes off bs buf)) = take n (drop a buf)"
proof -
  have "take n (drop a (take off buf)) = take n (drop a buf)" using assms by (simp add: drop_take min_def)
  then show ?thesis using assms by (simp add: put_bytes_def)
qed

lemma read_put_bytes_outside:
  assumes "a + n \<le> off \<or> off + length bs \<le> a" "off + length bs \<le> length buf"
  shows "take n (drop a (put_bytes off bs buf)) = take n (drop a buf)"
proof (cases "a + n \<le> off")
  case True
  then show ?thesis using assms(2) by (rule read_put_bytes_before)
next
  case False
  then have "off + length bs \<le> a" using assms(1) by blast
  then show ?thesis using assms(2) by (simp add: put_bytes_def min_def)
qed

lemma slice_prefix: "slice buf a b = Some s \<Longrightarrow> slice (buf @ more) a b = Some s"
  by (auto simp: slice_def split: if_splits)

section \<open>Little-endian integers\<close>

primrec le_bytes :: "nat \<Rightarrow> nat \<Rightarrow> u8 list" where
  "le_bytes 0 x = []"
| "le_bytes (Suc n) x = of_nat x # le_bytes n (x div 256)"

primrec le_nat :: "u8 list \<Rightarrow> nat" where
  "le_nat [] = 0"
| "le_nat (b # bs) = unat b + 256 * le_nat bs"

lemma length_le_bytes [simp]: "length (le_bytes n x) = n"
  by (induction n arbitrary: x) auto

lemma unat_byte: "unat (of_nat x :: u8) = x mod 256"
  by (simp add: unat_of_nat)

lemma le_nat_bytes: "le_nat (le_bytes n x) = x mod 256 ^ n"
  by (induction n arbitrary: x) (simp_all add: unat_byte mod_mult2_eq)

lemma le_nat_bytes_id: "x < 256 ^ n \<Longrightarrow> le_nat (le_bytes n x) = x"
  by (simp add: le_nat_bytes)

lemma le_nat_bound: "le_nat bs < 256 ^ length bs"
proof (induction bs)
  case (Cons b bs)
  have "unat b < 256" using unsigned_less [of b] by simp
  moreover have "256 * le_nat bs \<le> 256 * (256 ^ length bs - 1)"
    using Cons by (intro mult_le_mono2) linarith
  moreover have "256 * (256 ^ length bs - 1) = 256 ^ length (b # bs) - (256::nat)" by (simp add: right_diff_distrib')
  moreover have "(256::nat) \<le> 256 ^ length (b # bs)" by simp
  ultimately show ?case by (simp only: le_nat.simps)
qed simp

lemma le_bytes_nat: "le_bytes (length bs) (le_nat bs) = bs"
proof (induction bs)
  case (Cons b bs)
  have b: "unat b < 256" using unsigned_less [of b] by simp
  have "(unat b + 256 * le_nat bs) div 256 = le_nat bs" using b by simp
  moreover have "(of_nat (unat b + 256 * le_nat bs) :: u8) = b"
  proof -
    have "(256 :: u8) = 0" by simp
    then have z: "(256 :: u8) * w = 0" for w by (metis mult_zero_left)
    show ?thesis by (simp add: z)
  qed
  ultimately show ?case using Cons by simp
qed simp

section \<open>Values with a fixed layout\<close>

record 'a pod =
  pod_size :: usize
  pod_align :: usize
  pod_enc :: "'a \<Rightarrow> u8 list"
  pod_dec :: "u8 list \<Rightarrow> 'a"

definition enc_slice :: "'a pod \<Rightarrow> 'a list \<Rightarrow> u8 list" where
  "enc_slice T xs = concat (map (pod_enc T) xs)"

definition dec_slice :: "'a pod \<Rightarrow> u8 list \<Rightarrow> 'a list" where
  "dec_slice T bs = map (\<lambda>i. pod_dec T (take (pod_size T) (drop (i * pod_size T) bs))) [0..<length bs div pod_size T]"

locale pod_type =
  fixes T :: "'a pod" and valid :: "'a \<Rightarrow> bool"
  assumes size_pos: "0 < pod_size T"
    and align_pos: "0 < pod_align T" and align_dvd: "pod_align T dvd pod_size T"
    and length_enc: "valid x \<Longrightarrow> length (pod_enc T x) = pod_size T"
    and dec_enc: "valid x \<Longrightarrow> pod_dec T (pod_enc T x) = x"
begin

lemma length_enc_slice: "list_all valid xs \<Longrightarrow> length (enc_slice T xs) = length xs * pod_size T"
  by (induction xs) (auto simp: enc_slice_def length_enc)

lemma dec_enc_slice: "list_all valid xs \<Longrightarrow> dec_slice T (enc_slice T xs) = xs"
proof (induction xs)
  case (Cons x xs)
  have v: "valid x" "list_all valid xs" using Cons.prems by auto
  have len: "length (enc_slice T (x # xs)) div pod_size T = Suc (length xs)"
    using length_enc_slice [OF Cons.prems] size_pos by simp
  have app: "enc_slice T (x # xs) = pod_enc T x @ enc_slice T xs" by (simp add: enc_slice_def)
  have "dec_slice T (enc_slice T (x # xs)) = map (\<lambda>i. pod_dec T (take (pod_size T) (drop (i * pod_size T) (enc_slice T (x # xs)))))
      (0 # map Suc [0..<length xs])"
    unfolding dec_slice_def len by (simp only: map_Suc_upt upt_conv_Cons [OF zero_less_Suc, symmetric])
  also have "\<dots> = x # map (\<lambda>i. pod_dec T (take (pod_size T) (drop (i * pod_size T) (enc_slice T xs)))) [0..<length xs]"
    using length_enc [OF v(1)] dec_enc [OF v(1)] by (simp add: app)
  also have "\<dots> = x # dec_slice T (enc_slice T xs)"
    using length_enc_slice [OF v(2)] size_pos by (simp add: dec_slice_def)
  finally show ?case using Cons.IH v(2) by simp
qed (simp add: enc_slice_def dec_slice_def)

end

definition u8_pod :: "u8 pod" where
  "u8_pod = \<lparr>pod_size = 1, pod_align = 1, pod_enc = (\<lambda>b. [b]), pod_dec = hd\<rparr>"

definition usize_pod :: "usize pod" where
  "usize_pod = \<lparr>pod_size = 8, pod_align = 8, pod_enc = le_bytes 8, pod_dec = le_nat\<rparr>"

interpretation pod_u8: pod_type u8_pod "\<lambda>_. True"
  by unfold_locales (simp_all add: u8_pod_def)

interpretation pod_usize: pod_type usize_pod "\<lambda>x. x < USIZE_LIM"
  by unfold_locales (simp_all add: usize_pod_def le_nat_bytes USIZE_LIM_def)

lemma u8_slice: "enc_slice u8_pod bs = bs" "dec_slice u8_pod bs = bs"
proof -
  show e: "enc_slice u8_pod bs = bs" by (simp add: enc_slice_def u8_pod_def)
  have "list_all (\<lambda>_. True) bs" by (simp add: list_all_iff)
  from pod_u8.dec_enc_slice [OF this] show "dec_slice u8_pod bs = bs" by (simp add: e)
qed

section \<open>Decimal and hexadecimal numbers\<close>

definition digit_char :: "nat \<Rightarrow> char" where
  "digit_char d = (''0123456789abcdef'' ! d)"

fun show_base :: "nat \<Rightarrow> nat \<Rightarrow> string" where
  "show_base b n = (if b < 2 \<or> n < b then [digit_char n] else show_base b (n div b) @ [digit_char (n mod b)])"

declare show_base.simps [simp del]

definition show_nat :: "nat \<Rightarrow> string" where
  "show_nat n = show_base 10 n"

definition show_hex :: "nat \<Rightarrow> string" where
  "show_hex n = show_base 16 n"

text \<open>Printed numbers can be read back: the digits determine the number.\<close>

definition read_base :: "nat \<Rightarrow> string \<Rightarrow> nat" where
  "read_base b s = foldl (\<lambda>n c. b * n + length (takeWhile (\<lambda>d. d \<noteq> c) ''0123456789abcdef'')) 0 s"

lemma read_digit:
  assumes "d < 16"
  shows "length (takeWhile (\<lambda>x. x \<noteq> digit_char d) ''0123456789abcdef'') = d"
proof -
  have "list_all (\<lambda>d. length (takeWhile (\<lambda>x. x \<noteq> digit_char d) ''0123456789abcdef'') = d) [0..<16]"
    by (simp add: digit_char_def upt_rec)
  with assms show ?thesis by (simp add: list_all_iff)
qed

lemma read_show_base:
  assumes "2 \<le> b" "b \<le> 16"
  shows "read_base b (show_base b n) = n"
proof (induction n rule: less_induct)
  case (less n)
  show ?case
  proof (cases "n < b")
    case True
    then show ?thesis using assms read_digit [of n] by (simp add: read_base_def show_base.simps [of b n])
  next
    case False
    have "n mod b < 16" using assms by (simp add: order_less_le_trans [OF mod_less_divisor])
    note d = read_digit [OF this]
    have "read_base b (show_base b (n div b)) = n div b" using False assms by (intro less) simp
    then show ?thesis using False assms d by (simp add: read_base_def show_base.simps [of b n])
  qed
qed

end
