(* ===== verification/Bootinfo.thy ===== *)
theory Bootinfo
  imports Bytes
begin

text \<open>
  The boot information format of the crate \<open>kernel/bootinfo\<close>: a sequence of items, each an 8-byte header and a payload,
  aligned to 8 bytes, that the boot loader writes with a \<open>Builder\<close> and the kernel reads with a \<open>View\<close>. The main
  lemma is that a view of a finished builder returns exactly the appended items, in order.
\<close>

section \<open>Items\<close>

datatype bi_error = BadSize | BadAlign

definition ITEM_ALIGN :: usize where "ITEM_ALIGN = 8"

type_synonym item_kind = u32

definition EFI_SYSTEM_TABLE :: item_kind where "EFI_SYSTEM_TABLE = 1"
definition MEMORY_MAP :: item_kind where "MEMORY_MAP = 2"
definition FRAMEBUFFER :: item_kind where "FRAMEBUFFER = 3"
definition COMMAND_LINE :: item_kind where "COMMAND_LINE = 4"

lemmas item_kinds = EFI_SYSTEM_TABLE_def MEMORY_MAP_def FRAMEBUFFER_def COMMAND_LINE_def

record item_header =
  ih_kind :: item_kind
  ih_payload_len :: u32

definition item_header_pod :: "item_header pod" where
  "item_header_pod = \<lparr>pod_size = 8, pod_align = 4,
     pod_enc = (\<lambda>h. le_bytes 4 (unat (ih_kind h)) @ le_bytes 4 (unat (ih_payload_len h))),
     pod_dec = (\<lambda>bs. \<lparr>ih_kind = of_nat (le_nat (take 4 bs)), ih_payload_len = of_nat (le_nat (drop 4 bs))\<rparr>)\<rparr>"

type_synonym memory_kind = u32

definition RESERVED :: memory_kind where "RESERVED = 0"
definition USABLE :: memory_kind where "USABLE = 1"
definition FIRMWARE_BOOT :: memory_kind where "FIRMWARE_BOOT = 2"
definition FIRMWARE_RUNIME :: memory_kind where "FIRMWARE_RUNIME = 3"
definition ACPI_TABLES :: memory_kind where "ACPI_TABLES = 4"
definition UNUSABLE :: memory_kind where "UNUSABLE = 5"

lemmas memory_kinds = RESERVED_def USABLE_def FIRMWARE_BOOT_def FIRMWARE_RUNIME_def ACPI_TABLES_def UNUSABLE_def

record memory_range =
  start_page :: usize
  page_count :: usize
  mr_kind :: memory_kind

text \<open>The structure ends in four bytes of padding.\<close>

definition memory_range_pod :: "memory_range pod" where
  "memory_range_pod = \<lparr>pod_size = 24, pod_align = 8,
     pod_enc = (\<lambda>r. le_bytes 8 (start_page r) @ le_bytes 8 (page_count r) @ le_bytes 4 (unat (mr_kind r)) @ replicate 4 0),
     pod_dec = (\<lambda>bs. \<lparr>start_page = le_nat (take 8 bs), page_count = le_nat (take 8 (drop 8 bs)),
       mr_kind = of_nat (le_nat (take 4 (drop 16 bs)))\<rparr>)\<rparr>"

type_synonym pixel_format = u32

definition PF_RGB :: pixel_format where "PF_RGB = 0"
definition PF_BGR :: pixel_format where "PF_BGR = 1"

record framebuffer_info =
  fb_paddr :: usize
  fb_byte_size :: usize
  fb_pixel_width :: u32
  fb_pixel_height :: u32
  fb_pixel_stride :: u32
  fb_pixel_format :: pixel_format

definition framebuffer_pod :: "framebuffer_info pod" where
  "framebuffer_pod = \<lparr>pod_size = 32, pod_align = 8,
     pod_enc = (\<lambda>f. le_bytes 8 (fb_paddr f) @ le_bytes 8 (fb_byte_size f) @ le_bytes 4 (unat (fb_pixel_width f)) @
       le_bytes 4 (unat (fb_pixel_height f)) @ le_bytes 4 (unat (fb_pixel_stride f)) @ le_bytes 4 (unat (fb_pixel_format f))),
     pod_dec = (\<lambda>bs. \<lparr>fb_paddr = le_nat (take 8 bs), fb_byte_size = le_nat (take 8 (drop 8 bs)),
       fb_pixel_width = of_nat (le_nat (take 4 (drop 16 bs))), fb_pixel_height = of_nat (le_nat (take 4 (drop 20 bs))),
       fb_pixel_stride = of_nat (le_nat (take 4 (drop 24 bs))), fb_pixel_format = of_nat (le_nat (take 4 (drop 28 bs)))\<rparr>)\<rparr>"

section \<open>The builder\<close>

text \<open>The buffer is memory the loader has been given: its initial contents are arbitrary bytes.\<close>

record builder =
  bd_addr :: usize
  bd_buf :: "u8 list"
  bd_off :: usize

definition builder_new :: "usize \<Rightarrow> u8 list \<Rightarrow> bi_error + builder" where
  "builder_new addr buf =
     (if addr mod ITEM_ALIGN \<noteq> 0 then Inl BadAlign
      else if length buf \<ge> 2 ^ 31 - 1 then Inl BadSize
      else Inr \<lparr>bd_addr = addr, bd_buf = buf, bd_off = 0\<rparr>)"

text \<open>\<open>reserve\<close> returns the offset of the reserved payload. Its overflow-checked operations return an error, \<open>align_up\<close> panics.\<close>

definition reserve :: "'a pod \<Rightarrow> item_kind \<Rightarrow> usize \<Rightarrow> builder \<Rightarrow> ((bi_error + usize) \<times> builder) option" where
  "reserve T kind count b =
     (if pod_align T > ITEM_ALIGN then Some (Inl BadAlign, b)
      else case umul (pod_size T) count of
        None \<Rightarrow> Some (Inl BadSize, b)
      | Some sz \<Rightarrow> (case uadd sz (pod_size item_header_pod) of
          None \<Rightarrow> Some (Inl BadSize, b)
        | Some total_size \<Rightarrow> do {
            off \<leftarrow> align_up (bd_off b) ITEM_ALIGN;
            case uadd off total_size of
              None \<Rightarrow> Some (Inl BadSize, b)
            | Some next_off \<Rightarrow>
                if next_off > length (bd_buf b) then Some (Inl BadSize, b)
                else Some (Inr (off + pod_size item_header_pod),
                  b\<lparr>bd_off := next_off,
                    bd_buf := put_bytes off (pod_enc item_header_pod \<lparr>ih_kind = kind, ih_payload_len = of_nat sz\<rparr>) (bd_buf b)\<rparr>) }))"

definition append_item :: "'a pod \<Rightarrow> item_kind \<Rightarrow> 'a \<Rightarrow> builder \<Rightarrow> ((bi_error + unit) \<times> builder) option" where
  "append_item T kind val b = do {
     (r, b1) \<leftarrow> reserve T kind 1 b;
     case r of
       Inl e \<Rightarrow> Some (Inl e, b1)
     | Inr p \<Rightarrow> Some (Inr (), b1\<lparr>bd_buf := put_bytes p (pod_enc T val) (bd_buf b1)\<rparr>) }"

definition append_slice :: "'a pod \<Rightarrow> item_kind \<Rightarrow> 'a list \<Rightarrow> builder \<Rightarrow> ((bi_error + unit) \<times> builder) option" where
  "append_slice T kind val b = do {
     (r, b1) \<leftarrow> reserve T kind (length val) b;
     case r of
       Inl e \<Rightarrow> Some (Inl e, b1)
     | Inr p \<Rightarrow> Some (Inr (), b1\<lparr>bd_buf := put_bytes p (enc_slice T val) (bd_buf b1)\<rparr>) }"

definition builder_finish :: "builder \<Rightarrow> u8 list option" where
  "builder_finish b = slice (bd_buf b) 0 (bd_off b)"

section \<open>The view\<close>

record view_buf =
  vw_addr :: usize
  vw_bytes :: "u8 list"

definition view_new :: "usize \<Rightarrow> u8 list \<Rightarrow> bi_error + view_buf" where
  "view_new addr buf = (if addr mod ITEM_ALIGN \<noteq> 0 then Inl BadAlign else Inr \<lparr>vw_addr = addr, vw_bytes = buf\<rparr>)"

definition view_size :: "view_buf \<Rightarrow> usize" where
  "view_size v = length (vw_bytes v)"

definition get_slice_ref :: "'a pod \<Rightarrow> usize \<Rightarrow> u8 list \<Rightarrow> bi_error + 'a" where
  "get_slice_ref T addr bs =
     (if pod_size T \<noteq> length bs then Inl BadSize
      else if addr mod pod_align T \<noteq> 0 then Inl BadAlign
      else Inr (pod_dec T bs))"

record item_view =
  iv_kind :: item_kind
  iv_addr :: usize
  iv_payload :: "u8 list"

definition item_get :: "'a pod \<Rightarrow> item_view \<Rightarrow> bi_error + 'a" where
  "item_get T it = get_slice_ref T (iv_addr it) (iv_payload it)"

definition item_read :: "'a pod \<Rightarrow> item_view \<Rightarrow> bi_error + 'a" where
  "item_read T it = item_get T it"

definition item_get_slice :: "'a pod \<Rightarrow> item_view \<Rightarrow> bi_error + 'a list" where
  "item_get_slice T it =
     (if length (iv_payload it) mod pod_size T \<noteq> 0 then Inl BadSize
      else if iv_addr it mod pod_align T \<noteq> 0 then Inl BadAlign
      else Inr (dec_slice T (iv_payload it)))"

text \<open>One call of the iterator that \<open>items\<close> returns, from the offset it holds: \<open>Some None\<close> at the end, \<open>None\<close> for a panic.\<close>

definition next_item :: "view_buf \<Rightarrow> usize \<Rightarrow> (item_view \<times> usize) option option" where
  "next_item v off =
     (if off \<ge> view_size v then Some None
      else do {
        payload_off \<leftarrow> uadd off (pod_size item_header_pod);
        hb \<leftarrow> slice (vw_bytes v) off payload_off;
        header \<leftarrow> (case get_slice_ref item_header_pod (vw_addr v + off) hb of Inl _ \<Rightarrow> None | Inr h \<Rightarrow> Some h);
        uassert (payload_off mod ITEM_ALIGN = 0);
        payload_end_off \<leftarrow> uadd payload_off (unat (ih_payload_len header));
        payload \<leftarrow> slice (vw_bytes v) payload_off payload_end_off;
        off' \<leftarrow> align_up payload_end_off ITEM_ALIGN;
        Some (Some (\<lparr>iv_kind = ih_kind header, iv_addr = vw_addr v + payload_off, iv_payload = payload\<rparr>, off')) })"

lemma next_item_advances: "next_item v off = Some (Some (it, off')) \<Longrightarrow> off < view_size v \<and> off < off'"
proof -
  assume n: "next_item v off = Some (Some (it, off'))"
  then obtain k where "align_up (off + 8 + k) ITEM_ALIGN = Some off'"
    by (auto simp: next_item_def Option.bind_eq_Some_conv uadd_Some_iff item_header_pod_def split: if_splits)
  then have "off < off'" using align_up_spec(2) by fastforce
  with n show ?thesis by (auto simp: next_item_def split: if_splits)
qed

text \<open>All items from an offset, and the first one that satisfies a predicate (\<open>Iterator::find\<close>).\<close>

function view_items_from :: "view_buf \<Rightarrow> usize \<Rightarrow> item_view list option" where
  "view_items_from v off = do {
     n \<leftarrow> next_item v off;
     case n of
       None \<Rightarrow> Some []
     | Some (it, off') \<Rightarrow> do { r \<leftarrow> view_items_from v off'; Some (it # r) } }"
  by pat_completeness auto
termination
  by (relation "measure (\<lambda>(v, off). view_size v - off)") (auto dest: next_item_advances)

function view_find_from :: "view_buf \<Rightarrow> (item_view \<Rightarrow> bool) \<Rightarrow> usize \<Rightarrow> item_view option option" where
  "view_find_from v P off = do {
     n \<leftarrow> next_item v off;
     case n of
       None \<Rightarrow> Some None
     | Some (it, off') \<Rightarrow> if P it then Some (Some it) else view_find_from v P off' }"
  by pat_completeness auto
termination
  by (relation "measure (\<lambda>(v, P, off). view_size v - off)") (auto dest: next_item_advances)

declare view_items_from.simps [simp del] view_find_from.simps [simp del]

definition view_items :: "view_buf \<Rightarrow> item_view list option" where
  "view_items v = view_items_from v 0"

definition view_find :: "view_buf \<Rightarrow> (item_view \<Rightarrow> bool) \<Rightarrow> item_view option option" where
  "view_find v P = view_find_from v P 0"

lemma view_find_items:
  "view_items_from v off = Some its \<Longrightarrow> view_find_from v P off = Some (find P its)"
proof (induction v off arbitrary: its rule: view_items_from.induct)
  case (1 v off)
  from "1.prems" obtain n where n: "next_item v off = Some n" by (auto simp: view_items_from.simps [of v off] panic_simps)
  show ?case
  proof (cases n)
    case None
    then show ?thesis using "1.prems" n by (simp add: view_items_from.simps [of v off] view_find_from.simps [of v P off])
  next
    case (Some io)
    obtain it off' where io: "io = (it, off')" by fastforce
    from "1.prems" n Some io obtain r where r: "view_items_from v off' = Some r" "its = it # r"
      by (auto simp: view_items_from.simps [of v off] panic_simps)
    have "view_find_from v P off' = Some (find P r)" using "1.IH" [OF n Some io [symmetric] r(1)] .
    then show ?thesis using n Some io r by (simp add: view_find_from.simps [of v P off])
  qed
qed

section \<open>Layouts\<close>

lemma unat_u32: "unat (x :: u32) < 256 ^ 4"
  using unsigned_less [of x] by simp

lemma le_u32 [simp]: "of_nat (le_nat (le_bytes 4 (unat x))) = (x :: u32)"
  by (subst le_nat_bytes_id [OF unat_u32]) simp

interpretation header_pod: pod_type item_header_pod "\<lambda>_. True"
  by unfold_locales (simp_all add: item_header_pod_def)

definition memory_range_ok :: "memory_range \<Rightarrow> bool" where
  "memory_range_ok r \<longleftrightarrow> start_page r < USIZE_LIM \<and> page_count r < USIZE_LIM"

interpretation memory_range_pod: pod_type memory_range_pod memory_range_ok
  by unfold_locales (simp_all add: memory_range_pod_def memory_range_ok_def le_nat_bytes_id USIZE_LIM_def)

definition framebuffer_ok :: "framebuffer_info \<Rightarrow> bool" where
  "framebuffer_ok f \<longleftrightarrow> fb_paddr f < USIZE_LIM \<and> fb_byte_size f < USIZE_LIM"

interpretation framebuffer_pod: pod_type framebuffer_pod framebuffer_ok
  by unfold_locales (simp_all add: framebuffer_pod_def framebuffer_ok_def le_nat_bytes_id USIZE_LIM_def)

section \<open>A view reads what the builder wrote\<close>

text \<open>\<open>items_run v off its off'\<close>: the iterator yields \<open>its\<close> and moves from \<open>off\<close> to \<open>off'\<close>.\<close>

inductive items_run :: "view_buf \<Rightarrow> usize \<Rightarrow> item_view list \<Rightarrow> usize \<Rightarrow> bool" for v where
  run_nil: "items_run v off [] off"
| run_cons: "next_item v off = Some (Some (it, off1)) \<Longrightarrow> items_run v off1 its off' \<Longrightarrow> items_run v off (it # its) off'"

lemma items_run_snoc:
  "items_run v off its off1 \<Longrightarrow> next_item v off1 = Some (Some (it, off')) \<Longrightarrow> items_run v off (its @ [it]) off'"
  by (induction rule: items_run.induct) (auto intro: items_run.intros)

lemma items_run_items: "items_run v off its off' \<Longrightarrow> view_size v \<le> off' \<Longrightarrow> view_items_from v off = Some its"
proof (induction rule: items_run.induct)
  case (run_nil off)
  then show ?case by (simp add: view_items_from.simps [of v off] next_item_def)
next
  case (run_cons off it off1 its off')
  then show ?case by (simp add: view_items_from.simps [of v off])
qed

lemma next_item_extend:
  assumes "next_item \<lparr>vw_addr = a, vw_bytes = buf\<rparr> off = Some (Some n)"
  shows "next_item \<lparr>vw_addr = a, vw_bytes = buf @ rest\<rparr> off = Some (Some n)"
  using assms slice_prefix [of buf _ _ _ rest]
  by (auto simp: next_item_def view_size_def Option.bind_eq_Some_conv split: if_splits)

lemma items_run_extend:
  "items_run \<lparr>vw_addr = a, vw_bytes = buf\<rparr> off its off' \<Longrightarrow> items_run \<lparr>vw_addr = a, vw_bytes = buf @ rest\<rparr> off its off'"
  by (induction rule: items_run.induct) (auto intro: items_run.intros next_item_extend)

definition holds :: "builder \<Rightarrow> item_view list \<Rightarrow> bool" where
  "holds b its \<longleftrightarrow> bd_addr b mod 8 = 0 \<and> bd_off b \<le> length (bd_buf b) \<and> length (bd_buf b) < 2 ^ 31 - 1 \<and>
     (\<exists>off. align_up (bd_off b) ITEM_ALIGN = Some off \<and>
        items_run \<lparr>vw_addr = bd_addr b, vw_bytes = take (bd_off b) (bd_buf b)\<rparr> 0 its off) \<and>
     (\<forall>it\<in>set its. iv_addr it mod 8 = 0)"

lemma builder_new_holds: "builder_new addr buf = Inr b \<Longrightarrow> holds b []"
  by (auto simp: builder_new_def holds_def ITEM_ALIGN_def USIZE_LIM_def panic_simps intro: items_run.intros split: if_splits)

lemma header_length [simp]: "length (pod_enc item_header_pod h) = 8" "pod_size item_header_pod = 8"
  using header_pod.length_enc [of h] by (simp_all add: item_header_pod_def)

text \<open>Writing one item after the others: the view of the longer buffer yields one more item.\<close>

lemma holds_append:
  assumes h: "holds b its" and o: "align_up (bd_off b) ITEM_ALIGN = Some off" "off + 8 + length bs \<le> length (bd_buf b)"
    and b': "b' = b\<lparr>bd_off := off + 8 + length bs, bd_buf := put_bytes (off + 8) bs
      (put_bytes off (pod_enc item_header_pod \<lparr>ih_kind = kind, ih_payload_len = of_nat (length bs)\<rparr>) (bd_buf b))\<rparr>"
  shows "holds b' (its @ [\<lparr>iv_kind = kind, iv_addr = bd_addr b + (off + 8), iv_payload = bs\<rparr>])"
proof -
  let ?h = "\<lparr>ih_kind = kind, ih_payload_len = of_nat (length bs)\<rparr> :: item_header"
  let ?H = "pod_enc item_header_pod ?h" and ?buf = "bd_buf b"
  have lim: "length ?buf < 2 ^ 31 - 1" "bd_addr b mod 8 = 0" "bd_off b \<le> off" "off mod 8 = 0" "off + 8 \<le> length ?buf"
    using h o align_up_spec(1,2) [OF o(1)] by (auto simp: holds_def ITEM_ALIGN_def)
  define off' where "off' = (off + 8 + length bs + 7) div 8 * 8"
  have up: "align_up (off + 8 + length bs) ITEM_ALIGN = Some off'" 
    using lim o(2) by (simp add: panic_simps ITEM_ALIGN_def off'_def USIZE_LIM_def add.commute)
  have buf': "bd_buf b' = take off ?buf @ ?H @ bs @ drop (off + 8 + length bs) ?buf"
    using lim(5) by (simp add: b' put_bytes_def ac_simps)
  let ?v = "\<lparr>vw_addr = bd_addr b, vw_bytes = take off ?buf @ ?H @ bs\<rparr>"
  have take': "take (bd_off b') (bd_buf b') = take off ?buf @ ?H @ bs"
    unfolding buf' using lim(5) by (simp add: b' min_def)
  obtain pad where pad: "take off ?buf = take (bd_off b) ?buf @ pad"
    using lim(3) by (metis append_take_drop_id min.absorb1 take_take)
  then have "items_run ?v 0 its off"
    using h o(1) items_run_extend [of "bd_addr b" "take (bd_off b) ?buf" 0 its off "pad @ ?H @ bs"]
    by (simp add: holds_def)
  moreover have "next_item ?v off = Some (Some (\<lparr>iv_kind = kind, iv_addr = bd_addr b + (off + 8), iv_payload = bs\<rparr>, off'))"
  proof -
    have len: "length (take off ?buf) = off" using lim by simp
    have sl: "slice (take off ?buf @ ?H @ bs) off (off + 8) = Some ?H"
      "slice (take off ?buf @ ?H @ bs) (off + 8) (off + 8 + length bs) = Some bs"
      using len by (simp_all add: slice_def)
    have "(bd_addr b + off) mod 4 = 0" using lim(2,4) by presburger
    then have hd: "get_slice_ref item_header_pod (bd_addr b + off) ?H = Inr ?h"
      using header_pod.dec_enc [of ?h] by (simp add: get_slice_ref_def) (simp add: item_header_pod_def)
    have "unat (of_nat (length bs) :: u32) = length bs"
      using lim(1) o(2) by (simp add: unat_of_nat)
    moreover have "off + 8 + length bs < USIZE_LIM" using lim(1) o(2) by (simp add: USIZE_LIM_def)
    ultimately show ?thesis
      using len sl hd lim(4) up by (simp add: next_item_def view_size_def uadd_def uassert_def ITEM_ALIGN_def mod_add_eq)
  qed
  ultimately have "items_run ?v 0 (its @ [\<lparr>iv_kind = kind, iv_addr = bd_addr b + (off + 8), iv_payload = bs\<rparr>]) off'"
    by (rule items_run_snoc)
  then show ?thesis using h o(2) lim up take' buf' by (auto simp: holds_def b')
qed

lemma reserve_Inr:
  assumes "reserve T kind count b = Some (Inr p, b')"
  obtains off where "align_up (bd_off b) ITEM_ALIGN = Some off" "p = off + 8" "off + 8 + pod_size T * count \<le> length (bd_buf b)"
    "b' = b\<lparr>bd_off := off + 8 + pod_size T * count, bd_buf := put_bytes off (pod_enc item_header_pod
       \<lparr>ih_kind = kind, ih_payload_len = of_nat (pod_size T * count)\<rparr>) (bd_buf b)\<rparr>" "pod_align T \<le> 8"
  using assms
  by (auto simp: reserve_def ITEM_ALIGN_def Option.bind_eq_Some_conv uadd_Some_iff umul_Some_iff ac_simps
      split: if_splits option.splits)

text \<open>A type that can be stored in an item: the contract between the writer and the reader of a payload.\<close>

locale item_type = pod_type +
  assumes align_item: "pod_align T dvd 8"
begin

lemma align_payload: "n mod 8 = 0 \<Longrightarrow> n mod pod_align T = 0"
  using align_item by (metis dvd_eq_mod_eq_0 dvd_trans)

lemma append_item_holds:
  assumes "holds b its" "append_item T kind x b = Some (Inr (), b')" "valid x"
  shows "\<exists>it. holds b' (its @ [it]) \<and> bd_addr b' = bd_addr b \<and> iv_kind it = kind \<and> iv_payload it = pod_enc T x \<and>
    item_get T it = Inr x \<and> item_read T it = Inr x"
proof -
  from assms(2) obtain q b1 where q: "reserve T kind 1 b = Some (q, b1)"
    by (auto simp: append_item_def Option.bind_eq_Some_conv)
  with assms(2) obtain p where r: "reserve T kind 1 b = Some (Inr p, b1)"
    and b': "b' = b1\<lparr>bd_buf := put_bytes p (pod_enc T x) (bd_buf b1)\<rparr>"
    by (cases q) (auto simp: append_item_def)
  note len = length_enc [OF assms(3)]
  from r obtain off where o: "align_up (bd_off b) ITEM_ALIGN = Some off" "p = off + 8" "off + 8 + pod_size T * 1 \<le> length (bd_buf b)"
    "b1 = b\<lparr>bd_off := off + 8 + pod_size T * 1, bd_buf := put_bytes off (pod_enc item_header_pod
       \<lparr>ih_kind = kind, ih_payload_len = of_nat (pod_size T * 1)\<rparr>) (bd_buf b)\<rparr>" by (rule reserve_Inr)
  let ?it = "\<lparr>iv_kind = kind, iv_addr = bd_addr b + (off + 8), iv_payload = pod_enc T x\<rparr>"
  have "off + 8 + length (pod_enc T x) \<le> length (bd_buf b)" using o(3) len by simp
  then have h: "holds b' (its @ [?it])"
    by (rule holds_append [OF assms(1) o(1)]) (use o len in \<open>simp add: b'\<close>)
  then have "iv_addr ?it mod pod_align T = 0" by (intro align_payload) (auto simp: holds_def)
  then have "item_get T ?it = Inr x" using len dec_enc [OF assms(3)] by (simp add: item_get_def get_slice_ref_def)
  with h show ?thesis by (intro exI [of _ ?it]) (simp add: item_read_def b' o(4))
qed

lemma append_slice_holds:
  assumes "holds b its" "append_slice T kind xs b = Some (Inr (), b')" "list_all valid xs"
  shows "\<exists>it. holds b' (its @ [it]) \<and> bd_addr b' = bd_addr b \<and> iv_kind it = kind \<and> iv_payload it = enc_slice T xs \<and>
    item_get_slice T it = Inr xs"
proof -
  from assms(2) obtain q b1 where q: "reserve T kind (length xs) b = Some (q, b1)"
    by (auto simp: append_slice_def Option.bind_eq_Some_conv)
  with assms(2) obtain p where r: "reserve T kind (length xs) b = Some (Inr p, b1)"
    and b': "b' = b1\<lparr>bd_buf := put_bytes p (enc_slice T xs) (bd_buf b1)\<rparr>"
    by (cases q) (auto simp: append_slice_def)
  have len: "length (enc_slice T xs) = pod_size T * length xs" using length_enc_slice [OF assms(3)] by (simp add: mult.commute)
  from r obtain off where o: "align_up (bd_off b) ITEM_ALIGN = Some off" "p = off + 8" "off + 8 + pod_size T * length xs \<le> length (bd_buf b)"
    "b1 = b\<lparr>bd_off := off + 8 + pod_size T * length xs, bd_buf := put_bytes off (pod_enc item_header_pod
       \<lparr>ih_kind = kind, ih_payload_len = of_nat (pod_size T * length xs)\<rparr>) (bd_buf b)\<rparr>" by (rule reserve_Inr)
  let ?it = "\<lparr>iv_kind = kind, iv_addr = bd_addr b + (off + 8), iv_payload = enc_slice T xs\<rparr>"
  have "off + 8 + length (enc_slice T xs) \<le> length (bd_buf b)" using o(3) len by simp
  then have h: "holds b' (its @ [?it])"
    by (rule holds_append [OF assms(1) o(1)]) (use o len in \<open>simp add: b'\<close>)
  then have "iv_addr ?it mod pod_align T = 0" by (intro align_payload) (auto simp: holds_def)
  then have "item_get_slice T ?it = Inr xs" using len dec_enc_slice [OF assms(3)] by (simp add: item_get_slice_def)
  with h show ?thesis by (intro exI [of _ ?it]) (simp add: b' o(4))
qed

text \<open>An item is accepted whenever it fits behind the others.\<close>

lemma append_fits:
  assumes "align_up (bd_off b) ITEM_ALIGN = Some off" "off + 8 + pod_size T * length xs \<le> length (bd_buf b)" "length (bd_buf b) < USIZE_LIM" "list_all valid xs"
  shows "\<exists>b'. append_slice T kind xs b = Some (Inr (), b') \<and> bd_off b' = off + 8 + pod_size T * length xs \<and> length (bd_buf b') = length (bd_buf b)"
    and "xs = [x] \<Longrightarrow> \<exists>b'. append_item T kind x b = Some (Inr (), b') \<and> bd_off b' = off + 8 + pod_size T \<and> length (bd_buf b') = length (bd_buf b)"
proof -
  have al: "\<not> ITEM_ALIGN < pod_align T" using dvd_imp_le [OF align_item] by (simp add: ITEM_ALIGN_def)
  have len: "length (enc_slice T xs) = pod_size T * length xs" using length_enc_slice [OF assms(4)] by (simp add: mult.commute)
  obtain b1 where r: "reserve T kind (length xs) b = Some (Inr (off + 8), b1)" "bd_off b1 = off + 8 + pod_size T * length xs" "length (bd_buf b1) = length (bd_buf b)"
    using assms(1-3) al by (auto simp: reserve_def uadd_def umul_def add.assoc add.commute [of 8])
  then show "\<exists>b'. append_slice T kind xs b = Some (Inr (), b') \<and> bd_off b' = off + 8 + pod_size T * length xs \<and> length (bd_buf b') = length (bd_buf b)"
    using assms(2) len by (simp add: append_slice_def)
  assume x: "xs = [x]"
  then have "length (pod_enc T x) = pod_size T" using assms(4) length_enc by simp
  then show "\<exists>b'. append_item T kind x b = Some (Inr (), b') \<and> bd_off b' = off + 8 + pod_size T \<and> length (bd_buf b') = length (bd_buf b)"
    using r assms(2) x by (simp add: append_item_def)
qed

end

interpretation item_usize: item_type usize_pod "\<lambda>x. x < USIZE_LIM" by unfold_locales (simp add: usize_pod_def)
interpretation item_u8: item_type u8_pod "\<lambda>_. True" by unfold_locales (simp add: u8_pod_def)
interpretation item_memory_range: item_type memory_range_pod memory_range_ok by unfold_locales (simp add: memory_range_pod_def)
interpretation item_framebuffer: item_type framebuffer_pod framebuffer_ok by unfold_locales (simp add: framebuffer_pod_def)

text \<open>The view may be at another address than the builder was, as long as it is aligned as well.\<close>

definition same_data :: "item_view \<Rightarrow> item_view \<Rightarrow> bool" where
  "same_data it it' \<longleftrightarrow> iv_kind it' = iv_kind it \<and> iv_payload it' = iv_payload it \<and> iv_addr it' mod 8 = iv_addr it mod 8"

lemma map_option_bind_eq: "map_option h (Option.bind x f) = Option.bind x (\<lambda>y. map_option h (f y))"
  by (cases x) auto

lemma next_item_move:
  assumes "next_item \<lparr>vw_addr = a, vw_bytes = buf\<rparr> off = Some (Some (it, off'))" "a mod 8 = a' mod 8"
  shows "\<exists>it'. next_item \<lparr>vw_addr = a', vw_bytes = buf\<rparr> off = Some (Some (it', off')) \<and> same_data it it'"
proof -
  have m: "(a' + n) mod 8 = (a + n) mod 8" "(a' + n) mod 4 = (a + n) mod 4" for n
  proof -
    show "(a' + n) mod 8 = (a + n) mod 8" using assms(2) by (metis mod_add_left_eq)
    moreover have "(4::nat) dvd 8" by simp
    ultimately show "(a' + n) mod 4 = (a + n) mod 4" by (metis mod_mod_cancel)
  qed
  have g: "get_slice_ref item_header_pod (a' + off) hb = get_slice_ref item_header_pod (a + off) hb" for hb
    by (simp add: get_slice_ref_def item_header_pod_def m(2))
  let ?move = "map_option (map_option (\<lambda>(it, e). (it\<lparr>iv_addr := iv_addr it - a + a'\<rparr>, e)))"
  have "next_item \<lparr>vw_addr = a', vw_bytes = buf\<rparr> off = ?move (next_item \<lparr>vw_addr = a, vw_bytes = buf\<rparr> off)"
    by (simp add: next_item_def view_size_def g map_option_bind_eq add.commute)
  moreover have "same_data it (it\<lparr>iv_addr := iv_addr it - a + a'\<rparr>)"
  proof -
    obtain n where "iv_addr it = a + n" using assms(1)
      by (auto simp: next_item_def Option.bind_eq_Some_conv split: if_splits)
    then show ?thesis using m(1) [of n] by (simp add: same_data_def add.commute)
  qed
  ultimately show ?thesis using assms(1) by auto
qed

lemma items_run_move:
  assumes "items_run \<lparr>vw_addr = a, vw_bytes = buf\<rparr> off its off'" "a mod 8 = a' mod 8"
  shows "\<exists>its'. items_run \<lparr>vw_addr = a', vw_bytes = buf\<rparr> off its' off' \<and> list_all2 same_data its its'"
  using assms(1)
proof (induction rule: items_run.induct)
  case (run_cons off it off1 its off')
  then show ?case using next_item_move [OF run_cons.hyps(1) assms(2)] by (metis items_run.run_cons list_all2_Cons1 list.rel_intros(2))
qed (auto intro: items_run.intros)

lemma same_data_get:
  assumes "same_data it it'" "pod_align T dvd 8"
  shows "item_get T it' = item_get T it" "item_read T it' = item_read T it" "item_get_slice T it' = item_get_slice T it"
proof -
  have "iv_addr it' mod pod_align T = iv_addr it mod pod_align T"
    using assms mod_mod_cancel [of "pod_align T" 8 "iv_addr it"] mod_mod_cancel [of "pod_align T" 8 "iv_addr it'"]
    by (simp add: same_data_def)
  then show "item_get T it' = item_get T it" "item_read T it' = item_read T it" "item_get_slice T it' = item_get_slice T it"
    using assms(1) by (simp_all add: item_read_def item_get_def get_slice_ref_def item_get_slice_def same_data_def)
qed

lemma holds_view:
  assumes "holds b its" "addr mod 8 = 0"
  obtains buf v its' where "builder_finish b = Some buf" "view_new addr buf = Inr v" "view_items v = Some its'"
    "list_all2 same_data its its'"
proof -
  let ?buf = "take (bd_off b) (bd_buf b)"
  from assms obtain off where o: "align_up (bd_off b) ITEM_ALIGN = Some off"
    "items_run \<lparr>vw_addr = bd_addr b, vw_bytes = ?buf\<rparr> 0 its off" by (auto simp: holds_def)
  have "bd_addr b mod 8 = addr mod 8" using assms by (simp add: holds_def)
  from items_run_move [OF o(2) this] obtain its' where
    i: "items_run \<lparr>vw_addr = addr, vw_bytes = ?buf\<rparr> 0 its' off" "list_all2 same_data its its'" by blast
  have "view_size \<lparr>vw_addr = addr, vw_bytes = ?buf\<rparr> \<le> off"
    using align_up_spec(2) [OF o(1)] by (simp add: view_size_def)
  from items_run_items [OF i(1) this] i(2) show thesis
    using assms by (intro that) (simp_all add: builder_finish_def slice_def holds_def view_new_def ITEM_ALIGN_def view_items_def)
qed

end
