(* ===== verification/Utf8.thy ===== *)
theory Utf8
  imports Bytes
begin

text \<open>
  The part of \<open>core::str\<close> that the kernel uses on bytes from outside: UTF-8 validation (\<open>from_utf8\<close>), the splitting of bytes into
  valid and invalid chunks (\<open>Utf8Chunks\<close>), and character boundaries. Splitting loses no byte, and the lossy
  rendering that replaces invalid chunks is always valid UTF-8 and leaves valid text alone.
\<close>

section \<open>One character\<close>

definition is_cont :: "u8 \<Rightarrow> bool" where
  "is_cont b \<longleftrightarrow> 0x80 \<le> unat b \<and> unat b \<le> 0xBF"

definition safe_get :: "u8 list \<Rightarrow> nat \<Rightarrow> u8" where
  "safe_get xs i = (if i < length xs then xs ! i else 0)"

definition utf8_char_width :: "u8 \<Rightarrow> nat" where
  "utf8_char_width b = (let n = unat b in
     if n < 0x80 then 1 else if 0xC2 \<le> n \<and> n \<le> 0xDF then 2 else if 0xE0 \<le> n \<and> n \<le> 0xEF then 3
     else if 0xF0 \<le> n \<and> n \<le> 0xF4 then 4 else 0)"

text \<open>The second byte that may follow the first byte of a character of three or four bytes.\<close>

definition second_ok :: "u8 \<Rightarrow> u8 \<Rightarrow> bool" where
  "second_ok b c = (let n = unat b; m = unat c in
     if n = 0xE0 then 0xA0 \<le> m \<and> m \<le> 0xBF else if n = 0xED then 0x80 \<le> m \<and> m \<le> 0x9F
     else if n = 0xF0 then 0x90 \<le> m \<and> m \<le> 0xBF else if n = 0xF4 then 0x80 \<le> m \<and> m \<le> 0x8F
     else 0x80 \<le> m \<and> m \<le> 0xBF)"

text \<open>How many bytes of a non-empty sequence are inspected for its first character, and whether it is well formed.\<close>

definition utf8_step :: "u8 list \<Rightarrow> nat \<times> bool" where
  "utf8_step bs = (let b = safe_get bs 0; w = utf8_char_width b in
     if w = 1 then (1, True)
     else if w = 2 then if is_cont (safe_get bs 1) then (2, True) else (1, False)
     else if w = 3 then
       if \<not> second_ok b (safe_get bs 1) then (1, False)
       else if \<not> is_cont (safe_get bs 2) then (2, False) else (3, True)
     else if w = 4 then
       if \<not> second_ok b (safe_get bs 1) then (1, False)
       else if \<not> is_cont (safe_get bs 2) then (2, False)
       else if \<not> is_cont (safe_get bs 3) then (3, False) else (4, True)
     else (1, False))"

lemma second_ok_cont: "second_ok b c \<Longrightarrow> is_cont c"
  by (auto simp: second_ok_def is_cont_def Let_def split: if_splits)

lemma safe_get_cont: "is_cont (safe_get bs i) \<Longrightarrow> i < length bs"
  by (auto simp: safe_get_def is_cont_def split: if_splits)

lemma utf8_step_pos: "1 \<le> fst (utf8_step bs)"
  by (simp add: utf8_step_def Let_def)

lemma utf8_step_le: "bs \<noteq> [] \<Longrightarrow> fst (utf8_step bs) \<le> length bs"
  by (auto simp: utf8_step_def Let_def Suc_le_eq numeral_2_eq_2 numeral_3_eq_3 dest!: safe_get_cont second_ok_cont split: if_splits)

lemma drop_step_less: "bs \<noteq> [] \<Longrightarrow> length (drop (fst (utf8_step bs)) bs) < length bs"
  using utf8_step_pos [of bs] by (cases bs) auto

section \<open>Validation and chunks\<close>

function utf8_valid :: "u8 list \<Rightarrow> bool" where
  "utf8_valid bs = (if bs = [] then True else if snd (utf8_step bs) then utf8_valid (drop (fst (utf8_step bs)) bs) else False)"
  by pat_completeness auto
termination by (relation "measure length") (simp, simp only: in_measure, rule drop_step_less)

text \<open>\<open>Utf8Chunks::next\<close>: the longest valid prefix, the invalid sequence after it, and what remains.\<close>

function utf8_chunk :: "u8 list \<Rightarrow> u8 list \<times> u8 list \<times> u8 list" where
  "utf8_chunk bs = (if bs = [] then ([], [], [])
     else let (n, ok) = utf8_step bs in
       if ok then let (v, i, r) = utf8_chunk (drop n bs) in (take n bs @ v, i, r)
       else ([], take n bs, drop n bs))"
  by pat_completeness auto
termination by (relation "measure length") (simp, simp only: in_measure, metis drop_step_less fst_conv)

declare utf8_valid.simps [simp del] utf8_chunk.simps [simp del]

lemma utf8_chunk_append: "utf8_chunk bs = (v, i, r) \<Longrightarrow> v @ i @ r = bs"
proof (induction bs arbitrary: v i r rule: utf8_chunk.induct)
  case (1 bs)
  then show ?case
    by (subst (asm) (2) utf8_chunk.simps) (auto split: if_splits prod.splits)
qed

lemma utf8_chunk_progress: "bs \<noteq> [] \<Longrightarrow> utf8_chunk bs = (v, i, r) \<Longrightarrow> length r < length bs"
proof (induction bs arbitrary: v i r rule: utf8_chunk.induct)
  case (1 bs)
  obtain n ok where s: "utf8_step bs = (n, ok)" by fastforce
  have n: "1 \<le> n" using utf8_step_pos [of bs] s by simp
  show ?case
  proof (cases ok)
    case True
    obtain v' i' r' where c: "utf8_chunk (drop n bs) = (v', i', r')" by (metis prod_cases3)
    then have "r = r'" using "1.prems" s True by (simp add: utf8_chunk.simps [of bs])
    moreover have "length r' \<le> length (drop n bs)" using utf8_chunk_append [OF c] by (metis append.assoc le_add2 length_append)
    ultimately show ?thesis using n "1.prems"(1) by (cases bs) auto
  next
    case False
    then have "r = drop n bs" using "1.prems" s by (simp add: utf8_chunk.simps [of bs])
    then show ?thesis using "1.prems"(1) n by (cases bs) auto
  qed
qed

definition REPLACEMENT_CHARACTER :: "u8 list" where
  "REPLACEMENT_CHARACTER = [0xEF, 0xBF, 0xBD]"

text \<open>\<open>display_utf8_lossy\<close> of \<open>bootparse.rs\<close>, as the bytes it writes.\<close>

function display_utf8_lossy :: "u8 list \<Rightarrow> u8 list" where
  "display_utf8_lossy buf = (if buf = [] then []
     else let (valid, invalid, rest) = utf8_chunk buf in
       valid @ (if invalid \<noteq> [] then REPLACEMENT_CHARACTER else []) @ display_utf8_lossy rest)"
  by pat_completeness auto
termination by (relation "measure length") (simp, simp only: in_measure, metis utf8_chunk_progress)

declare display_utf8_lossy.simps [simp del]

section \<open>Properties\<close>

lemma utf8_valid_step:
  "bs \<noteq> [] \<Longrightarrow> utf8_valid bs \<longleftrightarrow> snd (utf8_step bs) \<and> utf8_valid (drop (fst (utf8_step bs)) bs)"
  by (subst utf8_valid.simps) simp

lemma utf8_valid_Nil [simp]: "utf8_valid []"
  by (subst utf8_valid.simps) simp

text \<open>A well-formed first character is not affected by what follows it.\<close>

lemma safe_get_append: "i < length bs \<Longrightarrow> safe_get (bs @ cs) i = safe_get bs i"
  by (simp add: safe_get_def nth_append)

lemma utf8_step_append:
  assumes "bs \<noteq> []" "snd (utf8_step bs)"
  shows "utf8_step (bs @ cs) = utf8_step bs"
proof -
  have 0: "safe_get (bs @ cs) 0 = safe_get bs 0" using assms(1) by (simp add: safe_get_append)
  have "i < fst (utf8_step bs) \<Longrightarrow> safe_get (bs @ cs) i = safe_get bs i" for i
    using utf8_step_le [OF assms(1)] by (intro safe_get_append) simp
  then show ?thesis using assms(2) 0 by (auto simp: utf8_step_def Let_def split: if_splits)
qed

lemma utf8_valid_append:
  "utf8_valid as \<Longrightarrow> utf8_valid bs \<Longrightarrow> utf8_valid (as @ bs)"
proof (induction as rule: utf8_valid.induct)
  case (1 as)
  show ?case
  proof (cases "as = []")
    case False
    then have s: "snd (utf8_step as)" "utf8_valid (drop (fst (utf8_step as)) as)"
      using "1.prems"(1) utf8_valid_step by blast+
    note st = utf8_step_append [OF False s(1), of bs]
    have "utf8_valid (drop (fst (utf8_step as)) as @ bs)" using 1 False s by blast
    then show ?thesis using False s(1) st utf8_step_le [OF False] utf8_valid_step [of "as @ bs"] by simp
  qed (use 1 in simp)
qed

lemma utf8_chunk_valid: "utf8_chunk bs = (v, i, r) \<Longrightarrow> utf8_valid v"
proof (induction bs arbitrary: v i r rule: utf8_chunk.induct)
  case (1 bs)
  obtain n ok where s: "utf8_step bs = (n, ok)" by fastforce
  show ?case
  proof (cases "bs \<noteq> [] \<and> ok")
    case True
    obtain v' i' r' where c: "utf8_chunk (drop n bs) = (v', i', r')" by (metis prod_cases3)
    have v: "v = take n bs @ v'" using "1.prems" s True c by (simp add: utf8_chunk.simps [of bs])
    have "utf8_valid v'" using "1.IH" [OF _ s [symmetric] refl _ c] True by auto
    moreover have "utf8_valid (take n bs)"
    proof -
      have le: "n \<le> length bs" "1 \<le> n" using utf8_step_le [of bs] utf8_step_pos [of bs] True s by auto
      have "utf8_step (take n bs) = (n, True)"
        using s True le by (auto simp: utf8_step_def Let_def safe_get_def split: if_splits)
      then show ?thesis using le True utf8_valid_step [of "take n bs"] by simp
    qed
    ultimately show ?thesis using v utf8_valid_append by blast
  next
    case False
    then show ?thesis using "1.prems" s by (auto simp: utf8_chunk.simps [of bs] split: if_splits)
  qed
qed

lemma utf8_valid_chunk: "utf8_valid bs \<Longrightarrow> utf8_chunk bs = (bs, [], [])"
proof (induction bs rule: utf8_valid.induct)
  case (1 bs)
  show ?case
  proof (cases "bs = []")
    case False
    then have "snd (utf8_step bs)" "utf8_chunk (drop (fst (utf8_step bs)) bs) = (drop (fst (utf8_step bs)) bs, [], [])"
      using 1 utf8_valid_step by blast+
    then show ?thesis using False by (simp add: utf8_chunk.simps [of bs] split_beta)
  qed (simp add: utf8_chunk.simps)
qed

lemma replacement_valid: "utf8_valid REPLACEMENT_CHARACTER"
proof -
  have "utf8_step REPLACEMENT_CHARACTER = (3, True)"
    by (simp add: REPLACEMENT_CHARACTER_def utf8_step_def utf8_char_width_def second_ok_def is_cont_def safe_get_def Let_def)
  then show ?thesis using utf8_valid_step [of REPLACEMENT_CHARACTER] by (simp add: REPLACEMENT_CHARACTER_def)
qed

lemma lossy_valid: "utf8_valid (display_utf8_lossy bs)"
proof (induction bs rule: display_utf8_lossy.induct)
  case (1 buf)
  obtain v i r where c: "utf8_chunk buf = (v, i, r)" by (metis prod_cases3)
  show ?case
  proof (cases "buf = []")
    case False
    have "utf8_valid (display_utf8_lossy r)" using 1 [OF False c [symmetric] refl] by simp
    then show ?thesis using False c utf8_chunk_valid [OF c] replacement_valid
      by (simp add: display_utf8_lossy.simps [of buf] utf8_valid_append)
  qed (simp add: display_utf8_lossy.simps)
qed

lemma lossy_valid_id: "utf8_valid bs \<Longrightarrow> display_utf8_lossy bs = bs"
  using utf8_valid_chunk [of bs] by (cases "bs = []") (auto simp: display_utf8_lossy.simps [of bs] display_utf8_lossy.simps [of "[]"])

end
