(* ===== verification/Bootparse.thy ===== *)
theory Bootparse
  imports Bootinfo Utf8 Mm_Types
begin

text \<open>
  The kernel's reading of the boot information (\<open>bootparse.rs\<close> and \<open>get_mem_map\<close> of \<open>mm/init.rs\<close>): the items are
  collected into a \<open>BootinfoData\<close>, and the command line is split into \<open>name=value\<close> arguments.
\<close>

section \<open>Command line\<close>

record command_line_arg =
  arg_name :: "u8 list"
  arg_value :: "u8 list"

definition parse_arg :: "u8 list \<Rightarrow> command_line_arg" where
  "parse_arg buf = (let val_delim_pos = length (takeWhile (\<lambda>b. b \<noteq> 0x3D) buf) in
     if val_delim_pos < length buf then \<lparr>arg_name = take val_delim_pos buf, arg_value = drop (val_delim_pos + 1) buf\<rparr>
     else \<lparr>arg_name = buf, arg_value = []\<rparr>)"

definition is_ascii_whitespace :: "u8 \<Rightarrow> bool" where
  "is_ascii_whitespace b \<longleftrightarrow> b \<in> {0x20, 0x09, 0x0A, 0x0C, 0x0D}"

text \<open>\<open>slice::split\<close>: one more part than there are separators.\<close>

fun split_slice :: "('a \<Rightarrow> bool) \<Rightarrow> 'a list \<Rightarrow> 'a list list" where
  "split_slice P [] = [[]]"
| "split_slice P (x # xs) = (if P x then [] # split_slice P xs
     else case split_slice P xs of [] \<Rightarrow> [[x]] | p # ps \<Rightarrow> (x # p) # ps)"

definition cmdline_args :: "u8 list \<Rightarrow> command_line_arg list" where
  "cmdline_args buf = map parse_arg (filter (\<lambda>s. s \<noteq> []) (split_slice is_ascii_whitespace buf))"

definition get_arg_value :: "u8 list \<Rightarrow> u8 list \<Rightarrow> u8 list option" where
  "get_arg_value buf name = map_option arg_value (find (\<lambda>arg. arg_name arg = name) (rev (cmdline_args buf)))"

definition get_arg_str_value :: "u8 list \<Rightarrow> u8 list \<Rightarrow> u8 list option" where
  "get_arg_str_value buf name = do {
     val \<leftarrow> get_arg_value buf name;
     if utf8_valid val then Some val else None }"

definition display_arg :: "command_line_arg \<Rightarrow> u8 list" where
  "display_arg a = display_utf8_lossy (arg_name a) @ [0x3D] @ display_utf8_lossy (arg_value a)"

fun join_bytes :: "u8 list \<Rightarrow> u8 list list \<Rightarrow> u8 list" where
  "join_bytes sep [] = []"
| "join_bytes sep [x] = x"
| "join_bytes sep (x # y # xs) = x @ sep @ join_bytes sep (y # xs)"

definition display_cmdline :: "u8 list \<Rightarrow> u8 list" where
  "display_cmdline buf = join_bytes [0x20] (map display_arg (cmdline_args buf))"

section \<open>Parsed boot information\<close>

record bootinfo_data =
  bi_memory_map :: "memory_range list"
  bi_efi_system_table :: "phys_addr option"
  bi_framebuffer_info :: "framebuffer_info option"
  bi_command_line :: "u8 list"

text \<open>The local variables of \<open>parse\<close> while it goes over the items.\<close>

record parse_state =
  ps_memory_map :: "memory_range list option"
  ps_efi_system_table :: "phys_addr option"
  ps_framebuffer_info :: "framebuffer_info option"
  ps_command_line :: "u8 list option"

definition ok_of :: "'e + 'a \<Rightarrow> 'a option" where
  "ok_of r = (case r of Inl _ \<Rightarrow> None | Inr x \<Rightarrow> Some x)"

lemma ok_of_Some [panic_simps]: "ok_of r = Some x \<longleftrightarrow> r = Inr x"
  by (auto simp: ok_of_def split: sum.splits)

lemma expect_Some [panic_simps]: "(case r of Inl e \<Rightarrow> None | Inr u \<Rightarrow> f u) = Some y \<longleftrightarrow> (\<exists>u. r = Inr u \<and> f u = Some y)"
  by (cases r) auto

definition parse_item :: "item_view \<Rightarrow> parse_state \<Rightarrow> parse_state option" where
  "parse_item it s =
     (if iv_kind it = MEMORY_MAP then do { m \<leftarrow> ok_of (item_get_slice memory_range_pod it); Some (s\<lparr>ps_memory_map := Some m\<rparr>) }
      else if iv_kind it = EFI_SYSTEM_TABLE then Some (s\<lparr>ps_efi_system_table := ok_of (item_read usize_pod it)\<rparr>)
      else if iv_kind it = FRAMEBUFFER then Some (s\<lparr>ps_framebuffer_info := ok_of (item_get framebuffer_pod it)\<rparr>)
      else if iv_kind it = COMMAND_LINE then Some (s\<lparr>ps_command_line := ok_of (item_get_slice u8_pod it)\<rparr>)
      else Some s)"

fun parse_items :: "item_view list \<Rightarrow> parse_state \<Rightarrow> parse_state option" where
  "parse_items [] s = Some s"
| "parse_items (it # its) s = do { s' \<leftarrow> parse_item it s; parse_items its s' }"

definition parse_init :: parse_state where
  "parse_init = \<lparr>ps_memory_map = None, ps_efi_system_table = None, ps_framebuffer_info = None, ps_command_line = None\<rparr>"

definition bootinfo_parse :: "virt_addr \<Rightarrow> u8 list \<Rightarrow> bootinfo_data option" where
  "bootinfo_parse addr buffer = do {
     view \<leftarrow> ok_of (view_new addr buffer);
     its \<leftarrow> view_items view;
     s \<leftarrow> parse_items its parse_init;
     memory_map \<leftarrow> ps_memory_map s;
     Some \<lparr>bi_memory_map = memory_map, bi_efi_system_table = ps_efi_system_table s,
       bi_framebuffer_info = ps_framebuffer_info s, bi_command_line = (case ps_command_line s of None \<Rightarrow> [] | Some c \<Rightarrow> c)\<rparr> }"

text \<open>\<open>parse_phys\<close> reads the bytes through the direct map; \<open>byte_at\<close> is the contents of memory.\<close>

definition bootinfo_parse_phys :: "(virt_addr \<Rightarrow> u8) \<Rightarrow> phys_addr \<Rightarrow> usize \<Rightarrow> bootinfo_data option" where
  "bootinfo_parse_phys byte_at paddr sz = do {
     addr \<leftarrow> paddr_to_physmap paddr;
     bootinfo_parse addr (map byte_at [addr..<addr + sz]) }"

definition get_mem_map :: "view_buf \<Rightarrow> memory_range list option" where
  "get_mem_map view = do {
     found \<leftarrow> view_find view (\<lambda>it. iv_kind it = MEMORY_MAP);
     mem_map_item \<leftarrow> found;
     ok_of (item_get_slice memory_range_pod mem_map_item) }"

section \<open>Splitting and joining\<close>

lemma split_slice_not_Nil [simp]: "split_slice P xs \<noteq> []"
  by (induction xs) (auto split: list.splits)

lemma split_slice_no_sep: "p \<in> set (split_slice P xs) \<Longrightarrow> x \<in> set p \<Longrightarrow> \<not> P x"
proof (induction xs arbitrary: p)
  case (Cons a xs)
  obtain q qs where q: "split_slice P xs = q # qs" using split_slice_not_Nil [of P xs] by (cases "split_slice P xs") auto
  then show ?case using Cons.prems Cons.IH [of p] Cons.IH [of q] by (auto split: if_splits)
qed simp

lemma split_slice_id: "\<forall>x\<in>set xs. \<not> P x \<Longrightarrow> split_slice P xs = [xs]"
  by (induction xs) auto

lemma split_slice_append_sep:
  "P x \<Longrightarrow> split_slice P (xs @ x # ys) = split_slice P xs @ split_slice P ys"
  by (induction xs) (auto split: list.splits)

text \<open>An argument is what its writer meant, whatever stands before it, when no later argument has the same name.\<close>

lemma parse_arg_eq: "\<forall>b\<in>set n. b \<noteq> 0x3D \<Longrightarrow> parse_arg (n @ [0x3D] @ v) = \<lparr>arg_name = n, arg_value = v\<rparr>"
  by (simp add: parse_arg_def takeWhile_append)

lemma cmdline_args_append:
  assumes "is_ascii_whitespace sp"
  shows "cmdline_args (as @ sp # bs) = cmdline_args as @ cmdline_args bs"
  using split_slice_append_sep [of is_ascii_whitespace sp as bs] assms by (simp add: cmdline_args_def)

lemma cmdline_args_word:
  assumes "\<forall>b\<in>set w. \<not> is_ascii_whitespace b" "w \<noteq> []"
  shows "cmdline_args w = [parse_arg w]"
  using split_slice_id [of w is_ascii_whitespace] assms by (simp add: cmdline_args_def)

text \<open>
  C30. The value of an argument is the text after the first \<open>=\<close> of its last occurrence: appending \<open>name=value\<close> to a command line
  makes \<open>get_arg_value\<close> return \<open>value\<close> for \<open>name\<close> and leaves every other argument as it was.
\<close>

theorem get_arg_value_last:
  assumes "is_ascii_whitespace sp" "\<forall>b\<in>set name. b \<noteq> 0x3D \<and> \<not> is_ascii_whitespace b" "\<forall>b\<in>set val. \<not> is_ascii_whitespace b"
  shows "get_arg_value (line @ [sp] @ name @ [0x3D] @ val) name = Some val \<and>
    (\<forall>other. other \<noteq> name \<longrightarrow> get_arg_value (line @ [sp] @ name @ [0x3D] @ val) other = get_arg_value line other)"
proof -
  have w: "\<forall>b\<in>set (name @ [0x3D] @ val). \<not> is_ascii_whitespace b" "name @ [0x3D] @ val \<noteq> []"
    using assms by (auto simp: is_ascii_whitespace_def)
  have "cmdline_args (line @ sp # name @ [0x3D] @ val) = cmdline_args line @ [\<lparr>arg_name = name, arg_value = val\<rparr>]"
    using cmdline_args_append [OF assms(1), of line] cmdline_args_word [OF w] parse_arg_eq [of name val] assms(2) by simp
  then show ?thesis by (simp add: get_arg_value_def)
qed

theorem get_arg_value_last_witness:
  "get_arg_value ([0x61, 0x3D, 0x31] @ [0x20] @ [0x61] @ [0x3D] @ [0x32]) [0x61] = Some [0x32]"
  using get_arg_value_last [of "0x20" "[0x61]" "[0x32]" "[0x61, 0x3D, 0x31]"] by (simp add: is_ascii_whitespace_def)

text \<open>The rendering of a command line is valid UTF-8, whatever bytes the loader passed.\<close>

lemma join_bytes_valid:
  "utf8_valid sep \<Longrightarrow> \<forall>x\<in>set xs. utf8_valid x \<Longrightarrow> utf8_valid (join_bytes sep xs)"
  by (induction sep xs rule: join_bytes.induct) (auto simp: utf8_valid_append)

lemma utf8_ascii: "unat b < 0x80 \<Longrightarrow> utf8_valid [b]"
  by (simp add: utf8_valid_step utf8_step_def utf8_char_width_def safe_get_def Let_def)

lemma display_cmdline_valid: "utf8_valid (display_cmdline buf)"
  unfolding display_cmdline_def
proof (rule join_bytes_valid)
  have "utf8_valid (display_arg a)" for a
    unfolding display_arg_def by (intro utf8_valid_append lossy_valid utf8_ascii) simp
  then show "\<forall>x\<in>set (map display_arg (cmdline_args buf)). utf8_valid x" by simp
qed (simp add: utf8_ascii)

section \<open>Reading what a builder wrote\<close>

lemma parse_items_append: "parse_items (as @ bs) s = Option.bind (parse_items as s) (parse_items bs)"
proof (induction as arbitrary: s)
  case (Cons a as)
  then show ?case by (cases "parse_item a s") auto
qed simp

lemma parse_item_same_data: "same_data it it' \<Longrightarrow> parse_item it' s = parse_item it s"
  using same_data_get [of it it' memory_range_pod] same_data_get [of it it' usize_pod] same_data_get [of it it' framebuffer_pod]
    same_data_get [of it it' u8_pod]
  by (simp add: parse_item_def same_data_def memory_range_pod_def usize_pod_def framebuffer_pod_def u8_pod_def)

lemma parse_items_same_data: "list_all2 same_data its its' \<Longrightarrow> parse_items its' s = parse_items its s"
proof (induction arbitrary: s rule: list_all2_induct)
  case (Cons it its it' its')
  then have "parse_items its' = parse_items its" by blast
  then show ?case using parse_item_same_data [OF Cons.hyps(1), of s] by simp
qed simp

text \<open>\<open>reads b s\<close>: the parser ends in state \<open>s\<close> on the items written so far.\<close>

definition reads :: "builder \<Rightarrow> parse_state \<Rightarrow> bool" where
  "reads b s \<longleftrightarrow> (\<exists>its. holds b its \<and> parse_items its parse_init = Some s)"

lemma reads_new: "builder_new addr buf = Inr b \<Longrightarrow> reads b parse_init"
  using builder_new_holds by (auto simp: reads_def intro!: exI [of _ "[]"])

lemma reads_append_framebuffer:
  assumes "reads b s" "append_item framebuffer_pod FRAMEBUFFER f b = Some (Inr (), b')" "framebuffer_ok f"
  shows "reads b' (s\<lparr>ps_framebuffer_info := Some f\<rparr>)"
proof -
  from assms(1) obtain its where i: "holds b its" "parse_items its parse_init = Some s" by (auto simp: reads_def)
  from item_framebuffer.append_item_holds [OF i(1) assms(2,3)] obtain it where
    "holds b' (its @ [it])" "iv_kind it = FRAMEBUFFER" "item_get framebuffer_pod it = Inr f" by blast
  with i(2) show ?thesis
    unfolding reads_def by (intro exI [of _ "its @ [it]"]) (simp add: parse_items_append parse_item_def ok_of_def item_kinds)
qed

lemma reads_append_efi:
  assumes "reads b s" "append_item usize_pod EFI_SYSTEM_TABLE p b = Some (Inr (), b')" "p < USIZE_LIM"
  shows "reads b' (s\<lparr>ps_efi_system_table := Some p\<rparr>)"
proof -
  from assms(1) obtain its where i: "holds b its" "parse_items its parse_init = Some s" by (auto simp: reads_def)
  from item_usize.append_item_holds [OF i(1) assms(2,3)] obtain it where
    "holds b' (its @ [it])" "iv_kind it = EFI_SYSTEM_TABLE" "item_read usize_pod it = Inr p" by blast
  with i(2) show ?thesis
    unfolding reads_def by (intro exI [of _ "its @ [it]"]) (simp add: parse_items_append parse_item_def ok_of_def item_kinds)
qed

lemma reads_append_cmdline:
  assumes "reads b s" "append_slice u8_pod COMMAND_LINE c b = Some (Inr (), b')"
  shows "reads b' (s\<lparr>ps_command_line := Some c\<rparr>)"
proof -
  from assms(1) obtain its where i: "holds b its" "parse_items its parse_init = Some s" by (auto simp: reads_def)
  have "list_all (\<lambda>_. True) c" by (simp add: list_all_iff)
  from item_u8.append_slice_holds [OF i(1) assms(2) this] obtain it where
    "holds b' (its @ [it])" "iv_kind it = COMMAND_LINE" "item_get_slice u8_pod it = Inr c" by blast
  with i(2) show ?thesis
    unfolding reads_def by (intro exI [of _ "its @ [it]"]) (simp add: parse_items_append parse_item_def ok_of_def item_kinds)
qed

lemma reads_append_mmap:
  assumes "reads b s" "append_slice memory_range_pod MEMORY_MAP m b = Some (Inr (), b')" "list_all memory_range_ok m"
  shows "reads b' (s\<lparr>ps_memory_map := Some m\<rparr>)"
proof -
  from assms(1) obtain its where i: "holds b its" "parse_items its parse_init = Some s" by (auto simp: reads_def)
  from item_memory_range.append_slice_holds [OF i(1) assms(2,3)] obtain it where
    "holds b' (its @ [it])" "iv_kind it = MEMORY_MAP" "item_get_slice memory_range_pod it = Inr m" by blast
  with i(2) show ?thesis
    unfolding reads_def by (intro exI [of _ "its @ [it]"]) (simp add: parse_items_append parse_item_def ok_of_def item_kinds)
qed

lemma reads_parse:
  assumes "reads b s" "ps_memory_map s = Some m" "addr mod 8 = 0"
  obtains buf where "builder_finish b = Some buf"
    "bootinfo_parse addr buf = Some \<lparr>bi_memory_map = m, bi_efi_system_table = ps_efi_system_table s,
       bi_framebuffer_info = ps_framebuffer_info s, bi_command_line = (case ps_command_line s of None \<Rightarrow> [] | Some c \<Rightarrow> c)\<rparr>"
proof -
  from assms(1) obtain its where i: "holds b its" "parse_items its parse_init = Some s" by (auto simp: reads_def)
  from i(1) assms(3) obtain buf v its' where v: "builder_finish b = Some buf" "view_new addr buf = Inr v" "view_items v = Some its'"
    "list_all2 same_data its its'" by (rule holds_view)
  then show thesis using i(2) assms(2) parse_items_same_data [OF v(4)]
    by (intro that [OF v(1)]) (simp add: bootinfo_parse_def ok_of_def)
qed

end
