(* ===== verification/Uefi.thy ===== *)
theory Uefi
  imports Bytes
begin

text \<open>
  The crate \<open>kernel/uefi\<close>: status codes, nul-terminated strings, GUIDs, and the safe wrappers of the firmware tables. The
  firmware itself is not part of the program: it is the record \<open>boot_services\<close> (and the protocol records) of functions on an
  unspecified firmware state \<open>'s\<close>, one per function pointer that the wrappers call. A wrapper is a
  computation on that state that panics, fails with a status or returns.
\<close>

unbundle bit_operations_syntax

section \<open>Status codes\<close>

type_synonym status = u64

definition ERROR_BIT :: u64 where "ERROR_BIT = push_bit 63 1"

definition err_code :: "u64 \<Rightarrow> u64" where
  "err_code code = (code OR ERROR_BIT)"

definition SUCCESS :: status where "SUCCESS = 0"
definition WARN_UNKNOWN_GLYPH :: status where "WARN_UNKNOWN_GLYPH = 1"
definition LOAD_ERROR :: status where "LOAD_ERROR = err_code 1"
definition INVALID_PARAMETER :: status where "INVALID_PARAMETER = err_code 2"
definition UNSUPPORTED :: status where "UNSUPPORTED = err_code 3"
definition BUFFER_TOO_SMALL :: status where "BUFFER_TOO_SMALL = err_code 5"
definition ST_OUT_OF_RESOURCES :: status where "ST_OUT_OF_RESOURCES = err_code 9"
definition NOT_FOUND :: status where "NOT_FOUND = err_code 14"
definition END_OF_FILE :: status where "END_OF_FILE = err_code 31"

lemmas status_defs = ERROR_BIT_def err_code_def SUCCESS_def WARN_UNKNOWN_GLYPH_def LOAD_ERROR_def INVALID_PARAMETER_def
  UNSUPPORTED_def BUFFER_TOO_SMALL_def ST_OUT_OF_RESOURCES_def NOT_FOUND_def END_OF_FILE_def

definition st_is_err :: "status \<Rightarrow> bool" where
  "st_is_err s \<longleftrightarrow> s AND ERROR_BIT \<noteq> 0"

definition st_is_success :: "status \<Rightarrow> bool" where
  "st_is_success s \<longleftrightarrow> s = SUCCESS"

definition st_is_warn :: "status \<Rightarrow> bool" where
  "st_is_warn s \<longleftrightarrow> \<not> st_is_success s \<and> \<not> st_is_err s"

definition to_result :: "status \<Rightarrow> status + unit" where
  "to_result s = (if st_is_err s then Inl s else Inr ())"

text \<open>Every status is exactly one of success, warning and error, and only errors become \<open>Err\<close>.\<close>

lemma st_is_err_bit: "st_is_err s \<longleftrightarrow> bit s 63"
proof -
  have "bit (s AND ERROR_BIT) n \<longleftrightarrow> n = 63 \<and> bit s 63" for n
    unfolding ERROR_BIT_def bit_and_iff push_bit_of_1 bit_exp_iff by auto
  then show ?thesis unfolding st_is_err_def bit_eq_iff [of "s AND _"] by simp
qed

lemma err_code_is_err: "st_is_err (err_code c)"
  by (simp add: st_is_err_bit err_code_def ERROR_BIT_def bit_or_iff bit_push_bit_iff)

lemma to_result_err: "to_result (err_code c) = Inl (err_code c)"
  by (simp add: to_result_def err_code_is_err)

lemma to_result_success: "to_result SUCCESS = Inr ()"
  by (simp add: to_result_def st_is_err_bit SUCCESS_def)

section \<open>Nul-terminated UCS-2 strings\<close>

datatype from_u16s_error = FromU16sWithNulError

definition status_of_u16s_error :: "from_u16s_error \<Rightarrow> status" where
  "status_of_u16s_error e = INVALID_PARAMETER"

definition from_u16s_with_nul :: "u16 list \<Rightarrow> from_u16s_error + u16 list" where
  "from_u16s_with_nul s = (let nul_pos = length (takeWhile (\<lambda>c. c \<noteq> 0) s) in
     if nul_pos < length s \<and> nul_pos + 1 = length s then Inr s else Inl FromU16sWithNulError)"

text \<open>\<open>from_ptr\<close> reads memory until a nul; it does not return when there is none.\<close>

partial_function (option) cstr_len :: "(nat \<Rightarrow> u16) \<Rightarrow> nat \<Rightarrow> nat option" where
  "cstr_len mem len = (if mem len \<noteq> 0 then cstr_len mem (len + 1) else Some len)"

definition from_ptr :: "(nat \<Rightarrow> u16) \<Rightarrow> u16 list option" where
  "from_ptr mem = do { len \<leftarrow> cstr_len mem 0; Some (map mem [0..<len + 1]) }"

definition to_u16s :: "u16 list \<Rightarrow> u16 list" where
  "to_u16s s = take (length s - 1) s"

text \<open>\<open>Display\<close>: the characters written, and whether a code unit that is no character stopped it.\<close>

fun display_u16s :: "u16 list \<Rightarrow> nat list \<times> bool" where
  "display_u16s [] = ([], True)"
| "display_u16s (c # cs) =
     (if 0xD800 \<le> unat c \<and> unat c \<le> 0xDFFF then ([], False)
      else let (r, ok) = display_u16s cs in (unat c # r, ok))"

lemma cstr_len_first:
  assumes "mem n = 0" "\<forall>i. len \<le> i \<and> i < n \<longrightarrow> mem i \<noteq> 0" "len \<le> n"
  shows "cstr_len mem len = Some n"
  using assms
proof (induction "n - len" arbitrary: len)
  case 0
  then show ?case by (simp add: cstr_len.simps)
next
  case (Suc d)
  then have "mem len \<noteq> 0" "len < n" by auto
  moreover have "cstr_len mem (len + 1) = Some n" using Suc calculation by auto
  ultimately show ?case by (simp add: cstr_len.simps [of mem len])
qed

text \<open>Reading a valid string back from memory gives the string: the two constructors agree.\<close>

lemma from_ptr_round_trip:
  assumes "from_u16s_with_nul s = Inr s" "\<forall>i<length s. mem i = s ! i"
  shows "from_ptr mem = Some s"
proof -
  let ?n = "length (takeWhile (\<lambda>c. c \<noteq> 0) s)"
  from assms(1) have n: "?n < length s" "?n + 1 = length s" by (auto simp: from_u16s_with_nul_def Let_def split: if_splits)
  have "mem ?n = 0" using nth_length_takeWhile [OF n(1)] assms(2) n(1) by simp
  moreover have "mem i \<noteq> 0" if "i < ?n" for i
  proof -
    have "takeWhile (\<lambda>c. c \<noteq> 0) s ! i \<noteq> 0" using that set_takeWhileD nth_mem by fastforce
    then show ?thesis using that assms(2) n(1) takeWhile_nth [OF that] by simp
  qed
  ultimately have "cstr_len mem 0 = Some ?n" by (intro cstr_len_first) auto
  moreover have "map mem [0..<?n + 1] = s" using assms(2) n(2) by (intro nth_equalityI) auto
  ultimately show ?thesis by (simp add: from_ptr_def)
qed

section \<open>GUIDs\<close>

record guid =
  guid_a :: u32
  guid_b :: u16
  guid_c :: u16
  guid_d :: "u8 list"

definition hex_digit :: "char \<Rightarrow> nat option" where
  "hex_digit c = (let n = of_char c :: nat in
     if 48 \<le> n \<and> n \<le> 57 then Some (n - 48) else if 97 \<le> n \<and> n \<le> 102 then Some (n - 87)
     else if 65 \<le> n \<and> n \<le> 70 then Some (n - 55) else None)"

definition from_str_radix16 :: "string \<Rightarrow> nat option" where
  "from_str_radix16 s = (if s = [] then None
     else fold (\<lambda>c r. do { n \<leftarrow> r; d \<leftarrow> hex_digit c; let v = 16 * n + d; if v < 2 ^ 64 then Some v else None }) s (Some 0))"

definition parse_hex :: "string \<Rightarrow> usize \<Rightarrow> nat option" where
  "parse_hex input digits = (if length input \<noteq> digits then None else from_str_radix16 input)"

fun split_char :: "char \<Rightarrow> string \<Rightarrow> string list" where
  "split_char sep [] = [[]]"
| "split_char sep (c # cs) = (if c = sep then [] # split_char sep cs
     else case split_char sep cs of [] \<Rightarrow> [[c]] | p # ps \<Rightarrow> (c # p) # ps)"

definition to_be_bytes :: "nat \<Rightarrow> nat \<Rightarrow> u8 list" where
  "to_be_bytes n x = rev (le_bytes n x)"

definition parse_guid :: "string \<Rightarrow> guid option" where
  "parse_guid lit = (case split_char (CHR ''-'') lit of
     [p0, p1, p2, p3, p4] \<Rightarrow> do {
       time_low \<leftarrow> parse_hex p0 8;
       time_mid \<leftarrow> parse_hex p1 4;
       time_high_ver \<leftarrow> parse_hex p2 4;
       clock \<leftarrow> parse_hex p3 4;
       node \<leftarrow> parse_hex p4 12;
       Some \<lparr>guid_a = of_nat time_low, guid_b = of_nat time_mid, guid_c = of_nat time_high_ver,
         guid_d = to_be_bytes 2 clock @ drop 2 (to_be_bytes 8 node)\<rparr> }
   | _ \<Rightarrow> None)"

lemma parse_guid_length: "parse_guid lit = Some g \<Longrightarrow> length (guid_d g) = 8"
  by (auto simp: parse_guid_def to_be_bytes_def Option.bind_eq_Some_conv split: list.splits)

end
