(* ===== verification/Uefi_Table.thy ===== *)
theory Uefi_Table
  imports Uefi
begin

text \<open>
  The wrappers of the firmware tables and protocols (\<open>uefi/src/table.rs\<close>, \<open>bootalloc.rs\<close>, \<open>proto/fs.rs\<close>, \<open>proto/gop.rs\<close>,
  \<open>proto/path.rs\<close>, \<open>proto/io.rs\<close>). The record \<open>boot_services\<close> holds one function on the firmware state per function pointer that
  is called; \<open>file_ops\<close> likewise for an open file.
\<close>

section \<open>Types\<close>

type_synonym handle = usize
type_synonym memory_map_key = usize
type_synonym memory_type = u32

definition MT_RESERVED :: memory_type where "MT_RESERVED = 0"
definition MT_LOADER_CODE :: memory_type where "MT_LOADER_CODE = 1"
definition MT_LOADER_DATA :: memory_type where "MT_LOADER_DATA = 2"
definition MT_BOOT_SERVICES_CODE :: memory_type where "MT_BOOT_SERVICES_CODE = 3"
definition MT_BOOT_SERVICES_DATA :: memory_type where "MT_BOOT_SERVICES_DATA = 4"
definition MT_RUNTIME_SERVICES_CODE :: memory_type where "MT_RUNTIME_SERVICES_CODE = 5"
definition MT_RUNTIME_SERVICES_DATA :: memory_type where "MT_RUNTIME_SERVICES_DATA = 6"
definition MT_CONVENTIONAL :: memory_type where "MT_CONVENTIONAL = 7"
definition MT_UNUSABLE :: memory_type where "MT_UNUSABLE = 8"
definition MT_ACPI_RECLAIM :: memory_type where "MT_ACPI_RECLAIM = 9"

lemmas memory_types = MT_RESERVED_def MT_LOADER_CODE_def MT_LOADER_DATA_def MT_BOOT_SERVICES_CODE_def MT_BOOT_SERVICES_DATA_def
  MT_RUNTIME_SERVICES_CODE_def MT_RUNTIME_SERVICES_DATA_def MT_CONVENTIONAL_def MT_UNUSABLE_def MT_ACPI_RECLAIM_def

record memory_descriptor =
  md_mem_type :: memory_type
  md_phys_start :: usize
  md_virt_start :: usize
  md_page_count :: usize
  md_attr :: usize

definition memory_descriptor_pod :: "memory_descriptor pod" where
  "memory_descriptor_pod = \<lparr>pod_size = 40, pod_align = 8,
     pod_enc = (\<lambda>d. le_bytes 4 (unat (md_mem_type d)) @ replicate 4 0 @ le_bytes 8 (md_phys_start d) @ le_bytes 8 (md_virt_start d) @
       le_bytes 8 (md_page_count d) @ le_bytes 8 (md_attr d)),
     pod_dec = (\<lambda>bs. \<lparr>md_mem_type = of_nat (le_nat (take 4 bs)), md_phys_start = le_nat (take 8 (drop 8 bs)),
       md_virt_start = le_nat (take 8 (drop 16 bs)), md_page_count = le_nat (take 8 (drop 24 bs)), md_attr = le_nat (take 8 (drop 32 bs))\<rparr>)\<rparr>"

section \<open>Firmware functions\<close>

datatype alloc_mode = AllocAny | AllocBelow usize | AllocAt usize

datatype alloc_mode_abi = AnyPages | MaxAddress | Address

text \<open>
  Out-parameters are results: \<open>get_memory_map\<close> gets the size of the buffer and returns the status, the size, key and descriptor size
  it stored, and the bytes it wrote to the buffer.
\<close>

record 's boot_services =
  fw_allocate_pages :: "alloc_mode_abi \<Rightarrow> memory_type \<Rightarrow> usize \<Rightarrow> usize \<Rightarrow> 's \<Rightarrow> status \<times> usize \<times> 's"
  fw_free_pages :: "usize \<Rightarrow> usize \<Rightarrow> 's \<Rightarrow> status \<times> 's"
  fw_get_memory_map :: "usize \<Rightarrow> 's \<Rightarrow> status \<times> usize \<times> memory_map_key \<times> usize \<times> u8 list \<times> 's"
  fw_allocate_pool :: "memory_type \<Rightarrow> usize \<Rightarrow> 's \<Rightarrow> status \<times> usize \<times> 's"
  fw_free_pool :: "usize \<Rightarrow> 's \<Rightarrow> status \<times> 's"
  fw_exit_boot_services :: "handle \<Rightarrow> memory_map_key \<Rightarrow> 's \<Rightarrow> status \<times> 's"
  fw_open_protocol :: "handle \<Rightarrow> guid \<Rightarrow> handle \<Rightarrow> handle \<Rightarrow> u32 \<Rightarrow> 's \<Rightarrow> status \<times> usize \<times> 's"
  fw_close_protocol :: "handle \<Rightarrow> guid \<Rightarrow> handle \<Rightarrow> handle \<Rightarrow> 's \<Rightarrow> status \<times> 's"
  fw_locate_protocol :: "guid \<Rightarrow> 's \<Rightarrow> status \<times> usize \<times> 's"

definition eff_status :: "status \<Rightarrow> ('s, status, unit) eff" where
  "eff_status st s = Some (to_result st, s)"

section \<open>Memory map\<close>

definition memory_map_size :: "'s boot_services \<Rightarrow> ('s, status, usize \<times> usize) eff" where
  "memory_map_size bs s = (let (st, mmap_size, key, desc_size, data, s1) = fw_get_memory_map bs 0 s in
     if st \<noteq> BUFFER_TOO_SMALL then eff_bind (eff_status st) (\<lambda>_. eff_return (mmap_size, desc_size)) s1
     else eff_return (mmap_size, desc_size) s1)"

text \<open>The iterator over the descriptors in a buffer: position, end, stride.\<close>

record memory_map_iter =
  mi_buf :: "u8 list"
  mi_ptr :: usize
  mi_end :: usize
  mi_desc_size :: usize

definition mmap_next :: "memory_map_iter \<Rightarrow> (memory_descriptor \<times> memory_map_iter) option" where
  "mmap_next it = (if mi_ptr it = mi_end it then None
     else Some (pod_dec memory_descriptor_pod (take 40 (drop (mi_ptr it) (mi_buf it))), it\<lparr>mi_ptr := mi_ptr it + mi_desc_size it\<rparr>))"

definition mmap_size_hint :: "memory_map_iter \<Rightarrow> usize option" where
  "mmap_size_hint it = do { d \<leftarrow> usub (mi_end it) (mi_ptr it); udiv d (mi_desc_size it) }"

partial_function (option) mmap_collect :: "memory_map_iter \<Rightarrow> memory_descriptor list option" where
  "mmap_collect it = (case mmap_next it of None \<Rightarrow> Some []
     | Some (d, it') \<Rightarrow> Option.bind (mmap_collect it') (\<lambda>r. Some (d # r)))"

definition memory_map :: "'s boot_services \<Rightarrow> usize \<Rightarrow> u8 list \<Rightarrow> ('s, status, memory_map_key \<times> memory_map_iter) eff" where
  "memory_map bs ptr buf s =
     eff_bind (eff_assert (ptr mod pod_align memory_descriptor_pod = 0)) (\<lambda>_ s0.
       let (st, sz, key, desc_size, data, s1) = fw_get_memory_map bs (length buf) s0 in
       eff_bind (eff_status st) (\<lambda>_.
       eff_bind (eff_lift (umod sz desc_size)) (\<lambda>r.
       eff_bind (eff_assert (r = 0)) (\<lambda>_.
       eff_return (key, \<lparr>mi_buf = put_bytes 0 data buf, mi_ptr = 0, mi_end = sz, mi_desc_size = desc_size\<rparr>)))) s1) s"

section \<open>Memory\<close>

definition bs_alloc :: "'s boot_services \<Rightarrow> usize \<Rightarrow> ('s, status, usize) eff" where
  "bs_alloc bs sz s = (let (st, p, s1) = fw_allocate_pool bs MT_LOADER_DATA sz s in
     eff_bind (eff_status st) (\<lambda>_. eff_bind (eff_assert (p \<noteq> 0)) (\<lambda>_. eff_return p)) s1)"

text \<open>A call whose error is a panic: \<open>.to_result().expect(..)\<close>.\<close>

definition expect_status :: "status \<times> 's \<Rightarrow> 's option" where
  "expect_status r = (case to_result (fst r) of Inl _ \<Rightarrow> None | Inr _ \<Rightarrow> Some (snd r))"

definition bs_free :: "'s boot_services \<Rightarrow> usize \<Rightarrow> 's \<Rightarrow> 's option" where
  "bs_free bs p s = expect_status (fw_free_pool bs p s)"

definition alloc_pages :: "'s boot_services \<Rightarrow> alloc_mode \<Rightarrow> usize \<Rightarrow> ('s, status, usize) eff" where
  "alloc_pages bs mode pages s =
     (let (mode', addr) = (case mode of AllocAny \<Rightarrow> (AnyPages, 0) | AllocBelow a \<Rightarrow> (MaxAddress, a) | AllocAt a \<Rightarrow> (Address, a));
          (st, addr', s1) = fw_allocate_pages bs mode' MT_LOADER_DATA pages addr s in
      eff_bind (eff_status st) (\<lambda>_. eff_return addr') s1)"

definition bs_free_pages :: "'s boot_services \<Rightarrow> usize \<Rightarrow> usize \<Rightarrow> 's \<Rightarrow> 's option" where
  "bs_free_pages bs addr pages s = expect_status (fw_free_pages bs addr pages s)"

text \<open>\<open>BootAlloc\<close>, the allocator of boxes: \<open>Inl ()\<close> is \<open>AllocError\<close>.\<close>

definition MAX_ALIGN :: usize where "MAX_ALIGN = 8"

definition boot_alloc_allocate :: "'s boot_services \<Rightarrow> usize \<Rightarrow> usize \<Rightarrow> 's \<Rightarrow> ((unit + usize) \<times> 's) option" where
  "boot_alloc_allocate bs sz align s =
     (if align > MAX_ALIGN then None
      else case bs_alloc bs sz s of
        None \<Rightarrow> None
      | Some (Inl _, s') \<Rightarrow> Some (Inl (), s')
      | Some (Inr p, s') \<Rightarrow> Some (if p = 0 then Inl () else Inr p, s'))"

definition boot_alloc_deallocate :: "'s boot_services \<Rightarrow> usize \<Rightarrow> 's \<Rightarrow> 's option" where
  "boot_alloc_deallocate bs p s = bs_free bs p s"

section \<open>Protocols\<close>

text \<open>An open protocol remembers what \<open>Drop\<close> needs to close it.\<close>

record open_protocol_handle =
  op_proto :: usize
  op_handle :: handle
  op_image_handle :: handle
  op_guid :: guid

definition OPEN_BY_HANDLE_PROTOCOL :: u32 where "OPEN_BY_HANDLE_PROTOCOL = 1"

definition open_protocol :: "'s boot_services \<Rightarrow> guid \<Rightarrow> handle \<Rightarrow> handle \<Rightarrow> ('s, status, open_protocol_handle) eff" where
  "open_protocol bs g h image_handle s =
     (let (st, abi, s1) = fw_open_protocol bs h g image_handle 0 OPEN_BY_HANDLE_PROTOCOL s in
      eff_bind (eff_status st) (\<lambda>_. eff_return \<lparr>op_proto = abi, op_handle = h, op_image_handle = image_handle, op_guid = g\<rparr>) s1)"

definition open_protocol_drop :: "'s boot_services \<Rightarrow> open_protocol_handle \<Rightarrow> 's \<Rightarrow> 's option" where
  "open_protocol_drop bs h s = expect_status (fw_close_protocol bs (op_handle h) (op_guid h) (op_image_handle h) 0 s)"

definition locate_protocol :: "'s boot_services \<Rightarrow> guid \<Rightarrow> ('s, status, usize) eff" where
  "locate_protocol bs g s = (let (st, abi, s1) = fw_locate_protocol bs g s in
     eff_bind (eff_status st) (\<lambda>_. eff_return abi) s1)"

section \<open>Leaving the boot services\<close>

text \<open>
  The loop of \<open>exit_boot_services\<close>: it ends in an error, or with the memory map that is passed to the function which
  never returns. \<open>None\<close> is a panic or a firmware that keeps invalidating the memory map.
\<close>

partial_function (option) exit_boot_services ::
  "'s boot_services \<Rightarrow> handle \<Rightarrow> usize \<Rightarrow> u8 list \<Rightarrow> 's \<Rightarrow> ((status + memory_map_iter) \<times> 's) option" where
  "exit_boot_services bs image_handle ptr buf s =
     (case memory_map bs ptr buf s of
        None \<Rightarrow> None
      | Some (Inl e, s1) \<Rightarrow> Some (Inl e, s1)
      | Some (Inr (key, mmap), s1) \<Rightarrow>
          (let (st, s2) = fw_exit_boot_services bs image_handle key s1 in
           if st = INVALID_PARAMETER then exit_boot_services bs image_handle ptr (mi_buf mmap) s2
           else case to_result st of Inl e \<Rightarrow> Some (Inl e, s2) | Inr _ \<Rightarrow> Some (Inr mmap, s2)))"

section \<open>Files\<close>

text \<open>An open file: the firmware functions of its \<open>FileAbi\<close>, on the firmware state.\<close>

record 's file_ops =
  f_open :: "u16 list \<Rightarrow> u64 \<Rightarrow> u64 \<Rightarrow> 's \<Rightarrow> status \<times> usize \<times> 's"
  f_close :: "'s \<Rightarrow> status \<times> 's"
  f_read :: "usize \<Rightarrow> 's \<Rightarrow> status \<times> usize \<times> u8 list \<times> 's"
  f_write :: "u8 list \<Rightarrow> 's \<Rightarrow> status \<times> usize \<times> 's"
  f_get_position :: "'s \<Rightarrow> status \<times> usize \<times> 's"
  f_set_position :: "usize \<Rightarrow> 's \<Rightarrow> status \<times> 's"
  f_get_info :: "guid \<Rightarrow> usize \<Rightarrow> 's \<Rightarrow> status \<times> usize \<times> u8 list \<times> 's"

definition OPEN_MODE_READ :: u64 where "OPEN_MODE_READ = 1"
definition OPEN_MODE_WRITE :: u64 where "OPEN_MODE_WRITE = 2"

definition file_open :: "'s file_ops \<Rightarrow> u16 list \<Rightarrow> u64 \<Rightarrow> ('s, status, usize) eff" where
  "file_open f name mode s = (let (st, abi, s1) = f_open f name mode 0 s in
     eff_bind (eff_status st) (\<lambda>_. eff_return abi) s1)"

definition file_read :: "'s file_ops \<Rightarrow> usize \<Rightarrow> ('s, status, u8 list) eff" where
  "file_read f len s = (let (st, sz, data, s1) = f_read f len s in
     eff_bind (eff_status st) (\<lambda>_. eff_bind (eff_assert (sz \<le> len)) (\<lambda>_. eff_return (take sz data))) s1)"

definition file_read_exact :: "'s file_ops \<Rightarrow> usize \<Rightarrow> ('s, status, u8 list) eff" where
  "file_read_exact f len = eff_bind (file_read f len) (\<lambda>res. if length res \<noteq> len then eff_fail END_OF_FILE else eff_return res)"

definition file_write :: "'s file_ops \<Rightarrow> u8 list \<Rightarrow> ('s, status, usize) eff" where
  "file_write f buf s = (let (st, sz, s1) = f_write f buf s in eff_bind (eff_status st) (\<lambda>_. eff_return sz) s1)"

definition file_position :: "'s file_ops \<Rightarrow> ('s, status, usize) eff" where
  "file_position f s = (let (st, pos, s1) = f_get_position f s in eff_bind (eff_status st) (\<lambda>_. eff_return pos) s1)"

definition file_set_position :: "'s file_ops \<Rightarrow> usize \<Rightarrow> ('s, status, unit) eff" where
  "file_set_position f pos s = (let (st, s1) = f_set_position f pos s in eff_status st s1)"

definition file_info_size :: "'s file_ops \<Rightarrow> guid \<Rightarrow> ('s, status, usize) eff" where
  "file_info_size f file_info s = (let (st, sz, data, s1) = f_get_info f file_info 0 s in
     if st \<noteq> BUFFER_TOO_SMALL then eff_bind (eff_status st) (\<lambda>_. eff_return sz) s1 else eff_return sz s1)"

text \<open>The accessors of \<open>FileInfo\<close>, from its bytes: three times of 16 bytes stand before the attributes, the name follows the structure.\<close>

definition fi_size :: "u8 list \<Rightarrow> usize" where
  "fi_size bs = le_nat (take 8 (drop 8 bs))"

definition fi_physical_size :: "u8 list \<Rightarrow> usize" where
  "fi_physical_size bs = le_nat (take 8 (drop 16 bs))"

definition fi_attr :: "u8 list \<Rightarrow> usize" where
  "fi_attr bs = le_nat (take 8 (drop 72 bs))"

definition fi_name :: "u8 list \<Rightarrow> u16 list option" where
  "fi_name bs = from_ptr (\<lambda>i. of_nat (le_nat (take 2 (drop (80 + 2 * i) bs))))"

definition file_info :: "'s file_ops \<Rightarrow> guid \<Rightarrow> usize \<Rightarrow> usize \<Rightarrow> ('s, status, u8 list) eff" where
  "file_info f g ptr len s =
     eff_bind (eff_assert (ptr mod 8 = 0)) (\<lambda>_ s0.
       let (st, sz, data, s1) = f_get_info f g len s0 in eff_bind (eff_status st) (\<lambda>_. eff_return data) s1) s"

definition file_drop :: "'s file_ops \<Rightarrow> 's \<Rightarrow> 's" where
  "file_drop f s = snd (f_close f s)"

section \<open>Graphics output\<close>

record pixel_bitmask =
  red_mask :: u32
  green_mask :: u32
  blue_mask :: u32
  reserved_mask :: u32

datatype gop_pixel_format = Rgb | Bgr | Bitmask pixel_bitmask | UnknownFormat

definition has_framebuffer :: "gop_pixel_format \<Rightarrow> bool" where
  "has_framebuffer f \<longleftrightarrow> f \<noteq> UnknownFormat"

record mode_info_abi =
  mia_hres :: u32
  mia_vres :: u32
  mia_pixel_format :: u32
  mia_pixel_bitmask :: pixel_bitmask
  mia_pixels_per_scanline :: u32

record current_mode_abi =
  cma_info :: mode_info_abi
  cma_framebuffer_base :: usize
  cma_framebuffer_size :: usize

record mode_info =
  mo_hres :: u32
  mo_vres :: u32
  mo_pixels_per_scanline :: u32
  mo_pixel_format :: gop_pixel_format

record gop_mode =
  gm_info :: mode_info
  gm_framebuffer :: "(usize \<times> usize) option"

definition PIXEL_FORMAT_RGB :: u32 where "PIXEL_FORMAT_RGB = 0"
definition PIXEL_FORMAT_BGR :: u32 where "PIXEL_FORMAT_BGR = 1"
definition PIXEL_FORMAT_BITMASK :: u32 where "PIXEL_FORMAT_BITMASK = 2"

definition mode_info_from_abi :: "mode_info_abi \<Rightarrow> mode_info" where
  "mode_info_from_abi abi =
     (let pixel_format = (if mia_pixel_format abi = PIXEL_FORMAT_RGB then Rgb
        else if mia_pixel_format abi = PIXEL_FORMAT_BGR then Bgr
        else if mia_pixel_format abi = PIXEL_FORMAT_BITMASK then Bitmask (mia_pixel_bitmask abi)
        else UnknownFormat)
      in \<lparr>mo_hres = mia_hres abi, mo_vres = mia_vres abi, mo_pixels_per_scanline = mia_pixels_per_scanline abi, mo_pixel_format = pixel_format\<rparr>)"

definition current_mode :: "current_mode_abi \<Rightarrow> gop_mode" where
  "current_mode mode =
     (let info = mode_info_from_abi (cma_info mode)
      in \<lparr>gm_info = info,
          gm_framebuffer = (if has_framebuffer (mo_pixel_format info) then Some (cma_framebuffer_base mode, cma_framebuffer_size mode) else None)\<rparr>)"

section \<open>Device paths\<close>

definition DN_TYPE_END :: u8 where "DN_TYPE_END = 0x7f"
definition DN_SUB_TYPE_END_ENTIRE :: u8 where "DN_SUB_TYPE_END_ENTIRE = 0xff"

text \<open>A node is its address in memory; the packed header is the type, the subtype and a 16-bit length.\<close>

definition node_type :: "(nat \<Rightarrow> u8) \<Rightarrow> usize \<Rightarrow> u8" where
  "node_type mem p = mem p"

definition node_sub_type :: "(nat \<Rightarrow> u8) \<Rightarrow> usize \<Rightarrow> u8" where
  "node_sub_type mem p = mem (p + 1)"

definition node_length :: "(nat \<Rightarrow> u8) \<Rightarrow> usize \<Rightarrow> usize" where
  "node_length mem p = le_nat [mem (p + 2), mem (p + 3)]"

definition node_data :: "(nat \<Rightarrow> u8) \<Rightarrow> usize \<Rightarrow> u8 list option" where
  "node_data mem p = do {
     uassert (node_length mem p \<ge> 4);
     len \<leftarrow> usub (node_length mem p) 4;
     Some (map mem [p + 4..<p + 4 + len]) }"

definition node_next :: "(nat \<Rightarrow> u8) \<Rightarrow> usize \<Rightarrow> usize option" where
  "node_next mem p =
     (if node_type mem p = DN_TYPE_END \<and> node_sub_type mem p = DN_SUB_TYPE_END_ENTIRE then None
      else Some (p + node_length mem p))"

text \<open>All nodes of a path (\<open>iter::successors\<close>), the end node included; endless when the path has no end node.\<close>

partial_function (option) path_nodes :: "(nat \<Rightarrow> u8) \<Rightarrow> usize \<Rightarrow> usize list option" where
  "path_nodes mem p = (case node_next mem p of
     None \<Rightarrow> Some [p]
   | Some q \<Rightarrow> Option.bind (path_nodes mem q) (\<lambda>r. Some (p # r)))"

section \<open>Text output\<close>

text \<open>
  \<open>output_str\<close> sends the text in chunks of at most 64 characters, each nul-terminated, with a carriage return before every line
  feed. \<open>enc\<close> stands for the third-party encoder: the UCS-2 characters of the text, and whether it has no others. The
  firmware function \<open>out\<close> prints one chunk; the state of the closure is the array of 65 code units and the index of the next one. Storing
  outside the array panics.
\<close>

definition BUF_LEN :: usize where "BUF_LEN = 64"

definition output_string_unchecked :: "(u16 list \<Rightarrow> 's \<Rightarrow> status \<times> 's) \<Rightarrow> u16 list \<Rightarrow> ('s, status, unit) eff" where
  "output_string_unchecked out str s = (let (st, s1) = out str s in eff_status st s1)"

definition array_set :: "'a list \<Rightarrow> usize \<Rightarrow> 'a \<Rightarrow> 'a list option" where
  "array_set xs i x = (if i < length xs then Some (xs[i := x]) else None)"

definition putchar :: "(u16 list \<Rightarrow> 's \<Rightarrow> status \<times> 's) \<Rightarrow> u16 \<Rightarrow> u16 list \<times> usize \<Rightarrow> ('s, status, u16 list \<times> usize) eff" where
  "putchar out ch = (\<lambda>(buf, i).
     eff_bind (if i = BUF_LEN then eff_bind (output_string_unchecked out buf) (\<lambda>_. eff_return (map (\<lambda>_. 0) buf, 0))
               else eff_return (buf, i)) (\<lambda>(buf, i).
     eff_bind (eff_lift (array_set buf i ch)) (\<lambda>buf.
     eff_bind (eff_lift (uadd i 1)) (\<lambda>i. eff_return (buf, i)))))"

fun put_chars :: "(u16 list \<Rightarrow> 's \<Rightarrow> status \<times> 's) \<Rightarrow> u16 list \<Rightarrow> u16 list \<times> usize \<Rightarrow> ('s, status, u16 list \<times> usize) eff" where
  "put_chars out [] b = eff_return b"
| "put_chars out (ch # cs) b =
     eff_bind (if ch = 0x0A then putchar out 0x0D b else eff_return b) (\<lambda>b1.
     eff_bind (putchar out ch b1) (\<lambda>b2. put_chars out cs b2))"

definition output_str :: "(string \<Rightarrow> u16 list \<times> bool) \<Rightarrow> (u16 list \<Rightarrow> 's \<Rightarrow> status \<times> 's) \<Rightarrow> string \<Rightarrow> ('s, status, unit) eff" where
  "output_str enc out str =
     (let (chars, ok) = enc str in
      eff_bind (put_chars out chars (replicate (BUF_LEN + 1) 0, 0)) (\<lambda>(buf, _).
      if \<not> ok then eff_fail WARN_UNKNOWN_GLYPH else output_string_unchecked out buf))"

section \<open>Properties\<close>

text \<open>The iterator yields as many descriptors as its \<open>size_hint\<close> promises, one per stride.\<close>

lemma mmap_collect_length:
  assumes "mi_end it = mi_ptr it + n * mi_desc_size it" "0 < mi_desc_size it"
  shows "mmap_collect it = Some (map (\<lambda>i. pod_dec memory_descriptor_pod (take 40 (drop (mi_ptr it + i * mi_desc_size it) (mi_buf it)))) [0..<n])"
    and "mmap_size_hint it = Some n"
proof -
  show "mmap_size_hint it = Some n" using assms by (simp add: mmap_size_hint_def usub_def udiv_def)
  show "mmap_collect it = Some (map (\<lambda>i. pod_dec memory_descriptor_pod (take 40 (drop (mi_ptr it + i * mi_desc_size it) (mi_buf it)))) [0..<n])"
    using assms
  proof (induction n arbitrary: it)
    case 0
    then show ?case by (simp add: mmap_collect.simps mmap_next_def)
  next
    case (Suc n)
    let ?it = "it\<lparr>mi_ptr := mi_ptr it + mi_desc_size it\<rparr>"
    have "mmap_collect ?it = Some (map (\<lambda>i. pod_dec memory_descriptor_pod (take 40 (drop (mi_ptr it + Suc i * mi_desc_size it) (mi_buf it)))) [0..<n])"
      using Suc.IH [of ?it] Suc.prems by (simp add: algebra_simps)
    then have "mmap_collect it = Some (pod_dec memory_descriptor_pod (take 40 (drop (mi_ptr it) (mi_buf it))) #
        map (\<lambda>i. pod_dec memory_descriptor_pod (take 40 (drop (mi_ptr it + Suc i * mi_desc_size it) (mi_buf it)))) [0..<n])"
      using Suc.prems by (simp add: mmap_collect.simps [of it] mmap_next_def)
    also have "\<dots> = Some (map (\<lambda>i. pod_dec memory_descriptor_pod (take 40 (drop (mi_ptr it + i * mi_desc_size it) (mi_buf it)))) (0 # map Suc [0..<n]))"
      by (simp add: comp_def)
    also have "0 # map Suc [0..<n] = [0..<Suc n]" by (simp only: map_Suc_upt upt_conv_Cons [OF zero_less_Suc])
    finally show ?case .
  qed
qed

lemma to_result_Inr: "to_result st = Inr u \<longleftrightarrow> \<not> st_is_err st"
  by (simp add: to_result_def)

text \<open>
  The memory map that \<open>exit_boot_services\<close> hands on is the one whose key the firmware accepted: no other call came
  between taking the map and leaving the boot services.
\<close>

lemma exit_boot_services_key:
  fixes s :: 's
  assumes "exit_boot_services bs h ptr buf s = Some (Inr mmap, s')"
  shows "\<exists>buf0 s0 key s1 st. memory_map bs ptr buf0 s0 = Some (Inr (key, mmap), s1) \<and>
    fw_exit_boot_services bs h key s1 = (st, s') \<and> \<not> st_is_err st"
proof -
  let ?Q = "\<lambda>(bs :: 's boot_services) h ptr (buf :: u8 list) (s :: 's) (y :: (status + memory_map_iter) \<times> 's). fst y = Inr mmap \<longrightarrow> (\<exists>buf0 s0 key s1 st.
    memory_map bs ptr buf0 s0 = Some (Inr (key, mmap), s1) \<and> fw_exit_boot_services bs h key s1 = (st, snd y) \<and> \<not> st_is_err st)"
  have "?Q bs h ptr buf s (Inr mmap, s')"
  proof (rule exit_boot_services.raw_induct [where P = ?Q, rotated 1], rule assms)
    fix rec bs h ptr buf s y
    assume ih: "\<And>bs h ptr buf s y. rec bs h ptr buf s = Some y \<Longrightarrow> ?Q bs h ptr buf s y"
      and run: "(case memory_map bs ptr buf s of None \<Rightarrow> None | Some (Inl e, s1) \<Rightarrow> Some (Inl e, s1)
        | Some (Inr (key, mmap), s1) \<Rightarrow> (let (st, s2) = fw_exit_boot_services bs h key s1 in
           if st = INVALID_PARAMETER then rec bs h ptr (mi_buf mmap) s2
           else case to_result st of Inl e \<Rightarrow> Some (Inl e, s2) | Inr _ \<Rightarrow> Some (Inr mmap, s2))) = Some y"
    show "?Q bs h ptr buf s y"
    proof
      assume y: "fst y = Inr mmap"
      from run y obtain key mm s1 where m: "memory_map bs ptr buf s = Some (Inr (key, mm), s1)"
        by (auto split: option.split_asm sum.split_asm)
      obtain st s2 where st: "fw_exit_boot_services bs h key s1 = (st, s2)" by fastforce
      show "\<exists>buf0 s0 key s1 st. memory_map bs ptr buf0 s0 = Some (Inr (key, mmap), s1) \<and>
        fw_exit_boot_services bs h key s1 = (st, snd y) \<and> \<not> st_is_err st"
      proof (cases "st = INVALID_PARAMETER")
        case True
        then show ?thesis using run ih [of bs h ptr "mi_buf mm" s2 y] y m st by simp
      next
        case False
        then have "mm = mmap" "snd y = s2" "\<not> st_is_err st" using run y m st by (auto simp: to_result_def split: if_splits)
        then show ?thesis using m st by blast
      qed
    qed
  qed
  then show ?thesis by simp
qed

text \<open>Leaving the boot services ends when the firmware accepts a key after finitely many attempts.\<close>

lemma exit_boot_services_returns:
  assumes "memory_map bs ptr buf s = Some (Inr (key, mmap), s1)" "fw_exit_boot_services bs h key s1 = (st, s2)" "st \<noteq> INVALID_PARAMETER"
  shows "exit_boot_services bs h ptr buf s = Some (if st_is_err st then Inl st else Inr mmap, s2)"
  using assms by (simp add: exit_boot_services.simps [of bs h ptr buf s] to_result_def)

text \<open>A console that accepts every chunk and keeps it as it was sent; what it shows of a chunk ends at the first nul.\<close>

definition record_chunk :: "u16 list \<Rightarrow> u16 list list \<Rightarrow> status \<times> u16 list list" where
  "record_chunk str s = (SUCCESS, s @ [str])"

definition shown :: "u16 list list \<Rightarrow> u16 list" where
  "shown chunks = concat (map (takeWhile (\<lambda>c. c \<noteq> 0)) chunks)"

text \<open>A chunk is the whole array, with a nul in it.\<close>

definition chunk_ok :: "u16 list \<Rightarrow> bool" where
  "chunk_ok chunk \<longleftrightarrow> length chunk = BUF_LEN + 1 \<and> 0 \<in> set chunk"

fun crlf :: "u16 list \<Rightarrow> u16 list" where
  "crlf [] = []"
| "crlf (c # cs) = (if c = 0x0A then 0x0D # c # crlf cs else c # crlf cs)"

text \<open>The array after the characters \<open>cs\<close> have been stored.\<close>

definition nul_pad :: "u16 list \<Rightarrow> u16 list" where
  "nul_pad cs = cs @ replicate (BUF_LEN + 1 - length cs) 0"

lemma nul_pad_chunk:
  assumes "0 \<notin> set cs" "length cs \<le> BUF_LEN"
  shows "chunk_ok (nul_pad cs)" "takeWhile (\<lambda>c. c \<noteq> 0) (nul_pad cs) = cs" "map (\<lambda>_. 0) (nul_pad cs) = nul_pad []"
proof -
  have r: "nul_pad cs = cs @ 0 # replicate (BUF_LEN - length cs) 0"
    using assms(2) unfolding nul_pad_def by (metis Suc_diff_le Suc_eq_plus1 replicate_Suc)
  have "takeWhile (\<lambda>c. c \<noteq> 0) (cs @ 0 # ys) = cs" for ys using assms(1) by (induction cs) auto
  then show "takeWhile (\<lambda>c. c \<noteq> 0) (nul_pad cs) = cs" unfolding r .
  show "chunk_ok (nul_pad cs)" using assms(2) by (simp add: r chunk_ok_def)
  show "map (\<lambda>_. 0) (nul_pad cs) = nul_pad []" using assms(2) by (simp add: nul_pad_def map_replicate_const replicate_add [symmetric] del: replicate_Suc)
qed

lemma nul_pad_set: "length cs \<le> BUF_LEN \<Longrightarrow> array_set (nul_pad cs) (length cs) c = Some (nul_pad (cs @ [c]))"
  by (cases "BUF_LEN + 1 - length cs") (simp_all add: array_set_def nul_pad_def list_update_append)

lemma putchar_record:
  assumes "0 \<notin> set cs" "length cs \<le> BUF_LEN" "ch \<noteq> 0"
  shows "\<exists>cs' ks. putchar record_chunk ch (nul_pad cs, length cs) s = Some (Inr (nul_pad cs', length cs'), s @ ks) \<and>
    shown ks @ cs' = cs @ [ch] \<and> list_all chunk_ok ks \<and> 0 \<notin> set cs' \<and> length cs' \<le> BUF_LEN"
proof (cases "length cs = BUF_LEN")
  case True
  have "array_set (nul_pad []) 0 ch = Some (nul_pad [ch])" using nul_pad_set [of "[]" ch] by simp
  then have "putchar record_chunk ch (nul_pad cs, length cs) s = Some (Inr (nul_pad [ch], 1), s @ [nul_pad cs])"
    using nul_pad_chunk(3) [OF assms(1,2)] True
    by (simp add: putchar_def eff_bind_def eff_return_def eff_lift_def output_string_unchecked_def record_chunk_def eff_status_def to_result_success
        uadd_def USIZE_LIM_def)
  then show ?thesis using nul_pad_chunk(1,2) [OF assms(1,2)] assms(3)
    by (intro exI [of _ "[ch]"] exI [of _ "[nul_pad cs]"]) (simp add: shown_def BUF_LEN_def)
next
  case False
  then have "putchar record_chunk ch (nul_pad cs, length cs) s = Some (Inr (nul_pad (cs @ [ch]), length (cs @ [ch])), s @ [])"
    using nul_pad_set [OF assms(2), of ch] assms(2)
    by (simp add: putchar_def eff_bind_def eff_return_def eff_lift_def uadd_def USIZE_LIM_def BUF_LEN_def)
  then show ?thesis using False assms by (intro exI [of _ "cs @ [ch]"] exI [of _ "[]"]) (simp add: shown_def)
qed

lemma shown_append: "shown (ks @ ls) = shown ks @ shown ls"
  by (simp add: shown_def)

lemma put_chars_record:
  "0 \<notin> set chars \<Longrightarrow> 0 \<notin> set cs \<Longrightarrow> length cs \<le> BUF_LEN \<Longrightarrow>
    \<exists>cs' ks. put_chars record_chunk chars (nul_pad cs, length cs) s = Some (Inr (nul_pad cs', length cs'), s @ ks) \<and>
      shown ks @ cs' = cs @ crlf chars \<and> list_all chunk_ok ks \<and> 0 \<notin> set cs' \<and> length cs' \<le> BUF_LEN"
proof (induction chars arbitrary: cs s)
  case Nil
  then show ?case by (intro exI [of _ cs] exI [of _ "[]"]) (simp add: eff_return_def shown_def)
next
  case (Cons ch chars)
  obtain c1 k1 where 1: "(if ch = 0x0A then putchar record_chunk 0x0D (nul_pad cs, length cs) else eff_return (nul_pad cs, length cs)) s =
      Some (Inr (nul_pad c1, length c1), s @ k1)"
    "shown k1 @ c1 = cs @ (if ch = 0x0A then [0x0D] else [])" "list_all chunk_ok k1" "0 \<notin> set c1" "length c1 \<le> BUF_LEN"
  proof (cases "ch = 0x0A")
    case True
    then show thesis using putchar_record [of cs "0x0D" s] Cons.prems that by auto
  next
    case False
    then show thesis using Cons.prems that [of cs "[]"] by (simp add: eff_return_def shown_def)
  qed
  obtain c2 k2 where 2: "putchar record_chunk ch (nul_pad c1, length c1) (s @ k1) = Some (Inr (nul_pad c2, length c2), (s @ k1) @ k2)"
    "shown k2 @ c2 = c1 @ [ch]" "list_all chunk_ok k2" "0 \<notin> set c2" "length c2 \<le> BUF_LEN"
    using putchar_record [of c1 ch "s @ k1"] 1(4,5) Cons.prems by auto
  obtain c3 k3 where 3: "put_chars record_chunk chars (nul_pad c2, length c2) ((s @ k1) @ k2) = Some (Inr (nul_pad c3, length c3), ((s @ k1) @ k2) @ k3)"
    "shown k3 @ c3 = c2 @ crlf chars" "list_all chunk_ok k3" "0 \<notin> set c3" "length c3 \<le> BUF_LEN"
    using Cons.IH [of c2 "(s @ k1) @ k2"] 2(4,5) Cons.prems by auto
  have "shown (k1 @ k2 @ k3) @ c3 = shown k1 @ (shown k2 @ c2) @ crlf chars" using 3(2) by (simp add: shown_append)
  also have "\<dots> = (shown k1 @ c1) @ [ch] @ crlf chars" unfolding 2(2) by simp
  also have "\<dots> = cs @ crlf (ch # chars)" unfolding 1(2) by simp
  finally show ?case using 1(1,3) 2(1,3) 3(1,3-) by (intro exI [of _ c3] exI [of _ "k1 @ k2 @ k3"]) (simp add: eff_bind_def)
qed

text \<open>
  C31. On a console that accepts every chunk, for a text that the encoder turns into UCS-2 characters none of which is nul, \<open>output_str\<close> returns without storing outside its array. Every chunk it sends
  is its array of 65 code units with a nul in it, so at most 64 characters are printed at once, and together
  the chunks show exactly the characters of the text, each line feed preceded by a carriage return.
\<close>

theorem output_str_prints:
  assumes "enc str = (chars, True)" "0 \<notin> set chars"
  shows "\<exists>chunks. output_str enc record_chunk str s = Some (Inr (), s @ chunks) \<and> list_all chunk_ok chunks \<and> shown chunks = crlf chars"
proof -
  obtain cs ks where r: "put_chars record_chunk chars (nul_pad [], 0) s = Some (Inr (nul_pad cs, length cs), s @ ks)"
    "shown ks @ cs = crlf chars" "list_all chunk_ok ks" "0 \<notin> set cs" "length cs \<le> BUF_LEN"
    using put_chars_record [OF assms(2), of "[]" s] by auto
  have "output_str enc record_chunk str s = Some (Inr (), s @ ks @ [nul_pad cs])"
    using r(1) assms(1) by (simp add: output_str_def eff_bind_def nul_pad_def [of "[]"] output_string_unchecked_def record_chunk_def eff_status_def to_result_success)
  then show ?thesis using r(2,3) nul_pad_chunk(1,2) [OF r(4,5)] by (intro exI [of _ "ks @ [nul_pad cs]"]) (simp add: shown_append shown_def)
qed

theorem output_str_prints_witness:
  "\<exists>chunks. output_str (\<lambda>t. (map (\<lambda>c. of_nat (of_char c)) t, True)) record_chunk ''hi'' [] = Some (Inr (), chunks) \<and>
     list_all chunk_ok chunks \<and> shown chunks = [0x68, 0x69]"
  using output_str_prints [of "\<lambda>t. (map (\<lambda>c. of_nat (of_char c)) t, True)" "''hi''" "[0x68, 0x69]" "[]"] by simp

end
