(* ===== verification/Boot_Loader.thy ===== *)
theory Boot_Loader
  imports Bootparse Uefi_Table
begin

text \<open>
  The UEFI boot loader (\<open>kernel/efiboot\<close>) and the ELF types it reads (\<open>lib/minielf\<close>): the kernel image is loaded segment by
  segment, the firmware's memory map is sorted, merged and appended to the boot information, and control passes to the
  kernel. The last section proves that the kernel reads exactly what the loader collected.
\<close>

section \<open>Allocation\<close>

definition LOADER_PAGE_SIZE :: usize where "LOADER_PAGE_SIZE = 0x1000"

text \<open>An allocated buffer is its address and its length.\<close>

definition alloc_uninit_pages :: "'s boot_services \<Rightarrow> usize \<Rightarrow> ('s, status, usize \<times> usize) eff" where
  "alloc_uninit_pages bs bytes =
     eff_bind (eff_lift (div_ceil bytes LOADER_PAGE_SIZE)) (\<lambda>pages.
     eff_bind (alloc_pages bs AllocAny pages) (\<lambda>p.
     eff_bind (eff_lift (umul pages LOADER_PAGE_SIZE)) (\<lambda>len. eff_return (p, len))))"

definition alloc_uninit_data :: "'s boot_services \<Rightarrow> usize \<Rightarrow> usize \<Rightarrow> ('s, status, usize \<times> usize) eff" where
  "alloc_uninit_data bs size_of_t len =
     eff_bind (eff_lift (umul len size_of_t)) (\<lambda>bytes.
     eff_bind (bs_alloc bs bytes) (\<lambda>p. eff_return (p, len)))"

text \<open>Values with a destructor: the destructor runs on success and on an early return.\<close>

definition eff_drop :: "('s \<Rightarrow> 's option) \<Rightarrow> ('s, 'e, 'a) eff \<Rightarrow> ('s, 'e, 'a) eff" where
  "eff_drop d m s = (case m s of None \<Rightarrow> None | Some (r, s1) \<Rightarrow> map_option (\<lambda>s2. (r, s2)) (d s1))"

section \<open>ELF images\<close>

definition ELF_MAGIC :: "u8 list" where "ELF_MAGIC = [0x7f, 0x45, 0x4c, 0x46]"
definition CLASS_64 :: u8 where "CLASS_64 = 2"
definition DATA_LE :: u8 where "DATA_LE = 1"
definition IDENT_VERSION_CURRENT :: u8 where "IDENT_VERSION_CURRENT = 1"
definition ABI_SYSV :: u8 where "ABI_SYSV = 0"
definition ABI_VERSION_CURRENT :: u8 where "ABI_VERSION_CURRENT = 0"
definition VERSION_CURRENT :: usize where "VERSION_CURRENT = 1"
definition SEGMENT_TYPE_LOAD :: usize where "SEGMENT_TYPE_LOAD = 1"

record elf_header =
  eh_magic :: "u8 list"
  eh_class :: u8
  eh_data :: u8
  eh_ident_version :: u8
  eh_abi :: u8
  eh_abi_version :: u8
  eh_ty :: usize
  eh_machine :: usize
  eh_version :: usize
  eh_entry :: usize
  eh_ph_off :: usize
  eh_sh_off :: usize
  eh_flags :: usize
  eh_header_size :: usize
  eh_ph_entry_size :: usize
  eh_ph_entry_num :: usize
  eh_sh_entry_size :: usize
  eh_sh_entry_num :: usize
  eh_sh_str_index :: usize

definition field :: "usize \<Rightarrow> usize \<Rightarrow> u8 list \<Rightarrow> usize" where
  "field off n bs = le_nat (take n (drop off bs))"

definition ELF_HEADER_SIZE :: usize where "ELF_HEADER_SIZE = 64"

definition elf_header_dec :: "u8 list \<Rightarrow> elf_header" where
  "elf_header_dec bs = \<lparr>eh_magic = take 4 bs, eh_class = bs ! 4, eh_data = bs ! 5, eh_ident_version = bs ! 6, eh_abi = bs ! 7,
     eh_abi_version = bs ! 8, eh_ty = field 16 2 bs, eh_machine = field 18 2 bs, eh_version = field 20 4 bs, eh_entry = field 24 8 bs,
     eh_ph_off = field 32 8 bs, eh_sh_off = field 40 8 bs, eh_flags = field 48 4 bs, eh_header_size = field 52 2 bs,
     eh_ph_entry_size = field 54 2 bs, eh_ph_entry_num = field 56 2 bs, eh_sh_entry_size = field 58 2 bs,
     eh_sh_entry_num = field 60 2 bs, eh_sh_str_index = field 62 2 bs\<rparr>"

definition elf_is_valid :: "elf_header \<Rightarrow> bool" where
  "elf_is_valid h \<longleftrightarrow> eh_magic h = ELF_MAGIC \<and> eh_class h = CLASS_64 \<and> eh_data h = DATA_LE
     \<and> eh_ident_version h = IDENT_VERSION_CURRENT \<and> eh_abi h = ABI_SYSV \<and> eh_abi_version h = ABI_VERSION_CURRENT
     \<and> eh_version h = VERSION_CURRENT"

record program_header =
  ph_ty :: usize
  ph_flags :: usize
  ph_off :: usize
  ph_virt_addr :: usize
  ph_phys_addr :: usize
  ph_file_size :: usize
  ph_mem_size :: usize
  ph_align :: usize

definition PROGRAM_HEADER_SIZE :: usize where "PROGRAM_HEADER_SIZE = 56"

definition program_header_dec :: "u8 list \<Rightarrow> program_header" where
  "program_header_dec bs = \<lparr>ph_ty = field 0 4 bs, ph_flags = field 4 4 bs, ph_off = field 8 8 bs, ph_virt_addr = field 16 8 bs,
     ph_phys_addr = field 24 8 bs, ph_file_size = field 32 8 bs, ph_mem_size = field 40 8 bs, ph_align = field 48 8 bs\<rparr>"

definition program_headers_dec :: "usize \<Rightarrow> u8 list \<Rightarrow> program_header list" where
  "program_headers_dec count bs = map (\<lambda>i. program_header_dec (drop (i * PROGRAM_HEADER_SIZE) bs)) [0..<count]"

section \<open>Loading the kernel\<close>

definition read_header :: "'s file_ops \<Rightarrow> ('s, status, elf_header) eff" where
  "read_header f =
     eff_bind (file_set_position f 0) (\<lambda>_.
     eff_bind (file_read_exact f ELF_HEADER_SIZE) (\<lambda>bytes.
     let header = elf_header_dec bytes in
     if elf_is_valid header then eff_return header else eff_fail LOAD_ERROR))"

text \<open>
  The program headers are read into a box, which is freed when \<open>load_elf\<close> returns; its allocation failing aborts. The result
  is the headers and the box, its address and size. A box of no bytes is a dangling pointer and is not allocated.
\<close>

definition box_new :: "'s boot_services \<Rightarrow> usize \<Rightarrow> usize \<Rightarrow> ('s, status, usize \<times> usize) eff" where
  "box_new bs bytes align s =
     (if bytes = 0 then Some (Inr (align, 0), s)
      else case boot_alloc_allocate bs bytes align s of Some (Inr p, s1) \<Rightarrow> Some (Inr (p, bytes), s1) | _ \<Rightarrow> None)"

definition box_drop :: "'s boot_services \<Rightarrow> usize \<times> usize \<Rightarrow> 's \<Rightarrow> 's option" where
  "box_drop bs b s = (if snd b = 0 then Some s else boot_alloc_deallocate bs (fst b) s)"

definition read_pheaders :: "'s boot_services \<Rightarrow> elf_header \<Rightarrow> 's file_ops \<Rightarrow> ('s, status, program_header list \<times> usize \<times> usize) eff" where
  "read_pheaders bs header f =
     (if eh_ph_entry_size header \<noteq> PROGRAM_HEADER_SIZE then eff_fail LOAD_ERROR
      else eff_bind (file_set_position f (eh_ph_off header)) (\<lambda>_.
        let count = eh_ph_entry_num header in
        eff_bind (box_new bs (count * PROGRAM_HEADER_SIZE) 8) (\<lambda>p s.
        (case file_read_exact f (count * PROGRAM_HEADER_SIZE) s of
           None \<Rightarrow> None
         | Some (Inl e, s1) \<Rightarrow> map_option (\<lambda>s2. (Inl e, s2)) (box_drop bs p s1)
         | Some (Inr bytes, s1) \<Rightarrow> Some (Inr (program_headers_dec count bytes, p), s1)))))"

definition load_segment :: "u8 list \<Rightarrow> usize \<Rightarrow> 's file_ops \<Rightarrow> program_header \<Rightarrow> ('s, status, u8 list) eff" where
  "load_segment buf base_paddr f ph =
     (if ph_phys_addr ph mod LOADER_PAGE_SIZE \<noteq> 0 \<or> ph_file_size ph > ph_mem_size ph then eff_fail LOAD_ERROR
      else eff_bind (eff_lift (usub (ph_phys_addr ph) base_paddr)) (\<lambda>phys_off.
        eff_bind (eff_lift (uadd phys_off (ph_mem_size ph))) (\<lambda>phys_end.
        eff_bind (eff_assert (phys_end \<le> length buf)) (\<lambda>_.
        eff_bind (file_set_position f (ph_off ph)) (\<lambda>_.
        eff_bind (file_read_exact f (ph_file_size ph)) (\<lambda>file_part.
        eff_return (put_bytes phys_off (file_part @ replicate (ph_mem_size ph - ph_file_size ph) 0) buf)))))))"

fun load_segments :: "u8 list \<Rightarrow> usize \<Rightarrow> 's file_ops \<Rightarrow> program_header list \<Rightarrow> ('s, status, u8 list) eff" where
  "load_segments buf base f [] = eff_return buf"
| "load_segments buf base f (ph # phs) = eff_bind (load_segment buf base f ph) (\<lambda>buf'. load_segments buf' base f phs)"

text \<open>\<open>any\<close> with the range test of each loadable segment; computing the end of a segment may overflow.\<close>

fun entry_covered :: "usize \<Rightarrow> program_header list \<Rightarrow> bool option" where
  "entry_covered entry [] = Some False"
| "entry_covered entry (ph # phs) = do {
     e \<leftarrow> uadd (ph_phys_addr ph) (ph_mem_size ph);
     if ph_phys_addr ph \<le> entry \<and> entry < e then Some True else entry_covered entry phs }"

text \<open>The \<open>map\<close> and \<open>reduce\<close> over the loadable segments: lowest address, highest end, largest alignment.\<close>

fun segment_bounds :: "program_header list \<Rightarrow> (usize \<times> usize \<times> usize) option option" where
  "segment_bounds [] = Some None"
| "segment_bounds (ph # phs) = do {
     e \<leftarrow> uadd (ph_phys_addr ph) (ph_mem_size ph);
     r \<leftarrow> segment_bounds phs;
     Some (Some (case r of None \<Rightarrow> (ph_phys_addr ph, e, ph_align ph)
       | Some (b, t, a) \<Rightarrow> (min (ph_phys_addr ph) b, max e t, max (ph_align ph) a))) }"

text \<open>
  \<open>load_elf\<close> returns the entry point in the loaded image. The model also returns the address of the image buffer and its contents;
  \<open>fresh\<close> is what the allocated pages held before.
\<close>

definition load_elf :: "'s boot_services \<Rightarrow> (usize \<Rightarrow> usize \<Rightarrow> u8 list) \<Rightarrow> 's file_ops \<Rightarrow> ('s, status, usize \<times> usize \<times> u8 list) eff" where
  "load_elf bs fresh f =
     eff_bind (read_header f) (\<lambda>header.
     eff_bind (read_pheaders bs header f) (\<lambda>(pheaders, box).
     eff_drop (box_drop bs box)
       (let loadable = filter (\<lambda>ph. ph_ty ph = SEGMENT_TYPE_LOAD) pheaders in
        eff_bind (eff_lift (entry_covered (eh_entry header) loadable)) (\<lambda>covered.
        if \<not> covered then eff_fail LOAD_ERROR
        else eff_bind (eff_lift (segment_bounds loadable)) (\<lambda>bounds.
        case bounds of
          None \<Rightarrow> eff_fail LOAD_ERROR
        | Some (min_paddr, max_paddr, align) \<Rightarrow>
            if align > LOADER_PAGE_SIZE then eff_fail LOAD_ERROR
            else eff_bind (eff_lift (usub max_paddr min_paddr)) (\<lambda>len.
              eff_bind (alloc_uninit_pages bs len) (\<lambda>(p, n).
              eff_bind (load_segments (fresh p n) min_paddr f loadable) (\<lambda>buf.
              eff_bind (eff_lift (usub (eh_entry header) min_paddr)) (\<lambda>d.
              eff_bind (eff_lift (uadd d p)) (\<lambda>entry. eff_return (entry, p, buf)))))))))))"

section \<open>The memory map\<close>

definition mem_kind_from_efi :: "memory_type \<Rightarrow> memory_kind" where
  "mem_kind_from_efi t =
     (if t = MT_CONVENTIONAL \<or> t = MT_BOOT_SERVICES_CODE \<or> t = MT_LOADER_CODE \<or> t = MT_LOADER_DATA then USABLE
      else if t = MT_UNUSABLE then UNUSABLE
      else if t = MT_ACPI_RECLAIM then ACPI_TABLES
      else if t = MT_BOOT_SERVICES_DATA then FIRMWARE_BOOT
      else if t = MT_RUNTIME_SERVICES_CODE \<or> t = MT_RUNTIME_SERVICES_DATA then FIRMWARE_RUNIME
      else RESERVED)"

definition range_of_descriptor :: "memory_descriptor \<Rightarrow> memory_range" where
  "range_of_descriptor d = \<lparr>start_page = md_phys_start d div LOADER_PAGE_SIZE, page_count = md_page_count d, mr_kind = mem_kind_from_efi (md_mem_type d)\<rparr>"

text \<open>The loop of \<open>coalesce_mmap\<close> over the indices \<open>1..mmap.len()\<close>, merging in place at index \<open>base\<close>.\<close>

fun coalesce_loop :: "memory_range list \<Rightarrow> usize \<Rightarrow> usize list \<Rightarrow> (memory_range list \<times> usize) option" where
  "coalesce_loop mmap base [] = Some (mmap, base)"
| "coalesce_loop mmap base (cur # curs) = do {
     let base_range = mmap ! base;
     let cur_range = mmap ! cur;
     base_end \<leftarrow> uadd (start_page base_range) (page_count base_range);
     uassert (base_end \<le> start_page cur_range);
     if mr_kind base_range = mr_kind cur_range \<and> base_end = start_page cur_range then do {
       n \<leftarrow> uadd (page_count base_range) (page_count cur_range);
       coalesce_loop (mmap[base := base_range\<lparr>page_count := n\<rparr>]) base curs }
     else coalesce_loop (mmap[base + 1 := cur_range]) (base + 1) curs }"

definition coalesce_mmap :: "memory_range list \<Rightarrow> memory_range list option" where
  "coalesce_mmap mmap = (if mmap = [] then Some mmap
     else do { (m, base) \<leftarrow> coalesce_loop mmap 0 [1..<length mmap]; Some (take (base + 1) m) })"

definition append_mmap :: "builder \<Rightarrow> memory_map_iter \<Rightarrow> usize \<Rightarrow> builder option" where
  "append_mmap b efi_mmap scratch_len = do {
     n \<leftarrow> mmap_size_hint efi_mmap;
     uassert (n \<le> scratch_len);
     descs \<leftarrow> mmap_collect efi_mmap;
     tmp_mmap \<leftarrow> coalesce_mmap (sort_key start_page (map range_of_descriptor descs));
     (r, b') \<leftarrow> append_slice memory_range_pod MEMORY_MAP tmp_mmap b;
     case r of Inl _ \<Rightarrow> None | Inr _ \<Rightarrow> Some b' }"

section \<open>Merging\<close>

text \<open>The same on lists: \<open>merge_ranges b rs\<close> merges into \<open>b\<close> as long as the next range continues it.\<close>

fun merge_ranges :: "memory_range \<Rightarrow> memory_range list \<Rightarrow> memory_range list option" where
  "merge_ranges b [] = Some [b]"
| "merge_ranges b (c # cs) = do {
     base_end \<leftarrow> uadd (start_page b) (page_count b);
     uassert (base_end \<le> start_page c);
     if mr_kind b = mr_kind c \<and> base_end = start_page c then do {
       n \<leftarrow> uadd (page_count b) (page_count c);
       merge_ranges (b\<lparr>page_count := n\<rparr>) cs }
     else do { r \<leftarrow> merge_ranges c cs; Some (b # r) } }"

lemma upt_drop_Cons: "cur < n \<Longrightarrow> [cur..<n] = cur # [Suc cur..<n]"
  by (rule upt_conv_Cons)

lemma coalesce_loop_merge:
  assumes "base < cur" "cur \<le> length mmap"
  shows "map_option (\<lambda>(m, b). take (b + 1) m) (coalesce_loop mmap base [cur..<length mmap]) =
    map_option (\<lambda>r. take base mmap @ r) (merge_ranges (mmap ! base) (drop cur mmap))"
  using assms
proof (induction "length mmap - cur" arbitrary: mmap base cur)
  case 0
  then show ?case by (simp add: take_Suc_conv_app_nth)
next
  case (Suc d)
  then have lt: "cur < length mmap" by simp
  let ?b = "mmap ! base" and ?c = "mmap ! cur"
  have dr: "drop cur mmap = ?c # drop (Suc cur) mmap" using lt by (rule Cons_nth_drop_Suc [symmetric])
  have up: "[cur..<length mmap] = cur # [Suc cur..<length mmap]" using lt by (rule upt_conv_Cons)
  have IH: "map_option (\<lambda>(m, b). take (b + 1) m) (coalesce_loop m b [Suc cur..<length mmap]) =
      map_option (\<lambda>r. take b m @ r) (merge_ranges (m ! b) (drop (Suc cur) mmap))"
    if "length m = length mmap" "b < Suc cur" "drop (Suc cur) m = drop (Suc cur) mmap" for m b
    using Suc.hyps(1) [of m "Suc cur" b] Suc.hyps(2) that lt by simp
  show ?case
  proof (cases "uadd (start_page ?b) (page_count ?b)")
    case (Some e)
    show ?thesis
    proof (cases "e \<le> start_page ?c")
      case le: True
      show ?thesis
      proof (cases "mr_kind ?b = mr_kind ?c \<and> e = start_page ?c")
        case True
        show ?thesis
        proof (cases "uadd (page_count ?b) (page_count ?c)")
          case (Some n)
          then show ?thesis using IH [of "mmap[base := ?b\<lparr>page_count := n\<rparr>]" base] Suc.prems lt True le \<open>uadd _ _ = Some e\<close>
            by (simp add: up dr uassert_def)
        qed (use True le Some in \<open>simp add: up dr uassert_def\<close>)
      next
        case False
        have t: "take (Suc base) (mmap[Suc base := ?c]) = take base mmap @ [?b]"
          using Suc.prems by (simp add: take_Suc_conv_app_nth)
        have l: "coalesce_loop mmap base [cur..<length mmap] = coalesce_loop (mmap[Suc base := ?c]) (Suc base) [Suc cur..<length mmap]"
          using False le Some by (auto simp: up uassert_def Let_def)
        have r: "merge_ranges ?b (drop cur mmap) = map_option (Cons ?b) (merge_ranges ?c (drop (Suc cur) mmap))"
          using False le Some by (cases "merge_ranges ?c (drop (Suc cur) mmap)") (auto simp: dr uassert_def)
        have "map_option (\<lambda>(m, b). take (b + 1) m) (coalesce_loop (mmap[Suc base := ?c]) (Suc base) [Suc cur..<length mmap]) =
            map_option (\<lambda>r. (take base mmap @ [?b]) @ r) (merge_ranges ?c (drop (Suc cur) mmap))"
          using IH [of "mmap[Suc base := ?c]" "Suc base"] Suc.prems lt unfolding t by simp
        then show ?thesis unfolding l r by (simp add: option.map_comp comp_def)
      qed
    next
      case False
      then show ?thesis using Some by (simp add: up dr uassert_def)
    qed
  qed (simp add: up dr)
qed

lemma coalesce_mmap_merge: "coalesce_mmap (b # rs) = merge_ranges b rs"
proof -
  have "map_option (\<lambda>(m, b). take (b + 1) m) (coalesce_loop (b # rs) 0 [1..<length (b # rs)]) = map_option (\<lambda>r. r) (merge_ranges b rs)"
    using coalesce_loop_merge [of 0 1 "b # rs"] by simp
  moreover have "coalesce_mmap (b # rs) = map_option (\<lambda>(m, b). take (b + 1) m) (coalesce_loop (b # rs) 0 [1..<length (b # rs)])"
    by (cases "coalesce_loop (b # rs) 0 [1..<length (b # rs)]") (auto simp: coalesce_mmap_def)
  ultimately show ?thesis by (simp add: option.map_ident)
qed

definition range_pages :: "memory_range \<Rightarrow> (usize \<times> memory_kind) set" where
  "range_pages r = {(p, mr_kind r) |p. start_page r \<le> p \<and> p < start_page r + page_count r}"

text \<open>Sorted, disjoint and not continued by the next range of the same kind.\<close>

fun merged :: "memory_range list \<Rightarrow> bool" where
  "merged (a # b # rs) \<longleftrightarrow> start_page a + page_count a \<le> start_page b \<and>
     (mr_kind a = mr_kind b \<longrightarrow> start_page a + page_count a < start_page b) \<and> merged (b # rs)"
| "merged _ \<longleftrightarrow> True"

fun separate :: "memory_range list \<Rightarrow> bool" where
  "separate (a # b # rs) \<longleftrightarrow> start_page a + page_count a \<le> start_page b \<and> separate (b # rs)"
| "separate _ \<longleftrightarrow> True"

lemma merge_ranges_spec:
  "merge_ranges b rs = Some r \<Longrightarrow>
    (\<Union>x\<in>set r. range_pages x) = (\<Union>x\<in>set (b # rs). range_pages x) \<and> merged r \<and> r \<noteq> [] \<and> start_page (hd r) = start_page b \<and> mr_kind (hd r) = mr_kind b"
proof (induction rs arbitrary: b r)
  case (Cons c cs)
  let ?e = "start_page b + page_count b"
  from Cons.prems have e: "uadd (start_page b) (page_count b) = Some ?e" "?e \<le> start_page c"
    by (auto simp: Option.bind_eq_Some_conv uassert_Some_iff uadd_Some_iff)
  show ?case
  proof (cases "mr_kind b = mr_kind c \<and> ?e = start_page c")
    case True
    with Cons.prems e have m: "merge_ranges (b\<lparr>page_count := page_count b + page_count c\<rparr>) cs = Some r"
      by (auto simp: Option.bind_eq_Some_conv uadd_Some_iff uassert_def)
    have "range_pages (b\<lparr>page_count := page_count b + page_count c\<rparr>) = range_pages b \<union> range_pages c"
      using True by (auto simp: range_pages_def)
    then show ?thesis using Cons.IH [OF m] by (simp add: Un_assoc)
  next
    case False
    with Cons.prems e obtain r' where r': "merge_ranges c cs = Some r'" "r = b # r'"
      by (auto simp: Option.bind_eq_Some_conv uassert_def)
    note ih = Cons.IH [OF r'(1)]
    then obtain h t where ht: "r' = h # t" by (cases r') auto
    have "merged (b # h # t)" using ih ht e False by auto
    then show ?thesis using ih r'(2) ht by simp
  qed
qed simp

lemma merge_ranges_returns:
  "separate (b # rs) \<Longrightarrow> \<forall>x\<in>set (b # rs). start_page x + page_count x < USIZE_LIM \<Longrightarrow> merge_ranges b rs \<noteq> None"
proof (induction rs arbitrary: b)
  case (Cons c cs)
  have e: "uadd (start_page b) (page_count b) = Some (start_page b + page_count b)" using Cons.prems by (simp add: uadd_def)
  show ?case
  proof (cases "mr_kind b = mr_kind c \<and> start_page b + page_count b = start_page c")
    case True
    have lim: "start_page c + page_count c < USIZE_LIM" using Cons.prems(2) by simp
    have "separate (b\<lparr>page_count := page_count b + page_count c\<rparr> # cs)"
      using Cons.prems(1) True by (cases cs) auto
    moreover have "\<forall>x\<in>set (b\<lparr>page_count := page_count b + page_count c\<rparr> # cs). start_page x + page_count x < USIZE_LIM"
      using Cons.prems(2) True lim by auto
    ultimately have "merge_ranges (b\<lparr>page_count := page_count b + page_count c\<rparr>) cs \<noteq> None" by (rule Cons.IH)
    then show ?thesis using True e lim by (auto simp: uassert_def uadd_def)
  next
    case False
    have "merge_ranges c cs \<noteq> None" using Cons.prems by (intro Cons.IH) auto
    then show ?thesis using False e Cons.prems(1) by (auto simp: uassert_def)
  qed
qed simp

lemma merge_ranges_separate: "merge_ranges b rs = Some r \<Longrightarrow> separate (b # rs)"
proof (induction rs arbitrary: b r)
  case (Cons c cs)
  let ?e = "start_page b + page_count b"
  from Cons.prems have e: "uadd (start_page b) (page_count b) = Some ?e" "?e \<le> start_page c"
    by (auto simp: Option.bind_eq_Some_conv uassert_Some_iff uadd_Some_iff)
  show ?case
  proof (cases "mr_kind b = mr_kind c \<and> ?e = start_page c")
    case True
    with Cons.prems e have "merge_ranges (b\<lparr>page_count := page_count b + page_count c\<rparr>) cs = Some r"
      by (auto simp: Option.bind_eq_Some_conv uadd_Some_iff uassert_def)
    then have "separate (b\<lparr>page_count := page_count b + page_count c\<rparr> # cs)" by (rule Cons.IH)
    then show ?thesis using e(2) True by (cases cs) auto
  next
    case False
    with Cons.prems e obtain r' where "merge_ranges c cs = Some r'" by (auto simp: Option.bind_eq_Some_conv uassert_def)
    then show ?thesis using Cons.IH e(2) by simp
  qed
qed simp

text \<open>
  C29. Merging the memory map in place, over two indices, is the same as merging the list of ranges from the front (\<open>merge_ranges\<close>). For a sorted map of disjoint
  ranges whose ends do not overflow it returns, and the result describes the same pages with the same
  kinds, is sorted and disjoint, and has no two neighbours that could still be merged. It never returns for a map that is not sorted or that has
  overlapping neighbours: there its assertion panics.
\<close>

theorem coalesce_mmap_correct:
  "coalesce_mmap mmap = (case mmap of [] \<Rightarrow> Some [] | b # rs \<Rightarrow> merge_ranges b rs) \<and>
   (separate mmap \<and> (\<forall>r\<in>set mmap. start_page r + page_count r < USIZE_LIM) \<longrightarrow>
     (\<exists>m. coalesce_mmap mmap = Some m \<and> merged m \<and> (\<Union>r\<in>set m. range_pages r) = (\<Union>r\<in>set mmap. range_pages r))) \<and>
   (\<not> separate mmap \<longrightarrow> coalesce_mmap mmap = None)"
proof (cases mmap)
  case Nil
  then show ?thesis by (simp add: coalesce_mmap_def)
next
  case (Cons b rs)
  have "\<exists>m. merge_ranges b rs = Some m \<and> merged m \<and> (\<Union>r\<in>set m. range_pages r) = (\<Union>r\<in>set (b # rs). range_pages r)"
    if sep: "separate (b # rs)" "\<forall>r\<in>set (b # rs). start_page r + page_count r < USIZE_LIM"
  proof -
    obtain m where m: "merge_ranges b rs = Some m" using merge_ranges_returns [OF sep] by blast
    then show ?thesis using merge_ranges_spec [OF m] by blast
  qed
  moreover have "merge_ranges b rs = None" if "\<not> separate (b # rs)"
    using merge_ranges_separate [of b rs] that by (meson not_None_eq)
  ultimately show ?thesis unfolding Cons coalesce_mmap_merge list.case by blast
qed

theorem coalesce_mmap_correct_witness:
  "\<exists>m. coalesce_mmap [\<lparr>start_page = 0, page_count = 5, mr_kind = USABLE\<rparr>, \<lparr>start_page = 5, page_count = 3, mr_kind = USABLE\<rparr>,
     \<lparr>start_page = 9, page_count = 1, mr_kind = RESERVED\<rparr>] = Some m \<and> merged m"
  using coalesce_mmap_correct [of "[\<lparr>start_page = 0, page_count = 5, mr_kind = USABLE\<rparr>, \<lparr>start_page = 5, page_count = 3, mr_kind = USABLE\<rparr>,
     \<lparr>start_page = 9, page_count = 1, mr_kind = RESERVED\<rparr>]", THEN conjunct2, THEN conjunct1, THEN mp]
  by (auto simp: USIZE_LIM_def simp del: merge_ranges.simps)

section \<open>Boot information\<close>

definition BOOTINFO_FIXED_SIZE :: usize where "BOOTINFO_FIXED_SIZE = 0x1000"
definition MMAP_EXTRA_ENTRIES :: usize where "MMAP_EXTRA_ENTRIES = 8"

text \<open>
  What the loader sees of the machine besides the boot services: the functions of an open file, the contents of the protocol
  structures it reads through pointers, the address of the system table, and what freshly allocated memory holds.
\<close>

record 's machine =
  m_bs :: "'s boot_services"
  m_file :: "usize \<Rightarrow> 's file_ops"
  m_device_handle :: "usize \<Rightarrow> handle"
  m_open_volume :: "usize \<Rightarrow> 's \<Rightarrow> status \<times> usize \<times> 's"
  m_gop_mode :: "usize \<Rightarrow> 's \<Rightarrow> current_mode_abi"
  m_system_table :: usize
  m_fresh :: "usize \<Rightarrow> usize \<Rightarrow> u8 list"

definition guid_lit :: "string \<Rightarrow> guid" where
  "guid_lit s = the (parse_guid s)"

definition GOP_GUID :: guid where "GOP_GUID = guid_lit ''9042a9de-23dc-4a38-96fb-7aded080516a''"
definition LOADED_IMAGE_GUID :: guid where "LOADED_IMAGE_GUID = guid_lit ''5b1b31a1-9562-11d2-8e3f-00a0c969723b''"
definition SIMPLE_FS_GUID :: guid where "SIMPLE_FS_GUID = guid_lit ''964e5b22-6459-11d2-8e39-00a0c969723b''"
definition FILE_INFO_GUID :: guid where "FILE_INFO_GUID = guid_lit ''09576e92-6d3f-11d2-8e39-00a0c969723b''"

definition append_bootinfo :: "'a pod \<Rightarrow> item_kind \<Rightarrow> 'a \<Rightarrow> builder \<Rightarrow> ('s, status, builder) eff" where
  "append_bootinfo T kind val b s = (case append_item T kind val b of
     None \<Rightarrow> None | Some (Inl _, b') \<Rightarrow> Some (Inl ST_OUT_OF_RESOURCES, s) | Some (Inr _, b') \<Rightarrow> Some (Inr b', s))"

definition append_bootinfo_slice :: "'a pod \<Rightarrow> item_kind \<Rightarrow> 'a list \<Rightarrow> builder \<Rightarrow> ('s, status, builder) eff" where
  "append_bootinfo_slice T kind val b s = (case append_slice T kind val b of
     None \<Rightarrow> None | Some (Inl _, b') \<Rightarrow> Some (Inl ST_OUT_OF_RESOURCES, s) | Some (Inr _, b') \<Rightarrow> Some (Inr b', s))"

definition make_bootinfo_builder :: "'s machine \<Rightarrow> usize \<Rightarrow> ('s, status, builder) eff" where
  "make_bootinfo_builder m max_mmap_entries =
     eff_bind (eff_lift (do { n \<leftarrow> umul max_mmap_entries (pod_size memory_range_pod); uadd BOOTINFO_FIXED_SIZE n })) (\<lambda>bytes.
     eff_bind (alloc_uninit_pages (m_bs m) bytes) (\<lambda>(p, len).
     eff_lift (ok_of (builder_new p (m_fresh m p len)))))"

definition get_framebuffer :: "'s machine \<Rightarrow> ('s, status, framebuffer_info) eff" where
  "get_framebuffer m =
     eff_bind (locate_protocol (m_bs m) GOP_GUID) (\<lambda>abi s.
       let mode = current_mode (m_gop_mode m abi s); mode_info = gm_info mode in
       (case gm_framebuffer mode of
          None \<Rightarrow> eff_fail UNSUPPORTED s
        | Some (base, sz) \<Rightarrow>
            (case mo_pixel_format mode_info of
               Rgb \<Rightarrow> eff_return \<lparr>fb_paddr = base, fb_byte_size = sz, fb_pixel_width = mo_hres mode_info, fb_pixel_height = mo_vres mode_info,
                 fb_pixel_stride = mo_pixels_per_scanline mode_info, fb_pixel_format = PF_RGB\<rparr> s
             | Bgr \<Rightarrow> eff_return \<lparr>fb_paddr = base, fb_byte_size = sz, fb_pixel_width = mo_hres mode_info, fb_pixel_height = mo_vres mode_info,
                 fb_pixel_stride = mo_pixels_per_scanline mode_info, fb_pixel_format = PF_BGR\<rparr> s
             | _ \<Rightarrow> eff_fail UNSUPPORTED s)))"

text \<open>\<open>if let Ok(x) = m { .. }\<close>: an error is dropped.\<close>

definition eff_ok :: "('s, 'e, 'a) eff \<Rightarrow> ('s, 'f, 'a option) eff" where
  "eff_ok m s = (case m s of None \<Rightarrow> None | Some (r, s1) \<Rightarrow> Some (Inr (ok_of r), s1))"

record bootinfo_ctx =
  ctx_efi_mmap_buf :: "usize \<times> usize"
  ctx_mmap_scratch :: "usize \<times> usize"
  ctx_builder :: builder

definition prepare_bootinfo :: "u8 list option \<Rightarrow> 's machine \<Rightarrow> ('s, status, bootinfo_ctx) eff" where
  "prepare_bootinfo command_line m =
     eff_bind (memory_map_size (m_bs m)) (\<lambda>(mmap_size, desc_size).
     eff_bind (eff_lift (do { q \<leftarrow> udiv mmap_size desc_size; uadd q MMAP_EXTRA_ENTRIES })) (\<lambda>max_mmap_entries.
     eff_bind (make_bootinfo_builder m max_mmap_entries) (\<lambda>b0.
     eff_bind (eff_ok (get_framebuffer m)) (\<lambda>fb.
     eff_bind (case fb of None \<Rightarrow> eff_return b0 | Some f \<Rightarrow> append_bootinfo framebuffer_pod FRAMEBUFFER f b0) (\<lambda>b1.
     eff_bind (case command_line of None \<Rightarrow> eff_return b1 | Some c \<Rightarrow> append_bootinfo_slice u8_pod COMMAND_LINE c b1) (\<lambda>b2.
     eff_bind (eff_lift (umul max_mmap_entries desc_size)) (\<lambda>n.
     eff_bind (alloc_uninit_data (m_bs m) 1 n) (\<lambda>efi_mmap_buf.
     eff_bind (alloc_uninit_data (m_bs m) (pod_size memory_range_pod) max_mmap_entries) (\<lambda>mmap_scratch.
     eff_return \<lparr>ctx_efi_mmap_buf = efi_mmap_buf, ctx_mmap_scratch = mmap_scratch, ctx_builder = b2\<rparr>)))))))))"

section \<open>The loader\<close>

definition u16_str :: "string \<Rightarrow> u16 list" where
  "u16_str s = map (\<lambda>c. of_nat (of_char c)) s @ [0]"

definition load_command_line :: "'s machine \<Rightarrow> 's file_ops \<Rightarrow> ('s, status, u8 list option) eff" where
  "load_command_line m corrosios_dir s =
     (case file_open corrosios_dir (u16_str ''cmdline'') OPEN_MODE_READ s of
        None \<Rightarrow> None
      | Some (Inl e, s1) \<Rightarrow> if e = NOT_FOUND then Some (Inr None, s1) else Some (Inl e, s1)
      | Some (Inr abi, s1) \<Rightarrow>
          (let f = m_file m abi in
           eff_drop (\<lambda>s. Some (file_drop f s))
             (eff_bind (file_info_size f FILE_INFO_GUID) (\<lambda>info_size.
              eff_bind (box_new (m_bs m) info_size 1) (\<lambda>info_buf.
              eff_drop (box_drop (m_bs m) info_buf)
                (eff_bind (file_info f FILE_INFO_GUID (fst info_buf) info_size) (\<lambda>info.
                 let command_line_size = fi_size info in
                 eff_bind (alloc_uninit_data (m_bs m) 1 command_line_size) (\<lambda>_.
                 eff_bind (file_read_exact f command_line_size) (\<lambda>command_line.
                 eff_return (Some command_line)))))))) s1))"

record kernel_desc =
  kd_entry :: usize
  kd_image :: "usize \<times> u8 list"
  kd_command_line :: "u8 list option"

definition load_kernel :: "'s machine \<Rightarrow> handle \<Rightarrow> ('s, status, kernel_desc) eff" where
  "load_kernel m image_handle =
     eff_bind (open_protocol (m_bs m) LOADED_IMAGE_GUID image_handle image_handle) (\<lambda>loaded_image.
     eff_drop (open_protocol_drop (m_bs m) loaded_image)
    (eff_bind (open_protocol (m_bs m) SIMPLE_FS_GUID (m_device_handle m (op_proto loaded_image)) image_handle) (\<lambda>boot_fs.
     eff_drop (open_protocol_drop (m_bs m) boot_fs)
    (eff_bind (\<lambda>s. let (st, abi, s1) = m_open_volume m (op_proto boot_fs) s in eff_bind (eff_status st) (\<lambda>_. eff_return abi) s1) (\<lambda>root_abi.
     let root_dir = m_file m root_abi in
     eff_drop (\<lambda>s. Some (file_drop root_dir s))
    (eff_bind (file_open root_dir (u16_str ''corrosios'') OPEN_MODE_READ) (\<lambda>dir_abi.
     let corrosios_dir = m_file m dir_abi in
     eff_drop (\<lambda>s. Some (file_drop corrosios_dir s))
    (eff_bind (file_open corrosios_dir (u16_str ''kernel'') OPEN_MODE_READ) (\<lambda>kernel_abi.
     let kernel_file = m_file m kernel_abi in
     eff_drop (\<lambda>s. Some (file_drop kernel_file s))
    (eff_bind (load_elf (m_bs m) (m_fresh m) kernel_file) (\<lambda>(entry, base, image).
     eff_bind (load_command_line m corrosios_dir) (\<lambda>command_line.
     eff_return \<lparr>kd_entry = entry, kd_image = (base, image), kd_command_line = command_line\<rparr>))))))))))))"

text \<open>The jump to the kernel: its entry point, and the address and bytes of the boot information.\<close>

record handoff =
  ho_entry :: usize
  ho_bootinfo_addr :: usize
  ho_bootinfo :: "u8 list"

text \<open>The closure that \<open>exit_boot_services\<close> calls last.\<close>

definition enter_kernel :: "'s machine \<Rightarrow> kernel_desc \<Rightarrow> bootinfo_ctx \<Rightarrow> memory_map_iter \<Rightarrow> handoff option" where
  "enter_kernel m kd ctx mmap = do {
     (r, b1) \<leftarrow> append_item usize_pod EFI_SYSTEM_TABLE (m_system_table m) (ctx_builder ctx);
     _ \<leftarrow> ok_of r;
     b2 \<leftarrow> append_mmap b1 mmap (snd (ctx_mmap_scratch ctx));
     bootinfo_slice \<leftarrow> builder_finish b2;
     Some \<lparr>ho_entry = kd_entry kd, ho_bootinfo_addr = bd_addr b2, ho_bootinfo = bootinfo_slice\<rparr> }"

definition loader_run :: "'s machine \<Rightarrow> handle \<Rightarrow> ('s, status, handoff) eff" where
  "loader_run m image_handle =
     eff_bind (load_kernel m image_handle) (\<lambda>kd.
     eff_bind (prepare_bootinfo (kd_command_line kd) m) (\<lambda>ctx.
     eff_bind (exit_boot_services (m_bs m) image_handle (fst (ctx_efi_mmap_buf ctx))
        (m_fresh m (fst (ctx_efi_mmap_buf ctx)) (snd (ctx_efi_mmap_buf ctx)))) (\<lambda>mmap.
     eff_lift (enter_kernel m kd ctx mmap))))"

text \<open>
  The entry point: either the kernel has been entered, which does not return, or \<open>run\<close> has returned, and the firmware gets its
  error, \<open>LOAD_ERROR\<close> if it has none.
\<close>

datatype efi_outcome = KernelEntered handoff | Returned status

definition result_err :: "'e + 'a \<Rightarrow> 'e option" where
  "result_err r = (case r of Inl e \<Rightarrow> Some e | Inr _ \<Rightarrow> None)"

definition efi_main :: "'s machine \<Rightarrow> handle \<Rightarrow> 's \<Rightarrow> (efi_outcome \<times> 's) option" where
  "efi_main m image_handle s = do {
     (r, s1) \<leftarrow> loader_run m image_handle s;
     Some (case r of
         Inr ho \<Rightarrow> KernelEntered ho
       | Inl _ \<Rightarrow> Returned (case result_err r of Some e \<Rightarrow> e | None \<Rightarrow> LOAD_ERROR), s1) }"

section \<open>The kernel reads what the loader collected\<close>

lemma le_nat_take8: "le_nat (take 8 bs) < USIZE_LIM"
proof -
  have "(256::nat) ^ length (take 8 bs) \<le> 256 ^ 8" by (rule power_increasing) simp_all
  then show ?thesis using le_nat_bound [of "take 8 bs"] by (simp add: USIZE_LIM_def)
qed

lemma descriptor_range_ok:
  assumes "mmap_next it = Some (d, it')"
  shows "memory_range_ok (range_of_descriptor d)"
proof -
  have "md_phys_start d < USIZE_LIM" "md_page_count d < USIZE_LIM"
    using assms by (auto simp: mmap_next_def memory_descriptor_pod_def le_nat_take8 split: if_splits)
  then show ?thesis by (simp add: memory_range_ok_def range_of_descriptor_def le_less_trans [OF div_le_dividend])
qed

lemma mmap_collect_ok:
  assumes "mmap_collect it = Some descs"
  shows "\<forall>d\<in>set descs. memory_range_ok (range_of_descriptor d)"
proof (rule mmap_collect.raw_induct [where P = "\<lambda>it ds. \<forall>d\<in>set ds. memory_range_ok (range_of_descriptor d)", rotated 1], rule assms)
  fix rec it ds
  assume "\<And>it ds. rec it = Some ds \<Longrightarrow> \<forall>d\<in>set ds. memory_range_ok (range_of_descriptor d)"
    and "(case mmap_next it of None \<Rightarrow> Some [] | Some (d, it') \<Rightarrow> Option.bind (rec it') (\<lambda>r. Some (d # r))) = Some ds"
  then show "\<forall>d\<in>set ds. memory_range_ok (range_of_descriptor d)"
    by (auto simp: Option.bind_eq_Some_conv descriptor_range_ok split: option.split_asm)
qed

lemma merge_ranges_ok: "merge_ranges b rs = Some r \<Longrightarrow> \<forall>x\<in>set (b # rs). memory_range_ok x \<Longrightarrow> \<forall>x\<in>set r. memory_range_ok x"
proof (induction rs arbitrary: b r)
  case (Cons c cs)
  let ?e = "start_page b + page_count b"
  from Cons.prems(1) have e: "uadd (start_page b) (page_count b) = Some ?e" "?e \<le> start_page c"
    by (auto simp: Option.bind_eq_Some_conv uassert_Some_iff uadd_Some_iff)
  show ?case
  proof (cases "mr_kind b = mr_kind c \<and> ?e = start_page c")
    case True
    with Cons.prems(1) e have m: "merge_ranges (b\<lparr>page_count := page_count b + page_count c\<rparr>) cs = Some r" "page_count b + page_count c < USIZE_LIM"
      by (auto simp: Option.bind_eq_Some_conv uadd_Some_iff uassert_def)
    have "\<forall>x\<in>set (b\<lparr>page_count := page_count b + page_count c\<rparr> # cs). memory_range_ok x"
      using Cons.prems(2) m(2) by (simp add: memory_range_ok_def)
    then show ?thesis by (rule Cons.IH [OF m(1)])
  next
    case False
    with Cons.prems(1) e obtain r' where "merge_ranges c cs = Some r'" "r = b # r'"
      by (auto simp: Option.bind_eq_Some_conv uassert_def)
    moreover have "\<forall>x\<in>set (c # cs). memory_range_ok x" using Cons.prems(2) by simp
    ultimately show ?thesis using Cons.IH [of c r'] Cons.prems(2) by simp
  qed
qed simp

lemma coalesce_mmap_ok: "coalesce_mmap mm = Some r \<Longrightarrow> \<forall>x\<in>set mm. memory_range_ok x \<Longrightarrow> list_all memory_range_ok r"
proof (cases mm)
  case (Cons b rs)
  assume "coalesce_mmap mm = Some r" "\<forall>x\<in>set mm. memory_range_ok x"
  then show ?thesis using merge_ranges_ok [of b rs r] unfolding Cons coalesce_mmap_merge list_all_iff by blast
qed (simp add: coalesce_mmap_def)

lemma append_bootinfo_Inr:
  "append_bootinfo T kind val b s = Some (Inr b', s') \<longleftrightarrow> append_item T kind val b = Some (Inr (), b') \<and> s' = s"
  "append_bootinfo_slice T kind vals b s = Some (Inr b', s') \<longleftrightarrow> append_slice T kind vals b = Some (Inr (), b') \<and> s' = s"
  by (auto simp: append_bootinfo_def append_bootinfo_slice_def split: option.splits sum.splits)

lemma get_framebuffer_ok:
  assumes "get_framebuffer m s = Some (Inr f, s')"
    "\<forall>abi s. cma_framebuffer_base (m_gop_mode m abi s) < USIZE_LIM \<and> cma_framebuffer_size (m_gop_mode m abi s) < USIZE_LIM"
  shows "framebuffer_ok f"
proof -
  from assms(1) obtain abi s1 where l: "locate_protocol (m_bs m) GOP_GUID s = Some (Inr abi, s1)"
    by (auto simp: get_framebuffer_def eff_bind_Inr)
  let ?mode = "m_gop_mode m abi s1"
  have "cma_framebuffer_base ?mode < USIZE_LIM" "cma_framebuffer_size ?mode < USIZE_LIM" using assms(2) by auto
  then show ?thesis using assms(1)
    by (cases "mo_pixel_format (mode_info_from_abi (cma_info ?mode))")
      (auto simp: get_framebuffer_def eff_bind_def l current_mode_def Let_def eff_ops framebuffer_ok_def has_framebuffer_def)
qed

text \<open>
  \<open>fb\<close> is what the firmware's graphics protocol reports when \<open>prepare_bootinfo\<close>, started in state \<open>s\<close>, asks for it: after the size of the memory map has been
  read and the builder's pages allocated. No protocol, no linear framebuffer or an unknown pixel format is \<open>None\<close>.
\<close>

definition framebuffer_found :: "'s machine \<Rightarrow> 's \<Rightarrow> framebuffer_info option \<Rightarrow> bool" where
  "framebuffer_found m s fb \<longleftrightarrow> (\<exists>mmap_size desc_size s1 b0 s2 s3.
     memory_map_size (m_bs m) s = Some (Inr (mmap_size, desc_size), s1) \<and>
     make_bootinfo_builder m (mmap_size div desc_size + MMAP_EXTRA_ENTRIES) s1 = Some (Inr b0, s2) \<and>
     (eff_ok (get_framebuffer m) :: ('s, status, framebuffer_info option) eff) s2 = Some (Inr fb, s3))"

text \<open>The framebuffer described is the firmware's: its address and size, resolution and scan line, in one of the two formats.\<close>

definition framebuffer_of :: "current_mode_abi \<Rightarrow> framebuffer_info \<Rightarrow> bool" where
  "framebuffer_of mode f \<longleftrightarrow> fb_paddr f = cma_framebuffer_base mode \<and> fb_byte_size f = cma_framebuffer_size mode \<and>
     fb_pixel_width f = mia_hres (cma_info mode) \<and> fb_pixel_height f = mia_vres (cma_info mode) \<and>
     fb_pixel_stride f = mia_pixels_per_scanline (cma_info mode) \<and>
     (mia_pixel_format (cma_info mode) = PIXEL_FORMAT_RGB \<and> fb_pixel_format f = PF_RGB \<or>
      mia_pixel_format (cma_info mode) = PIXEL_FORMAT_BGR \<and> fb_pixel_format f = PF_BGR)"

lemma framebuffer_found_of:
  assumes "framebuffer_found m s (Some f)"
  shows "\<exists>abi s'. framebuffer_of (m_gop_mode m abi s') f"
proof -
  from assms obtain s2 s3 where "(eff_ok (get_framebuffer m) :: (_, status, _) eff) s2 = Some (Inr (Some f), s3)"
    unfolding framebuffer_found_def by blast
  then have f: "get_framebuffer m s2 = Some (Inr f, s3)"
    by (auto simp: eff_ok_def ok_of_def split: option.split_asm sum.split_asm)
  from f obtain abi s' where g: "get_framebuffer m s2 = Some (Inr f, s3)" "locate_protocol (m_bs m) GOP_GUID s2 = Some (Inr abi, s')"
    by (auto simp: get_framebuffer_def eff_bind_Inr)
  then have "framebuffer_of (m_gop_mode m abi s') f"
    by (cases "mo_pixel_format (mode_info_from_abi (cma_info (m_gop_mode m abi s')))")
      (auto simp: get_framebuffer_def eff_bind_def current_mode_def Let_def eff_ops framebuffer_of_def mode_info_from_abi_def split: if_splits)
  then show ?thesis by blast
qed

lemma prepare_bootinfo_reads:
  assumes "prepare_bootinfo cmdline m s = Some (Inr ctx, s')"
    "\<forall>abi s. cma_framebuffer_base (m_gop_mode m abi s) < USIZE_LIM \<and> cma_framebuffer_size (m_gop_mode m abi s) < USIZE_LIM"
  shows "\<exists>fb. framebuffer_found m s fb \<and>
    reads (ctx_builder ctx) \<lparr>ps_memory_map = None, ps_efi_system_table = None, ps_framebuffer_info = fb, ps_command_line = cmdline\<rparr>"
proof -
  from assms(1) obtain mmap_size desc_size n s1 b0 s2 fb s3 b1 s4 b2 s5 where
    q: "memory_map_size (m_bs m) s = Some (Inr (mmap_size, desc_size), s1)" "n = mmap_size div desc_size + MMAP_EXTRA_ENTRIES" and
    b0: "make_bootinfo_builder m n s1 = Some (Inr b0, s2)" and
    fb: "(eff_ok (get_framebuffer m) :: (_, status, _) eff) s2 = Some (Inr fb, s3)" and
    b1: "(case fb of None \<Rightarrow> eff_return b0 | Some f \<Rightarrow> append_bootinfo framebuffer_pod FRAMEBUFFER f b0) s3 = Some (Inr b1, s4)" and
    b2: "(case cmdline of None \<Rightarrow> eff_return b1 | Some c \<Rightarrow> append_bootinfo_slice u8_pod COMMAND_LINE c b1) s4 = Some (Inr b2, s5)" and
    ctx: "ctx_builder ctx = b2"
    by (auto simp: prepare_bootinfo_def eff_bind_Inr eff_ops Option.bind_eq_Some_conv udiv_Some_iff uadd_Some_iff split: prod.split_asm)
  have found: "framebuffer_found m s fb" using q b0 fb unfolding framebuffer_found_def by blast
  from b0 have "reads b0 parse_init"
    by (auto simp: make_bootinfo_builder_def eff_bind_Inr eff_ops ok_of_Some split: prod.split_asm intro: reads_new)
  then have r1: "reads b1 \<lparr>ps_memory_map = None, ps_efi_system_table = None, ps_framebuffer_info = fb, ps_command_line = None\<rparr>"
  proof (cases fb)
    case None
    then show ?thesis using b1 \<open>reads b0 parse_init\<close> by (simp add: eff_return_def parse_init_def)
  next
    case (Some f)
    then have "append_item framebuffer_pod FRAMEBUFFER f b0 = Some (Inr (), b1)" using b1 by (simp add: append_bootinfo_Inr)
    moreover from fb Some have "\<exists>s'. get_framebuffer m s2 = Some (Inr f, s')"
      by (auto simp: eff_ok_def ok_of_def split: option.split_asm sum.split_asm)
    then have "framebuffer_ok f" using get_framebuffer_ok [OF _ assms(2)] by blast
    ultimately show ?thesis using reads_append_framebuffer [OF \<open>reads b0 parse_init\<close>] Some by (simp add: parse_init_def)
  qed
  show ?thesis
  proof (cases cmdline)
    case None
    then show ?thesis using b2 r1 ctx found by (auto simp: eff_return_def)
  next
    case (Some c)
    then have "append_slice u8_pod COMMAND_LINE c b1 = Some (Inr (), b2)" using b2 by (simp add: append_bootinfo_Inr)
    then show ?thesis using reads_append_cmdline [OF r1] ctx Some found by auto
  qed
qed

text \<open>
  C27. What the loader collects is what the kernel finds: when the boot information has been prepared and the kernel is entered, parsing
  the bytes that are passed on, at any aligned address, yields the sorted and merged memory map of the firmware, the address of the system table, the command line
  exactly as read from the file, and the framebuffer that the firmware's graphics protocol reported when the loader asked for it, with its address, size, resolution
  and pixel format (none if the firmware reported none).
\<close>

theorem boot_handoff:
  assumes "prepare_bootinfo cmdline m s = Some (Inr ctx, s1)" "enter_kernel m kd ctx mmap = Some ho"
    and "m_system_table m < USIZE_LIM" "addr mod 8 = 0"
    and "\<forall>abi s. cma_framebuffer_base (m_gop_mode m abi s) < USIZE_LIM \<and> cma_framebuffer_size (m_gop_mode m abi s) < USIZE_LIM"
  shows "\<exists>descs mm fb. framebuffer_found m s fb \<and> (\<forall>f. fb = Some f \<longrightarrow> (\<exists>abi s'. framebuffer_of (m_gop_mode m abi s') f)) \<and>
    mmap_collect mmap = Some descs \<and> coalesce_mmap (sort_key start_page (map range_of_descriptor descs)) = Some mm \<and>
    bootinfo_parse addr (ho_bootinfo ho) = Some \<lparr>bi_memory_map = mm, bi_efi_system_table = Some (m_system_table m),
      bi_framebuffer_info = fb, bi_command_line = (case cmdline of None \<Rightarrow> [] | Some c \<Rightarrow> c)\<rparr>"
proof -
  from assms(2) obtain b1 b2 descs mm where
    b1: "append_item usize_pod EFI_SYSTEM_TABLE (m_system_table m) (ctx_builder ctx) = Some (Inr (), b1)" and
    d: "mmap_collect mmap = Some descs" "coalesce_mmap (sort_key start_page (map range_of_descriptor descs)) = Some mm" and
    b2: "append_slice memory_range_pod MEMORY_MAP mm b1 = Some (Inr (), b2)" and
    ho: "builder_finish b2 = Some (ho_bootinfo ho)"
    by (auto simp: enter_kernel_def append_mmap_def Option.bind_eq_Some_conv ok_of_Some expect_Some uassert_Some_iff)
  from prepare_bootinfo_reads [OF assms(1,5)] obtain fb where
    fb: "framebuffer_found m s fb" and "reads (ctx_builder ctx) \<lparr>ps_memory_map = None, ps_efi_system_table = None, ps_framebuffer_info = fb, ps_command_line = cmdline\<rparr>" by blast
  from reads_append_efi [OF this(2) b1 assms(3)] have r1:
    "reads b1 \<lparr>ps_memory_map = None, ps_efi_system_table = Some (m_system_table m), ps_framebuffer_info = fb, ps_command_line = cmdline\<rparr>" by simp
  have "list_all memory_range_ok mm" using coalesce_mmap_ok [OF d(2)] mmap_collect_ok [OF d(1)] by auto
  from reads_append_mmap [OF r1 b2 this] have
    "reads b2 \<lparr>ps_memory_map = Some mm, ps_efi_system_table = Some (m_system_table m), ps_framebuffer_info = fb, ps_command_line = cmdline\<rparr>" by simp
  from reads_parse [OF this _ assms(4), of mm] ho have "bootinfo_parse addr (ho_bootinfo ho) = Some \<lparr>bi_memory_map = mm, bi_efi_system_table = Some (m_system_table m),
      bi_framebuffer_info = fb, bi_command_line = (case cmdline of None \<Rightarrow> [] | Some c \<Rightarrow> c)\<rparr>" by (metis option.inject parse_state.select_convs)
  moreover have "\<forall>f. fb = Some f \<longrightarrow> (\<exists>abi s'. framebuffer_of (m_gop_mode m abi s') f)" using fb by (intro allI impI) (rule framebuffer_found_of [of m s], simp)
  ultimately show ?thesis using fb d by (intro exI [of _ descs] exI [of _ mm] exI [of _ fb] conjI)
qed

text \<open>A small machine: one descriptor in the memory map, no graphics, all memory requests answered.\<close>

definition demo_descriptor :: memory_descriptor where
  "demo_descriptor = \<lparr>md_mem_type = MT_CONVENTIONAL, md_phys_start = 0x100000, md_virt_start = 0, md_page_count = 64, md_attr = 0\<rparr>"

definition demo_bs :: "'s boot_services" where
  "demo_bs = \<lparr>fw_allocate_pages = (\<lambda>mode ty n a s. (SUCCESS, 4096, s)), fw_free_pages = (\<lambda>a n s. (SUCCESS, s)),
     fw_get_memory_map = (\<lambda>n s. if n < 40 then (BUFFER_TOO_SMALL, 40, 1, 40, [], s)
       else (SUCCESS, 40, 1, 40, pod_enc memory_descriptor_pod demo_descriptor, s)),
     fw_allocate_pool = (\<lambda>ty n s. (SUCCESS, 8, s)), fw_free_pool = (\<lambda>p s. (SUCCESS, s)),
     fw_exit_boot_services = (\<lambda>h key s. (if key = 1 then SUCCESS else INVALID_PARAMETER, s)),
     fw_open_protocol = (\<lambda>h g i c a s. (SUCCESS, 16, s)), fw_close_protocol = (\<lambda>h g i c s. (SUCCESS, s)),
     fw_locate_protocol = (\<lambda>g s. (NOT_FOUND, 0, s))\<rparr>"

definition demo_gop :: current_mode_abi where
  "demo_gop = \<lparr>cma_info = \<lparr>mia_hres = 0, mia_vres = 0, mia_pixel_format = 3,
     mia_pixel_bitmask = \<lparr>red_mask = 0, green_mask = 0, blue_mask = 0, reserved_mask = 0\<rparr>, mia_pixels_per_scanline = 0\<rparr>,
     cma_framebuffer_base = 0, cma_framebuffer_size = 0\<rparr>"

definition demo_machine :: "(usize \<Rightarrow> unit file_ops) \<Rightarrow> unit machine" where
  "demo_machine files = \<lparr>m_bs = demo_bs, m_file = files, m_device_handle = (\<lambda>_. 1), m_open_volume = (\<lambda>p s. (SUCCESS, 24, s)),
     m_gop_mode = (\<lambda>_ _. demo_gop), m_system_table = 0x7000, m_fresh = (\<lambda>p n. replicate n 0)\<rparr>"

definition demo_mmap :: memory_map_iter where
  "demo_mmap = \<lparr>mi_buf = pod_enc memory_descriptor_pod demo_descriptor, mi_ptr = 0, mi_end = 40, mi_desc_size = 40\<rparr>"

definition demo_range :: memory_range where
  "demo_range = \<lparr>start_page = 0x100, page_count = 64, mr_kind = USABLE\<rparr>"

lemma demo_mmap_collect: "mmap_collect demo_mmap = Some [demo_descriptor]" "mmap_size_hint demo_mmap = Some 1"
proof -
  have d: "pod_dec memory_descriptor_pod (take 40 (pod_enc memory_descriptor_pod demo_descriptor)) = demo_descriptor"
    by (simp add: memory_descriptor_pod_def demo_descriptor_def memory_types le_nat_bytes)
  from mmap_collect_length [of demo_mmap 1]
  show "mmap_collect demo_mmap = Some [demo_descriptor]" "mmap_size_hint demo_mmap = Some 1"
    by (simp_all add: demo_mmap_def d)
qed

lemma to_result_not_found: "to_result NOT_FOUND = Inl NOT_FOUND"
  unfolding NOT_FOUND_def by (rule to_result_err)

lemma demo_prepare:
  obtains ctx s1 where "prepare_bootinfo (Some [0x61]) (demo_machine files) s = Some (Inr ctx, s1)"
    "bd_off (ctx_builder ctx) = 9" "length (bd_buf (ctx_builder ctx)) = 8192" "snd (ctx_mmap_scratch ctx) = 9"
proof -
  let ?m = "demo_machine files" and ?b0 = "\<lparr>bd_addr = 4096, bd_buf = replicate 8192 0, bd_off = 0\<rparr>"
  have mm: "memory_map_size (m_bs ?m) s = Some (Inr (40, 40), s)"
    by (simp add: memory_map_size_def demo_machine_def demo_bs_def eff_return_def)
  have b0: "make_bootinfo_builder ?m 9 s = Some (Inr ?b0, s)"
    by (simp add: make_bootinfo_builder_def eff_bind_def eff_lift_def umul_def uadd_def memory_range_pod_def BOOTINFO_FIXED_SIZE_def
        USIZE_LIM_def alloc_uninit_pages_def div_ceil_def usub_def udiv_def LOADER_PAGE_SIZE_def alloc_pages_def demo_machine_def
        demo_bs_def eff_status_def to_result_success eff_return_def builder_new_def ITEM_ALIGN_def ok_of_def)
  have fb: "(eff_ok (get_framebuffer ?m) :: (_, status, _) eff) s = Some (Inr None, s)"
    by (simp add: eff_ok_def get_framebuffer_def eff_bind_def locate_protocol_def demo_machine_def demo_bs_def eff_status_def
        to_result_not_found ok_of_def)
  have "align_up (bd_off ?b0) ITEM_ALIGN = Some 0" by (simp add: ITEM_ALIGN_def USIZE_LIM_def)
  from item_u8.append_fits(1) [OF this, of "[0x61]" COMMAND_LINE] obtain b1 where
    b1: "append_slice u8_pod COMMAND_LINE [0x61] ?b0 = Some (Inr (), b1)" "bd_off b1 = 9" "length (bd_buf b1) = 8192"
    by (auto simp: u8_pod_def USIZE_LIM_def)
  have al: "alloc_uninit_data (m_bs ?m) k n s = Some (Inr (8, n), s)" if "n * k < USIZE_LIM" for k n
    using that by (simp add: alloc_uninit_data_def eff_bind_def eff_lift_def umul_def bs_alloc_def demo_machine_def demo_bs_def
        eff_status_def to_result_success eff_assert_def eff_return_def)
  show thesis
    using mm b0 fb b1 al
    by (intro that [of "\<lparr>ctx_efi_mmap_buf = (8, 360), ctx_mmap_scratch = (8, 9), ctx_builder = b1\<rparr>" s])
      (simp_all add: prepare_bootinfo_def eff_bind_def eff_lift_def udiv_def uadd_def umul_def MMAP_EXTRA_ENTRIES_def USIZE_LIM_def
        memory_range_pod_def eff_return_def append_bootinfo_slice_def)
qed

lemma demo_enter:
  assumes "bd_off (ctx_builder ctx) = 9" "length (bd_buf (ctx_builder ctx)) = 8192" "snd (ctx_mmap_scratch ctx) = 9"
  shows "\<exists>ho. enter_kernel (demo_machine files) kd ctx demo_mmap = Some ho"
proof -
  have "align_up (bd_off (ctx_builder ctx)) ITEM_ALIGN = Some 16" by (simp add: assms(1) ITEM_ALIGN_def panic_simps USIZE_LIM_def)
  from item_usize.append_fits(2) [OF this, of "[0x7000]" "0x7000" EFI_SYSTEM_TABLE] assms(2) obtain b1 where
    b1: "append_item usize_pod EFI_SYSTEM_TABLE 0x7000 (ctx_builder ctx) = Some (Inr (), b1)" "bd_off b1 = 32" "length (bd_buf b1) = 8192"
    by (auto simp: usize_pod_def USIZE_LIM_def)
  have "align_up (bd_off b1) ITEM_ALIGN = Some 32" by (simp add: b1(2) ITEM_ALIGN_def panic_simps USIZE_LIM_def)
  from item_memory_range.append_fits(1) [OF this, of "[demo_range]" MEMORY_MAP] b1(3) obtain b2 where
    b2: "append_slice memory_range_pod MEMORY_MAP [demo_range] b1 = Some (Inr (), b2)" "bd_off b2 = 64" "length (bd_buf b2) = 8192"
    by (auto simp: memory_range_pod_def USIZE_LIM_def memory_range_ok_def demo_range_def)
  have "range_of_descriptor demo_descriptor = demo_range"
    by (simp add: range_of_descriptor_def demo_descriptor_def demo_range_def LOADER_PAGE_SIZE_def mem_kind_from_efi_def)
  then have "append_mmap b1 demo_mmap 9 = Some b2"
    using b2(1) by (simp add: append_mmap_def demo_mmap_collect uassert_def coalesce_mmap_def)
  then show ?thesis using b1(1) b2 assms(3)
    by (simp add: enter_kernel_def demo_machine_def ok_of_def builder_finish_def slice_def)
qed

theorem boot_handoff_witness:
  "\<forall>files kd. \<exists>ctx s1 ho fb. prepare_bootinfo (Some [0x61]) (demo_machine files) () = Some (Inr ctx, s1) \<and>
     enter_kernel (demo_machine files) kd ctx demo_mmap = Some ho \<and>
     bootinfo_parse 0x1000 (ho_bootinfo ho) = Some \<lparr>bi_memory_map = [demo_range], bi_efi_system_table = Some 0x7000,
       bi_framebuffer_info = fb, bi_command_line = [0x61]\<rparr>"
proof (intro allI)
  fix files kd
  obtain ctx s1 where p: "prepare_bootinfo (Some [0x61]) (demo_machine files) () = Some (Inr ctx, s1)"
    "bd_off (ctx_builder ctx) = 9" "length (bd_buf (ctx_builder ctx)) = 8192" "snd (ctx_mmap_scratch ctx) = 9" by (rule demo_prepare)
  obtain ho where h: "enter_kernel (demo_machine files) kd ctx demo_mmap = Some ho" using demo_enter [OF p(2-4)] by blast
  have "range_of_descriptor demo_descriptor = demo_range"
    by (simp add: range_of_descriptor_def demo_descriptor_def demo_range_def LOADER_PAGE_SIZE_def mem_kind_from_efi_def)
  then show "\<exists>ctx s1 ho fb. prepare_bootinfo (Some [0x61]) (demo_machine files) () = Some (Inr ctx, s1) \<and>
     enter_kernel (demo_machine files) kd ctx demo_mmap = Some ho \<and>
     bootinfo_parse 0x1000 (ho_bootinfo ho) = Some \<lparr>bi_memory_map = [demo_range], bi_efi_system_table = Some 0x7000,
       bi_framebuffer_info = fb, bi_command_line = [0x61]\<rparr>" using boot_handoff [OF p(1) h, of "0x1000"] p(1) h
    by (auto simp: demo_machine_def USIZE_LIM_def demo_gop_def demo_mmap_collect coalesce_mmap_def)
qed

section \<open>Loading segments\<close>

text \<open>What a segment should be in memory: its bytes of the file, then zeros; and what makes a segment loadable at all.\<close>

definition segment_image :: "u8 list \<Rightarrow> program_header \<Rightarrow> u8 list" where
  "segment_image content ph = take (ph_file_size ph) (drop (ph_off ph) content) @ replicate (ph_mem_size ph - ph_file_size ph) 0"

definition loadable_ok :: "u8 list \<Rightarrow> usize \<Rightarrow> usize \<Rightarrow> program_header \<Rightarrow> bool" where
  "loadable_ok content base len ph \<longleftrightarrow> ph_phys_addr ph mod LOADER_PAGE_SIZE = 0 \<and> ph_file_size ph \<le> ph_mem_size ph \<and> base \<le> ph_phys_addr ph \<and>
     ph_phys_addr ph - base + ph_mem_size ph \<le> len \<and> ph_off ph + ph_file_size ph \<le> length content"

text \<open>
  What the loader relies on of a file: setting the position succeeds and a read inside the file returns the bytes at the position, as many
  as asked for or as there are left, and moves it.
\<close>

locale firmware_file =
  fixes f :: "'s file_ops" and content :: "u8 list" and pos :: "'s \<Rightarrow> usize"
  assumes set_position: "\<exists>s'. f_set_position f p s = (SUCCESS, s') \<and> pos s' = p"
    and read_file: "pos s \<le> length content \<Longrightarrow> \<exists>s'. f_read f n s =
      (SUCCESS, min n (length content - pos s), take n (drop (pos s) content), s') \<and> pos s' = pos s + min n (length content - pos s)"
begin

lemma read_exact:
  assumes "pos s + n \<le> length content"
  shows "\<exists>s'. file_read_exact f n s = Some (Inr (take n (drop (pos s) content)), s')"
proof -
  have "min n (length content - pos s) = n" using assms by simp
  then obtain s2 where "f_read f n s = (SUCCESS, n, take n (drop (pos s) content), s2)" using read_file [of s n] assms by auto
  then show ?thesis using assms
    by (simp add: eff_bind_def eff_status_def to_result_success file_read_exact_def file_read_def eff_assert_def eff_return_def)
qed

lemma read_at:
  assumes "off + n \<le> length content"
  shows "\<exists>s'. eff_bind (file_set_position f off) (\<lambda>_. file_read_exact f n) s = Some (Inr (take n (drop off content)), s')"
proof -
  obtain s1 where "file_set_position f off s = Some (Inr (), s1)" "pos s1 = off"
    using set_position [of off s] by (auto simp: file_set_position_def eff_status_def to_result_success)
  then show ?thesis using read_exact [of s1 n] assms by (simp add: eff_bind_def)
qed

lemma load_segment_eq:
  assumes "ph_phys_addr ph mod LOADER_PAGE_SIZE = 0" "ph_file_size ph \<le> ph_mem_size ph" "base \<le> ph_phys_addr ph"
    "ph_phys_addr ph - base + ph_mem_size ph \<le> length buf" "length buf < USIZE_LIM" "ph_off ph + ph_file_size ph \<le> length content"
  shows "\<exists>s'. load_segment buf base f ph s = Some (Inr (put_bytes (ph_phys_addr ph - base) (segment_image content ph) buf), s')"
proof -
  obtain s' where "eff_bind (file_set_position f (ph_off ph)) (\<lambda>_. file_read_exact f (ph_file_size ph)) s =
    Some (Inr (take (ph_file_size ph) (drop (ph_off ph) content)), s')" using read_at [OF assms(6)] by blast
  then obtain s1 where "file_set_position f (ph_off ph) s = Some (Inr (), s1)"
    "file_read_exact f (ph_file_size ph) s1 = Some (Inr (take (ph_file_size ph) (drop (ph_off ph) content)), s')"
    by (auto simp: eff_bind_Inr)
  then show ?thesis using assms
    by (simp add: load_segment_def eff_bind_def eff_lift_def usub_def uadd_def eff_assert_def eff_return_def segment_image_def)
qed

lemma length_segment_image:
  "ph_file_size ph \<le> ph_mem_size ph \<Longrightarrow> ph_off ph + ph_file_size ph \<le> length content \<Longrightarrow> length (segment_image content ph) = ph_mem_size ph"
  by (simp add: segment_image_def)

text \<open>Segments that do not overlap end up in the buffer as they are in the file, with their remainder cleared.\<close>

lemma load_segments_image:
  assumes "\<forall>ph\<in>set phs. loadable_ok content base (length buf) ph" "length buf < USIZE_LIM"
    "\<forall>i j. i < j \<and> j < length phs \<longrightarrow> ph_phys_addr (phs ! i) + ph_mem_size (phs ! i) \<le> ph_phys_addr (phs ! j) \<or>
      ph_phys_addr (phs ! j) + ph_mem_size (phs ! j) \<le> ph_phys_addr (phs ! i)"
  shows "\<exists>buf' s'. load_segments buf base f phs s = Some (Inr buf', s') \<and> length buf' = length buf \<and>
    (\<forall>a n. (\<forall>ph\<in>set phs. a + n \<le> ph_phys_addr ph - base \<or> ph_phys_addr ph - base + ph_mem_size ph \<le> a) \<longrightarrow> take n (drop a buf') = take n (drop a buf)) \<and>
    (\<forall>ph\<in>set phs. take (ph_mem_size ph) (drop (ph_phys_addr ph - base) buf') = segment_image content ph)"
  using assms
proof (induction phs arbitrary: buf s)
  case Nil
  then show ?case by (simp add: eff_return_def)
next
  case (Cons ph phs)
  let ?off = "ph_phys_addr ph - base" and ?img = "segment_image content ph"
  let ?buf1 = "put_bytes ?off ?img buf"
  have ok: "loadable_ok content base (length buf) ph" using Cons.prems(1) by simp
  have len: "length ?img = ph_mem_size ph" using ok by (intro length_segment_image) (auto simp: loadable_ok_def)
  have fit: "?off + length ?img \<le> length buf" unfolding len using ok unfolding loadable_ok_def by blast
  have buf1: "length ?buf1 = length buf" using fit by simp
  obtain s1 where s1: "load_segment buf base f ph s = Some (Inr ?buf1, s1)"
    using load_segment_eq [of ph base buf s] ok Cons.prems(2) by (auto simp: loadable_ok_def)
  have "\<forall>i j. i < j \<and> j < length phs \<longrightarrow> ph_phys_addr (phs ! i) + ph_mem_size (phs ! i) \<le> ph_phys_addr (phs ! j) \<or>
      ph_phys_addr (phs ! j) + ph_mem_size (phs ! j) \<le> ph_phys_addr (phs ! i)"
  proof (intro allI impI)
    fix i j
    assume "i < j \<and> j < length phs"
    then show "ph_phys_addr (phs ! i) + ph_mem_size (phs ! i) \<le> ph_phys_addr (phs ! j) \<or>
      ph_phys_addr (phs ! j) + ph_mem_size (phs ! j) \<le> ph_phys_addr (phs ! i)"
      using Cons.prems(3) [rule_format, of "Suc i" "Suc j"] by simp
  qed
  moreover have "\<forall>q\<in>set phs. loadable_ok content base (length ?buf1) q" "length ?buf1 < USIZE_LIM"
    unfolding buf1 using Cons.prems(1,2) by simp_all
  ultimately obtain buf2 s2 where ih: "load_segments ?buf1 base f phs s1 = Some (Inr buf2, s2)" "length buf2 = length buf"
    "\<And>a n. \<forall>ph\<in>set phs. a + n \<le> ph_phys_addr ph - base \<or> ph_phys_addr ph - base + ph_mem_size ph \<le> a \<Longrightarrow> take n (drop a buf2) = take n (drop a ?buf1)"
    "\<And>q. q \<in> set phs \<Longrightarrow> take (ph_mem_size q) (drop (ph_phys_addr q - base) buf2) = segment_image content q"
    using Cons.IH [of ?buf1 s1] unfolding buf1 by blast
  have apart: "?off + ph_mem_size ph \<le> ph_phys_addr q - base \<or> ph_phys_addr q - base + ph_mem_size q \<le> ?off" if q: "q \<in> set phs" for q
  proof -
    obtain j where "j < length phs" "phs ! j = q" using q unfolding in_set_conv_nth by blast
    then have "ph_phys_addr ph + ph_mem_size ph \<le> ph_phys_addr q \<or> ph_phys_addr q + ph_mem_size q \<le> ph_phys_addr ph"
      using Cons.prems(3) [rule_format, of 0 "Suc j"] by simp
    moreover have "base \<le> ph_phys_addr q" "base \<le> ph_phys_addr ph" using Cons.prems(1) q ok by (auto simp: loadable_ok_def)
    ultimately show ?thesis by linarith
  qed
  have "take (ph_mem_size ph) (drop ?off buf2) = ?img"
  proof -
    have "take (ph_mem_size ph) (drop ?off buf2) = take (ph_mem_size ph) (drop ?off ?buf1)" using apart by (intro ih(3)) blast
    also have "\<dots> = ?img" using fit len by (intro read_put_bytes) simp_all
    finally show ?thesis .
  qed
  moreover have "take n (drop a buf2) = take n (drop a buf)"
    if a: "\<forall>q\<in>set (ph # phs). a + n \<le> ph_phys_addr q - base \<or> ph_phys_addr q - base + ph_mem_size q \<le> a" for a n
  proof -
    have "take n (drop a buf2) = take n (drop a ?buf1)" using a by (intro ih(3)) simp
    also have "\<dots> = take n (drop a buf)" using a fit len by (intro read_put_bytes_outside) simp_all
    finally show ?thesis .
  qed
  moreover have "load_segments buf base f (ph # phs) s = Some (Inr buf2, s2)" using s1 ih(1) by (simp add: eff_bind_def)
  ultimately show ?case using ih(2,4) by (intro exI [of _ buf2] exI [of _ s2]) simp
qed

end

text \<open>A file held in memory: the firmware state is the position and the live blocks of the pool.\<close>

definition mem_file :: "u8 list \<Rightarrow> (usize \<times> usize list) file_ops" where
  "mem_file content = \<lparr>f_open = (\<lambda>name mode attr s. (NOT_FOUND, 0, s)), f_close = (\<lambda>s. (SUCCESS, s)),
     f_read = (\<lambda>n (p, l). (SUCCESS, min n (length content - p), take n (drop p content), (p + min n (length content - p), l))),
     f_write = (\<lambda>bs s. (UNSUPPORTED, 0, s)), f_get_position = (\<lambda>s. (SUCCESS, fst s, s)), f_set_position = (\<lambda>p (_, l). (SUCCESS, (p, l))),
     f_get_info = (\<lambda>g n s. (UNSUPPORTED, 0, [], s))\<rparr>"

interpretation mem_file: firmware_file "mem_file content" content fst for content
  by unfold_locales (simp_all add: mem_file_def split_def)

text \<open>The firmware refuses a block of the pool, or pages; and the pool block of a box, if it has one.\<close>

definition pool_refused :: "'s boot_services \<Rightarrow> usize \<Rightarrow> 's \<Rightarrow> bool" where
  "pool_refused bs n s \<longleftrightarrow> st_is_err (fst (fw_allocate_pool bs MT_LOADER_DATA n s))"

definition pages_refused :: "'s boot_services \<Rightarrow> usize \<Rightarrow> 's \<Rightarrow> status \<Rightarrow> bool" where
  "pages_refused bs n s st \<longleftrightarrow> fst (fw_allocate_pages bs AnyPages MT_LOADER_DATA n 0 s) = st \<and> st_is_err st"

definition boxed :: "usize \<times> usize \<Rightarrow> usize set" where
  "boxed b = (if snd b = 0 then {} else {fst b})"

text \<open>
  What the firmware documents of its memory services. A request succeeds or is refused with an error. A pool block that is handed out
  is not null and was not live; freeing a live block succeeds. Pages that are handed out are page aligned and do not
  wrap around. \<open>pool\<close> is the set of live blocks, which page requests leave alone.
\<close>

locale boot_memory =
  fixes bs :: "'s boot_services" and pool :: "'s \<Rightarrow> usize set"
  assumes pool_status: "fst (fw_allocate_pool bs ty n s) = SUCCESS \<or> st_is_err (fst (fw_allocate_pool bs ty n s))"
    and pool_block: "fw_allocate_pool bs ty n s = (SUCCESS, p, s') \<Longrightarrow> p \<noteq> 0 \<and> p \<notin> pool s \<and> pool s' = insert p (pool s)"
    and free_pool: "p \<in> pool s \<Longrightarrow> \<exists>s'. fw_free_pool bs p s = (SUCCESS, s') \<and> pool s' = pool s - {p}"
    and pages_status: "fst (fw_allocate_pages bs mode ty n a s) = SUCCESS \<or> st_is_err (fst (fw_allocate_pages bs mode ty n a s))"
    and pages_aligned: "fw_allocate_pages bs AnyPages ty n 0 s = (SUCCESS, p, s') \<Longrightarrow> p mod LOADER_PAGE_SIZE = 0 \<and> p + n * LOADER_PAGE_SIZE < USIZE_LIM"
    and pages_pool: "pool (snd (snd (fw_allocate_pages bs mode ty n a s))) = pool s"
begin

lemma box_cases:
  obtains (refused) "box_new bs n 8 s = None" "n \<noteq> 0" "pool_refused bs n s"
  | (new) p s' where "box_new bs n 8 s = Some (Inr p, s')" "boxed p \<inter> pool s = {}" "pool s' = boxed p \<union> pool s"
      "n = 0 \<and> s' = s \<or> s' = snd (snd (fw_allocate_pool bs MT_LOADER_DATA n s))"
proof (cases "n = 0")
  case True
  then show thesis by (intro new [of "(8, 0)" s]) (simp_all add: box_new_def boxed_def)
next
  case n: False
  obtain st p s' where a: "fw_allocate_pool bs MT_LOADER_DATA n s = (st, p, s')" by (cases "fw_allocate_pool bs MT_LOADER_DATA n s")
  show thesis
  proof (cases "st_is_err st")
    case True
    then have "to_result st = Inl st" by (simp add: to_result_def)
    then show thesis using n a True
      by (intro refused) (simp_all add: box_new_def boot_alloc_allocate_def MAX_ALIGN_def bs_alloc_def eff_bind_def eff_status_def pool_refused_def)
  next
    case False
    then have "st = SUCCESS" using pool_status [of MT_LOADER_DATA n s] a by simp
    with a have a': "fw_allocate_pool bs MT_LOADER_DATA n s = (SUCCESS, p, s')" by simp
    note p = pool_block [OF a']
    have "box_new bs n 8 s = Some (Inr (p, n), s')" using a' p n
      by (simp add: box_new_def boot_alloc_allocate_def MAX_ALIGN_def bs_alloc_def eff_bind_def eff_status_def to_result_success eff_assert_def eff_return_def)
    then show thesis using a' p n by (intro new [of "(p, n)" s']) (simp_all add: boxed_def)
  qed
qed

lemma box_drop_ok:
  assumes "boxed b \<subseteq> pool s"
  shows "\<exists>s'. box_drop bs b s = Some s' \<and> pool s' = pool s - boxed b"
proof (cases "snd b = 0")
  case False
  then obtain s' where "fw_free_pool bs (fst b) s = (SUCCESS, s')" "pool s' = pool s - {fst b}"
    using free_pool [of "fst b" s] assms by (auto simp: boxed_def)
  then show ?thesis using False by (simp add: box_drop_def boot_alloc_deallocate_def bs_free_def expect_status_def to_result_success boxed_def)
qed (simp add: box_drop_def boxed_def)

lemma pages_cases:
  assumes "bytes + LOADER_PAGE_SIZE < USIZE_LIM"
  obtains (refused) st s' where "alloc_uninit_pages bs bytes s = Some (Inl st, s')" "pages_refused bs ((bytes + LOADER_PAGE_SIZE - 1) div LOADER_PAGE_SIZE) s st" "pool s' = pool s"
  | (pages) p n s' where "alloc_uninit_pages bs bytes s = Some (Inr (p, n), s')" "p mod LOADER_PAGE_SIZE = 0" "p + n < USIZE_LIM" "bytes \<le> n" "pool s' = pool s"
proof -
  define k where "k = (bytes + 4095) div 4096"
  have k: "bytes \<le> k * 4096" "k * 4096 \<le> bytes + 4095" unfolding k_def by linarith+
  have kd: "k = (bytes + LOADER_PAGE_SIZE - 1) div LOADER_PAGE_SIZE" by (simp add: k_def LOADER_PAGE_SIZE_def add.commute)
  have kk: "div_ceil bytes LOADER_PAGE_SIZE = Some k" "umul k LOADER_PAGE_SIZE = Some (k * 4096)"
    using assms k by (auto simp: panic_simps LOADER_PAGE_SIZE_def k_def)
  obtain st p s' where a: "fw_allocate_pages bs AnyPages MT_LOADER_DATA k 0 s = (st, p, s')" by (cases "fw_allocate_pages bs AnyPages MT_LOADER_DATA k 0 s")
  have ps: "pool s' = pool s" using pages_pool [of AnyPages MT_LOADER_DATA k 0 s] a by simp
  have run: "alloc_uninit_pages bs bytes s = (case to_result st of Inl e \<Rightarrow> Some (Inl e, s') | Inr _ \<Rightarrow> Some (Inr (p, k * 4096), s'))"
    using kk a by (simp add: alloc_uninit_pages_def eff_bind_def eff_lift_def alloc_pages_def eff_status_def eff_return_def split: sum.split)
  show thesis
  proof (cases "st_is_err st")
    case True
    then have "pages_refused bs k s st" using a by (simp add: pages_refused_def)
    then show thesis unfolding kd using run ps True by (intro refused [of st s']) (simp_all add: to_result_def)
  next
    case False
    then have "st = SUCCESS" using pages_status [of AnyPages MT_LOADER_DATA k 0 s] a by simp
    with a have a': "fw_allocate_pages bs AnyPages MT_LOADER_DATA k 0 s = (SUCCESS, p, s')" by simp
    then show thesis using run False k(1) ps pages_aligned [OF a'] by (intro pages [of p "k * 4096" s']) (simp_all add: to_result_def LOADER_PAGE_SIZE_def)
  qed
qed

end

section \<open>Loading an image\<close>

definition elf_loadable :: "u8 list \<Rightarrow> program_header list" where
  "elf_loadable content = (let h = elf_header_dec (take ELF_HEADER_SIZE content); n = eh_ph_entry_num h * PROGRAM_HEADER_SIZE in
     filter (\<lambda>ph. ph_ty ph = SEGMENT_TYPE_LOAD) (program_headers_dec (eh_ph_entry_num h) (take n (drop (eh_ph_off h) content))))"

text \<open>
  A well-formed kernel image: the header and the program headers lie in the file, segments are page aligned, lie in the file, do
  not overlap, ask for no more than page alignment, and one of them holds the entry point.
\<close>

definition segment_ok :: "u8 list \<Rightarrow> program_header \<Rightarrow> bool" where
  "segment_ok content ph \<longleftrightarrow> ph_phys_addr ph mod LOADER_PAGE_SIZE = 0 \<and> ph_file_size ph \<le> ph_mem_size ph \<and>
     ph_phys_addr ph + ph_mem_size ph + LOADER_PAGE_SIZE < USIZE_LIM \<and> ph_off ph + ph_file_size ph \<le> length content \<and> ph_align ph \<le> LOADER_PAGE_SIZE"

definition segments_apart :: "program_header list \<Rightarrow> bool" where
  "segments_apart phs \<longleftrightarrow> (\<forall>i j. i < j \<and> j < length phs \<longrightarrow> ph_phys_addr (phs ! i) + ph_mem_size (phs ! i) \<le> ph_phys_addr (phs ! j) \<or>
      ph_phys_addr (phs ! j) + ph_mem_size (phs ! j) \<le> ph_phys_addr (phs ! i))"

text \<open>The lowest address of the image and the number of pages it spans.\<close>

definition elf_lo :: "u8 list \<Rightarrow> usize" where
  "elf_lo content = Min (ph_phys_addr ` set (elf_loadable content))"

definition elf_pages :: "u8 list \<Rightarrow> usize" where
  "elf_pages content = (Max ((\<lambda>ph. ph_phys_addr ph + ph_mem_size ph) ` set (elf_loadable content)) - elf_lo content + LOADER_PAGE_SIZE - 1) div LOADER_PAGE_SIZE"

definition elf_ok :: "u8 list \<Rightarrow> bool" where
  "elf_ok content \<longleftrightarrow> (let h = elf_header_dec (take ELF_HEADER_SIZE content) in
     ELF_HEADER_SIZE \<le> length content \<and> elf_is_valid h \<and> eh_ph_entry_size h = PROGRAM_HEADER_SIZE \<and>
     eh_ph_off h + eh_ph_entry_num h * PROGRAM_HEADER_SIZE \<le> length content \<and>
     list_all (segment_ok content) (elf_loadable content) \<and> segments_apart (elf_loadable content) \<and>
     list_ex (\<lambda>ph. ph_phys_addr ph \<le> eh_entry h \<and> eh_entry h < ph_phys_addr ph + ph_mem_size ph) (elf_loadable content))"

lemma segment_bounds_eq:
  assumes "list_all (segment_ok content) phs" "phs \<noteq> []"
  shows "\<exists>t a. segment_bounds phs = Some (Some (Min (ph_phys_addr ` set phs), t, a)) \<and> a \<le> LOADER_PAGE_SIZE \<and>
    t + LOADER_PAGE_SIZE < USIZE_LIM \<and> t = Max ((\<lambda>ph. ph_phys_addr ph + ph_mem_size ph) ` set phs)"
  using assms
proof (induction phs)
  case (Cons ph phs)
  have u: "uadd (ph_phys_addr ph) (ph_mem_size ph) = Some (ph_phys_addr ph + ph_mem_size ph)"
    using Cons.prems(1) by (simp add: segment_ok_def uadd_def)
  show ?case
  proof (cases "phs = []")
    case True
    then show ?thesis using u Cons.prems(1) by (simp add: segment_ok_def)
  next
    case False
    with Cons obtain t a where r: "segment_bounds phs = Some (Some (Min (ph_phys_addr ` set phs), t, a))" "a \<le> LOADER_PAGE_SIZE"
      "t + LOADER_PAGE_SIZE < USIZE_LIM" "t = Max ((\<lambda>ph. ph_phys_addr ph + ph_mem_size ph) ` set phs)" by auto
    moreover have "Min (ph_phys_addr ` set (ph # phs)) = min (ph_phys_addr ph) (Min (ph_phys_addr ` set phs))"
      "Max ((\<lambda>ph. ph_phys_addr ph + ph_mem_size ph) ` set (ph # phs)) = max (ph_phys_addr ph + ph_mem_size ph) t" using False r(4) by simp_all
    ultimately show ?thesis using u Cons.prems(1) by (auto simp: segment_ok_def max_def)
  qed
qed simp

lemma entry_covered_eq:
  assumes "list_all (segment_ok content) phs" "list_ex (\<lambda>ph. ph_phys_addr ph \<le> e \<and> e < ph_phys_addr ph + ph_mem_size ph) phs"
  shows "entry_covered e phs = Some True"
  using assms by (induction phs) (auto simp: segment_ok_def uadd_def)

context firmware_file
begin

lemma read_header_eq:
  assumes "ELF_HEADER_SIZE \<le> length content" "elf_is_valid (elf_header_dec (take ELF_HEADER_SIZE content))"
  shows "\<exists>s'. read_header f s = Some (Inr (elf_header_dec (take ELF_HEADER_SIZE content)), s')"
  using read_at [of 0 ELF_HEADER_SIZE s] assms by (auto simp: read_header_def eff_bind_Inr Let_def eff_return_def)

end

text \<open>Computations that leave the pool alone.\<close>

definition keeps :: "('s \<Rightarrow> 'v) \<Rightarrow> ('s, 'e, 'a) eff \<Rightarrow> bool" where
  "keeps v m \<longleftrightarrow> (\<forall>s r s'. m s = Some (r, s') \<longrightarrow> v s' = v s)"

lemma keepsD: "keeps v m \<Longrightarrow> m s = Some (r, s') \<Longrightarrow> v s' = v s"
  by (simp add: keeps_def)

lemma keeps_bind: "keeps v m \<Longrightarrow> (\<And>x. keeps v (k x)) \<Longrightarrow> keeps v (eff_bind m k)"
  unfolding keeps_def eff_bind_def by (auto split: option.split_asm sum.split_asm prod.split_asm)

lemma keeps_ops [simp]: "keeps v (eff_return x)" "keeps v (eff_fail e)" "keeps v (eff_lift y)" "keeps v (eff_assert b)" "keeps v (eff_status st)"
  by (auto simp: keeps_def eff_return_def eff_fail_def eff_lift_def eff_assert_def eff_status_def split: if_splits option.split_asm)

text \<open>Both contracts: pool requests leave the file position alone, and file operations the pool.\<close>

locale loader_firmware = firmware_file f content pos + boot_memory bs pool
  for f :: "'s file_ops" and content pos and bs :: "'s boot_services" and pool +
  assumes pool_pos: "pos (snd (snd (fw_allocate_pool bs ty n s))) = pos s"
    and set_position_pool: "pool (snd (f_set_position f p s)) = pool s"
    and read_pool: "pool (snd (snd (snd (f_read f n s)))) = pool s"
begin

lemma keeps_set_position: "keeps pool (file_set_position f p)"
  unfolding keeps_def
proof (intro allI impI)
  fix s r s'
  obtain st s1 where a: "f_set_position f p s = (st, s1)" by (cases "f_set_position f p s")
  assume "file_set_position f p s = Some (r, s')"
  then have "s' = s1" using a by (simp add: file_set_position_def eff_status_def)
  then show "pool s' = pool s" using set_position_pool [of p s] a by simp
qed

lemma keeps_read_exact: "keeps pool (file_read_exact f n)"
proof -
  have "keeps pool (file_read f n)"
    unfolding keeps_def
  proof (intro allI impI)
    fix s r s'
    obtain st sz data s1 where a: "f_read f n s = (st, sz, data, s1)" by (cases "f_read f n s")
    assume "file_read f n s = Some (r, s')"
    then have "eff_bind (eff_status st) (\<lambda>_. eff_bind (eff_assert (sz \<le> n)) (\<lambda>_. eff_return (take sz data))) s1 = Some (r, s')"
      using a by (simp add: file_read_def)
    then have "pool s' = pool s1" by (rule keepsD [rotated]) (intro keeps_bind keeps_ops)
    then show "pool s' = pool s" using read_pool [of n s] a by simp
  qed
  then show ?thesis unfolding file_read_exact_def by (intro keeps_bind) simp_all
qed

lemma keeps_load_segments: "keeps pool (load_segments buf base f phs)"
proof (induction phs arbitrary: buf)
  case (Cons ph phs)
  have "keeps pool (load_segment buf base f ph)" unfolding load_segment_def
    by (cases "ph_phys_addr ph mod LOADER_PAGE_SIZE \<noteq> 0 \<or> ph_file_size ph > ph_mem_size ph")
      (auto intro!: keeps_bind keeps_set_position keeps_read_exact)
  then show ?case using Cons.IH by (auto intro: keeps_bind)
qed simp

lemma keeps_read_header: "keeps pool (read_header f)"
  unfolding read_header_def by (auto intro!: keeps_bind keeps_set_position keeps_read_exact simp: Let_def)

lemma read_pheaders_cases:
  assumes "eh_ph_entry_size h = PROGRAM_HEADER_SIZE" "eh_ph_off h + eh_ph_entry_num h * PROGRAM_HEADER_SIZE \<le> length content"
  obtains (refused) s1 where "read_pheaders bs h f s = None" "pool_refused bs (eh_ph_entry_num h * PROGRAM_HEADER_SIZE) s1"
  | (headers) b s' where "read_pheaders bs h f s = Some (Inr (program_headers_dec (eh_ph_entry_num h)
    (take (eh_ph_entry_num h * PROGRAM_HEADER_SIZE) (drop (eh_ph_off h) content)), b), s')" "boxed b \<inter> pool s = {}" "pool s' = boxed b \<union> pool s"
proof -
  let ?n = "eh_ph_entry_num h * PROGRAM_HEADER_SIZE"
  obtain s1 where s1: "file_set_position f (eh_ph_off h) s = Some (Inr (), s1)" "pos s1 = eh_ph_off h"
    using set_position [of "eh_ph_off h" s] by (auto simp: file_set_position_def eff_status_def to_result_success)
  have p1: "pool s1 = pool s" using keepsD [OF keeps_set_position s1(1)] .
  show thesis
  proof (cases rule: box_cases [of ?n s1])
    case refused
    then show thesis using assms(1) s1(1) by (intro that(1) [of s1]) (simp_all add: read_pheaders_def eff_bind_def Let_def)
  next
    case (new b s2)
    have "pos s2 = eh_ph_off h" using new(4) pool_pos [of MT_LOADER_DATA ?n s1] s1(2) by auto
    from read_exact [of s2 ?n] this assms(2) obtain s3 where
      s3: "file_read_exact f ?n s2 = Some (Inr (take ?n (drop (eh_ph_off h) content)), s3)" by auto
    have "pool s3 = pool s2" using keepsD [OF keeps_read_exact s3] .
    then show thesis using assms(1) s1 s3 new p1
      by (intro that(2) [of b s3]) (simp_all add: read_pheaders_def eff_bind_def Let_def)
  qed
qed

text \<open>Once the headers have been read, the image is placed and filled, or the pages are refused.\<close>

lemma place_image:
  assumes ok: "elf_ok content" and fresh: "\<And>p n. length (fresh p n) = n" and t: "lo \<le> t" "t + LOADER_PAGE_SIZE < USIZE_LIM"
    and phs: "\<forall>ph\<in>set (elf_loadable content). lo \<le> ph_phys_addr ph \<and> ph_phys_addr ph + ph_mem_size ph \<le> t" and e: "lo \<le> entry" "entry < t"
    and body_def: "body = eff_bind (alloc_uninit_pages bs (t - lo)) (\<lambda>(p, n).
      eff_bind (load_segments (fresh p n) lo f (elf_loadable content)) (\<lambda>buf.
      eff_bind (eff_lift (usub entry lo)) (\<lambda>d.
      eff_bind (eff_lift (uadd d p)) (\<lambda>entry. eff_return (entry, p, buf)))))"
  obtains (refused) st s' where "body s = Some (Inl st, s')" "pages_refused bs ((t - lo + LOADER_PAGE_SIZE - 1) div LOADER_PAGE_SIZE) s st" "pool s' = pool s"
  | (image) p buf s' where "body s = Some (Inr (entry - lo + p, p, buf), s')" "p mod LOADER_PAGE_SIZE = 0" "pool s' = pool s"
      "\<forall>ph\<in>set (elf_loadable content). take (ph_mem_size ph) (drop (ph_phys_addr ph - lo) buf) = segment_image content ph"
proof -
  let ?phs = "elf_loadable content"
  have "t - lo + LOADER_PAGE_SIZE < USIZE_LIM" using t(2) by linarith
  then show thesis
  proof (cases rule: pages_cases [of "t - lo" s])
    case (refused st s')
    then show thesis by (intro that(1) [of st s']) (simp_all add: body_def eff_bind_def)
  next
    case (pages p n s1)
    have "list_all (segment_ok content) ?phs" "segments_apart ?phs" using ok by (auto simp: elf_ok_def Let_def)
    then have "\<forall>ph\<in>set ?phs. loadable_ok content lo (length (fresh p n)) ph" "segments_apart ?phs"
      using phs pages(4) fresh by (fastforce simp: list_all_iff segment_ok_def loadable_ok_def)+
    then obtain buf s2 where s2: "load_segments (fresh p n) lo f ?phs s1 = Some (Inr buf, s2)"
      "\<forall>ph\<in>set ?phs. take (ph_mem_size ph) (drop (ph_phys_addr ph - lo) buf) = segment_image content ph"
      using load_segments_image [of ?phs lo "fresh p n" s1] fresh pages(3) unfolding segments_apart_def by fastforce
    have p2: "pool s2 = pool s" using keepsD [OF keeps_load_segments s2(1)] pages(5) by simp
    have "entry - lo + p < USIZE_LIM" using e pages(3,4) by linarith
    then have "body s = Some (Inr (entry - lo + p, p, buf), s2)"
      using pages(1) s2(1) e(1) by (simp add: body_def eff_bind_def eff_lift_def usub_def uadd_def eff_return_def)
    then show thesis using pages(2) p2 s2(2) by (intro that(2))
  qed
qed

lemma load_elf_cases:
  assumes ok: "elf_ok content" and fresh: "\<And>p n. length (fresh p n) = n"
  defines "h \<equiv> elf_header_dec (take ELF_HEADER_SIZE content)" and "lo \<equiv> elf_lo content"
  shows "case load_elf bs fresh f s of
      None \<Rightarrow> \<exists>s1. pool_refused bs (eh_ph_entry_num h * PROGRAM_HEADER_SIZE) s1
    | Some (Inl st, s') \<Rightarrow> (\<exists>s1. pages_refused bs (elf_pages content) s1 st) \<and> pool s' = pool s
    | Some (Inr (entry, p, buf), s') \<Rightarrow> entry = eh_entry h - lo + p \<and> p mod LOADER_PAGE_SIZE = 0 \<and> pool s' = pool s \<and>
        (\<forall>ph\<in>set (elf_loadable content). take (ph_mem_size ph) (drop (ph_phys_addr ph - lo) buf) = segment_image content ph)"
proof -
  let ?phs = "elf_loadable content"
  have h: "eh_ph_entry_size h = PROGRAM_HEADER_SIZE" "eh_ph_off h + eh_ph_entry_num h * PROGRAM_HEADER_SIZE \<le> length content"
    using ok by (auto simp: elf_ok_def Let_def h_def)
  have phs: "?phs \<noteq> []" "list_all (segment_ok content) ?phs" using ok by (auto simp: elf_ok_def Let_def)
  obtain s1 where s1: "read_header f s = Some (Inr h, s1)" using read_header_eq ok by (auto simp: elf_ok_def Let_def h_def)
  have p1: "pool s1 = pool s" using keepsD [OF keeps_read_header s1] .
  from h show ?thesis
  proof (cases rule: read_pheaders_cases [where s = s1])
    case (refused s2)
    then have "load_elf bs fresh f s = None" using s1 by (simp add: load_elf_def eff_bind_def)
    then show ?thesis using refused(2) by auto
  next
    case (headers b s2)
    obtain t a where bd: "segment_bounds ?phs = Some (Some (lo, t, a))" "a \<le> LOADER_PAGE_SIZE" "t + LOADER_PAGE_SIZE < USIZE_LIM"
      "t = Max ((\<lambda>ph. ph_phys_addr ph + ph_mem_size ph) ` set ?phs)" using segment_bounds_eq [OF phs(2,1)] unfolding lo_def elf_lo_def by blast
    have lo: "\<forall>ph\<in>set ?phs. lo \<le> ph_phys_addr ph \<and> ph_phys_addr ph + ph_mem_size ph \<le> t" using bd(4) unfolding lo_def elf_lo_def by simp
    obtain q where q: "q \<in> set ?phs" "ph_phys_addr q \<le> eh_entry h" "eh_entry h < ph_phys_addr q + ph_mem_size q"
      using ok by (auto simp: elf_ok_def Let_def list_ex_iff h_def)
    have e: "lo \<le> t" "lo \<le> eh_entry h" "eh_entry h < t" using q lo by force+
    have cov: "entry_covered (eh_entry h) ?phs = Some True" using entry_covered_eq [OF phs(2)] ok by (simp add: elf_ok_def Let_def h_def)
    define body where "body = eff_bind (alloc_uninit_pages bs (t - lo)) (\<lambda>(p, n).
      eff_bind (load_segments (fresh p n) lo f ?phs) (\<lambda>buf.
      eff_bind (eff_lift (usub (eh_entry h) lo)) (\<lambda>d.
      eff_bind (eff_lift (uadd d p)) (\<lambda>entry. eff_return (entry, p, buf)))))"
    have run: "load_elf bs fresh f s = eff_drop (box_drop bs b) body s2"
      using s1 headers(1) bd(1,2) cov e(1)
      by (simp add: load_elf_def eff_bind_def eff_drop_def elf_loadable_def Let_def eff_lift_def usub_def h_def body_def split: prod.split)
    have bx: "\<exists>s'. box_drop bs b u = Some s' \<and> pool s' = pool s" if u: "pool u = pool s2" for u
    proof -
      have "boxed b \<subseteq> pool u" "pool u - boxed b = pool s" using u headers(2,3) p1 by auto
      then show ?thesis using box_drop_ok [of b u] by auto
    qed
    show ?thesis
    proof (rule place_image [OF ok fresh e(1) bd(3) lo e(2,3) body_def, where s = s2])
      fix st u
      assume u: "body s2 = Some (Inl st, u)" "pages_refused bs ((t - lo + LOADER_PAGE_SIZE - 1) div LOADER_PAGE_SIZE) s2 st" "pool u = pool s2"
      then have "pages_refused bs (elf_pages content) s2 st" using bd(4) by (simp add: elf_pages_def lo_def)
      then show ?thesis using u(1) bx [OF u(3)] by (auto simp: run eff_drop_def)
    next
      fix p buf u
      assume u: "body s2 = Some (Inr (eh_entry h - lo + p, p, buf), u)" "p mod LOADER_PAGE_SIZE = 0" "pool u = pool s2"
        "\<forall>ph\<in>set ?phs. take (ph_mem_size ph) (drop (ph_phys_addr ph - lo) buf) = segment_image content ph"
      then show ?thesis using bx [OF u(3)] by (auto simp: run eff_drop_def)
    qed
  qed
qed

end

text \<open>Firmware that hands out a block above all live ones, and pages at a fixed address.\<close>

definition bump_bs :: "(usize \<times> usize list) boot_services" where
  "bump_bs = demo_bs\<lparr>
     fw_allocate_pages := (\<lambda>mode ty n a s. if n < 0x1000 then (SUCCESS, 0x10000, s) else (ST_OUT_OF_RESOURCES, 0, s)),
     fw_allocate_pool := (\<lambda>ty n (p, l). let b = Suc (sum_list l) in (SUCCESS, b, (p, b # l))),
     fw_free_pool := (\<lambda>b (p, l). (SUCCESS, (p, removeAll b l)))\<rparr>"

lemma out_of_resources_err: "st_is_err ST_OUT_OF_RESOURCES" "ST_OUT_OF_RESOURCES \<noteq> SUCCESS"
proof -
  show e: "st_is_err ST_OUT_OF_RESOURCES" unfolding ST_OUT_OF_RESOURCES_def by (rule err_code_is_err)
  show "ST_OUT_OF_RESOURCES \<noteq> SUCCESS" using e by (auto simp: st_is_err_bit SUCCESS_def)
qed

interpretation bump_memory: boot_memory bump_bs "\<lambda>s. set (snd s)"
proof
  fix ty n p and s s' :: "usize \<times> usize list"
  obtain q l where s: "s = (q, l)" by (cases s)
  have "x \<le> sum_list l" if "x \<in> set l" for x using that by (intro member_le_sum_list) simp_all
  then have "Suc (sum_list l) \<notin> set l" by fastforce
  then show "fw_allocate_pool bump_bs ty n s = (SUCCESS, p, s') \<Longrightarrow> p \<noteq> 0 \<and> p \<notin> set (snd s) \<and> set (snd s') = insert p (set (snd s))"
    by (auto simp: bump_bs_def s Let_def)
qed (auto simp: bump_bs_def Let_def split_def LOADER_PAGE_SIZE_def USIZE_LIM_def out_of_resources_err split: if_splits)

interpretation bump_loader: loader_firmware "mem_file content" content fst bump_bs "\<lambda>s. set (snd s)" for content
  by unfold_locales (auto simp: bump_bs_def mem_file_def Let_def split_def)


definition demo_elf :: "u8 list" where
  "demo_elf = [0x7f, 0x45, 0x4c, 0x46, 2, 1, 1, 0, 0] @ replicate 7 0 @ le_bytes 2 2 @ le_bytes 2 62 @ le_bytes 4 1 @ le_bytes 8 0x1010 @
     le_bytes 8 64 @ le_bytes 8 0 @ le_bytes 4 0 @ le_bytes 2 64 @ le_bytes 2 56 @ le_bytes 2 1 @ le_bytes 2 0 @ le_bytes 2 0 @ le_bytes 2 0 @
     le_bytes 4 1 @ le_bytes 4 5 @ le_bytes 8 120 @ le_bytes 8 0x1000 @ le_bytes 8 0x1000 @ le_bytes 8 2 @ le_bytes 8 0x20 @ le_bytes 8 0x1000 @ [0xf4, 0xc3]"

lemma demo_elf_eq: "demo_elf = [0x7f, 0x45, 0x4c, 0x46, 2, 1, 1, 0, 0, 0, 0, 0, 0, 0, 0, 0, 2, 0, 62, 0, 1, 0, 0, 0, 0x10, 0x10, 0, 0, 0, 0, 0, 0,
     64, 0, 0, 0, 0, 0, 0, 0, 0, 0, 0, 0, 0, 0, 0, 0, 0, 0, 0, 0, 64, 0, 56, 0, 1, 0, 0, 0, 0, 0, 0, 0,
     1, 0, 0, 0, 5, 0, 0, 0, 120, 0, 0, 0, 0, 0, 0, 0, 0, 0x10, 0, 0, 0, 0, 0, 0, 0, 0x10, 0, 0, 0, 0, 0, 0, 2, 0, 0, 0, 0, 0, 0, 0,
     0x20, 0, 0, 0, 0, 0, 0, 0, 0, 0x10, 0, 0, 0, 0, 0, 0, 0xf4, 0xc3]"
  by code_simp

lemma demo_header: "elf_header_dec (take ELF_HEADER_SIZE demo_elf) = \<lparr>eh_magic = [0x7f, 0x45, 0x4c, 0x46], eh_class = 2, eh_data = 1, eh_ident_version = 1,
  eh_abi = 0, eh_abi_version = 0, eh_ty = 2, eh_machine = 62, eh_version = 1, eh_entry = 0x1010, eh_ph_off = 64, eh_sh_off = 0, eh_flags = 0,
  eh_header_size = 64, eh_ph_entry_size = 56, eh_ph_entry_num = 1, eh_sh_entry_size = 0, eh_sh_entry_num = 0, eh_sh_str_index = 0\<rparr>"
  unfolding demo_elf_eq by code_simp

lemma demo_loadable: "elf_loadable demo_elf = [\<lparr>ph_ty = 1, ph_flags = 5, ph_off = 120, ph_virt_addr = 0x1000, ph_phys_addr = 0x1000,
  ph_file_size = 2, ph_mem_size = 0x20, ph_align = 0x1000\<rparr>]"
  unfolding demo_elf_eq by code_simp

lemma demo_elf_ok: "elf_ok demo_elf"
  unfolding elf_ok_def demo_header Let_def demo_loadable
  by (simp add: elf_is_valid_def segment_ok_def segments_apart_def demo_elf_eq ELF_HEADER_SIZE_def PROGRAM_HEADER_SIZE_def ELF_MAGIC_def CLASS_64_def
      DATA_LE_def IDENT_VERSION_CURRENT_def ABI_SYSV_def ABI_VERSION_CURRENT_def VERSION_CURRENT_def LOADER_PAGE_SIZE_def USIZE_LIM_def)

lemma bump_accepts: "\<not> pool_refused bump_bs n s" "n < 0x1000 \<Longrightarrow> \<not> pages_refused bump_bs n s st"
  by (auto simp: pool_refused_def pages_refused_def bump_bs_def Let_def split_def st_is_err_bit SUCCESS_def)


end
