(* ===== verification/Object_Name.thy ===== *)
theory Object_Name
  imports Utf8
begin

text \<open>
  Names of kernel objects (\<open>lib/object-name\<close>): a name is cut to 32 bytes. The cut is a slice of a \<open>str\<close>, which panics inside a
  character, so \<open>Name::new\<close> returns exactly when byte 32 starts a character.
\<close>

definition MAX_NAME_LEN :: usize where "MAX_NAME_LEN = 32"

text \<open>\<open>str::is_char_boundary\<close>, and slicing a prefix of a \<open>str\<close>.\<close>

definition is_char_boundary :: "u8 list \<Rightarrow> usize \<Rightarrow> bool" where
  "is_char_boundary s i \<longleftrightarrow> i = 0 \<or> i = length s \<or> (i < length s \<and> \<not> is_cont (s ! i))"

definition str_prefix :: "u8 list \<Rightarrow> usize \<Rightarrow> u8 list option" where
  "str_prefix s n = (if is_char_boundary s n then Some (take n s) else None)"

text \<open>\<open>array_string cap s\<close> stands for \<open>ArrayString::from\<close>, a library function that fails on strings longer than the capacity.\<close>

definition name_new :: "(usize \<Rightarrow> u8 list \<Rightarrow> u8 list option) \<Rightarrow> u8 list \<Rightarrow> u8 list option" where
  "name_new array_string name = do {
     s \<leftarrow> str_prefix name (min (length name) MAX_NAME_LEN);
     array_string MAX_NAME_LEN s }"

definition fixed_string :: "usize \<Rightarrow> u8 list \<Rightarrow> u8 list option" where
  "fixed_string cap s = (if length s \<le> cap then Some s else None)"

lemma name_new_eq:
  assumes "\<And>s. length s \<le> MAX_NAME_LEN \<Longrightarrow> array_string MAX_NAME_LEN s = Some s"
  shows "name_new array_string name =
    (if length name \<le> MAX_NAME_LEN \<or> \<not> is_cont (name ! MAX_NAME_LEN) then Some (take MAX_NAME_LEN name) else None)"
  using assms by (auto simp: name_new_def str_prefix_def is_char_boundary_def MAX_NAME_LEN_def min_def)

text \<open>
  A valid string whose 32nd and 33rd bytes are the two halves of one character makes \<open>Name::new\<close> panic.
\<close>

lemma name_new_panics: "utf8_valid (replicate 31 0x61 @ [0xC3, 0xA9])" "name_new fixed_string (replicate 31 0x61 @ [0xC3, 0xA9]) = None"
  by code_simp+

end
