(* ===== verification/Btree_Map.thy ===== *)
theory Btree_Map
  imports Prelude
begin

text \<open>
  What the kernel uses of \<open>alloc::collections::BTreeMap\<close>, as a list of entries with ascending keys: insertion, removal, taking the first
  entry, and the last entry below or the first entry from a key on. The lemmas relate each operation to the map it
  represents.
\<close>

type_synonym ('k, 'v) btree_map = "('k \<times> 'v) list"

abbreviation bt_sorted :: "('k :: linorder, 'v) btree_map \<Rightarrow> bool" where
  "bt_sorted m \<equiv> sorted_wrt (<) (map fst m)"

fun bt_insert :: "'k :: linorder \<Rightarrow> 'v \<Rightarrow> ('k, 'v) btree_map \<Rightarrow> ('k, 'v) btree_map" where
  "bt_insert k v [] = [(k, v)]"
| "bt_insert k v ((k1, v1) # m) =
     (if k < k1 then (k, v) # (k1, v1) # m else if k = k1 then (k, v) # m else (k1, v1) # bt_insert k v m)"

definition bt_remove :: "'k :: linorder \<Rightarrow> ('k, 'v) btree_map \<Rightarrow> ('v option \<times> ('k, 'v) btree_map)" where
  "bt_remove k m = (map_of m k, filter (\<lambda>e. fst e \<noteq> k) m)"

fun bt_pop_first :: "('k, 'v) btree_map \<Rightarrow> ('k \<times> 'v) option \<times> ('k, 'v) btree_map" where
  "bt_pop_first [] = (None, [])"
| "bt_pop_first (e # m) = (Some e, m)"

text \<open>\<open>range(..k).next_back()\<close> and \<open>range(k..).next()\<close>.\<close>

fun bt_before :: "'k :: linorder \<Rightarrow> ('k, 'v) btree_map \<Rightarrow> ('k \<times> 'v) option" where
  "bt_before k [] = None"
| "bt_before k (e # m) = (if fst e < k then (case bt_before k m of None \<Rightarrow> Some e | Some e' \<Rightarrow> Some e') else None)"

definition bt_from :: "'k :: linorder \<Rightarrow> ('k, 'v) btree_map \<Rightarrow> ('k \<times> 'v) option" where
  "bt_from k m = find (\<lambda>e. k \<le> fst e) m"

section \<open>The map represented\<close>

lemma bt_insert_set: "bt_sorted m \<Longrightarrow> set (bt_insert k v m) = insert (k, v) {e \<in> set m. fst e \<noteq> k}"
proof (induction k v m rule: bt_insert.induct)
  case (2 k v k1 v1 m)
  have "bt_sorted m" "\<forall>e\<in>set m. k1 < fst e" using "2.prems" by auto
  then show ?case using 2 by (cases k k1 rule: linorder_cases) auto
qed simp

lemma bt_insert_sorted: "bt_sorted m \<Longrightarrow> bt_sorted (bt_insert k v m)"
proof (induction k v m rule: bt_insert.induct)
  case (2 k v k1 v1 m)
  have "bt_sorted m" "\<forall>e\<in>set m. k1 < fst e" using "2.prems" by auto
  moreover have "\<forall>e\<in>set (bt_insert k v m). k1 < fst e" if "k1 < k" using that calculation bt_insert_set [of m k v] by auto
  ultimately show ?case using 2 by (cases k k1 rule: linorder_cases) (auto dest: less_trans)
qed simp

lemma bt_sorted_distinct: "bt_sorted m \<Longrightarrow> distinct (map fst m)"
  by (simp add: strict_sorted_iff)

lemma bt_lookup: "bt_sorted m \<Longrightarrow> map_of m k = Some v \<longleftrightarrow> (k, v) \<in> set m"
  by (simp add: bt_sorted_distinct)

lemma bt_insert_lookup: "map_of (bt_insert k v m) = (map_of m)(k \<mapsto> v)"
  by (induction k v m rule: bt_insert.induct) (auto simp: fun_eq_iff)

lemma bt_remove_sorted: "bt_sorted m \<Longrightarrow> bt_sorted (snd (bt_remove k m))"
  by (induction m) (auto simp: bt_remove_def)

lemma bt_remove_set: "set (snd (bt_remove k m)) = {e \<in> set m. fst e \<noteq> k}"
  by (auto simp: bt_remove_def)

lemma bt_insert_remove: "bt_sorted m \<Longrightarrow> k \<notin> fst ` set m \<Longrightarrow> bt_remove k (bt_insert k v m) = (Some v, m)"
proof (induction m)
  case (Cons e m)
  obtain k1 v1 where e: "e = (k1, v1)" by (cases e)
  have "filter (\<lambda>e. fst e \<noteq> k) m = m" using Cons.prems(2) by (auto simp: filter_id_conv)
  then show ?case using Cons by (auto simp: e bt_remove_def)
qed (simp add: bt_remove_def)

lemma bt_before_None: "bt_sorted m \<Longrightarrow> bt_before k m = None \<longleftrightarrow> (\<forall>e\<in>set m. k \<le> fst e)"
  by (cases m) (auto split: option.splits)

lemma bt_before_Some:
  assumes "bt_sorted m" "bt_before k m = Some e"
  shows "e \<in> set m \<and> fst e < k \<and> (\<forall>e'\<in>set m. fst e' < k \<longrightarrow> fst e' \<le> fst e)"
  using assms
proof (induction m)
  case (Cons x m)
  have x: "fst x < k" "bt_sorted m" "\<forall>e\<in>set m. fst x < fst e" using Cons.prems by (auto split: if_splits)
  show ?case
  proof (cases "bt_before k m")
    case None
    then have "\<forall>e\<in>set m. k \<le> fst e" using x(2) by (simp add: bt_before_None)
    then show ?thesis using None Cons.prems x(1) by auto
  next
    case (Some y)
    then have "e = y" using Cons.prems x(1) by simp
    then show ?thesis using Cons.IH [OF x(2)] Some x(3) by (auto intro: less_imp_le)
  qed
qed simp

lemma bt_from_Some:
  assumes "bt_sorted m" "bt_from k m = Some e"
  shows "e \<in> set m \<and> k \<le> fst e \<and> (\<forall>e'\<in>set m. k \<le> fst e' \<longrightarrow> fst e \<le> fst e')"
  using assms
proof (induction m)
  case (Cons x m)
  show ?case
  proof (cases "k \<le> fst x")
    case True
    then show ?thesis using Cons.prems by (auto simp: bt_from_def intro: less_imp_le)
  next
    case False
    then show ?thesis using Cons by (auto simp: bt_from_def)
  qed
qed (simp add: bt_from_def)

lemma bt_from_None: "bt_from k m = None \<longleftrightarrow> (\<forall>e\<in>set m. fst e < k)"
  by (auto simp: bt_from_def find_None_iff not_le)

end
