(* ===== verification/Aspace_Tree.thy ===== *)
theory Aspace_Tree
  imports Btree_Map Object_Name Mm_Types
begin

text \<open>
  The tree of slices and mappings of an address space (\<open>mm/vm/aspace/tree.rs\<close>). \<open>Arc\<close> references are indices into a store of slices and
  mappings that belongs to one address space; the contents of a \<open>QCell\<close> are reached through the owner of that
  address space only, so the store is passed along. A dropped object stays in the store and is not reached any more.
\<close>

section \<open>Slices and mappings\<close>

datatype map_base = Fixed vpn | Aligned (align_order: usize)

definition map_base_any :: map_base where
  "map_base_any = Aligned 0"

type_synonym slice_id = nat
type_synonym mapping_id = nat
type_synonym object_id = nat

datatype slice_child = Subslice slice_id | MappingChild mapping_id

record slice_inner =
  si_parent :: "slice_id option"
  si_children :: "(vpn, slice_child) btree_map"

record slice =
  sl_name :: "u8 list"
  sl_start :: vpn
  sl_page_count :: usize
  sl_inner :: "slice_inner option"

record mapping_inner =
  mi_parent :: slice_id
  mi_prot :: u8

record mapping =
  ma_start :: vpn
  ma_page_count :: usize
  ma_object_offset :: usize
  ma_object :: object_id
  ma_inner :: "mapping_inner option"

text \<open>The store, and the state \<open>'h\<close> of the global allocator that \<open>Arc::try_new\<close> takes its memory from.\<close>

record 'h vm_tree =
  vt_slices :: "slice list"
  vt_mappings :: "mapping list"
  vt_heap :: 'h

text \<open>
  What the code calls elsewhere: whether a fallible allocation succeeds, \<open>ArrayString::from\<close> and \<open>ArrayVec::try_push\<close> of a library, and
  whether trace messages are on, whose arguments are only evaluated then.
\<close>

datatype alloc_request = ArcSlice | ArcMapping | ArcObject | ArcAspace | VecOf usize

record 'h vm_env =
  ve_try_new :: "alloc_request \<Rightarrow> 'h \<Rightarrow> bool \<times> 'h"
  ve_array_string :: "usize \<Rightarrow> u8 list \<Rightarrow> u8 list option"
  ve_try_push :: "usize \<Rightarrow> vpn list \<Rightarrow> vpn \<Rightarrow> vpn list option"
  ve_trace :: bool

definition try_alloc :: "'h vm_env \<Rightarrow> alloc_request \<Rightarrow> ('h, error, unit) eff" where
  "try_alloc env req h = (let (ok, h') = ve_try_new env req h in Some (if ok then Inr () else Inl OUT_OF_MEMORY, h'))"

definition on_heap :: "('h, 'e, 'a) eff \<Rightarrow> ('h vm_tree, 'e, 'a) eff" where
  "on_heap m t = map_option (\<lambda>(r, h). (r, t\<lparr>vt_heap := h\<rparr>)) (m (vt_heap t))"

definition arc_try_new :: "'h vm_env \<Rightarrow> alloc_request \<Rightarrow> ('h vm_tree, error, unit) eff" where
  "arc_try_new env req = on_heap (try_alloc env req)"

definition slice_at :: "'h vm_tree \<Rightarrow> slice_id \<Rightarrow> slice option" where
  "slice_at t i = (if i < length (vt_slices t) then Some (vt_slices t ! i) else None)"

definition mapping_at :: "'h vm_tree \<Rightarrow> mapping_id \<Rightarrow> mapping option" where
  "mapping_at t i = (if i < length (vt_mappings t) then Some (vt_mappings t ! i) else None)"

definition set_inner :: "slice_id \<Rightarrow> slice_inner option \<Rightarrow> 'h vm_tree \<Rightarrow> 'h vm_tree" where
  "set_inner i inn t = t\<lparr>vt_slices := (vt_slices t)[i := (vt_slices t ! i)\<lparr>sl_inner := inn\<rparr>]\<rparr>"

definition slice_end :: "slice \<Rightarrow> vpn option" where
  "slice_end s = uadd (sl_start s) (sl_page_count s)"

definition mapping_end :: "mapping \<Rightarrow> vpn option" where
  "mapping_end m = uadd (ma_start m) (ma_page_count m)"

fun child_start :: "'h vm_tree \<Rightarrow> slice_child \<Rightarrow> vpn option" where
  "child_start t (Subslice i) = map_option sl_start (slice_at t i)"
| "child_start t (MappingChild i) = map_option ma_start (mapping_at t i)"

fun child_end :: "'h vm_tree \<Rightarrow> slice_child \<Rightarrow> vpn option" where
  "child_end t (Subslice i) = Option.bind (slice_at t i) slice_end"
| "child_end t (MappingChild i) = Option.bind (mapping_at t i) mapping_end"

definition slice_new :: "'h vm_env \<Rightarrow> slice_id option \<Rightarrow> u8 list \<Rightarrow> vpn \<Rightarrow> usize \<Rightarrow> ('h vm_tree, error, slice_id) eff" where
  "slice_new env parent name start pages =
     eff_bind (eff_lift (name_new (ve_array_string env) name)) (\<lambda>n.
     eff_bind (arc_try_new env ArcSlice) (\<lambda>_ t.
     Some (Inr (length (vt_slices t)), t\<lparr>vt_slices := vt_slices t @
       [\<lparr>sl_name = n, sl_start = start, sl_page_count = pages, sl_inner = Some \<lparr>si_parent = parent, si_children = []\<rparr>\<rparr>]\<rparr>)))"

definition mapping_new :: "'h vm_env \<Rightarrow> slice_id \<Rightarrow> vpn \<Rightarrow> usize \<Rightarrow> object_id \<Rightarrow> usize \<Rightarrow> u8 \<Rightarrow> ('h vm_tree, error, mapping_id) eff" where
  "mapping_new env parent start pages object object_offset prot =
     eff_bind (arc_try_new env ArcMapping) (\<lambda>_ t.
     Some (Inr (length (vt_mappings t)), t\<lparr>vt_mappings := vt_mappings t @
       [\<lparr>ma_start = start, ma_page_count = pages, ma_object_offset = object_offset, ma_object = object,
         ma_inner = Some \<lparr>mi_parent = parent, mi_prot = prot\<rparr>\<rparr>]\<rparr>))"

definition inner :: "slice_id \<Rightarrow> ('h vm_tree, error, slice_inner) eff" where
  "inner i t = (case slice_at t i of None \<Rightarrow> None
     | Some s \<Rightarrow> Some (case sl_inner s of None \<Rightarrow> Inl INVALID_STATE | Some inn \<Rightarrow> Inr inn, t))"

definition mapping_inner_of :: "mapping_id \<Rightarrow> ('h vm_tree, error, mapping_inner) eff" where
  "mapping_inner_of i t = (case mapping_at t i of None \<Rightarrow> None
     | Some m \<Rightarrow> Some (case ma_inner m of None \<Rightarrow> Inl INVALID_STATE | Some inn \<Rightarrow> Inr inn, t))"

definition slice_parent :: "slice_id \<Rightarrow> ('h vm_tree, error, slice_id option) eff" where
  "slice_parent i = eff_bind (inner i) (\<lambda>inn. eff_return (si_parent inn))"

definition mapping_parent :: "mapping_id \<Rightarrow> ('h vm_tree, error, slice_id) eff" where
  "mapping_parent i = eff_bind (mapping_inner_of i) (\<lambda>inn. eff_return (mi_parent inn))"

definition mapping_prot :: "mapping_id \<Rightarrow> ('h vm_tree, error, u8) eff" where
  "mapping_prot i = eff_bind (mapping_inner_of i) (\<lambda>inn. eff_return (mi_prot inn))"

section \<open>Lookup\<close>

definition check_vpn :: "slice_id \<Rightarrow> vpn \<Rightarrow> ('h vm_tree, error, unit) eff" where
  "check_vpn i vpn t = do {
     s \<leftarrow> slice_at t i;
     en \<leftarrow> slice_end s;
     Some (if sl_start s \<le> vpn \<and> vpn < en then Inr () else Inl BAD_ADDRESS, t) }"

definition get_child :: "'h vm_tree \<Rightarrow> slice_inner \<Rightarrow> vpn \<Rightarrow> slice_child option option" where
  "get_child t inn vpn = (case bt_before vpn (si_children inn) of
     None \<Rightarrow> Some None
   | Some (_, child) \<Rightarrow> do { en \<leftarrow> child_end t child; Some (if vpn < en then Some child else None) })"

text \<open>The loop of \<open>get_mapping\<close>; \<open>None\<close> is a panic or a loop that does not end.\<close>

partial_function (option) get_mapping_loop :: "'h vm_tree \<Rightarrow> vpn \<Rightarrow> slice_id \<Rightarrow> ((error + mapping_id) \<times> 'h vm_tree) option" where
  "get_mapping_loop t vpn i = (case inner i t of
     None \<Rightarrow> None
   | Some (Inl e, _) \<Rightarrow> Some (Inl e, t)
   | Some (Inr inn, _) \<Rightarrow> (case get_child t inn vpn of
         None \<Rightarrow> None
       | Some None \<Rightarrow> Some (Inl BAD_ADDRESS, t)
       | Some (Some (Subslice j)) \<Rightarrow> get_mapping_loop t vpn j
       | Some (Some (MappingChild m)) \<Rightarrow> Some (Inr m, t)))"

definition get_mapping :: "slice_id \<Rightarrow> vpn \<Rightarrow> ('h vm_tree, error, mapping_id) eff" where
  "get_mapping i vpn = eff_bind (check_vpn i vpn) (\<lambda>_ t. get_mapping_loop t vpn i)"

section \<open>Allocating and removing children\<close>

text \<open>The walk over the gaps. The closure breaks with \<open>Some (Some b)\<close>, continues with \<open>Some None\<close> and panics with \<open>None\<close>.\<close>

fun gaps_loop :: "'h vm_tree \<Rightarrow> (vpn \<Rightarrow> usize \<Rightarrow> 'b option option) \<Rightarrow> vpn \<Rightarrow> vpn \<Rightarrow> (vpn, slice_child) btree_map \<Rightarrow> 'b option option" where
  "gaps_loop t f self_end last_end [] = (if last_end < self_end then f last_end (self_end - last_end) else Some None)"
| "gaps_loop t f self_end last_end ((cur_start, cur) # rest) = do {
     r \<leftarrow> (if last_end < cur_start then f last_end (cur_start - last_end) else Some None);
     case r of
       Some b \<Rightarrow> Some (Some b)
     | None \<Rightarrow> do { e \<leftarrow> child_end t cur; gaps_loop t f self_end e rest } }"

definition iter_gaps :: "slice_id \<Rightarrow> (vpn \<Rightarrow> usize \<Rightarrow> 'b option option) \<Rightarrow> ('h vm_tree, error, 'b option) eff" where
  "iter_gaps i f =
     eff_bind (inner i) (\<lambda>inn t. do {
       s \<leftarrow> slice_at t i;
       r \<leftarrow> (case si_children inn of
           [] \<Rightarrow> f (sl_start s) (sl_page_count s)
         | (first_start, first) # rest \<Rightarrow> do {
             r \<leftarrow> (if sl_start s < first_start then f (sl_start s) (first_start - sl_start s) else Some None);
             case r of
               Some b \<Rightarrow> Some (Some b)
             | None \<Rightarrow> do {
                 last_end \<leftarrow> child_end t first;
                 self_end \<leftarrow> slice_end s;
                 gaps_loop t f self_end last_end rest } });
       Some (Inr r, t) })"

definition insert_child :: "slice_id \<Rightarrow> vpn \<Rightarrow> slice_child \<Rightarrow> 'h vm_tree \<Rightarrow> 'h vm_tree option" where
  "insert_child i start child t = do {
     s \<leftarrow> slice_at t i;
     inn \<leftarrow> sl_inner s;
     Some (set_inner i (Some (inn\<lparr>si_children := bt_insert start child (si_children inn)\<rparr>)) t) }"

definition spot_in_gap :: "usize \<Rightarrow> usize \<Rightarrow> vpn \<Rightarrow> usize \<Rightarrow> vpn option option" where
  "spot_in_gap align pages gap_start gap_pages = do {
     aligned_gap_start \<leftarrow> addr_align_up gap_start align;
     gap_padding \<leftarrow> usub aligned_gap_start gap_start;
     aligned_pages \<leftarrow> usub gap_pages gap_padding;
     Some (if aligned_pages > pages then Some aligned_gap_start else None) }"

definition alloc_spot_dynamic :: "slice_id \<Rightarrow> usize \<Rightarrow> usize \<Rightarrow> (vpn \<Rightarrow> ('h vm_tree, error, slice_child) eff) \<Rightarrow> ('h vm_tree, error, slice_child) eff" where
  "alloc_spot_dynamic i order pages f =
     eff_bind (eff_lift (ushl 1 order)) (\<lambda>align.
     eff_bind (iter_gaps i (spot_in_gap align pages)) (\<lambda>spot.
     case spot of
       None \<Rightarrow> eff_fail OUT_OF_RESOURCES
     | Some gap_start \<Rightarrow> eff_bind (f gap_start) (\<lambda>child t. do {
         t1 \<leftarrow> insert_child i gap_start child t;
         Some (Inr child, t1) })))"

definition alloc_spot_fixed :: "slice_id \<Rightarrow> vpn \<Rightarrow> usize \<Rightarrow> slice_child \<Rightarrow> ('h vm_tree, error, unit) eff" where
  "alloc_spot_fixed i start pages child t =
     (case addr_checked_add start pages of
        None \<Rightarrow> Some (Inl INVALID_ARGUMENT, t)
      | Some en \<Rightarrow> do {
          s \<leftarrow> slice_at t i;
          self_end \<leftarrow> (if start < sl_start s then Some 0 else slice_end s);
          if start < sl_start s \<or> en > self_end then Some (Inl INVALID_ARGUMENT, t)
          else eff_bind (inner i) (\<lambda>inn t. do {
            prev_overlaps \<leftarrow> (case bt_before start (si_children inn) of
                None \<Rightarrow> Some False | Some (_, prev) \<Rightarrow> do { e \<leftarrow> child_end t prev; Some (e > start) });
            if prev_overlaps then Some (Inl RESOURCE_OVERLAP, t)
            else do {
              next_overlaps \<leftarrow> (case bt_from start (si_children inn) of
                  None \<Rightarrow> Some False | Some (_, next) \<Rightarrow> do { b \<leftarrow> child_start t next; Some (en > b) });
              if next_overlaps then Some (Inl RESOURCE_OVERLAP, t)
              else do { t1 \<leftarrow> insert_child i start child t; Some (Inr (), t1) } } }) t })"

definition alloc_spot :: "slice_id \<Rightarrow> map_base \<Rightarrow> usize \<Rightarrow> (vpn \<Rightarrow> ('h vm_tree, error, slice_child) eff) \<Rightarrow> ('h vm_tree, error, slice_child) eff" where
  "alloc_spot i base pages f = (case base of
     Fixed start \<Rightarrow> eff_bind (f start) (\<lambda>child. eff_bind (alloc_spot_fixed i start pages child) (\<lambda>_. eff_return child))
   | Aligned order \<Rightarrow> alloc_spot_dynamic i order pages f)"

definition remove_child :: "slice_id \<Rightarrow> vpn \<Rightarrow> ('h vm_tree, error, unit) eff" where
  "remove_child i start =
     eff_bind (inner i) (\<lambda>inn t. (case bt_remove start (si_children inn) of
       (None, _) \<Rightarrow> None
     | (Some _, children) \<Rightarrow> Some (Inr (), set_inner i (Some (inn\<lparr>si_children := children\<rparr>)) t)))"

section \<open>Detaching\<close>

definition tree_weight :: "'h vm_tree \<Rightarrow> nat" where
  "tree_weight t = sum_list (map (\<lambda>s. case sl_inner s of None \<Rightarrow> 0 | Some inn \<Rightarrow> Suc (length (si_children inn))) (vt_slices t))"

lemma set_inner_weight:
  assumes "slice_at t i = Some s" "sl_inner s = Some inn"
    and "case inn' of None \<Rightarrow> True | Some j \<Rightarrow> length (si_children j) < length (si_children inn)"
  shows "tree_weight (set_inner i inn' t) < tree_weight t"
proof -
  have i: "i < length (vt_slices t)" "vt_slices t ! i = s" using assms(1) by (auto simp: slice_at_def split: if_splits)
  define w where "w = (\<lambda>s :: slice. case sl_inner s of None \<Rightarrow> 0 | Some inn \<Rightarrow> Suc (length (si_children inn)))"
  have "w (s\<lparr>sl_inner := inn'\<rparr>) < w (vt_slices t ! i)" using assms(2,3) i(2) by (auto simp: w_def split: option.splits)
  then have "sum_list ((map w (vt_slices t))[i := w (s\<lparr>sl_inner := inn'\<rparr>)]) < sum_list (map w (vt_slices t))"
    using i(1) elem_le_sum_list [of i "map w (vt_slices t)"] by (simp add: sum_list_update)
  then show ?thesis using i(2) by (simp add: tree_weight_def set_inner_def map_update w_def)
qed

text \<open>The loop of \<open>detach_children\<close>: each iteration takes one child away or detaches one slice.\<close>

function detach_loop :: "slice_id \<Rightarrow> slice_id \<Rightarrow> 'h vm_tree \<Rightarrow> 'h vm_tree option" where
  "detach_loop self cur t = (case slice_at t cur of
     None \<Rightarrow> None
   | Some s \<Rightarrow> (case sl_inner s of
       None \<Rightarrow> None
     | Some inn \<Rightarrow> (case si_children inn of
         (k, child) # rest \<Rightarrow>
           (let t1 = set_inner cur (Some (inn\<lparr>si_children := rest\<rparr>)) t in
            case child of Subslice j \<Rightarrow> detach_loop self j t1 | MappingChild _ \<Rightarrow> detach_loop self cur t1)
       | [] \<Rightarrow>
           (let t1 = set_inner cur None t in
            if cur \<noteq> self then (case si_parent inn of None \<Rightarrow> None | Some p \<Rightarrow> detach_loop self p t1)
            else Some t1))))"
  by pat_completeness auto
termination
  by (relation "measure (\<lambda>(self, cur, t). tree_weight t)") (auto intro: set_inner_weight)

declare detach_loop.simps [simp del]

definition detach_children :: "slice_id \<Rightarrow> 'h vm_tree \<Rightarrow> 'h vm_tree option" where
  "detach_children i t = detach_loop i i t"

end
