(* ===== verification/Vm_Object.thy ===== *)
theory Vm_Object
  imports Aspace_Tree Pmm
begin

text \<open>
  Virtual memory objects (\<open>mm/vm/object.rs\<close>). The three implementations of the trait \<open>VmObject\<close> are the constructors of a datatype;
  objects live in a store and are shared by index. Freeing an object that is not referenced any more is not modelled.
\<close>

text \<open>The memory of the kernel: the state of the heap behind the fallible allocations, and the frame allocator.\<close>

record ('g, 'l) kmem =
  km_heap :: 'g
  km_pmm :: "'l phys_manager option"

datatype commit_type = CommitRead | CommitWrite

datatype vm_object =
    EagerVmObject (eager_frames: "pfn list")
  | LazyVmObject (lazy_page_count: usize) (lazy_frames: "pfn option list")
  | PhysVmObject (phys_obj_base: pfn) (phys_obj_page_count: usize) (phys_obj_cache_mode: cache_mode)

fun object_page_count :: "vm_object \<Rightarrow> usize" where
  "object_page_count (EagerVmObject frames) = length frames"
| "object_page_count (LazyVmObject npages frames) = npages"
| "object_page_count (PhysVmObject base npages mode) = npages"

fun object_cache_mode :: "vm_object \<Rightarrow> cache_mode" where
  "object_cache_mode (EagerVmObject frames) = Cached"
| "object_cache_mode (LazyVmObject npages frames) = Cached"
| "object_cache_mode (PhysVmObject base npages mode) = mode"

definition on_pmm :: "('l phys_manager option \<Rightarrow> ('r \<times> 'l phys_manager option) option) \<Rightarrow> ('g, 'l) kmem \<Rightarrow> ('r \<times> ('g, 'l) kmem) option" where
  "on_pmm f h = map_option (\<lambda>(r, p). (r, h\<lparr>km_pmm := p\<rparr>)) (f (km_pmm h))"

text \<open>A list of \<open>FrameBox\<close>es is dropped from the front.\<close>

fun drop_frames :: "(virt_addr, 'l) ll_ops \<Rightarrow> pfn list \<Rightarrow> 'l phys_manager option \<Rightarrow> 'l phys_manager option option" where
  "drop_frames L [] st = Some st"
| "drop_frames L (p # ps) st = do { st1 \<leftarrow> frame_box_drop L 0 p st; drop_frames L ps st1 }"

text \<open>The loop that fills \<open>frames\<close>. On an error the frames collected so far are dropped.\<close>

fun push_frames :: "(virt_addr, 'l) ll_ops \<Rightarrow> nat \<Rightarrow> pfn list \<Rightarrow> 'l phys_manager option \<Rightarrow> ((error + pfn list) \<times> 'l phys_manager option) option" where
  "push_frames L 0 frames st = Some (Inr frames, st)"
| "push_frames L (Suc n) frames st = do {
     (r, st1) \<leftarrow> frame_box_new L 0 st;
     case r of
       Inl e \<Rightarrow> do { st2 \<leftarrow> drop_frames L frames st1; Some (Inl e, st2) }
     | Inr p \<Rightarrow> push_frames L n (frames @ [p]) st1 }"

definition eager_new :: "('g, 'l) kmem vm_env \<Rightarrow> (virt_addr, 'l) ll_ops \<Rightarrow> usize \<Rightarrow> (('g, 'l) kmem, error, vm_object) eff" where
  "eager_new env L npages =
     eff_bind (try_alloc env (VecOf npages)) (\<lambda>_.
     eff_bind (on_pmm (push_frames L npages [])) (\<lambda>frames h. do {
       (r, h1) \<leftarrow> try_alloc env ArcObject h;
       case r of
         Inl e \<Rightarrow> do { st \<leftarrow> drop_frames L frames (km_pmm h1); Some (Inl e, h1\<lparr>km_pmm := st\<rparr>) }
       | Inr _ \<Rightarrow> Some (Inr (EagerVmObject frames), h1) }))"

definition lazy_object_new :: "('g, 'l) kmem vm_env \<Rightarrow> usize \<Rightarrow> (('g, 'l) kmem, error, vm_object) eff" where
  "lazy_object_new env npages =
     eff_bind (try_alloc env (VecOf npages)) (\<lambda>_.
     eff_bind (try_alloc env ArcObject) (\<lambda>_. eff_return (LazyVmObject npages (replicate npages None))))"

definition phys_object_new :: "('g, 'l) kmem vm_env \<Rightarrow> pfn \<Rightarrow> usize \<Rightarrow> cache_mode \<Rightarrow> (('g, 'l) kmem, error, vm_object) eff" where
  "phys_object_new env base npages mode =
     eff_bind (try_alloc env ArcObject) (\<lambda>_. eff_return (PhysVmObject base npages mode))"

text \<open>\<open>provide_page\<close> may change the object and the frame allocator.\<close>

fun provide_page :: "(virt_addr, 'l) ll_ops \<Rightarrow> usize \<Rightarrow> commit_type \<Rightarrow> vm_object \<Rightarrow> 'l phys_manager option
    \<Rightarrow> (pfn result \<times> vm_object \<times> 'l phys_manager option) option" where
  "provide_page L offset ct (EagerVmObject frames) st =
     (if offset < length frames then Some (Inr (frames ! offset), EagerVmObject frames, st) else None)"
| "provide_page L offset ct (LazyVmObject npages frames) st =
     (if offset < length frames then (case frames ! offset of
          Some p \<Rightarrow> Some (Inr p, LazyVmObject npages frames, st)
        | None \<Rightarrow> do {
            (r, st1) \<leftarrow> frame_box_new L 0 st;
            case r of
              Inl e \<Rightarrow> Some (Inl e, LazyVmObject npages frames, st1)
            | Inr p \<Rightarrow> Some (Inr p, LazyVmObject npages (frames[offset := Some p]), st1) })
      else None)"
| "provide_page L offset ct (PhysVmObject base npages mode) st = do {
     uassert (offset < npages);
     p \<leftarrow> uadd base offset;
     Some (Inr p, PhysVmObject base npages mode, st) }"

text \<open>Frames an object has provided before are provided again, and the size does not change.\<close>

fun provided :: "vm_object \<Rightarrow> usize \<Rightarrow> pfn option" where
  "provided (EagerVmObject frames) offset = (if offset < length frames then Some (frames ! offset) else None)"
| "provided (LazyVmObject npages frames) offset = (if offset < length frames then frames ! offset else None)"
| "provided (PhysVmObject base npages mode) offset = (if offset < npages then Some (base + offset) else None)"

lemma provide_page_provided:
  assumes "provide_page L offset ct obj st = Some (Inr p, obj', st')"
  shows "provided obj' offset = Some p" "\<And>i q. provided obj i = Some q \<Longrightarrow> provided obj' i = Some q"
    "object_page_count obj' = object_page_count obj" "object_cache_mode obj' = object_cache_mode obj"
proof -
  have "provided obj' offset = Some p \<and> (\<forall>i q. provided obj i = Some q \<longrightarrow> provided obj' i = Some q) \<and>
    object_page_count obj' = object_page_count obj \<and> object_cache_mode obj' = object_cache_mode obj"
  proof (cases obj)
    case (EagerVmObject frames)
    then show ?thesis using assms by (auto split: if_splits)
  next
    case (LazyVmObject npages frames)
    have off: "offset < length frames" using assms by (simp add: LazyVmObject split: if_splits)
    show ?thesis
    proof (cases "frames ! offset")
      case None
      obtain r st1 where "frame_box_new L 0 st = Some (r, st1)" using assms off None by (cases "frame_box_new L 0 st") (auto simp: LazyVmObject)
      then have "obj' = LazyVmObject npages (frames[offset := Some p])" using assms off None by (cases r) (auto simp: LazyVmObject)
      then show ?thesis using LazyVmObject None off by (auto simp: nth_list_update)
    qed (use assms off LazyVmObject in auto)
  next
    case (PhysVmObject base npages mode)
    then show ?thesis using assms by (auto simp: panic_simps)
  qed
  then show "provided obj' offset = Some p" "\<And>i q. provided obj i = Some q \<Longrightarrow> provided obj' i = Some q"
    "object_page_count obj' = object_page_count obj" "object_cache_mode obj' = object_cache_mode obj" by blast+
qed

end
