(* ===== verification/Aspace_Tree_Inv.thy ===== *)
theory Aspace_Tree_Inv
  imports Aspace_Tree
begin

text \<open>
  The invariant of the tree of slices, that the operations keep it, and what they do: placing a child at a fixed address and in the first
  large enough gap, looking a page up, and detaching a subtree.
\<close>

section \<open>The invariant\<close>

fun c_valid :: "'h vm_tree \<Rightarrow> slice_child \<Rightarrow> bool" where
  "c_valid t (Subslice i) \<longleftrightarrow> i < length (vt_slices t)"
| "c_valid t (MappingChild m) \<longleftrightarrow> m < length (vt_mappings t)"

fun c_lo :: "'h vm_tree \<Rightarrow> slice_child \<Rightarrow> vpn" where
  "c_lo t (Subslice i) = sl_start (vt_slices t ! i)"
| "c_lo t (MappingChild m) = ma_start (vt_mappings t ! m)"

fun c_hi :: "'h vm_tree \<Rightarrow> slice_child \<Rightarrow> vpn" where
  "c_hi t (Subslice i) = sl_start (vt_slices t ! i) + sl_page_count (vt_slices t ! i)"
| "c_hi t (MappingChild m) = ma_start (vt_mappings t ! m) + ma_page_count (vt_mappings t ! m)"

fun c_linked :: "'h vm_tree \<Rightarrow> slice_id \<Rightarrow> slice_child \<Rightarrow> bool" where
  "c_linked t i (Subslice j) \<longleftrightarrow> i < j \<and> (\<exists>inn. sl_inner (vt_slices t ! j) = Some inn \<and> si_parent inn = Some i)"
| "c_linked t i (MappingChild m) \<longleftrightarrow> (\<exists>inn. ma_inner (vt_mappings t ! m) = Some inn \<and> mi_parent inn = i)"

abbreviation s_end :: "slice \<Rightarrow> vpn" where
  "s_end s \<equiv> sl_start s + sl_page_count s"

definition apart :: "'h vm_tree \<Rightarrow> (vpn, slice_child) btree_map \<Rightarrow> bool" where
  "apart t ch \<longleftrightarrow> (\<forall>k c k' c'. (k, c) \<in> set ch \<longrightarrow> (k', c') \<in> set ch \<longrightarrow> k < k' \<longrightarrow> c_hi t c \<le> k')"

lemma apartD: "apart t ch \<Longrightarrow> (k, c) \<in> set ch \<Longrightarrow> (k', c') \<in> set ch \<Longrightarrow> k < k' \<Longrightarrow> c_hi t c \<le> k'"
  unfolding apart_def by blast

lemma apart_subset: "apart t ch \<Longrightarrow> set ch' \<subseteq> set ch \<Longrightarrow> apart t ch'"
  unfolding apart_def by blast

definition children_ok :: "'h vm_tree \<Rightarrow> slice_id \<Rightarrow> (vpn, slice_child) btree_map \<Rightarrow> bool" where
  "children_ok t i ch \<longleftrightarrow> bt_sorted ch \<and>
     (\<forall>(k, c)\<in>set ch. c_valid t c \<and> c_lo t c = k \<and> sl_start (vt_slices t ! i) \<le> k \<and> c_hi t c \<le> s_end (vt_slices t ! i) \<and> c_linked t i c) \<and>
     apart t ch"

definition slice_ok :: "'h vm_tree \<Rightarrow> slice_id \<Rightarrow> bool" where
  "slice_ok t i \<longleftrightarrow> s_end (vt_slices t ! i) < USIZE_LIM \<and>
     (\<forall>inn. sl_inner (vt_slices t ! i) = Some inn \<longrightarrow> children_ok t i (si_children inn))"

definition tree_ok :: "'h vm_tree \<Rightarrow> bool" where
  "tree_ok t \<longleftrightarrow> (\<forall>i < length (vt_slices t). slice_ok t i)"

text \<open>An attached slice and its children.\<close>

definition attached :: "'h vm_tree \<Rightarrow> slice_id \<Rightarrow> slice_inner \<Rightarrow> bool" where
  "attached t i inn \<longleftrightarrow> i < length (vt_slices t) \<and> sl_inner (vt_slices t ! i) = Some inn"

lemma attached_simps:
  assumes "attached t i inn"
  shows "slice_at t i = Some (vt_slices t ! i)" "inner i t = Some (Inr inn, t)"
  using assms by (auto simp: attached_def slice_at_def inner_def)

lemma tree_ok_children: "tree_ok t \<Longrightarrow> attached t i inn \<Longrightarrow> children_ok t i (si_children inn)"
  by (simp add: tree_ok_def attached_def slice_ok_def)

lemma children_okD:
  assumes "children_ok t i ch" "(k, c) \<in> set ch"
  shows "c_valid t c" "c_lo t c = k" "sl_start (vt_slices t ! i) \<le> k" "c_hi t c \<le> s_end (vt_slices t ! i)" "c_linked t i c" "k \<le> c_hi t c"
proof -
  have "c_valid t c \<and> c_lo t c = k \<and> sl_start (vt_slices t ! i) \<le> k \<and> c_hi t c \<le> s_end (vt_slices t ! i) \<and> c_linked t i c"
    using assms unfolding children_ok_def by blast
  then show "c_valid t c" "c_lo t c = k" "sl_start (vt_slices t ! i) \<le> k" "c_hi t c \<le> s_end (vt_slices t ! i)" "c_linked t i c" "k \<le> c_hi t c"
    by (cases c; auto)+
qed

lemma children_ok_apart: "children_ok t i ch \<Longrightarrow> apart t ch"
  unfolding children_ok_def by blast

lemma children_ok_sorted: "children_ok t i ch \<Longrightarrow> bt_sorted ch"
  unfolding children_ok_def by blast

lemma child_at:
  assumes "tree_ok t" "attached t i inn" "(k, c) \<in> set (si_children inn)"
  shows "child_start t c = Some k" "child_end t c = Some (c_hi t c)"
proof -
  note ok = children_okD [OF tree_ok_children [OF assms(1,2)] assms(3)]
  have "s_end (vt_slices t ! i) < USIZE_LIM" using assms(1,2) by (simp add: tree_ok_def slice_ok_def attached_def)
  then have hi: "c_hi t c < USIZE_LIM" using ok(4) by linarith
  show "child_start t c = Some k" using ok(1,2) by (cases c) (auto simp: slice_at_def mapping_at_def)
  show "child_end t c = Some (c_hi t c)"
    using ok(1) hi by (cases c) (auto simp: slice_at_def mapping_at_def slice_end_def mapping_end_def uadd_def)
qed

lemma slice_end_ok: "tree_ok t \<Longrightarrow> i < length (vt_slices t) \<Longrightarrow> slice_end (vt_slices t ! i) = Some (s_end (vt_slices t ! i))"
  by (simp add: tree_ok_def slice_ok_def slice_end_def uadd_def)

section \<open>Placing a child at a fixed address\<close>

text \<open>A range of pages of a slice that no child begins in or reaches into.\<close>

definition free_at :: "'h vm_tree \<Rightarrow> slice_inner \<Rightarrow> vpn \<Rightarrow> usize \<Rightarrow> bool" where
  "free_at t inn start pages \<longleftrightarrow> (\<forall>(k, c)\<in>set (si_children inn). (k < start \<and> c_hi t c \<le> start) \<or> start + pages \<le> k)"

lemma prev_overlap:
  assumes ok: "tree_ok t" and at: "attached t i inn"
  shows "(case bt_before start (si_children inn) of None \<Rightarrow> Some False | Some (_, prev) \<Rightarrow> do { e \<leftarrow> child_end t prev; Some (e > start) }) =
    Some (\<exists>(k, c)\<in>set (si_children inn). k < start \<and> start < c_hi t c)"
proof (cases "bt_before start (si_children inn)")
  case None
  then have "\<forall>e\<in>set (si_children inn). start \<le> fst e" using bt_before_None children_ok_sorted [OF tree_ok_children [OF ok at]] by blast
  then show ?thesis using None by auto
next
  case (Some e)
  obtain k c where e: "e = (k, c)" by (cases e)
  note b = bt_before_Some [OF children_ok_sorted [OF tree_ok_children [OF ok at]] Some, unfolded e fst_conv]
  have "c_hi t c' \<le> start" if "(k', c') \<in> set (si_children inn)" "k' < start" "k' \<noteq> k" for k' c'
  proof -
    have "k' \<le> k" using b that(1,2) by auto
    then have "k' < k" using that(3) by simp
    then show ?thesis using apartD [OF children_ok_apart [OF tree_ok_children [OF ok at]] that(1), of k c] b by auto
  qed
  moreover have "c' = c" if "(k, c') \<in> set (si_children inn)" for c'
    using eq_key_imp_eq_value [OF bt_sorted_distinct [OF children_ok_sorted [OF tree_ok_children [OF ok at]]] that] b by auto
  ultimately have "(\<exists>(k, c)\<in>set (si_children inn). k < start \<and> start < c_hi t c) \<longleftrightarrow> start < c_hi t c"
    using b by (auto simp: not_le [symmetric])
  then show ?thesis using Some child_at(2) [OF ok at, of k c] b by (simp add: e)
qed

lemma next_overlap:
  assumes ok: "tree_ok t" and at: "attached t i inn"
  shows "(case bt_from start (si_children inn) of None \<Rightarrow> Some False | Some (_, nxt) \<Rightarrow> do { b \<leftarrow> child_start t nxt; Some (en > b) }) =
    Some (\<exists>(k, c)\<in>set (si_children inn). start \<le> k \<and> k < en)"
proof (cases "bt_from start (si_children inn)")
  case None
  then have "\<forall>e\<in>set (si_children inn). fst e < start" using bt_from_None by blast
  then show ?thesis using None by auto
next
  case (Some e)
  obtain k c where e: "e = (k, c)" by (cases e)
  note b = bt_from_Some [OF children_ok_sorted [OF tree_ok_children [OF ok at]] Some, unfolded e fst_conv]
  then have "(\<exists>(k, c)\<in>set (si_children inn). start \<le> k \<and> k < en) \<longleftrightarrow> k < en" by auto
  then show ?thesis using Some child_at(1) [OF ok at, of k c] b by (simp add: e)
qed

definition add_child :: "slice_id \<Rightarrow> slice_inner \<Rightarrow> vpn \<Rightarrow> slice_child \<Rightarrow> 'h vm_tree \<Rightarrow> 'h vm_tree" where
  "add_child i inn start child t = set_inner i (Some (inn\<lparr>si_children := bt_insert start child (si_children inn)\<rparr>)) t"

lemma insert_child_eq: "attached t i inn \<Longrightarrow> insert_child i start child t = Some (add_child i inn start child t)"
  by (simp add: insert_child_def attached_simps add_child_def) (simp add: attached_def)

lemma fixed_eq:
  assumes ok: "tree_ok t" and at: "attached t i inn" and "0 < pages"
  shows "alloc_spot_fixed i start pages child t =
    (if start + pages < USIZE_LIM \<and> sl_start (vt_slices t ! i) \<le> start \<and> start + pages \<le> s_end (vt_slices t ! i)
     then if free_at t inn start pages then Some (Inr (), add_child i inn start child t) else Some (Inl RESOURCE_OVERLAP, t)
     else Some (Inl INVALID_ARGUMENT, t))"
proof -
  have e: "slice_end (vt_slices t ! i) = Some (s_end (vt_slices t ! i))" using ok at slice_end_ok by (auto simp: attached_def)
  have f: "free_at t inn start pages \<longleftrightarrow> \<not> (\<exists>(k, c)\<in>set (si_children inn). k < start \<and> start < c_hi t c) \<and>
    \<not> (\<exists>(k, c)\<in>set (si_children inn). start \<le> k \<and> k < start + pages)"
    unfolding free_at_def using assms(3) by fastforce
  show ?thesis
    unfolding alloc_spot_fixed_def addr_checked_add_def
    using e attached_simps [OF at] prev_overlap [OF ok at, of start] next_overlap [OF ok at, where start = start and en = "start + pages"] insert_child_eq [OF at]
    by (auto simp: eff_bind_def f)
qed

section \<open>Gaps\<close>

fun gaps_from :: "'h vm_tree \<Rightarrow> vpn \<Rightarrow> vpn \<Rightarrow> (vpn, slice_child) btree_map \<Rightarrow> (vpn \<times> usize) list" where
  "gaps_from t en lo [] = (if lo < en then [(lo, en - lo)] else [])"
| "gaps_from t en lo ((k, c) # ch) = (if lo < k then [(lo, k - lo)] else []) @ gaps_from t en (c_hi t c) ch"

definition slice_gaps :: "'h vm_tree \<Rightarrow> slice_id \<Rightarrow> slice_inner \<Rightarrow> (vpn \<times> usize) list" where
  "slice_gaps t i inn = (let s = vt_slices t ! i in
     if si_children inn = [] then [(sl_start s, sl_page_count s)] else gaps_from t (s_end s) (sl_start s) (si_children inn))"

fun first_break :: "(vpn \<Rightarrow> usize \<Rightarrow> 'b option option) \<Rightarrow> (vpn \<times> usize) list \<Rightarrow> 'b option option" where
  "first_break f [] = Some None"
| "first_break f ((g, n) # gs) = do { r \<leftarrow> f g n; case r of Some b \<Rightarrow> Some (Some b) | None \<Rightarrow> first_break f gs }"

lemma first_break_if: "first_break f ((if b then [(g, n)] else []) @ gs) =
  do { r \<leftarrow> (if b then f g n else Some None); case r of Some b \<Rightarrow> Some (Some b) | None \<Rightarrow> first_break f gs }"
  by simp

lemma gaps_loop_eq:
  "\<forall>(k, c)\<in>set ch. child_end t c = Some (c_hi t c) \<Longrightarrow> gaps_loop t f en lo ch = first_break f (gaps_from t en lo ch)"
proof (induction ch arbitrary: lo)
  case Nil
  then show ?case by (cases "f lo (en - lo)") (auto split: option.splits)
next
  case (Cons e ch)
  obtain k c where e: "e = (k, c)" by (cases e)
  show ?case using Cons unfolding e gaps_loop.simps gaps_from.simps first_break_if by simp
qed

lemma iter_gaps_eq:
  assumes ok: "tree_ok t" and at: "attached t i inn"
  shows "iter_gaps i f t = map_option (\<lambda>r. (Inr r, t)) (first_break f (slice_gaps t i inn))"
proof (cases "si_children inn")
  case Nil
  then show ?thesis
    by (cases "f (sl_start (vt_slices t ! i)) (sl_page_count (vt_slices t ! i))")
      (auto simp: iter_gaps_def eff_bind_def attached_simps [OF at] slice_gaps_def Let_def split: option.splits)
next
  case (Cons e rest)
  obtain k c where e: "e = (k, c)" by (cases e)
  have ch: "\<forall>(k, c)\<in>set (si_children inn). child_end t c = Some (c_hi t c)" using child_at(2) [OF ok at] by blast
  then have "child_end t c = Some (c_hi t c)" "\<And>lo en. gaps_loop t f en lo rest = first_break f (gaps_from t en lo rest)"
    by (simp_all add: Cons e gaps_loop_eq)
  moreover have "slice_end (vt_slices t ! i) = Some (s_end (vt_slices t ! i))" using slice_end_ok [OF ok] at by (simp add: attached_def)
  ultimately show ?thesis
    unfolding iter_gaps_def slice_gaps_def Let_def Cons e gaps_from.simps list.distinct if_False first_break_if
    by (simp add: eff_bind_def attached_simps [OF at] Cons e map_conv_bind_option split: option.splits cong: Option.bind_cong)
      (auto split: Option.bind_split option.splits)
qed

definition clear_at :: "'h vm_tree \<Rightarrow> (vpn, slice_child) btree_map \<Rightarrow> vpn \<Rightarrow> usize \<Rightarrow> bool" where
  "clear_at t ch start pages \<longleftrightarrow> (\<forall>(k, c)\<in>set ch. c_hi t c \<le> start \<or> start + pages \<le> k)"

lemma free_clear: "free_at t inn start pages \<Longrightarrow> clear_at t (si_children inn) start pages"
  by (auto simp: free_at_def clear_at_def)

lemma gaps_from_sound:
  assumes "bt_sorted ch" "\<forall>(k, c)\<in>set ch. lo \<le> k \<and> k \<le> c_hi t c \<and> c_hi t c \<le> en"
    "apart t ch" "lo \<le> en" "(g, n) \<in> set (gaps_from t en lo ch)"
  shows "lo \<le> g \<and> 0 < n \<and> g + n \<le> en \<and> clear_at t ch g n"
  using assms
proof (induction ch arbitrary: lo)
  case Nil
  then show ?case by (auto simp: clear_at_def split: if_splits)
next
  case (Cons e ch)
  obtain k c where e: "e = (k, c)" by (cases e)
  have h: "lo \<le> k" "k \<le> c_hi t c" "c_hi t c \<le> en" "\<forall>(k', c')\<in>set ch. k < k'" using Cons.prems(1,2) by (auto simp: e)
  have apart: "\<forall>(k', c')\<in>set ch. c_hi t c \<le> k'" using h(4) apartD [OF Cons.prems(3), of k c] by (auto simp: e)
  have sub: "bt_sorted ch" "apart t ch" using Cons.prems(1) apart_subset [OF Cons.prems(3)] by auto
  consider "lo < k" "g = lo" "n = k - lo" | "(g, n) \<in> set (gaps_from t en (c_hi t c) ch)"
    using Cons.prems(5) by (auto simp: e split: if_splits)
  then show ?case
  proof cases
    case 1
    then show ?thesis using h apart by (auto simp: clear_at_def e)
  next
    case 2
    have "\<forall>(k', c')\<in>set ch. c_hi t c \<le> k' \<and> k' \<le> c_hi t c' \<and> c_hi t c' \<le> en" using apart Cons.prems(2) by auto
    from Cons.IH [OF sub(1) this sub(2) h(3) 2] have "c_hi t c \<le> g \<and> 0 < n \<and> g + n \<le> en \<and> clear_at t ch g n" .
    then show ?thesis using h by (auto simp: clear_at_def e)
  qed
qed

lemma gaps_from_complete:
  assumes "bt_sorted ch" "\<forall>(k, c)\<in>set ch. k \<le> c_hi t c"
    "apart t ch" "lo \<le> a" "0 < m" "a + m \<le> en" "clear_at t ch a m"
  shows "\<exists>g n. (g, n) \<in> set (gaps_from t en lo ch) \<and> g \<le> a \<and> a + m \<le> g + n"
  using assms
proof (induction ch arbitrary: lo)
  case Nil
  then show ?case by auto
next
  case (Cons e ch)
  obtain k c where e: "e = (k, c)" by (cases e)
  consider "c_hi t c \<le> a" | "a + m \<le> k" using Cons.prems(7) by (auto simp: clear_at_def e)
  then show ?case
  proof cases
    case 1
    have "bt_sorted ch" "\<forall>(k, c)\<in>set ch. k \<le> c_hi t c" "apart t ch" "clear_at t ch a m"
      using Cons.prems(1,2,7) apart_subset [OF Cons.prems(3)] by (auto simp: e clear_at_def)
    from Cons.IH [OF this(1-3) 1 Cons.prems(5,6) this(4)] show ?thesis by (auto simp: e)
  next
    case 2
    then show ?thesis using Cons.prems(4,5) by (intro exI [of _ lo] exI [of _ "k - lo"]) (auto simp: e)
  qed
qed

lemma slice_gaps_sound:
  assumes ok: "tree_ok t" and at: "attached t i inn" and g: "(g, n) \<in> set (slice_gaps t i inn)"
  shows "sl_start (vt_slices t ! i) \<le> g \<and> g + n \<le> s_end (vt_slices t ! i) \<and> clear_at t (si_children inn) g n"
proof (cases "si_children inn = []")
  case False
  note ch = tree_ok_children [OF ok at]
  have "\<forall>(k, c)\<in>set (si_children inn). sl_start (vt_slices t ! i) \<le> k \<and> k \<le> c_hi t c \<and> c_hi t c \<le> s_end (vt_slices t ! i)"
    using children_okD [OF ch] by blast
  moreover have "apart t (si_children inn)" using children_ok_apart [OF ch] .
  ultimately show ?thesis
    using gaps_from_sound [OF children_ok_sorted [OF ch], of "sl_start (vt_slices t ! i)" t "s_end (vt_slices t ! i)" g n] g False
    by (simp add: slice_gaps_def Let_def)
qed (use g in \<open>auto simp: slice_gaps_def clear_at_def Let_def\<close>)

lemma slice_gaps_complete:
  assumes ok: "tree_ok t" and at: "attached t i inn" and a: "sl_start (vt_slices t ! i) \<le> a" "0 < m" "a + m \<le> s_end (vt_slices t ! i)"
    "clear_at t (si_children inn) a m"
  shows "\<exists>g n. (g, n) \<in> set (slice_gaps t i inn) \<and> g \<le> a \<and> a + m \<le> g + n"
proof (cases "si_children inn = []")
  case False
  note ch = tree_ok_children [OF ok at]
  have "\<forall>(k, c)\<in>set (si_children inn). k \<le> c_hi t c" using children_okD(6) [OF ch] by blast
  moreover have "apart t (si_children inn)" using children_ok_apart [OF ch] .
  ultimately show ?thesis using gaps_from_complete [OF children_ok_sorted [OF ch] _ _ a] False by (simp add: slice_gaps_def Let_def)
qed (use a in \<open>auto simp: slice_gaps_def Let_def\<close>)

section \<open>Creating children\<close>

text \<open>A store that has grown: the objects that were there are unchanged.\<close>

definition grows :: "'h vm_tree \<Rightarrow> 'h vm_tree \<Rightarrow> bool" where
  "grows t t' \<longleftrightarrow> length (vt_slices t) \<le> length (vt_slices t') \<and> (\<forall>i < length (vt_slices t). vt_slices t' ! i = vt_slices t ! i) \<and>
     length (vt_mappings t) \<le> length (vt_mappings t') \<and> (\<forall>i < length (vt_mappings t). vt_mappings t' ! i = vt_mappings t ! i)"

lemma grows_child:
  assumes "grows t t'" "c_valid t c"
  shows "c_valid t' c" "c_lo t' c = c_lo t c" "c_hi t' c = c_hi t c" "c_linked t' i c \<longleftrightarrow> c_linked t i c"
  using assms by (cases c; auto simp: grows_def)+

lemma grows_attached: "grows t t' \<Longrightarrow> attached t i inn \<Longrightarrow> attached t' i inn"
  by (auto simp: grows_def attached_def)

lemma children_ok_cong:
  assumes "children_ok t i ch" "sl_start (vt_slices t' ! i) = sl_start (vt_slices t ! i)" "sl_page_count (vt_slices t' ! i) = sl_page_count (vt_slices t ! i)"
    "\<And>k c. (k, c) \<in> set ch \<Longrightarrow> c_valid t' c \<and> c_lo t' c = c_lo t c \<and> c_hi t' c = c_hi t c \<and> c_linked t' i c"
  shows "children_ok t' i ch"
proof -
  have "apart t' ch" using children_ok_apart [OF assms(1)] assms(4) unfolding apart_def by metis
  moreover have "\<forall>(k, c)\<in>set ch. c_valid t' c \<and> c_lo t' c = k \<and> sl_start (vt_slices t' ! i) \<le> k \<and> c_hi t' c \<le> s_end (vt_slices t' ! i) \<and> c_linked t' i c"
    using children_okD [OF assms(1)] assms(2-4) by auto
  ultimately show ?thesis using children_ok_sorted [OF assms(1)] unfolding children_ok_def by blast
qed

lemma grows_tree_ok:
  assumes "tree_ok t" "grows t t'" "\<And>i. length (vt_slices t) \<le> i \<Longrightarrow> i < length (vt_slices t') \<Longrightarrow>
    s_end (vt_slices t' ! i) < USIZE_LIM \<and> (\<exists>inn. sl_inner (vt_slices t' ! i) = Some inn \<and> si_children inn = [])"
  shows "tree_ok t'"
  unfolding tree_ok_def
proof (intro allI impI)
  fix i
  assume i: "i < length (vt_slices t')"
  show "slice_ok t' i"
  proof (cases "i < length (vt_slices t)")
    case True
    then have same: "vt_slices t' ! i = vt_slices t ! i" using assms(2) by (simp add: grows_def)
    have "children_ok t' i (si_children inn)" if "sl_inner (vt_slices t ! i) = Some inn" for inn
    proof -
      have ch: "children_ok t i (si_children inn)" using tree_ok_children assms(1) True that by (auto simp: attached_def)
      show ?thesis by (rule children_ok_cong [OF ch])
        (use same grows_child [OF assms(2)] children_okD(1,5) [OF ch] in \<open>blast | simp\<close>)+
    qed
    then show ?thesis using assms(1) True same by (simp add: tree_ok_def slice_ok_def)
  next
    case False
    then show ?thesis using assms(3) [of i] i by (auto simp: slice_ok_def children_ok_def apart_def)
  qed
qed

lemma set_inner_nth:
  "vt_slices (set_inner i inn t) ! j = (if j = i \<and> i < length (vt_slices t) then (vt_slices t ! i)\<lparr>sl_inner := inn\<rparr> else vt_slices t ! j)"
  "length (vt_slices (set_inner i inn t)) = length (vt_slices t)" "vt_mappings (set_inner i inn t) = vt_mappings t"
  by (cases "i < length (vt_slices t)"; simp add: set_inner_def nth_list_update list_update_beyond)+

lemma set_inner_child:
  "c_valid (set_inner i inn t) c \<longleftrightarrow> c_valid t c" "c_lo (set_inner i inn t) c = c_lo t c" "c_hi (set_inner i inn t) c = c_hi t c"
  by (cases c; simp add: set_inner_nth)+

text \<open>Replacing the children of a slice keeps the invariant when they are well placed and the slice keeps its parent.\<close>

lemma set_children_ok:
  assumes ok: "tree_ok t" and at: "attached t i inn" and ch: "children_ok t i ch"
  shows "tree_ok (set_inner i (Some (inn\<lparr>si_children := ch\<rparr>)) t)"
proof -
  let ?t = "set_inner i (Some (inn\<lparr>si_children := ch\<rparr>)) t"
  have linked: "c_linked ?t j c \<longleftrightarrow> c_linked t j c" if "c_valid t c" for j c
    using that at by (cases c) (auto simp: set_inner_nth attached_def)
  have "children_ok ?t j ch'" if "children_ok t j ch'" for j ch'
    by (rule children_ok_cong [OF that]) (use linked children_okD(1,5) [OF that] in \<open>auto simp: set_inner_nth set_inner_child\<close>)
  then show ?thesis using ok ch at by (auto simp: tree_ok_def slice_ok_def set_inner_nth attached_def)
qed

lemma add_child_ok:
  assumes ok: "tree_ok t" and at: "attached t i inn" and clear: "clear_at t (si_children inn) start n" and n: "0 < n"
    and c: "c_valid t c" "c_lo t c = start" "c_hi t c \<le> start + n" "c_linked t i c"
    and range: "sl_start (vt_slices t ! i) \<le> start" "c_hi t c \<le> s_end (vt_slices t ! i)"
  shows "tree_ok (add_child i inn start c t)"
proof -
  let ?ch = "bt_insert start c (si_children inn)"
  note ch = tree_ok_children [OF ok at]
  have set: "set ?ch = insert (start, c) {e \<in> set (si_children inn). fst e \<noteq> start}" using children_ok_sorted [OF ch] by (rule bt_insert_set)
  have lo: "c_hi t d \<le> start" if "(k, d) \<in> set (si_children inn)" "k < start" for k d using clear that by (auto simp: clear_at_def)
  have hi: "c_hi t c \<le> k" if "(k, d) \<in> set (si_children inn)" "start < k" for k d
    using clear that c(3) children_okD(6) [OF ch that(1)] by (fastforce simp: clear_at_def)
  have "apart t ?ch" unfolding apart_def set using apartD [OF children_ok_apart [OF ch]] lo hi by auto
  moreover have "\<forall>(k, d)\<in>set ?ch. c_valid t d \<and> c_lo t d = k \<and> sl_start (vt_slices t ! i) \<le> k \<and> c_hi t d \<le> s_end (vt_slices t ! i) \<and> c_linked t i d"
    unfolding set using children_okD [OF ch] c range by auto
  ultimately have "children_ok t i ?ch" using bt_insert_sorted [OF children_ok_sorted [OF ch]] by (simp add: children_ok_def)
  then show ?thesis unfolding add_child_def by (rule set_children_ok [OF ok at])
qed

section \<open>Removing a child\<close>

lemma children_ok_subset: "children_ok t i ch \<Longrightarrow> bt_sorted ch' \<Longrightarrow> set ch' \<subseteq> set ch \<Longrightarrow> children_ok t i ch'"
  using apart_subset [of t ch ch'] unfolding children_ok_def by blast

lemma remove_child_eq:
  assumes ok: "tree_ok t" and at: "attached t i inn" and c: "(start, c) \<in> set (si_children inn)"
  shows "remove_child i start t = Some (Inr (), set_inner i (Some (inn\<lparr>si_children := filter (\<lambda>e. fst e \<noteq> start) (si_children inn)\<rparr>)) t)"
    and "tree_ok (set_inner i (Some (inn\<lparr>si_children := filter (\<lambda>e. fst e \<noteq> start) (si_children inn)\<rparr>)) t)"
proof -
  note ch = tree_ok_children [OF ok at]
  have "map_of (si_children inn) start = Some c" using bt_lookup [OF children_ok_sorted [OF ch]] c by blast
  then show "remove_child i start t = Some (Inr (), set_inner i (Some (inn\<lparr>si_children := filter (\<lambda>e. fst e \<noteq> start) (si_children inn)\<rparr>)) t)"
    by (simp add: remove_child_def eff_bind_def attached_simps [OF at] bt_remove_def)
  have "bt_sorted (filter (\<lambda>e. fst e \<noteq> start) (si_children inn))" using bt_remove_sorted [OF children_ok_sorted [OF ch], of start] by (simp add: bt_remove_def)
  then have "children_ok t i (filter (\<lambda>e. fst e \<noteq> start) (si_children inn))" by (rule children_ok_subset [OF ch]) auto
  then show "tree_ok (set_inner i (Some (inn\<lparr>si_children := filter (\<lambda>e. fst e \<noteq> start) (si_children inn)\<rparr>)) t)" by (rule set_children_ok [OF ok at])
qed

section \<open>Lookup\<close>

text \<open>A path of slices from \<open>i\<close> down to mapping \<open>m\<close>, each strictly containing the page.\<close>

inductive lookup_path :: "'h vm_tree \<Rightarrow> vpn \<Rightarrow> slice_id \<Rightarrow> mapping_id \<Rightarrow> bool" for t vpn where
  path_mapping: "attached t i inn \<Longrightarrow> (k, MappingChild m) \<in> set (si_children inn) \<Longrightarrow> k < vpn \<Longrightarrow> vpn < c_hi t (MappingChild m) \<Longrightarrow> lookup_path t vpn i m"
| path_subslice: "attached t i inn \<Longrightarrow> (k, Subslice j) \<in> set (si_children inn) \<Longrightarrow> k < vpn \<Longrightarrow> vpn < c_hi t (Subslice j) \<Longrightarrow>
    lookup_path t vpn j m \<Longrightarrow> lookup_path t vpn i m"

definition hits :: "'h vm_tree \<Rightarrow> slice_inner \<Rightarrow> vpn \<Rightarrow> slice_child \<Rightarrow> bool" where
  "hits t inn vpn c \<longleftrightarrow> (\<exists>k. (k, c) \<in> set (si_children inn) \<and> k < vpn \<and> vpn < c_hi t c)"

lemma get_child_eq:
  assumes ok: "tree_ok t" and at: "attached t i inn"
  shows "\<exists>r. get_child t inn vpn = Some r \<and> (\<forall>c. r = Some c \<longleftrightarrow> hits t inn vpn c)"
proof (cases "bt_before vpn (si_children inn)")
  case None
  then have "\<forall>e\<in>set (si_children inn). vpn \<le> fst e" using bt_before_None children_ok_sorted [OF tree_ok_children [OF ok at]] by blast
  then show ?thesis using None by (auto simp: get_child_def hits_def)
next
  case (Some e)
  obtain k c where e: "e = (k, c)" by (cases e)
  note ch = tree_ok_children [OF ok at]
  note b = bt_before_Some [OF children_ok_sorted [OF ch] Some, unfolded e fst_conv]
  have uniq: "c' = c" if c': "(k', c') \<in> set (si_children inn)" "k' < vpn" "vpn < c_hi t c'" for k' c'
  proof -
    have "k' \<le> k" using b c' by auto
    moreover have "\<not> k' < k" using apartD [OF children_ok_apart [OF ch] c'(1), of k c] b c'(3) by auto
    ultimately have "k' = k" by simp
    then show ?thesis using eq_key_imp_eq_value [OF bt_sorted_distinct [OF children_ok_sorted [OF ch]]] c'(1) b by blast
  qed
  have "get_child t inn vpn = Some (if vpn < c_hi t c then Some c else None)"
    using Some child_at(2) [OF ok at, of k c] b by (simp add: get_child_def e)
  then show ?thesis using uniq b by (auto simp: hits_def)
qed

lemma lookup_path_iff:
  assumes "attached t i inn"
  shows "lookup_path t vpn i m \<longleftrightarrow> hits t inn vpn (MappingChild m) \<or> (\<exists>j. hits t inn vpn (Subslice j) \<and> lookup_path t vpn j m)"
proof
  assume "lookup_path t vpn i m"
  then show "hits t inn vpn (MappingChild m) \<or> (\<exists>j. hits t inn vpn (Subslice j) \<and> lookup_path t vpn j m)"
  proof cases
    case (path_mapping inn' k)
    moreover have "inn' = inn" using path_mapping(1) assms by (simp add: attached_def)
    ultimately show ?thesis unfolding hits_def by blast
  next
    case (path_subslice inn' k j)
    moreover have "inn' = inn" using path_subslice(1) assms by (simp add: attached_def)
    ultimately show ?thesis unfolding hits_def by blast
  qed
next
  assume "hits t inn vpn (MappingChild m) \<or> (\<exists>j. hits t inn vpn (Subslice j) \<and> lookup_path t vpn j m)"
  then show "lookup_path t vpn i m" unfolding hits_def using path_mapping [OF assms] path_subslice [OF assms] by blast
qed

lemma get_mapping_loop_eq:
  assumes ok: "tree_ok t"
  shows "attached t i inn \<Longrightarrow> \<exists>r. get_mapping_loop t vpn i = Some (r, t) \<and> (\<forall>m. r = Inr m \<longleftrightarrow> lookup_path t vpn i m) \<and> (\<forall>e. r = Inl e \<longrightarrow> e = BAD_ADDRESS)"
proof (induction "length (vt_slices t) - i" arbitrary: i inn rule: less_induct)
  case less
  note at = less.prems
  obtain r where r: "get_child t inn vpn = Some r" "\<And>c. hits t inn vpn c \<longleftrightarrow> r = Some c"
    using get_child_eq [OF ok at, of vpn] by (elim exE conjE) auto
  note run = get_mapping_loop.simps [of t vpn i] attached_simps(2) [OF at] r(1)
  show ?case
  proof (cases r)
    case None
    then have "\<not> lookup_path t vpn i m" for m by (simp add: lookup_path_iff [OF at] r(2))
    then show ?thesis using run None by simp
  next
    case (Some c)
    then obtain k where k: "(k, c) \<in> set (si_children inn)" using r(2) [of c] unfolding hits_def by blast
    note ch = children_okD [OF tree_ok_children [OF ok at] k]
    show ?thesis
    proof (cases c)
      case (MappingChild m)
      have "lookup_path t vpn i m' \<longleftrightarrow> m' = m" for m'
        unfolding lookup_path_iff [OF at] r(2) using Some MappingChild by auto
      then show ?thesis using run Some MappingChild by auto
    next
      case (Subslice j)
      then have j: "i < j" "j < length (vt_slices t)" using ch(1,5) by auto
      obtain jn where jn: "attached t j jn" using ch(1,5) Subslice by (auto simp: attached_def)
      have "length (vt_slices t) - j < length (vt_slices t) - i" using j by linarith
      from less.hyps [OF this jn] obtain r' where r': "get_mapping_loop t vpn j = Some (r', t)" "\<forall>m. r' = Inr m \<longleftrightarrow> lookup_path t vpn j m" "\<forall>e. r' = Inl e \<longrightarrow> e = BAD_ADDRESS"
        by blast
      have "lookup_path t vpn i m' \<longleftrightarrow> lookup_path t vpn j m'" for m'
        unfolding lookup_path_iff [OF at] r(2) using Some Subslice by auto
      then show ?thesis using run Some Subslice r' by auto
    qed
  qed
qed

lemma lookup_path_range: "lookup_path t vpn i m \<Longrightarrow> tree_ok t \<Longrightarrow> sl_start (vt_slices t ! i) < vpn \<and> vpn < s_end (vt_slices t ! i)"
proof (induction rule: lookup_path.induct)
  case (path_mapping i inn k m)
  then show ?case using children_okD(3,4) [OF tree_ok_children [OF path_mapping(5,1)] path_mapping(2)] by linarith
next
  case (path_subslice i inn k j m)
  then show ?case using children_okD(3,4) [OF tree_ok_children [OF path_subslice(7,1)] path_subslice(2)] by linarith
qed

lemma lookup_path_mapping:
  "lookup_path t vpn i m \<Longrightarrow> tree_ok t \<Longrightarrow> m < length (vt_mappings t) \<and> ma_inner (vt_mappings t ! m) \<noteq> None \<and>
     ma_start (vt_mappings t ! m) < vpn \<and> vpn < ma_start (vt_mappings t ! m) + ma_page_count (vt_mappings t ! m)"
proof (induction rule: lookup_path.induct)
  case (path_mapping i inn k m)
  then show ?case using children_okD(1,2,5) [OF tree_ok_children [OF path_mapping(5,1)] path_mapping(2)] by auto
qed

text \<open>
  What the lookup is documented to find: the mapping that contains the page, at the end of a path of
  slices that contain it. The code asks for strict containment, so the two agree on a page with which
  no child of an attached slice starts.
\<close>

inductive maps_page :: "'h vm_tree \<Rightarrow> vpn \<Rightarrow> slice_id \<Rightarrow> mapping_id \<Rightarrow> bool" for t vpn where
  maps_direct: "attached t i inn \<Longrightarrow> (k, MappingChild m) \<in> set (si_children inn) \<Longrightarrow> k \<le> vpn \<Longrightarrow> vpn < c_hi t (MappingChild m) \<Longrightarrow> maps_page t vpn i m"
| maps_below: "attached t i inn \<Longrightarrow> (k, Subslice j) \<in> set (si_children inn) \<Longrightarrow> k \<le> vpn \<Longrightarrow> vpn < c_hi t (Subslice j) \<Longrightarrow>
    maps_page t vpn j m \<Longrightarrow> maps_page t vpn i m"

definition starts_child :: "'h vm_tree \<Rightarrow> vpn \<Rightarrow> bool" where
  "starts_child t vpn \<longleftrightarrow> (\<exists>i inn c. attached t i inn \<and> (vpn, c) \<in> set (si_children inn))"

lemma lookup_maps_page: "lookup_path t vpn i m \<Longrightarrow> maps_page t vpn i m"
  by (induction rule: lookup_path.induct) (auto intro: maps_page.intros less_imp_le)

lemma maps_page_lookup:
  assumes "maps_page t vpn i m" "\<not> starts_child t vpn"
  shows "lookup_path t vpn i m"
  using assms
proof (induction rule: maps_page.induct)
  case (maps_direct i inn k m)
  then have "k < vpn" unfolding starts_child_def by (metis le_neq_implies_less)
  then show ?case using maps_direct by (blast intro: path_mapping)
next
  case (maps_below i inn k j m)
  then have "k < vpn" unfolding starts_child_def by (metis le_neq_implies_less)
  then show ?case using maps_below by (blast intro: path_subslice)
qed

lemma maps_page_iff_lookup: "\<not> starts_child t vpn \<Longrightarrow> maps_page t vpn i m \<longleftrightarrow> lookup_path t vpn i m"
  using maps_page_lookup lookup_maps_page by blast

section \<open>Detaching a subtree\<close>

definition child_of :: "'h vm_tree \<Rightarrow> slice_id \<Rightarrow> slice_id \<Rightarrow> bool" where
  "child_of t i j \<longleftrightarrow> (\<exists>inn k. attached t i inn \<and> (k, Subslice j) \<in> set (si_children inn))"

definition subtree :: "'h vm_tree \<Rightarrow> slice_id \<Rightarrow> slice_id set" where
  "subtree t i = {j. (child_of t)\<^sup>*\<^sup>* i j}"

definition detached :: "slice_id set \<Rightarrow> 'h vm_tree \<Rightarrow> 'h vm_tree" where
  "detached S t = t\<lparr>vt_slices := map (\<lambda>j. if j \<in> S then (vt_slices t ! j)\<lparr>sl_inner := None\<rparr> else vt_slices t ! j) [0..<length (vt_slices t)]\<rparr>"

definition links_ok :: "'h vm_tree \<Rightarrow> bool" where
  "links_ok t \<longleftrightarrow> (\<forall>i j. child_of t i j \<longrightarrow> i < j \<and> (\<exists>inn. attached t j inn \<and> si_parent inn = Some i)) \<and>
     (\<forall>i inn. attached t i inn \<longrightarrow> distinct (map snd (si_children inn)))"

lemma child_ofD: "links_ok t \<Longrightarrow> child_of t i j \<Longrightarrow> i < j \<and> (\<exists>inn. attached t j inn \<and> si_parent inn = Some i)"
  unfolding links_ok_def by blast

lemma subtree_ge: "links_ok t \<Longrightarrow> j \<in> subtree t i \<Longrightarrow> i \<le> j"
proof -
  assume "links_ok t"
  have "(child_of t)\<^sup>*\<^sup>* i j \<Longrightarrow> i \<le> j"
    by (induction rule: rtranclp_induct) (use child_ofD [OF \<open>links_ok t\<close>] in \<open>auto dest: less_imp_le order_trans\<close>)
  then show "j \<in> subtree t i \<Longrightarrow> i \<le> j" by (simp add: subtree_def)
qed

lemma tree_ok_links: "tree_ok t \<Longrightarrow> links_ok t"
proof -
  assume ok: "tree_ok t"
  have "i < j \<and> (\<exists>inn. attached t j inn \<and> si_parent inn = Some i)" if "child_of t i j" for i j
    using that children_okD(1,5) [OF tree_ok_children [OF ok]] by (fastforce simp: child_of_def attached_def)
  moreover have "distinct (map snd (si_children inn))" if at: "attached t i inn" for i inn
  proof -
    note ch = tree_ok_children [OF ok at]
    have "map (c_lo t) (map snd (si_children inn)) = map fst (si_children inn)" using children_okD(2) [OF ch] by auto
    then have "distinct (map (c_lo t) (map snd (si_children inn)))" using bt_sorted_distinct [OF children_ok_sorted [OF ch]] by metis
    then show ?thesis unfolding distinct_map by blast
  qed
  ultimately show ?thesis by (simp add: links_ok_def)
qed

lemma detached_nth: "j < length (vt_slices t) \<Longrightarrow> vt_slices (detached S t) ! j = (if j \<in> S then (vt_slices t ! j)\<lparr>sl_inner := None\<rparr> else vt_slices t ! j)"
  "length (vt_slices (detached S t)) = length (vt_slices t)"
  by (simp_all add: detached_def)

lemma attached_detached: "attached (detached S t) i inn \<longleftrightarrow> i \<notin> S \<and> attached t i inn"
  by (auto simp: attached_def detached_nth split: if_splits)

lemma attached_set_inner: "i < length (vt_slices t) \<Longrightarrow> attached (set_inner i r t) j inn \<longleftrightarrow> (if j = i then r = Some inn else attached t j inn)"
  by (auto simp: attached_def set_inner_nth)

lemma detached_twice: "detached A (detached B t) = detached (A \<union> B) t"
  by (simp add: detached_def)

lemma detached_set_inner: "i \<in> S \<Longrightarrow> detached S (set_inner i r t) = detached S t"
  by (cases t; cases "i < length (vt_slices t)") (auto simp: detached_def set_inner_def nth_list_update list_update_beyond)

lemma set_inner_None: "i < length (vt_slices t) \<Longrightarrow> set_inner i None t = detached {i} t"
  by (cases t) (auto simp: detached_def set_inner_def nth_list_update intro!: nth_equalityI)

lemma detached_weight: "tree_weight (detached S t) \<le> tree_weight t"
proof -
  let ?w = "\<lambda>s :: slice. case sl_inner s of None \<Rightarrow> 0 | Some inn \<Rightarrow> Suc (length (si_children inn))"
  have "sum_list (map ?w (map (\<lambda>j. if j \<in> S then (vt_slices t ! j)\<lparr>sl_inner := None\<rparr> else vt_slices t ! j) [0..<length (vt_slices t)])) \<le>
    sum_list (map ?w (map (\<lambda>j. vt_slices t ! j) [0..<length (vt_slices t)]))"
    unfolding map_map by (rule sum_list_mono) simp
  then show ?thesis by (simp only: tree_weight_def detached_def map_nth) simp
qed

lemma ex_fst: "(\<exists>k. (k, x) \<in> A) \<longleftrightarrow> x \<in> snd ` A"
  by force

lemma child_of_attached: "attached t i inn \<Longrightarrow> child_of t i j \<longleftrightarrow> Subslice j \<in> snd ` set (si_children inn)"
  by (auto simp: child_of_def attached_def ex_fst)

text \<open>Taking the first child away from a slice.\<close>

lemma pop_child:
  assumes lk: "links_ok t" and at: "attached t cur inn" and ch: "si_children inn = (k, c) # rest"
  defines "t1 \<equiv> set_inner cur (Some (inn\<lparr>si_children := rest\<rparr>)) t"
  shows "links_ok t1" "child_of t1 i j \<longleftrightarrow> child_of t i j \<and> \<not> (i = cur \<and> c = Subslice j)" "attached t1 cur (inn\<lparr>si_children := rest\<rparr>)"
    "i \<noteq> cur \<Longrightarrow> attached t1 i inn' \<longleftrightarrow> attached t i inn'" "tree_weight t1 < tree_weight t"
proof -
  have cur: "cur < length (vt_slices t)" using at by (simp add: attached_def)
  have at1: "attached t1 i inn' \<longleftrightarrow> (if i = cur then inn' = inn\<lparr>si_children := rest\<rparr> else attached t i inn')" for i inn'
    unfolding t1_def using attached_set_inner [OF cur] by auto
  have dist: "distinct (map snd (si_children inn))" using lk at by (simp add: links_ok_def)
  have only: "attached t cur inn' \<Longrightarrow> inn' = inn" for inn' using at by (simp add: attached_def)
  have co: "child_of t1 i j \<longleftrightarrow> child_of t i j \<and> \<not> (i = cur \<and> c = Subslice j)" for i j
  proof (cases "i = cur")
    case True
    have "Subslice j \<in> snd ` set rest \<longleftrightarrow> Subslice j \<in> snd ` set (si_children inn) \<and> c \<noteq> Subslice j" using dist by (auto simp: ch)
    moreover have "attached t1 cur (inn\<lparr>si_children := rest\<rparr>)" by (simp add: at1)
    ultimately show ?thesis using True child_of_attached [OF at, of j] child_of_attached [of t1 cur "inn\<lparr>si_children := rest\<rparr>" j] by simp
  next
    case False
    then show ?thesis by (simp add: child_of_def at1)
  qed
  then show "child_of t1 i j \<longleftrightarrow> child_of t i j \<and> \<not> (i = cur \<and> c = Subslice j)" .
  have "i < j \<and> (\<exists>inn. attached t1 j inn \<and> si_parent inn = Some i)" if ij: "child_of t1 i j" for i j
  proof -
    have "child_of t i j" using ij co by blast
    from child_ofD [OF lk this] obtain jn where "i < j" "attached t j jn" "si_parent jn = Some i" by blast
    then show ?thesis using only by (cases "j = cur") (auto simp: at1)
  qed
  moreover have "distinct (map snd (si_children inn'))" if "attached t1 i inn'" for i inn'
    using that lk dist by (auto simp: at1 links_ok_def ch split: if_splits)
  ultimately show "links_ok t1" unfolding links_ok_def by blast
  show "attached t1 cur (inn\<lparr>si_children := rest\<rparr>)" by (simp add: at1)
  show "i \<noteq> cur \<Longrightarrow> attached t1 i inn' \<longleftrightarrow> attached t i inn'" by (simp add: at1)
  show "tree_weight t1 < tree_weight t" unfolding t1_def using attached_simps(1) [OF at] at ch
    by (intro set_inner_weight) (auto simp: attached_def)
qed

text \<open>A subtree whose root is not listed by its parent any more can be detached without leaving dangling children.\<close>

lemma detach_links:
  assumes lk: "links_ok t" and root: "\<And>i. \<not> child_of t i j"
  shows "links_ok (detached (subtree t j) t)" "child_of (detached (subtree t j) t) x y \<longleftrightarrow> child_of t x y \<and> x \<notin> subtree t j"
proof -
  have co: "child_of (detached (subtree t j) t) x y \<longleftrightarrow> child_of t x y \<and> x \<notin> subtree t j" for x y
    by (auto simp: child_of_def attached_detached)
  have "y \<notin> subtree t j" if xy: "child_of t x y" "x \<notin> subtree t j" for x y
  proof
    assume "y \<in> subtree t j"
    then consider "y = j" | z where "z \<in> subtree t j" "child_of t z y" by (auto simp: subtree_def elim: rtranclp.cases)
    then show False
    proof cases
      case 2
      then have "z = x" using child_ofD [OF lk xy(1)] child_ofD [OF lk 2(2)] by (auto simp: attached_def)
      then show ?thesis using 2(1) xy(2) by simp
    qed (use root xy(1) in blast)
  qed
  then have "x < y \<and> (\<exists>inn. attached (detached (subtree t j) t) y inn \<and> si_parent inn = Some x)" if "child_of (detached (subtree t j) t) x y" for x y
    using that child_ofD [OF lk, of x y] by (auto simp: co attached_detached)
  then show "links_ok (detached (subtree t j) t)" using lk unfolding links_ok_def by (auto simp: attached_detached)
  show "child_of (detached (subtree t j) t) x y \<longleftrightarrow> child_of t x y \<and> x \<notin> subtree t j" by (rule co)
qed

lemma subtree_refl [simp]: "i \<in> subtree t i"
  by (simp add: subtree_def)

lemma subtree_step: "x \<in> subtree t i \<Longrightarrow> child_of t x y \<Longrightarrow> y \<in> subtree t i"
  by (auto simp: subtree_def)

lemma subtree_least:
  assumes "i \<in> S" "\<And>x y. x \<in> S \<Longrightarrow> child_of t x y \<Longrightarrow> y \<in> S"
  shows "subtree t i \<subseteq> S"
proof -
  have "(child_of t)\<^sup>*\<^sup>* i x \<Longrightarrow> x \<in> S" for x by (induction rule: rtranclp_induct) (use assms in blast)+
  then show ?thesis by (auto simp: subtree_def)
qed

lemma detach_loop_eq:
  "links_ok t \<Longrightarrow> attached t cur inn \<Longrightarrow> (self \<in> subtree t cur \<Longrightarrow> self = cur) \<Longrightarrow>
   detach_loop self cur t = (if cur = self then Some (detached (subtree t cur) t)
     else case si_parent inn of None \<Rightarrow> None | Some p \<Rightarrow> detach_loop self p (detached (subtree t cur) t))"
proof (induction "tree_weight t" arbitrary: t cur inn rule: less_induct)
  case less
  note lk = less.prems(1) and at = less.prems(2)
  have cur: "cur < length (vt_slices t)" "sl_inner (vt_slices t ! cur) = Some inn" using at by (auto simp: attached_def)
  note step = detach_loop.simps [of self cur t] attached_simps(1) [OF at] cur(2)
  show ?case
  proof (cases "si_children inn")
    case Nil
    have "\<not> child_of t cur y" for y using child_of_attached [OF at] Nil by simp
    then have sub: "subtree t cur = {cur}" using subtree_least [of cur "{cur}" t] by auto
    show ?thesis unfolding step(1) sub using step(2,3) Nil set_inner_None [OF cur(1)] by (simp add: Let_def)
  next
    case (Cons e rest)
    obtain k c where e: "e = (k, c)" by (cases e)
    define t1 where "t1 = set_inner cur (Some (inn\<lparr>si_children := rest\<rparr>)) t"
    note pop = pop_child [OF lk at Cons [unfolded e], folded t1_def]
    have det: "detached S t1 = detached S t" if "cur \<in> S" for S unfolding t1_def using that by (rule detached_set_inner)
    show ?thesis
    proof (cases c)
      case (MappingChild m)
      then have "child_of t1 = child_of t" using pop(2) by (intro ext) simp
      then have sub: "subtree t1 cur = subtree t cur" by (simp add: subtree_def)
      have d: "detached (subtree t cur) t1 = detached (subtree t cur) t" by (rule det) simp
      from less.hyps [OF pop(5,1,3), unfolded sub d] less.prems(3) have "detach_loop self cur t1 = (if cur = self then Some (detached (subtree t cur) t)
        else case si_parent inn of None \<Rightarrow> None | Some p \<Rightarrow> detach_loop self p (detached (subtree t cur) t))" by simp
      then show ?thesis unfolding step(1) using step(2,3) Cons e MappingChild by (simp add: t1_def [symmetric] Let_def)
    next
      case (Subslice j)
      have j: "child_of t cur j" using child_of_attached [OF at] Cons e Subslice by simp
      from child_ofD [OF lk j] obtain jn where jn: "cur < j" "attached t j jn" "si_parent jn = Some cur" by blast
      have at1: "attached t1 j jn" using pop(4) [of j] jn by simp
      have root: "\<not> child_of t1 i j" for i
        using pop(2) [of i j] child_ofD [OF lk, of i j] jn(2,3) Subslice by (auto simp: attached_def)
      have sub1: "subtree t1 x \<subseteq> subtree t x" for x by (rule subtree_least) (auto intro: subtree_step simp: pop(2))
      have "subtree t j \<subseteq> subtree t cur" by (rule subtree_least) (use subtree_step [OF subtree_refl j] in \<open>auto intro: subtree_step\<close>)
      then have "subtree t1 j \<subseteq> subtree t cur" using sub1 [of j] by blast
      then have self: "self \<notin> subtree t1 j" using less.prems(3) subtree_ge [OF pop(1), of cur j] jn(1) by auto
      have cur1: "cur \<notin> subtree t1 j" using subtree_ge [OF pop(1)] jn(1) by force
      define t2 where "t2 = detached (subtree t1 j) t1"
      note dl = detach_links [OF pop(1) root, folded t2_def]
      have at2: "attached t2 cur (inn\<lparr>si_children := rest\<rparr>)" using pop(3) cur1 by (simp add: t2_def attached_detached)
      have w2: "tree_weight t2 < tree_weight t" using detached_weight [of "subtree t1 j" t1] pop(5) by (simp add: t2_def)
      have sub2: "subtree t2 cur \<subseteq> subtree t cur" by (rule subtree_least) (auto intro: subtree_step simp: dl(2) pop(2))
      have "subtree t cur \<subseteq> subtree t2 cur \<union> subtree t1 j"
      proof (rule subtree_least)
        fix x y
        assume xy: "x \<in> subtree t2 cur \<union> subtree t1 j" "child_of t x y"
        show "y \<in> subtree t2 cur \<union> subtree t1 j"
        proof (cases "x = cur \<and> y = j")
          case False
          then have "child_of t1 x y" using xy(2) pop(2) Subslice by auto
          then show ?thesis using xy(1) dl(2) [of x y] subtree_step by blast
        qed simp
      qed simp
      then have all: "subtree t2 cur \<union> subtree t1 j = subtree t cur" using sub2 \<open>subtree t1 j \<subseteq> subtree t cur\<close> by blast
      have "detached (subtree t2 cur) t2 = detached (subtree t2 cur \<union> subtree t1 j) t1" by (subst (2) t2_def) (rule detached_twice)
      also have "\<dots> = detached (subtree t cur) t" unfolding all by (rule det) simp
      finally have d: "detached (subtree t2 cur) t2 = detached (subtree t cur) t" .
      have "detach_loop self j t1 = detach_loop self cur t2"
        using less.hyps [OF pop(5,1) at1] self jn(3) subtree_refl [of j t1] unfolding t2_def by (cases "j = self") auto
      moreover have "self \<in> subtree t2 cur \<Longrightarrow> self = cur" using sub2 less.prems(3) by blast
      ultimately have "detach_loop self j t1 = (if cur = self then Some (detached (subtree t cur) t)
        else case si_parent inn of None \<Rightarrow> None | Some p \<Rightarrow> detach_loop self p (detached (subtree t cur) t))"
        using less.hyps [OF w2 dl(1) at2, unfolded d] by simp
      then show ?thesis unfolding step(1) using step(2,3) Cons e Subslice by (simp add: t1_def [symmetric] Let_def)
    qed
  qed
qed

lemma detach_children_eq:
  assumes "tree_ok t" "attached t i inn"
  shows "detach_children i t = Some (detached (subtree t i) t)"
  unfolding detach_children_def using detach_loop_eq [OF tree_ok_links [OF assms(1)] assms(2)] by simp

section \<open>Placing a child at an aligned page\<close>

text \<open>
  The search looks at the first aligned page of every gap it meets and subtracts the padding before it from the gap's size, so it
  panics on a gap that ends before its first aligned page. \<open>gaps_reach\<close> says that the slice has none.
\<close>

definition first_aligned :: "usize \<Rightarrow> vpn \<Rightarrow> vpn" where
  "first_aligned align g = (g + align - 1) div align * align"

definition gaps_reach :: "'h vm_tree \<Rightarrow> slice_id \<Rightarrow> slice_inner \<Rightarrow> usize \<Rightarrow> bool" where
  "gaps_reach t i inn order \<longleftrightarrow> order < 64 \<and>
     (\<forall>(g, k)\<in>set (slice_gaps t i inn). g + 2 ^ order < USIZE_LIM \<and> first_aligned (2 ^ order) g \<le> g + k)"

lemma first_aligned_spec:
  assumes "g + align < USIZE_LIM" "0 < align"
  shows "align_up g align = Some (first_aligned align g)" "align dvd first_aligned align g" "g \<le> first_aligned align g"
    "\<And>m. align dvd m \<Longrightarrow> g \<le> m \<Longrightarrow> first_aligned align g \<le> m"
proof -
  show e: "align_up g align = Some (first_aligned align g)" using assms by (simp add: align_up_Some_iff first_aligned_def)
  show "align dvd first_aligned align g" "g \<le> first_aligned align g"
    "\<And>m. align dvd m \<Longrightarrow> g \<le> m \<Longrightarrow> first_aligned align g \<le> m" by (rule align_up_spec [OF e]; assumption)+
qed

abbreviation gap_fits :: "usize \<Rightarrow> usize \<Rightarrow> vpn \<times> usize \<Rightarrow> bool" where
  "gap_fits align n \<equiv> \<lambda>(g, k). n < g + k - first_aligned align g"

lemma first_break_find:
  assumes "0 < align" "\<forall>(g, k)\<in>set gs. g + align < USIZE_LIM \<and> first_aligned align g \<le> g + k"
  shows "first_break (spot_in_gap align n) gs = Some (map_option (\<lambda>(g, k). first_aligned align g) (find (gap_fits align n) gs))"
  using assms
proof (induction gs)
  case (Cons e gs)
  obtain g k where e: "e = (g, k)" by (cases e)
  have a: "g + align < USIZE_LIM" "first_aligned align g \<le> g + k" using Cons.prems by (auto simp: e)
  note fa = first_aligned_spec [OF a(1) assms(1)]
  have "k - (first_aligned align g - g) = g + k - first_aligned align g" "first_aligned align g - g \<le> k" using a(2) fa(3) by linarith+
  then have "spot_in_gap align n g k = Some (if gap_fits align n (g, k) then Some (first_aligned align g) else None)"
    using fa(1,3) by (simp add: spot_in_gap_def addr_align_up_def usub_def)
  then show ?case using Cons by (simp add: e)
qed simp

lemma dynamic_eq:
  assumes ok: "tree_ok t" and at: "attached t i inn" and r: "gaps_reach t i inn order"
  shows "alloc_spot_dynamic i order n f t = (case find (gap_fits (2 ^ order) n) (slice_gaps t i inn) of
      None \<Rightarrow> Some (Inl OUT_OF_RESOURCES, t)
    | Some (g, _) \<Rightarrow> eff_bind (f (first_aligned (2 ^ order) g)) (\<lambda>child t. do { t1 \<leftarrow> insert_child i (first_aligned (2 ^ order) g) child t; Some (Inr child, t1) }) t)"
proof -
  have o: "order < 64" and g: "\<forall>(g, k)\<in>set (slice_gaps t i inn). g + 2 ^ order < USIZE_LIM \<and> first_aligned (2 ^ order) g \<le> g + k"
    using r by (simp_all add: gaps_reach_def)
  have "(2 :: nat) ^ order < 2 ^ 64" using o by (intro power_strict_increasing) simp_all
  then have sh: "ushl 1 order = Some (2 ^ order)" using o by (simp add: ushl_def USIZE_LIM_def)
  have "iter_gaps i (spot_in_gap (2 ^ order) n) t =
    Some (Inr (map_option (\<lambda>(g, k). first_aligned (2 ^ order) g) (find (gap_fits (2 ^ order) n) (slice_gaps t i inn))), t)"
    unfolding iter_gaps_eq [OF ok at] using g by (subst first_break_find) simp_all
  then show ?thesis using sh
    by (cases "find (gap_fits (2 ^ order) n) (slice_gaps t i inn)")
      (simp_all add: alloc_spot_dynamic_def eff_bind_run eff_lift_def eff_fail_def split_def)
qed

lemma find_fits:
  assumes "find (gap_fits align n) gs = Some (g, k)"
  shows "(g, k) \<in> set gs" "n < g + k - first_aligned align g"
  using assms by (induction gs) (auto split: if_splits)

lemma find_no_fit: "find (gap_fits align n) gs = None \<longleftrightarrow> (\<forall>(g, k)\<in>set gs. g + k - first_aligned align g \<le> n)"
  by (induction gs) (auto split: if_splits)

text \<open>With no alignment every slice of at least one page is searched without a panic.\<close>

lemma gaps_reach_any:
  assumes ok: "tree_ok t" and at: "attached t i inn" and pos: "0 < sl_page_count (vt_slices t ! i)"
  shows "gaps_reach t i inn 0"
proof -
  have lim: "s_end (vt_slices t ! i) < USIZE_LIM" using ok at by (simp add: tree_ok_def slice_ok_def attached_def)
  have "g + 1 < USIZE_LIM" if g: "(g, k) \<in> set (slice_gaps t i inn)" for g k
  proof (cases "si_children inn = []")
    case True
    then show ?thesis using g lim pos by (simp add: slice_gaps_def Let_def)
  next
    case False
    note ch = tree_ok_children [OF ok at]
    have "\<forall>(k, c)\<in>set (si_children inn). sl_start (vt_slices t ! i) \<le> k \<and> k \<le> c_hi t c \<and> c_hi t c \<le> s_end (vt_slices t ! i)"
      using children_okD [OF ch] by blast
    moreover have "(g, k) \<in> set (gaps_from t (s_end (vt_slices t ! i)) (sl_start (vt_slices t ! i)) (si_children inn))"
      using g False by (simp add: slice_gaps_def Let_def)
    ultimately have "0 < k \<and> g + k \<le> s_end (vt_slices t ! i)"
      using gaps_from_sound [OF children_ok_sorted [OF ch] _ children_ok_apart [OF ch] le_add1] by blast
    then show ?thesis using lim by linarith
  qed
  then show ?thesis by (auto simp: gaps_reach_def first_aligned_def)
qed

end
