(* ===== verification/Mmu.thy ===== *)
theory Mmu
  imports Mm_Types
begin

text \<open>
  The x86-64 memory management unit (\<open>arch/x86_64/mmu.rs\<close>): page table entries as 64-bit words, the page attribute
  table and the control registers (\<open>arch/x86_64/x64_cpu.rs\<close>). The lemmas give what each
  constructor of entries lets the accessors read back. The processor state holds the registers the code
  writes and the translation lookaside buffer, with the effect on it that the instructions have.
\<close>

unbundle bit_operations_syntax

section \<open>Page table entries\<close>

definition X86_PRESENT :: u64 where "X86_PRESENT = push_bit 0 1"
definition X86_WRITABLE :: u64 where "X86_WRITABLE = push_bit 1 1"
definition X86_USER_MODE :: u64 where "X86_USER_MODE = push_bit 2 1"
definition X86_GLOBAL :: u64 where "X86_GLOBAL = push_bit 8 1"
definition X86_ACCESSED :: u64 where "X86_ACCESSED = push_bit 5 1"
definition X86_DIRTY :: u64 where "X86_DIRTY = push_bit 6 1"
definition X86_LARGE :: u64 where "X86_LARGE = push_bit 7 1"
definition X86_NO_EXEC :: u64 where "X86_NO_EXEC = push_bit 63 1"
definition X86_PERMS_MASK :: u64 where "X86_PERMS_MASK = X86_WRITABLE OR X86_USER_MODE OR X86_NO_EXEC"

lemmas x86_flag_defs = X86_PRESENT_def X86_WRITABLE_def X86_USER_MODE_def X86_GLOBAL_def
  X86_ACCESSED_def X86_DIRTY_def X86_LARGE_def X86_NO_EXEC_def X86_PERMS_MASK_def

definition PADDR_MASK :: u64 where "PADDR_MASK = push_bit 52 1 - 1"

definition flags_from_perms :: "u8 \<Rightarrow> u64" where
  "flags_from_perms perms =
     (let f0 = 0;
          f1 = flag_set f0 X86_WRITABLE (flag_contains perms PERM_WRITE);
          f2 = flag_set f1 X86_USER_MODE (flag_contains perms PERM_USER);
          f3 = flag_set f2 X86_NO_EXEC (\<not> flag_contains perms PERM_EXECUTE)
      in flag_set f3 X86_GLOBAL (flag_contains perms PERM_GLOBAL))"

definition PAT_SELECTOR_WB :: u64 where "PAT_SELECTOR_WB = 0"
definition PAT_SELECTOR_WT :: u64 where "PAT_SELECTOR_WT = 1"
definition PAT_SELECTOR_UC :: u64 where "PAT_SELECTOR_UC = 3"
definition PAT_SELECTOR_WC :: u64 where "PAT_SELECTOR_WC = 7"

lemmas pat_selector_defs = PAT_SELECTOR_WB_def PAT_SELECTOR_WT_def PAT_SELECTOR_UC_def PAT_SELECTOR_WC_def

definition pat_selector_for_cache_mode :: "cache_mode \<Rightarrow> u64" where
  "pat_selector_for_cache_mode m = (case m of
     Cached \<Rightarrow> PAT_SELECTOR_WB | WriteThrough \<Rightarrow> PAT_SELECTOR_WT
   | WriteCombining \<Rightarrow> PAT_SELECTOR_WC | Uncached \<Rightarrow> PAT_SELECTOR_UC)"

definition pat_selector_to_pte_bits :: "u64 \<Rightarrow> u64" where
  "pat_selector_to_pte_bits s = push_bit 3 (s AND 1) OR push_bit 4 (s AND 2) OR push_bit 7 (s AND 4)"

definition supports_page_size :: "usize \<Rightarrow> bool" where
  "supports_page_size level = (level = 0 \<or> level = 1)"

definition make_empty_pte :: u64 where
  "make_empty_pte = 0"

definition make_terminal_pte :: "usize \<Rightarrow> pfn \<Rightarrow> u8 \<Rightarrow> cache_mode \<Rightarrow> u64" where
  "make_terminal_pte level frame perms cache_mode =
     (let flags = flag_set (X86_PRESENT OR flags_from_perms perms) X86_LARGE (level > 0)
      in word_of_nat (pfn_addr frame) OR flags
         OR pat_selector_to_pte_bits (pat_selector_for_cache_mode cache_mode))"

definition make_intermediate_pte :: "usize \<Rightarrow> pfn \<Rightarrow> u64" where
  "make_intermediate_pte level next_table =
     word_of_nat (pfn_addr next_table) OR (X86_PRESENT OR X86_WRITABLE OR X86_USER_MODE)"

definition update_pte_perms :: "u64 \<Rightarrow> usize \<Rightarrow> u8 \<Rightarrow> u64" where
  "update_pte_perms pte level perms = (pte AND NOT X86_PERMS_MASK) OR flags_from_perms perms"

definition get_pte_frame :: "u64 \<Rightarrow> usize \<Rightarrow> pfn" where
  "get_pte_frame pte level = unat (drop_bit PAGE_SHIFT (pte AND PADDR_MASK))"

definition pte_is_present :: "u64 \<Rightarrow> usize \<Rightarrow> bool" where
  "pte_is_present pte level = flag_contains pte X86_PRESENT"

definition pte_is_terminal :: "u64 \<Rightarrow> usize \<Rightarrow> bool" where
  "pte_is_terminal pte level = (if level = 0 then True else flag_contains pte X86_LARGE)"

text \<open>Whether a table of the kernel half may be freed, and the copy of the kernel half into a new low root table.\<close>

definition can_cull_kernel_pt :: "pfn \<Rightarrow> usize \<Rightarrow> bool" where
  "can_cull_kernel_pt pt level = (level < 2)"

definition prepare_low_pt_root :: "u64 list \<Rightarrow> u64 list \<Rightarrow> u64 list option" where
  "prepare_low_pt_root kernel_pml4 pt = do {
     uassert (PT_ENTRY_COUNT div 2 \<le> length pt \<and> length pt = length kernel_pml4);
     Some (take (PT_ENTRY_COUNT div 2) pt @ drop (PT_ENTRY_COUNT div 2) kernel_pml4) }"

section \<open>Registers and the TLB\<close>

definition CR0_WP :: u64 where "CR0_WP = push_bit 16 1"
definition CR0_NW :: u64 where "CR0_NW = push_bit 29 1"
definition CR0_CD :: u64 where "CR0_CD = push_bit 30 1"
definition CR4_PGE :: u64 where "CR4_PGE = push_bit 7 1"
definition EFER_NXE :: u64 where "EFER_NXE = push_bit 11 1"

lemmas cpu_flag_defs = CR0_WP_def CR0_NW_def CR0_CD_def CR4_PGE_def EFER_NXE_def

text \<open>
  The flags a \<open>bitflags\<close> type declares, by their bit numbers. The operator \<open>!\<close> of such a type complements within the
  declared flags, so \<open>x & !f\<close> also clears every bit that has no name.
\<close>

fun declared_flags :: "nat list \<Rightarrow> u64" where
  "declared_flags [] = 0"
| "declared_flags (k # ks) = push_bit k 1 OR declared_flags ks"

definition CR0_FLAGS :: "nat list" where
  "CR0_FLAGS = [0, 1, 2, 3, 4, 5, 16, 18, 29, 30, 31]"

definition CR4_FLAGS :: "nat list" where
  "CR4_FLAGS = [0, 1, 2, 3, 4, 5, 6, 7, 8, 9, 10, 11, 16, 17, 18, 20, 21]"

definition flag_not :: "nat list \<Rightarrow> u64 \<Rightarrow> u64" where
  "flag_not ks f = declared_flags ks AND NOT f"

text \<open>A cached translation is a page with the global flag of its entry.\<close>

record x64_mmu =
  cr0 :: u64
  cr3 :: u64
  cr4 :: u64
  ia32_efer :: u64
  pat :: u64
  mtrr_def_type :: u64
  tlb :: "(vpn \<times> bool) set"
  cached_lines :: "phys_addr set"

definition write_cr0 :: "u64 \<Rightarrow> x64_mmu \<Rightarrow> x64_mmu" where
  "write_cr0 v c = c\<lparr>cr0 := v\<rparr>"

definition write_cr3 :: "u64 \<Rightarrow> x64_mmu \<Rightarrow> x64_mmu" where
  "write_cr3 v c = c\<lparr>cr3 := v, tlb := (if flag_contains (cr4 c) CR4_PGE then Set.filter snd (tlb c) else {})\<rparr>"

definition write_cr4 :: "u64 \<Rightarrow> x64_mmu \<Rightarrow> x64_mmu" where
  "write_cr4 v c = c\<lparr>cr4 := v,
     tlb := (if flag_contains v CR4_PGE = flag_contains (cr4 c) CR4_PGE then tlb c else {})\<rparr>"

definition invlpg :: "vpn \<Rightarrow> x64_mmu \<Rightarrow> x64_mmu" where
  "invlpg v c = c\<lparr>tlb := Set.filter (\<lambda>t. fst t \<noteq> v) (tlb c)\<rparr>"

text \<open>The caches hold the lines of memory in \<open>cached_lines\<close>; \<open>wbinvd\<close> writes them back and empties the caches.\<close>

definition wbinvd :: "x64_mmu \<Rightarrow> x64_mmu" where
  "wbinvd c = c\<lparr>cached_lines := {}\<rparr>"

definition set_low_root_pt :: "pfn \<Rightarrow> pfn option \<Rightarrow> x64_mmu \<Rightarrow> x64_mmu" where
  "set_low_root_pt kernel_root pt c =
     write_cr3 (word_of_nat (pfn_addr (case pt of Some p \<Rightarrow> p | None \<Rightarrow> kernel_root))) c"

definition flush_kernel_tlb_page :: "vpn \<Rightarrow> x64_mmu \<Rightarrow> x64_mmu" where
  "flush_kernel_tlb_page v c = invlpg v c"

definition flush_kernel_tlb :: "x64_mmu \<Rightarrow> x64_mmu option" where
  "flush_kernel_tlb c = do {
     let old = cr4 c;
     uassert (flag_contains old CR4_PGE);
     Some (write_cr4 old (write_cr4 (old AND flag_not CR4_FLAGS CR4_PGE) c)) }"

definition flush_low_tlb_page :: "vpn \<Rightarrow> x64_mmu \<Rightarrow> x64_mmu" where
  "flush_low_tlb_page v c = flush_kernel_tlb_page v c"

definition flush_low_tlb :: "x64_mmu \<Rightarrow> x64_mmu" where
  "flush_low_tlb c = write_cr3 (cr3 c) c"

section \<open>Early initialisation\<close>

definition MTRR_DEF_TYPE_E :: u64 where "MTRR_DEF_TYPE_E = push_bit 11 1"
definition MTRR_DEF_TYPE_TYPE_MASK :: u64 where "MTRR_DEF_TYPE_TYPE_MASK = 0xff"
definition MEM_TYPE_UC :: u64 where "MEM_TYPE_UC = 0"
definition MEM_TYPE_WC :: u64 where "MEM_TYPE_WC = 1"
definition MEM_TYPE_WT :: u64 where "MEM_TYPE_WT = 4"
definition MEM_TYPE_WB :: u64 where "MEM_TYPE_WB = 6"
definition MEM_TYPE_UC_WEAK :: u64 where "MEM_TYPE_UC_WEAK = 6"
definition PA_VALS :: "u64 list" where
  "PA_VALS = [MEM_TYPE_WB, MEM_TYPE_WT, MEM_TYPE_UC_WEAK, MEM_TYPE_UC,
              MEM_TYPE_WB, MEM_TYPE_WT, MEM_TYPE_UC_WEAK, MEM_TYPE_WC]"

lemmas mem_type_defs = MEM_TYPE_UC_def MEM_TYPE_WC_def MEM_TYPE_WT_def MEM_TYPE_WB_def MEM_TYPE_UC_WEAK_def
  MTRR_DEF_TYPE_E_def MTRR_DEF_TYPE_TYPE_MASK_def PA_VALS_def

definition init_mmu_regs :: "x64_mmu \<Rightarrow> x64_mmu" where
  "init_mmu_regs c =
     (let c1 = write_cr0 ((cr0 c AND flag_not CR0_FLAGS (CR0_CD OR CR0_NW)) OR CR0_WP) c;
          c2 = write_cr4 (cr4 c1 AND flag_not CR4_FLAGS CR4_PGE) c1
      in c2\<lparr>ia32_efer := ia32_efer c2 OR EFER_NXE\<rparr>)"

definition init_pat :: "x64_mmu \<Rightarrow> x64_mmu" where
  "init_pat c =
     (let old = cr0 c;
          c1 = wbinvd (write_cr0 (old OR CR0_CD) c);
          c2 = write_cr3 (cr3 c1) c1;
          def_type = mtrr_def_type c2;
          c3 = c2\<lparr>mtrr_def_type := def_type AND NOT MTRR_DEF_TYPE_E\<rparr>;
          c4 = c3\<lparr>pat := PA_VALS ! 0 OR push_bit 8 (PA_VALS ! 1) OR push_bit 16 (PA_VALS ! 2)
                 OR push_bit 24 (PA_VALS ! 3) OR push_bit 32 (PA_VALS ! 4) OR push_bit 40 (PA_VALS ! 5)
                 OR push_bit 48 (PA_VALS ! 6) OR push_bit 56 (PA_VALS ! 7)\<rparr>;
          c5 = c4\<lparr>mtrr_def_type := (def_type AND NOT MTRR_DEF_TYPE_TYPE_MASK) OR MEM_TYPE_UC\<rparr>;
          c6 = write_cr3 (cr3 (wbinvd c5)) (wbinvd c5);
          c7 = write_cr0 old c6
      in write_cr4 (cr4 c7 OR CR4_PGE) c7)"

definition mmu_init_early :: "x64_mmu \<Rightarrow> x64_mmu" where
  "mmu_init_early c = init_pat (init_mmu_regs c)"

text \<open>
  How the processor picks the memory type of a page of 4 KiB: the index into the page attribute table
  is made of the bits PAT (7), PCD (4) and PWT (3) of the entry.
\<close>

definition hw_pat_index :: "u64 \<Rightarrow> nat" where
  "hw_pat_index pte = (if bit pte 7 then 4 else 0) + (if bit pte 4 then 2 else 0) + (if bit pte 3 then 1 else 0)"

definition hw_mem_type :: "x64_mmu \<Rightarrow> u64 \<Rightarrow> u64" where
  "hw_mem_type c pte = drop_bit (8 * hw_pat_index pte) (pat c) AND 0xff"

section \<open>What entries hold\<close>

text \<open>The bits outside the frame field: an entry is a frame address combined with such bits.\<close>

definition flag_bits :: "u64 \<Rightarrow> bool" where
  "flag_bits w \<longleftrightarrow> (\<forall>n. 12 \<le> n \<longrightarrow> n < 52 \<longrightarrow> \<not> bit w n)"

lemma flag_bits_or: "flag_bits a \<Longrightarrow> flag_bits b \<Longrightarrow> flag_bits (a OR b)"
  by (auto simp: flag_bits_def bit_or_iff)

lemma flag_bits_and: "flag_bits a \<Longrightarrow> flag_bits (a AND b)"
  by (auto simp: flag_bits_def bit_and_iff)

lemma flag_bits_zero [simp]: "flag_bits 0"
  by (simp add: flag_bits_def)

lemma flag_bits_flag_set: "flag_bits x \<Longrightarrow> flag_bits f \<Longrightarrow> flag_bits (flag_set x f v)"
  by (simp add: flag_set_def flag_bits_or flag_bits_and)

lemma flag_bits_push: "k < 12 \<or> 52 \<le> k \<Longrightarrow> flag_bits (push_bit k 1)"
  by (auto simp: flag_bits_def bit_push_bit_iff bit_1_iff bit_exp_iff)

lemma x86_flag_bits: "flag_bits X86_PRESENT" "flag_bits X86_WRITABLE" "flag_bits X86_USER_MODE" "flag_bits X86_GLOBAL"
  "flag_bits X86_LARGE" "flag_bits X86_NO_EXEC" "flag_bits X86_PERMS_MASK"
  unfolding x86_flag_defs by (intro flag_bits_push flag_bits_or; simp)+

lemma flags_from_perms_flag_bits: "flag_bits (flags_from_perms perms)"
  unfolding flags_from_perms_def Let_def by (intro flag_bits_flag_set flag_bits_zero x86_flag_bits)

lemma pat_bits_cases: "pat_selector_to_pte_bits (pat_selector_for_cache_mode m) =
    (case m of Cached \<Rightarrow> 0 | WriteThrough \<Rightarrow> 0x8 | WriteCombining \<Rightarrow> 0x228 | Uncached \<Rightarrow> 0x28)"
  by (cases m) (simp_all add: pat_selector_for_cache_mode_def pat_selector_defs pat_selector_to_pte_bits_def push_bit_eq_mult)

lemma flag_bits_small: "w AND NOT 0xfff = 0 \<Longrightarrow> flag_bits w"
proof -
  assume a: "w AND NOT 0xfff = 0"
  have m: "(0xfff :: u64) = mask 12" by (simp add: mask_eq_exp_minus_1)
  have "\<not> bit w n" if "12 \<le> n" "n < 52" for n
  proof
    assume "bit w n"
    then have "bit (w AND NOT 0xfff) n" using that by (simp add: m bit_and_iff bit_not_iff bit_mask_iff)
    with a show False by simp
  qed
  then show ?thesis by (simp add: flag_bits_def)
qed

lemma pat_flag_bits: "flag_bits (pat_selector_to_pte_bits (pat_selector_for_cache_mode m))"
  unfolding pat_bits_cases by (cases m) (simp_all add: flag_bits_small)

lemma bit_u64_of_nat: "bit (word_of_nat m :: u64) n \<longleftrightarrow> n < 64 \<and> bit m n"
proof -
  have "bit (unat (word_of_nat m :: u64)) n \<longleftrightarrow> bit (word_of_nat m :: u64) n" by (simp add: bit_unsigned_iff)
  then show ?thesis by (simp add: unsigned_of_nat bit_take_bit_iff)
qed

lemma bit_frame_word:
  assumes "f < 2 ^ 40"
  shows "bit (word_of_nat (pfn_addr f) :: u64) n \<longleftrightarrow> 12 \<le> n \<and> n < 52 \<and> bit f (n - 12)"
proof -
  have a: "pfn_addr f = push_bit 12 f"
    using assms by (simp add: pfn_addr_def PAGE_SHIFT_def USIZE_LIM_def push_bit_eq_mult)
  have high: "k < 40" if "bit f k" for k
    using assms that by (metis bit_take_bit_iff take_bit_nat_eq_self_iff)
  show ?thesis unfolding a using high [of "n - 12"]
    by (auto simp: bit_u64_of_nat bit_push_bit_iff)
qed

lemma get_pte_frame_or:
  assumes "f < 2 ^ 40" "flag_bits w"
  shows "get_pte_frame (word_of_nat (pfn_addr f) OR w) level = f"
proof -
  have m: "PADDR_MASK = mask 52" by (simp add: PADDR_MASK_def mask_eq_exp_minus_1 push_bit_eq_mult)
  have "drop_bit 12 ((word_of_nat (pfn_addr f) OR w) AND PADDR_MASK) = word_of_nat f"
  proof (rule bit_word_eqI)
    fix n
    have high: "n < 40" if "bit f n"
      using assms(1) that by (metis bit_take_bit_iff take_bit_nat_eq_self_iff)
    have w: "\<not> bit w (12 + n)" if "12 + n < 52" using assms(2) that by (simp add: flag_bits_def)
    have "bit (drop_bit 12 ((word_of_nat (pfn_addr f) OR w) AND PADDR_MASK)) n \<longleftrightarrow> 12 + n < 52 \<and> bit f n"
      using w unfolding m by (auto simp: bit_drop_bit_eq bit_and_iff bit_or_iff bit_mask_iff bit_frame_word [OF assms(1)])
    also have "\<dots> \<longleftrightarrow> bit (word_of_nat f :: u64) n" using high by (auto simp: bit_u64_of_nat)
    finally show "bit (drop_bit 12 ((word_of_nat (pfn_addr f) OR w) AND PADDR_MASK)) n = bit (word_of_nat f :: u64) n" .
  qed
  then have "get_pte_frame (word_of_nat (pfn_addr f) OR w) level = unat (word_of_nat f :: u64)"
    by (simp add: get_pte_frame_def PAGE_SHIFT_def)
  also have "\<dots> = f" using assms(1) by (simp add: unsigned_of_nat take_bit_nat_eq_self)
  finally show ?thesis .
qed

lemma get_pte_frame_less: "get_pte_frame pte level < 2 ^ 40"
proof -
  have m: "PADDR_MASK = mask 52" by (simp add: PADDR_MASK_def mask_eq_exp_minus_1 push_bit_eq_mult)
  have "drop_bit 12 (pte AND PADDR_MASK) = take_bit 40 (drop_bit 12 pte)"
    by (simp add: m take_bit_eq_mask [symmetric] drop_bit_take_bit)
  then have "get_pte_frame pte level = take_bit 40 (unat (drop_bit 12 pte))"
    by (simp add: get_pte_frame_def PAGE_SHIFT_def unsigned_take_bit_eq)
  then show ?thesis by (simp add: take_bit_eq_mod)
qed

lemma flag_contains_bit: "flag_contains (w::u64) (push_bit k 1) \<longleftrightarrow> k < 64 \<longrightarrow> bit w k"
proof (cases "k < 64")
  case True
  then have p: "bit (push_bit k (1::u64)) n \<longleftrightarrow> n = k" for n by (auto simp: bit_push_bit_iff bit_1_iff bit_exp_iff)
  show ?thesis
  proof
    assume "flag_contains w (push_bit k 1)"
    then have "bit (w AND push_bit k 1) k" using p [of k] by (simp only: flag_contains_def)
    then show "k < 64 \<longrightarrow> bit w k" by (simp add: bit_and_iff)
  next
    assume "k < 64 \<longrightarrow> bit w k"
    with True have "w AND push_bit k 1 = push_bit k 1"
      by (intro bit_word_eqI) (simp only: bit_and_iff p, blast)
    then show "flag_contains w (push_bit k 1)" by (simp only: flag_contains_def)
  qed
next
  case False
  then have "push_bit k (1::u64) = 0" by (intro bit_word_eqI) (simp add: bit_exp_iff)
  then show ?thesis using False by (simp only: flag_contains_def) simp
qed

lemma pte_is_present_bit: "pte_is_present pte level \<longleftrightarrow> bit pte 0"
  unfolding pte_is_present_def X86_PRESENT_def flag_contains_bit by simp

lemma pte_is_terminal_bit: "pte_is_terminal pte level \<longleftrightarrow> level = 0 \<or> bit pte 7"
  unfolding pte_is_terminal_def X86_LARGE_def flag_contains_bit by simp

lemma bit_flag_set_push:
  "k < 64 \<Longrightarrow> n < 64 \<Longrightarrow> bit (flag_set (x::u64) (push_bit k 1) v) n = (if n = k then v else bit x n)"
  by (auto simp: flag_set_def bit_or_iff bit_and_iff bit_not_iff bit_push_bit_iff bit_1_iff bit_exp_iff)

text \<open>The bits \<open>flags_from_perms\<close> sets.\<close>

lemma bit_flags_from_perms:
  "n < 64 \<Longrightarrow> bit (flags_from_perms perms) n \<longleftrightarrow>
     n = 1 \<and> flag_contains perms PERM_WRITE \<or> n = 2 \<and> flag_contains perms PERM_USER \<or>
     n = 8 \<and> flag_contains perms PERM_GLOBAL \<or> n = 63 \<and> \<not> flag_contains perms PERM_EXECUTE"
  unfolding flags_from_perms_def Let_def x86_flag_defs
  by (subst bit_flag_set_push, simp, simp)+ auto

lemma make_empty_pte_present [simp]: "\<not> pte_is_present make_empty_pte level"
  by (simp add: pte_is_present_bit make_empty_pte_def)

definition terminal_flags :: "usize \<Rightarrow> u8 \<Rightarrow> cache_mode \<Rightarrow> u64" where
  "terminal_flags level perms mode =
     flag_set (X86_PRESENT OR flags_from_perms perms) X86_LARGE (level > 0) OR
     pat_selector_to_pte_bits (pat_selector_for_cache_mode mode)"

lemma make_terminal_pte_eq:
  "make_terminal_pte level f perms mode = word_of_nat (pfn_addr f) OR terminal_flags level perms mode"
  by (simp add: make_terminal_pte_def terminal_flags_def Let_def or.assoc)

lemma terminal_flags_flag_bits: "flag_bits (terminal_flags level perms mode)"
  unfolding terminal_flags_def
  by (intro flag_bits_or flag_bits_flag_set x86_flag_bits flags_from_perms_flag_bits pat_flag_bits)

lemma bit_present: "n < 64 \<Longrightarrow> bit X86_PRESENT n \<longleftrightarrow> n = 0"
  by (auto simp: X86_PRESENT_def bit_1_iff)

text \<open>The bits of the entries the kernel writes, apart from the frame field.\<close>

lemma bit_terminal_flags:
  assumes "n < 64"
  shows "bit (terminal_flags level perms mode) n \<longleftrightarrow>
     n = 0 \<or> n = 7 \<and> 0 < level \<or>
     n = 1 \<and> flag_contains perms PERM_WRITE \<or> n = 2 \<and> flag_contains perms PERM_USER \<or>
     n = 8 \<and> flag_contains perms PERM_GLOBAL \<or> n = 63 \<and> \<not> flag_contains perms PERM_EXECUTE \<or>
     n = 3 \<and> mode \<noteq> Cached \<or> n = 5 \<and> (mode = WriteCombining \<or> mode = Uncached) \<or> n = 9 \<and> mode = WriteCombining"
proof -
  have pat: "bit (pat_selector_to_pte_bits (pat_selector_for_cache_mode mode)) n \<longleftrightarrow>
    n = 3 \<and> mode \<noteq> Cached \<or> n = 5 \<and> (mode = WriteCombining \<or> mode = Uncached) \<or> n = 9 \<and> mode = WriteCombining"
  proof -
    have e: "(0x8::u64) = 2 ^ 3" "(0x28::u64) = 2 ^ 3 OR 2 ^ 5" "(0x228::u64) = 2 ^ 3 OR 2 ^ 5 OR 2 ^ 9" by simp_all
    show ?thesis using assms unfolding pat_bits_cases e
      by (cases mode) (auto simp: bit_or_iff bit_exp_iff simp del: or_numerals power_numeral)
  qed
  have large: "bit (flag_set x X86_LARGE v) n = (if n = 7 then v else bit x n)" for x v
    unfolding X86_LARGE_def using bit_flag_set_push [of 7 n] assms by simp
  show ?thesis
    using assms by (auto simp: terminal_flags_def bit_or_iff pat large bit_present bit_flags_from_perms)
qed

lemma bit_terminal_pte:
  assumes "f < 2 ^ 40" "n < 12 \<or> 52 \<le> n"
  shows "bit (make_terminal_pte level f perms mode) n = bit (terminal_flags level perms mode) n"
  using assms by (auto simp: make_terminal_pte_eq bit_or_iff bit_frame_word)

lemma terminal_pte_present [simp]: "f < 2 ^ 40 \<Longrightarrow> pte_is_present (make_terminal_pte level f perms mode) l"
  by (simp add: pte_is_present_bit bit_terminal_pte bit_terminal_flags)

lemma terminal_pte_terminal [simp]: "f < 2 ^ 40 \<Longrightarrow> pte_is_terminal (make_terminal_pte level f perms mode) level"
  by (auto simp: pte_is_terminal_bit bit_terminal_pte bit_terminal_flags)

lemma terminal_pte_frame [simp]: "f < 2 ^ 40 \<Longrightarrow> get_pte_frame (make_terminal_pte level f perms mode) l = f"
  by (simp add: make_terminal_pte_eq get_pte_frame_or terminal_flags_flag_bits)

lemma intermediate_flag_bits: "flag_bits (X86_PRESENT OR X86_WRITABLE OR X86_USER_MODE)"
  by (intro flag_bits_or x86_flag_bits)

lemma intermediate_pte_frame [simp]: "f < 2 ^ 40 \<Longrightarrow> get_pte_frame (make_intermediate_pte level f) l = f"
  by (simp add: make_intermediate_pte_def get_pte_frame_or intermediate_flag_bits)

lemma intermediate_pte_present [simp]: "pte_is_present (make_intermediate_pte level f) l"
  by (simp add: pte_is_present_bit make_intermediate_pte_def bit_or_iff bit_present)

lemma intermediate_pte_not_terminal [simp]:
  assumes "f < 2 ^ 40"
  shows "pte_is_terminal (make_intermediate_pte level f) l \<longleftrightarrow> l = 0"
proof -
  have "\<not> bit (X86_PRESENT OR X86_WRITABLE OR X86_USER_MODE) 7"
    by (simp add: x86_flag_defs bit_or_iff bit_exp_iff bit_1_iff)
  then show ?thesis using assms
    by (simp add: pte_is_terminal_bit make_intermediate_pte_def bit_or_iff bit_frame_word)
qed

text \<open>Changing the permissions of an entry keeps its frame, its presence and its kind.\<close>

lemma bit_update_pte_perms:
  assumes "n < 64"
  shows "bit (update_pte_perms pte level perms) n \<longleftrightarrow>
     bit pte n \<and> n \<noteq> 1 \<and> n \<noteq> 2 \<and> n \<noteq> 63 \<or> bit (flags_from_perms perms) n"
proof -
  have "bit X86_PERMS_MASK n \<longleftrightarrow> n = 1 \<or> n = 2 \<or> n = 63"
    using assms unfolding X86_PERMS_MASK_def X86_WRITABLE_def X86_USER_MODE_def X86_NO_EXEC_def bit_or_iff
    by (simp only: bit_push_bit_iff bit_1_iff) auto
  then show ?thesis using assms by (simp add: update_pte_perms_def bit_or_iff bit_and_iff bit_not_iff)
qed

lemma update_pte_perms_present [simp]: "pte_is_present (update_pte_perms pte level perms) l = pte_is_present pte l"
  by (simp add: pte_is_present_bit bit_update_pte_perms bit_flags_from_perms)

lemma update_pte_perms_terminal [simp]: "pte_is_terminal (update_pte_perms pte level perms) l = pte_is_terminal pte l"
  by (simp add: pte_is_terminal_bit bit_update_pte_perms bit_flags_from_perms)

lemma update_pte_perms_frame [simp]: "get_pte_frame (update_pte_perms pte level perms) l = get_pte_frame pte l"
proof -
  have m: "PADDR_MASK = mask 52" by (simp add: PADDR_MASK_def mask_eq_exp_minus_1 push_bit_eq_mult)
  have "drop_bit 12 (update_pte_perms pte level perms AND PADDR_MASK) = drop_bit 12 (pte AND PADDR_MASK)"
  proof (rule bit_word_eqI)
    fix n
    show "bit (drop_bit 12 (update_pte_perms pte level perms AND PADDR_MASK)) n = bit (drop_bit 12 (pte AND PADDR_MASK)) n"
      by (cases "12 + n < 52")
        (auto simp: m bit_drop_bit_eq bit_and_iff bit_mask_iff bit_update_pte_perms bit_flags_from_perms)
  qed
  then show ?thesis by (simp add: get_pte_frame_def PAGE_SHIFT_def)
qed

section \<open>Properties\<close>

text \<open>
  C23. A terminal entry made for a frame below \<open>2 ^ 40\<close> reads back as present, terminal at its level and referring to that
  frame, and its hardware bits grant exactly the requested permissions. An intermediate entry reads
  back as a present reference to the next table, and is never terminal above level 0. Changing the permissions of any entry keeps its
  frame, its presence and its kind, makes it writable, user-accessible and executable exactly as requested, and keeps every other bit but the
  global bit, which it can only set.
\<close>

theorem pte_round_trip:
  assumes "f < 2 ^ 40"
  shows "pte_is_present (make_terminal_pte level f perms mode) level \<and> pte_is_terminal (make_terminal_pte level f perms mode) level \<and>
    get_pte_frame (make_terminal_pte level f perms mode) level = f \<and>
    (bit (make_terminal_pte level f perms mode) 1 \<longleftrightarrow> flag_contains perms PERM_WRITE) \<and>
    (bit (make_terminal_pte level f perms mode) 2 \<longleftrightarrow> flag_contains perms PERM_USER) \<and>
    (bit (make_terminal_pte level f perms mode) 63 \<longleftrightarrow> \<not> flag_contains perms PERM_EXECUTE) \<and>
    (bit (make_terminal_pte level f perms mode) 8 \<longleftrightarrow> flag_contains perms PERM_GLOBAL) \<and>
    pte_is_present (make_intermediate_pte level f) level \<and> get_pte_frame (make_intermediate_pte level f) level = f \<and>
    (pte_is_terminal (make_intermediate_pte level f) level \<longleftrightarrow> level = 0) \<and>
    (let new = update_pte_perms pte level perms in
       get_pte_frame new level = get_pte_frame pte level \<and> pte_is_present new level = pte_is_present pte level \<and>
       pte_is_terminal new level = pte_is_terminal pte level \<and>
       (bit new 1 \<longleftrightarrow> flag_contains perms PERM_WRITE) \<and> (bit new 2 \<longleftrightarrow> flag_contains perms PERM_USER) \<and>
       (bit new 63 \<longleftrightarrow> \<not> flag_contains perms PERM_EXECUTE) \<and> (bit new 8 \<longleftrightarrow> bit pte 8 \<or> flag_contains perms PERM_GLOBAL) \<and>
       (\<forall>n < 63. n \<notin> {1, 2, 8} \<longrightarrow> bit new n = bit pte n))"
proof -
  have "bit (update_pte_perms pte level perms) n = bit pte n" if "n < 63" "n \<notin> {1, 2, 8}" for n
    using that by (simp add: bit_update_pte_perms bit_flags_from_perms)
  then show ?thesis
    using assms by (simp add: bit_terminal_pte bit_terminal_flags bit_update_pte_perms bit_flags_from_perms Let_def)
qed

theorem pte_round_trip_witness:
  "get_pte_frame (make_terminal_pte 1 0x200 (PERM_READ OR PERM_WRITE) Cached) 1 = 0x200 \<and>
   bit (make_terminal_pte 1 0x200 (PERM_READ OR PERM_WRITE) Cached) 1 \<and>
   bit (update_pte_perms 0x200001 1 (PERM_READ OR PERM_WRITE)) 1 \<and> get_pte_frame (update_pte_perms 0x200001 1 (PERM_READ OR PERM_WRITE)) 1 = 0x200"
proof -
  have "get_pte_frame 0x200001 1 = 0x200" by (simp add: get_pte_frame_def PADDR_MASK_def PAGE_SHIFT_def)
  then show ?thesis
    using pte_round_trip [where f = 512 and level = 1 and perms = "PERM_READ OR PERM_WRITE" and mode = Cached and pte = "0x200001"]
    by (simp add: perm_defs flag_contains_def Let_def)
qed

lemma pat_after_init: "pat (mmu_init_early c) = 0x0106040600060406"
  by (simp add: wbinvd_def mmu_init_early_def init_pat_def init_mmu_regs_def Let_def mem_type_defs write_cr0_def write_cr3_def
      write_cr4_def push_bit_eq_mult)

lemma bit_shifted_one: "bit (push_bit k 1 :: u64) n \<longleftrightarrow> n = k \<and> k < 64"
  by (auto simp: bit_simps)

lemma bit_declared_flags: "bit (declared_flags ks) n \<longleftrightarrow> n \<in> set ks \<and> n < 64"
  by (induction ks) (auto simp: bit_or_iff bit_shifted_one simp del: push_bit_of_1)

lemma not_pge: "\<not> flag_contains (x AND flag_not CR4_FLAGS CR4_PGE) CR4_PGE"
  unfolding CR4_PGE_def flag_contains_bit by (simp add: flag_not_def bit_and_iff bit_not_iff bit_exp_iff)

lemma mtrr_reset: "d AND - 256 = push_bit 8 (drop_bit 8 (d :: u64))"
proof -
  have e: "(- 256 :: u64) = NOT (mask 8)" by (simp add: mask_eq_exp_minus_1)
  show ?thesis unfolding e by (rule bit_word_eqI) (auto simp: bit_and_iff bit_not_iff bit_mask_iff bit_push_bit_iff bit_drop_bit_eq)
qed

lemma init_early_regs:
  "mmu_init_early c = c\<lparr>cr0 := (cr0 c AND flag_not CR0_FLAGS (CR0_CD OR CR0_NW)) OR CR0_WP, cr4 := (cr4 c AND flag_not CR4_FLAGS CR4_PGE) OR CR4_PGE,
     ia32_efer := ia32_efer c OR EFER_NXE, pat := 0x0106040600060406, mtrr_def_type := push_bit 8 (drop_bit 8 (mtrr_def_type c)), tlb := {}, cached_lines := {}\<rparr>"
proof -
  have "flag_contains (x OR CR4_PGE) CR4_PGE" for x
    unfolding CR4_PGE_def flag_contains_bit by (simp add: bit_or_iff bit_exp_iff)
  moreover have "pat (mmu_init_early c) = 0x0106040600060406" by (rule pat_after_init)
  ultimately show ?thesis
    by (simp add: mmu_init_early_def init_pat_def init_mmu_regs_def Let_def write_cr0_def write_cr3_def write_cr4_def wbinvd_def not_pge
        MTRR_DEF_TYPE_TYPE_MASK_def MEM_TYPE_UC_def mtrr_reset)
qed

text \<open>
  C25. The exact state after \<open>init_early\<close>: in \<open>cr0\<close> write protection is on, the two cache-disabling flags are off and every other declared flag is
  as it was; in \<open>cr4\<close> global pages are on and every other declared flag is as it was; bits of the two registers that the flag types do not declare are
  cleared; no-execute is on in \<open>efer\<close> and the rest of it is kept. Each of the eight entries of the page attribute table holds the declared value, with write-back,
  write-through, uncached and write-combining at the indices the cache modes select. The memory type register keeps its enable bits, so
  the range registers are on again if they were, and has the default type uncached. The root table is kept, and the
  translation buffer and the caches are empty.
\<close>

theorem init_early_state:
  "(\<forall>n. bit (cr0 (mmu_init_early c)) n \<longleftrightarrow> n = 16 \<or> bit (cr0 c) n \<and> n \<in> {0, 1, 2, 3, 4, 5, 18, 31}) \<and>
   (\<forall>n. bit (cr4 (mmu_init_early c)) n \<longleftrightarrow> n = 7 \<or> bit (cr4 c) n \<and> n \<in> {0..6} \<union> {8..11} \<union> {16..18} \<union> {20, 21}) \<and>
   (\<forall>n. bit (ia32_efer (mmu_init_early c)) n \<longleftrightarrow> n = 11 \<or> bit (ia32_efer c) n) \<and>
   map (\<lambda>i. drop_bit (8 * i) (pat (mmu_init_early c)) AND 0xff) [0..<8] = PA_VALS \<and>
   PA_VALS ! unat PAT_SELECTOR_WB = 6 \<and> PA_VALS ! unat PAT_SELECTOR_WT = 4 \<and> PA_VALS ! unat PAT_SELECTOR_UC = 0 \<and> PA_VALS ! unat PAT_SELECTOR_WC = 1 \<and>
   (\<forall>n. bit (mtrr_def_type (mmu_init_early c)) n \<longleftrightarrow> 8 \<le> n \<and> bit (mtrr_def_type c) n) \<and>
   cr3 (mmu_init_early c) = cr3 c \<and> tlb (mmu_init_early c) = {} \<and> cached_lines (mmu_init_early c) = {}"
proof -
  have fl: "bit CR0_WP n \<longleftrightarrow> n = 16" "bit CR0_CD n \<longleftrightarrow> n = 30" "bit CR0_NW n \<longleftrightarrow> n = 29" "bit CR4_PGE n \<longleftrightarrow> n = 7" "bit EFER_NXE n \<longleftrightarrow> n = 11" for n
    unfolding cpu_flag_defs bit_or_iff bit_shifted_one by auto
  have cr0: "bit (cr0 (mmu_init_early c)) n \<longleftrightarrow> n = 16 \<or> bit (cr0 c) n \<and> n \<in> {0, 1, 2, 3, 4, 5, 18, 31}" for n
  proof -
    have "n \<in> set CR0_FLAGS \<longleftrightarrow> n \<in> {0, 1, 2, 3, 4, 5, 16, 18, 29, 30, 31}" by (simp add: CR0_FLAGS_def)
    then show ?thesis unfolding init_early_regs by (auto simp: flag_not_def bit_or_iff bit_and_iff bit_not_iff bit_declared_flags fl)
  qed
  have cr4: "bit (cr4 (mmu_init_early c)) n \<longleftrightarrow> n = 7 \<or> bit (cr4 c) n \<and> n \<in> {0..6} \<union> {8..11} \<union> {16..18} \<union> {20, 21}" for n
  proof -
    have "n \<in> set CR4_FLAGS \<longleftrightarrow> n \<in> {0..7} \<union> {8..11} \<union> {16..18} \<union> {20, 21}" unfolding CR4_FLAGS_def by (simp, presburger)
    then show ?thesis unfolding init_early_regs by (auto simp: flag_not_def bit_or_iff bit_and_iff bit_not_iff bit_declared_flags fl)
  qed
  have efer: "bit (ia32_efer (mmu_init_early c)) n \<longleftrightarrow> n = 11 \<or> bit (ia32_efer c) n" for n
    unfolding init_early_regs by (auto simp: bit_or_iff fl)
  have mtrr: "bit (mtrr_def_type (mmu_init_early c)) n \<longleftrightarrow> 8 \<le> n \<and> bit (mtrr_def_type c) n" for n
    unfolding init_early_regs by (auto simp: bit_simps dest: bit_imp_le_length)
  have "map (\<lambda>i. drop_bit (8 * i) (pat (mmu_init_early c)) AND 0xff) [0..<8] = PA_VALS"
    by (simp add: pat_after_init mem_type_defs upt_rec)
  then show ?thesis
    using cr0 cr4 efer mtrr by (simp add: pat_selector_defs mem_type_defs) (simp add: init_early_regs)
qed

text \<open>Flushing the kernel half empties the translation buffer, global pages included, and leaves the registers as they were.\<close>

lemma flush_kernel_tlb_spec:
  assumes "flag_contains (cr4 c) CR4_PGE"
  shows "flush_kernel_tlb c = Some (c\<lparr>tlb := {}\<rparr>)"
  using assms not_pge by (simp add: flush_kernel_tlb_def uassert_def write_cr4_def)

text \<open>
  The selector bits are shifted to the wrong places: bit 1 of the selector lands on the accessed bit (5) instead of
  PCD (4), and bit 2 on an ignored bit (9) instead of PAT (7). Of the four cache modes, two select
  the intended memory type; uncached and write-combining pages are mapped write-through.
\<close>

lemma hw_index_terminal:
  assumes "f < 2 ^ 40"
  shows "hw_pat_index (make_terminal_pte 0 f perms mode) = (if mode = Cached then 0 else 1)"
  using assms by (simp add: hw_pat_index_def bit_terminal_pte bit_terminal_flags)

lemma cache_mode_mem_types:
  assumes "f < 2 ^ 40"
  shows "hw_mem_type (mmu_init_early c) (make_terminal_pte 0 f perms mode) =
    (if mode = Cached then MEM_TYPE_WB else MEM_TYPE_WT)"
  using assms by (simp add: hw_mem_type_def hw_index_terminal pat_after_init mem_type_defs)

end
