(* ===== verification/Pt_Spec.thy ===== *)
theory Pt_Spec
  imports Pt
begin

text \<open>
  What page tables mean. A \<open>view\<close> gives the entries of every table frame; \<open>pt_walk\<close> is the walk of the hardware over a view,
  \<open>tables\<close> the frames a table reaches and \<open>pt_wf\<close> the condition that they form a tree: every table is
  accessible and referred to once. The locale \<open>page_memory\<close> relates the memory the code reads and writes through a translator to
  the view, and the arithmetic of levels and windows is proved once here.
\<close>

section \<open>Views and walks\<close>

type_synonym view = "pfn \<Rightarrow> nat \<Rightarrow> u64"

abbreviation pc :: "nat \<Rightarrow> nat" where
  "pc l \<equiv> 2 ^ (9 * l)"

definition child :: "nat \<Rightarrow> view \<Rightarrow> pfn \<Rightarrow> nat \<Rightarrow> pfn option" where
  "child l V t i = (if i < 512 \<and> pte_is_present (V t i) l \<and> \<not> pte_is_terminal (V t i) l
     then Some (get_pte_frame (V t i) l) else None)"

primrec pt_walk :: "nat \<Rightarrow> view \<Rightarrow> pfn \<Rightarrow> vpn \<Rightarrow> (nat \<times> u64) option" where
  "pt_walk 0 V t v = (let e = V t (pt_index v 0) in if pte_is_present e 0 then Some (0, e) else None)"
| "pt_walk (Suc l) V t v =
     (let e = V t (pt_index v (Suc l)) in
      if \<not> pte_is_present e (Suc l) then None
      else if pte_is_terminal e (Suc l) then Some (Suc l, e)
      else pt_walk l V (get_pte_frame e (Suc l)) v)"

primrec tables :: "nat \<Rightarrow> view \<Rightarrow> pfn \<Rightarrow> pfn set" where
  "tables 0 V t = {t}"
| "tables (Suc l) V t = insert t (\<Union>i c. if child (Suc l) V t i = Some c then tables l V c else {})"

primrec pt_wf :: "pfn set \<Rightarrow> nat \<Rightarrow> view \<Rightarrow> pfn \<Rightarrow> bool" where
  "pt_wf acc 0 V t = (t \<in> acc)"
| "pt_wf acc (Suc l) V t =
     (t \<in> acc \<and>
      (\<forall>i c. child (Suc l) V t i = Some c \<longrightarrow> pt_wf acc l V c \<and> t \<notin> tables l V c) \<and>
      (\<forall>i j c d. i \<noteq> j \<longrightarrow> child (Suc l) V t i = Some c \<longrightarrow> child (Suc l) V t j = Some d \<longrightarrow>
         tables l V c \<inter> tables l V d = {}))"

text \<open>The frame a page translates to, with the entry that maps it.\<close>

definition pt_translate :: "view \<Rightarrow> pfn \<Rightarrow> vpn \<Rightarrow> (pfn \<times> u64) option" where
  "pt_translate V root v =
     (case pt_walk (PT_LEVEL_COUNT - 1) V root v of
        None \<Rightarrow> None | Some (l, e) \<Rightarrow> Some (get_pte_frame e l + v mod pc l, e))"

lemma in_tables_Suc: "p \<in> tables (Suc l) V t \<longleftrightarrow> p = t \<or> (\<exists>i c. child (Suc l) V t i = Some c \<and> p \<in> tables l V c)"
  by (auto split: if_splits)

lemma root_in_tables [simp]: "t \<in> tables l V t"
  by (cases l) (simp_all add: in_tables_Suc)

lemma child_tables_subset: "child (Suc l) V t i = Some c \<Longrightarrow> tables l V c \<subseteq> tables (Suc l) V t"
  unfolding subset_iff in_tables_Suc by blast

declare tables.simps(2) [simp del]

lemma child_cong: "V' t = V t \<Longrightarrow> child l V' t i = child l V t i"
  by (simp add: child_def)

lemma tables_cong: "(\<And>p. p \<in> tables l V t \<Longrightarrow> V' p = V p) \<Longrightarrow> tables l V' t = tables l V t"
proof (induction l arbitrary: t)
  case 0
  then show ?case by simp
next
  case (Suc l)
  have c: "child (Suc l) V' t i = child (Suc l) V t i" for i by (rule child_cong) (simp add: Suc.prems)
  have "tables l V' c = tables l V c" if "child (Suc l) V t i = Some c" for i c
    using Suc.prems child_tables_subset [OF that] by (intro Suc.IH) blast
  then show ?case unfolding set_eq_iff in_tables_Suc c by blast
qed

lemma pt_wf_cong: "(\<And>p. p \<in> tables l V t \<Longrightarrow> V' p = V p) \<Longrightarrow> pt_wf acc l V' t = pt_wf acc l V t"
proof (induction l arbitrary: t)
  case 0
  then show ?case by simp
next
  case (Suc l)
  have c: "child (Suc l) V' t i = child (Suc l) V t i" for i by (rule child_cong) (simp add: Suc.prems)
  have sub: "V' p = V p" if "child (Suc l) V t i = Some c" "p \<in> tables l V c" for i c p
    using Suc.prems child_tables_subset [OF that(1)] that(2) by blast
  have t: "tables l V' c = tables l V c" "pt_wf acc l V' c = pt_wf acc l V c" if "child (Suc l) V t i = Some c" for i c
    using sub [OF that] by (rule tables_cong, blast) (use sub [OF that] in \<open>rule Suc.IH, blast\<close>)
  show ?case unfolding pt_wf.simps c by (simp add: t cong: conj_cong imp_cong)
qed

lemma pt_walk_Suc:
  "pt_walk (Suc l) V t v =
     (case child (Suc l) V t (pt_index v (Suc l)) of
        Some c \<Rightarrow> pt_walk l V c v
      | None \<Rightarrow> (let e = V t (pt_index v (Suc l)) in if pte_is_present e (Suc l) then Some (Suc l, e) else None))"
proof -
  have "pt_index v (Suc l) < 512" using pt_index_less by (simp add: PT_ENTRY_COUNT_eq)
  then show ?thesis by (simp add: child_def Let_def)
qed

declare pt_walk.simps(2) [simp del]

lemma pt_walk_cong: "(\<And>p. p \<in> tables l V t \<Longrightarrow> V' p = V p) \<Longrightarrow> pt_walk l V' t v = pt_walk l V t v"
proof (induction l arbitrary: t)
  case 0
  then show ?case by simp
next
  case (Suc l)
  have t: "V' t = V t" by (simp add: Suc.prems)
  have c: "child (Suc l) V' t i = child (Suc l) V t i" for i by (rule child_cong) (rule t)
  have "pt_walk l V' c v = pt_walk l V c v" if "child (Suc l) V t i = Some c" for i c
    using Suc.prems child_tables_subset [OF that] by (intro Suc.IH) blast
  then show ?case unfolding pt_walk_Suc c t by (simp split: option.splits)
qed

lemma pt_wf_root: "pt_wf acc l V t \<Longrightarrow> t \<in> acc"
  by (cases l) auto

lemma pt_wf_child:
  assumes "pt_wf acc (Suc l) V t" "child (Suc l) V t i = Some c"
  shows "pt_wf acc l V c" "t \<notin> tables l V c"
  using assms by auto

lemma pt_wf_disjoint:
  "pt_wf acc (Suc l) V t \<Longrightarrow> child (Suc l) V t i = Some c \<Longrightarrow> child (Suc l) V t j = Some d \<Longrightarrow> i \<noteq> j \<Longrightarrow>
    tables l V c \<inter> tables l V d = {}"
  by auto

lemma tables_acc: "pt_wf acc l V t \<Longrightarrow> tables l V t \<subseteq> acc"
proof (induction l arbitrary: t)
  case 0
  then show ?case by simp
next
  case (Suc l)
  show ?case
  proof
    fix p assume "p \<in> tables (Suc l) V t"
    then show "p \<in> acc" using Suc.IH pt_wf_child(1) [OF Suc.prems] pt_wf_root [OF Suc.prems]
      unfolding in_tables_Suc by blast
  qed
qed

declare pt_wf.simps(2) [simp del]

section \<open>Windows\<close>

text \<open>The table of level \<open>l\<close> on the path of a page maps a window of \<open>pc (Suc l)\<close> pages, an entry of it \<open>pc l\<close> pages.\<close>

definition same_window :: "nat \<Rightarrow> vpn \<Rightarrow> vpn \<Rightarrow> bool" where
  "same_window l v w \<longleftrightarrow> v div pc (Suc l) = w div pc (Suc l)"

definition window_end :: "nat \<Rightarrow> vpn \<Rightarrow> vpn" where
  "window_end l v = (v div pc (Suc l) + 1) * pc (Suc l)"

definition entry_base :: "nat \<Rightarrow> vpn \<Rightarrow> vpn" where
  "entry_base l v = v div pc l * pc l"

definition entry_end :: "nat \<Rightarrow> vpn \<Rightarrow> vpn" where
  "entry_end l v = (v div pc l + 1) * pc l"

lemma pc_Suc: "pc (Suc l) = 512 * pc l"
  by (simp add: power_add)

lemma pc_pos [simp]: "0 < pc l"
  by simp

lemma div_pc_Suc: "v div pc (Suc l) = v div pc l div 512"
  unfolding pc_Suc mult.commute [of 512] by (rule div_mult2_eq)

lemma pt_index_eq_iff:
  assumes "same_window l v w"
  shows "pt_index v l = pt_index w l \<longleftrightarrow> v div pc l = w div pc l"
proof -
  have "v div pc l div 512 = w div pc l div 512" using assms unfolding same_window_def div_pc_Suc .
  then show ?thesis unfolding pt_index_eq by (metis div_mult_mod_eq)
qed

lemma between_multiples: "0 < n \<Longrightarrow> q * n \<le> v \<Longrightarrow> v < (q + 1) * n \<Longrightarrow> v div n = (q::nat)"
  by (rule div_nat_eqI) (auto simp: mult.commute)

lemma entry_bounds: "entry_base l v \<le> v" "v < entry_end l v" "entry_end l v = entry_base l v + pc l"
proof -
  have e: "entry_end l v = entry_base l v + pc l" by (simp add: entry_base_def entry_end_def)
  moreover have "entry_base l v + v mod pc l = v" unfolding entry_base_def by (rule div_mult_mod_eq)
  moreover have "v mod pc l < pc l" by (rule mod_less_divisor) simp
  ultimately show "entry_base l v \<le> v" "v < entry_end l v" "entry_end l v = entry_base l v + pc l" by linarith+
qed

lemma entry_iff: "w div pc l = v div pc l \<longleftrightarrow> entry_base l v \<le> w \<and> w < entry_end l v"
proof
  assume "w div pc l = v div pc l"
  then show "entry_base l v \<le> w \<and> w < entry_end l v"
    using entry_bounds(1) [of l w] entry_bounds(2) [of w l] by (simp add: entry_base_def entry_end_def)
next
  assume "entry_base l v \<le> w \<and> w < entry_end l v"
  then show "w div pc l = v div pc l"
    unfolding entry_base_def entry_end_def by (intro between_multiples) auto
qed

lemma window_entry: "window_end l v = entry_end (Suc l) v" "same_window l v w \<longleftrightarrow> v div pc (Suc l) = w div pc (Suc l)"
  by (simp_all only: window_end_def entry_end_def same_window_def)

lemma same_window_iff: "v \<le> w \<Longrightarrow> same_window l v w \<longleftrightarrow> w < window_end l v"
  using entry_iff [of w "Suc l" v] entry_bounds(1) [of "Suc l" v] unfolding window_entry by (metis le_trans)

lemma window_end_gt: "v < window_end l v"
  unfolding window_entry by (rule entry_bounds)

lemma same_entry_same_window: "v div pc (Suc l) = w div pc (Suc l) \<longleftrightarrow> same_window l v w"
  by (simp only: same_window_def)

lemma same_window_refl [simp]: "same_window l v v"
  by (simp add: same_window_def)

lemma same_window_trans: "same_window l v w \<Longrightarrow> same_window l v x \<Longrightarrow> same_window l w x"
  by (simp only: same_window_def)

lemma same_window_end: "same_window l v w \<Longrightarrow> window_end l w = window_end l v"
  by (simp only: same_window_def window_end_def)

lemma entry_end_le_window: "entry_end l v \<le> window_end l v"
proof -
  let ?q = "v div pc l"
  have "?q + 1 \<le> (?q div 512 + 1) * 512" by simp
  then have "(?q + 1) * pc l \<le> (?q div 512 + 1) * 512 * pc l" by (rule mult_le_mono1)
  then show ?thesis unfolding entry_end_def window_end_def div_pc_Suc unfolding pc_Suc by (simp only: mult.assoc)
qed

lemma aligned_entry_base: "pc l dvd v \<Longrightarrow> entry_base l v = v"
  by (simp add: entry_base_def)

lemma entry_end_dvd: "k \<le> l \<Longrightarrow> pc k dvd entry_end l v"
  unfolding entry_end_def by (rule dvd_mult, rule le_imp_power_dvd) simp

lemma window_end_dvd: "k \<le> Suc l \<Longrightarrow> pc k dvd window_end l v"
  unfolding window_entry by (rule entry_end_dvd)

section \<open>Levels and pointers never overflow\<close>

lemma level_page_count_eq: "l \<le> 3 \<Longrightarrow> level_page_count l = Some (pc l)"
proof -
  assume "l \<le> 3"
  then have "l * 9 < USIZE_LIM" "l * 9 < 64" by (auto simp: USIZE_LIM_def)
  then show ?thesis using ushl_one [of "l * 9"]
    by (simp add: level_page_count_def PT_LEVEL_SHIFT_def umul_def mult.commute)
qed

lemma level_page_mask_eq: "l \<le> 3 \<Longrightarrow> level_page_mask l = Some (pc l - 1)"
  by (simp add: level_page_mask_def level_page_count_eq usub_def)

lemma aligned_for_level_eq: "l \<le> 3 \<Longrightarrow> aligned_for_level v l = Some (pc l dvd v)"
  using nat_and_mask [of v "9 * l"]
  by (simp add: aligned_for_level_def level_page_mask_eq mod_eq_0_iff_dvd del: One_nat_def)

definition ptr_ok :: "mapping_pointer \<Rightarrow> bool" where
  "ptr_ok p \<longleftrightarrow> mp_base p + mp_size p \<le> 2 ^ 52 \<and> mp_offset p \<le> mp_size p"

abbreviation virt :: "mapping_pointer \<Rightarrow> vpn" where
  "virt p \<equiv> mp_base p + mp_offset p"

abbreviation range_end :: "mapping_pointer \<Rightarrow> vpn" where
  "range_end p \<equiv> mp_base p + mp_size p"

lemma mp_virt_eq: "ptr_ok p \<Longrightarrow> mp_virt p = Some (virt p)"
  by (simp add: mp_virt_def uadd_def ptr_ok_def USIZE_LIM_def)

lemma mp_remaining_eq: "ptr_ok p \<Longrightarrow> mp_remaining_pages p = Some (mp_size p - mp_offset p)"
  by (simp add: mp_remaining_pages_def usub_def ptr_ok_def)

lemma covers_level_entry_eq:
  assumes "ptr_ok p" "l \<le> 3"
  shows "covers_level_entry p l = Some (pc l dvd virt p \<and> virt p + pc l \<le> range_end p)"
proof -
  have "mp_size p - mp_offset p \<ge> pc l \<longleftrightarrow> virt p + pc l \<le> range_end p"
    using assms(1) by (auto simp: ptr_ok_def)
  then show ?thesis using assms
    by (simp add: covers_level_entry_def mp_virt_eq aligned_for_level_eq mp_remaining_eq level_page_count_eq)
qed

lemma pc_bound: "l \<le> 3 \<Longrightarrow> pc (Suc l) \<le> 2 ^ 36" "l \<le> 3 \<Longrightarrow> pc l \<le> 2 ^ 27"
  by (rule power_increasing; simp)+

lemma advance_eq:
  assumes "ptr_ok p" "virt p + n \<le> range_end p"
  shows "mp_advance n p = Some (p\<lparr>mp_offset := mp_offset p + n\<rparr>)" "ptr_ok (p\<lparr>mp_offset := mp_offset p + n\<rparr>)"
  using assms by (auto simp: mp_advance_def uadd_def uassert_def ptr_ok_def USIZE_LIM_def)

lemma advance_clamped_eq:
  assumes "ptr_ok p" "l \<le> 3"
  shows "mp_advance_clamped (pc l) p = Some (p\<lparr>mp_offset := min (mp_offset p + pc l) (mp_size p)\<rparr>)"
    "ptr_ok (p\<lparr>mp_offset := min (mp_offset p + pc l) (mp_size p)\<rparr>)"
proof -
  have "mp_offset p + pc l < USIZE_LIM" using assms pc_bound(2) [OF assms(2)] by (simp add: ptr_ok_def USIZE_LIM_def)
  then show "mp_advance_clamped (pc l) p = Some (p\<lparr>mp_offset := min (mp_offset p + pc l) (mp_size p)\<rparr>)"
    by (simp add: mp_advance_clamped_def uadd_def)
  show "ptr_ok (p\<lparr>mp_offset := min (mp_offset p + pc l) (mp_size p)\<rparr>)" using assms(1) by (simp add: ptr_ok_def)
qed

lemma table_boundary:
  assumes "l \<le> 3" "v \<le> 2 ^ 52"
  shows "addr_align_up (v + 1) (pc (Suc l)) = Some (window_end l v)"
proof -
  let ?n = "pc (Suc l)"
  have n: "0 < ?n" "?n \<le> 2 ^ 36" using pc_bound(1) [OF assms(1)] by simp_all
  have "(v + 1 + ?n - 1) div ?n = v div ?n + 1" using n(1) by (simp add: div_add_self2)
  moreover have "(v div ?n + 1) * ?n \<le> v + ?n" using div_mult_mod_eq [of v ?n] by (simp add: algebra_simps)
  ultimately show ?thesis using n assms(2)
    by (simp add: addr_align_up_def align_up_Some_iff window_end_def USIZE_LIM_def del: mult_Suc_right)
qed

lemma walk_level_eq:
  assumes "ptr_ok (pt_ptr s)" "l \<le> 3"
  shows "walk_level l f s = walk_loop f (min (range_end (pt_ptr s)) (window_end l (virt (pt_ptr s)))) s"
proof -
  let ?p = "pt_ptr s"
  have v: "virt ?p \<le> 2 ^ 52" "virt ?p + 1 < USIZE_LIM" "virt ?p + (mp_size ?p - mp_offset ?p) = range_end ?p"
    "range_end ?p < USIZE_LIM"
    using assms(1) by (auto simp: ptr_ok_def USIZE_LIM_def)
  have "PT_ENTRY_COUNT * pc l = pc (Suc l)" unfolding PT_ENTRY_COUNT_eq by (rule pc_Suc [symmetric])
  moreover have "pc (Suc l) < USIZE_LIM" using pc_bound(1) [OF assms(2)] by (simp add: USIZE_LIM_def)
  ultimately show ?thesis using v assms table_boundary [OF assms(2) v(1)]
    by (simp add: walk_level_def mp_virt_eq mp_remaining_eq uadd_def umul_def level_page_count_eq del: mult_Suc_right)
qed

text \<open>Where a walk over a table of level \<open>l\<close> ends.\<close>

definition walk_end :: "nat \<Rightarrow> mapping_pointer \<Rightarrow> vpn" where
  "walk_end l p = min (range_end p) (window_end l (virt p))"

lemma walk_end_le: "virt p \<le> range_end p \<Longrightarrow> virt p \<le> walk_end l p"
  using window_end_gt [of "virt p" l] by (simp add: walk_end_def)

lemma walk_end_gt: "virt p < range_end p \<Longrightarrow> virt p < walk_end l p"
  using window_end_gt [of "virt p" l] by (simp add: walk_end_def)

lemma walk_end_mono: "walk_end k p \<le> walk_end (Suc k) p"
proof -
  have "window_end k (virt p) = entry_end (Suc k) (virt p)" by (rule window_entry)
  then show ?thesis using entry_end_le_window [of "Suc k" "virt p"] unfolding walk_end_def by linarith
qed

lemma index_less: "pt_index v l < 512"
  using pt_index_less [of v l] by (simp add: PT_ENTRY_COUNT_eq)

text \<open>A loop over entries that always advances reaches its end, or stops with an error; what its body keeps, it keeps.\<close>

lemma walk_loop_rule:
  assumes "P s" and ok: "\<And>s. P s \<Longrightarrow> ptr_ok (pt_ptr s)"
    and step: "\<And>s. P s \<Longrightarrow> virt (pt_ptr s) < mx \<Longrightarrow>
      (case f s of None \<Rightarrow> Q | Some (r, s') \<Rightarrow> (case r of Inl e \<Rightarrow> E e s' | Inr _ \<Rightarrow> P s' \<and> virt (pt_ptr s) < virt (pt_ptr s')))"
  shows "case walk_loop f mx s of None \<Rightarrow> Q
    | Some (r, s') \<Rightarrow> (case r of Inl e \<Rightarrow> E e s' | Inr _ \<Rightarrow> P s' \<and> mx \<le> virt (pt_ptr s'))"
  using assms(1)
proof (induction "mx - virt (pt_ptr s)" arbitrary: s rule: less_induct)
  case less
  note v = mp_virt_eq [OF ok [OF less.prems]]
  show ?case
  proof (cases "virt (pt_ptr s) < mx")
    case False
    then show ?thesis using less.prems v by (subst walk_loop.simps) simp
  next
    case True
    note st = step [OF less.prems True]
    show ?thesis
    proof (cases "f s")
      case None
      then show ?thesis using st v True by (subst walk_loop.simps) simp
    next
      case (Some a)
      obtain r s' where a: "a = (r, s')" by (cases a)
      show ?thesis
      proof (cases r)
        case (Inl e)
        then show ?thesis using st v True Some a by (subst walk_loop.simps) simp
      next
        case (Inr u)
        then have s': "P s'" "virt (pt_ptr s) < virt (pt_ptr s')" using st Some a by simp_all
        then have "mx - virt (pt_ptr s') < mx - virt (pt_ptr s)" using True by simp
        from less.hyps [OF this s'(1)] show ?thesis using v True Some a Inr by (subst walk_loop.simps) simp
      qed
    qed
  qed
qed

section \<open>Memory as a view\<close>

definition slot :: "(pfn \<Rightarrow> vpn option) \<Rightarrow> pfn \<Rightarrow> nat \<Rightarrow> virt_addr" where
  "slot tr p i = vpn_addr (the (tr p)) + 8 * i"

definition view_of :: "(pfn \<Rightarrow> vpn option) \<Rightarrow> pfn set \<Rightarrow> memory \<Rightarrow> view" where
  "view_of tr acc m p i = (if p \<in> acc \<and> i < 512 then m (slot tr p i) else 0)"

locale page_memory = translate_phys translate
  for translate :: "pfn \<Rightarrow> vpn option" +
  fixes acc :: "pfn set"
  assumes acc_translates: "p \<in> acc \<Longrightarrow> \<exists>v. translate p = Some v \<and> v < 2 ^ 52"
begin

abbreviation view :: "memory \<Rightarrow> view" where
  "view m \<equiv> view_of translate acc m"

lemma slot_inj:
  assumes "p \<in> acc" "q \<in> acc" "i < 512" "j < 512"
  shows "slot translate p i = slot translate q j \<longleftrightarrow> p = q \<and> i = j"
proof
  assume eq: "slot translate p i = slot translate q j"
  from acc_translates assms obtain v w where v: "translate p = Some v" "v < 2 ^ 52" and w: "translate q = Some w" "w < 2 ^ 52"
    by blast
  have e: "v * 4096 + 8 * i = w * 4096 + 8 * j"
    using eq v w by (simp add: slot_def vpn_addr_def PAGE_SHIFT_def USIZE_LIM_def)
  have "(x * 4096 + 8 * k) div 4096 = x" if "k < 512" for x k :: nat
    using that by (intro between_multiples) auto
  from this [of i v] this [of j w] e have "v = w" using assms(3,4) by simp
  with e have "v = w \<and> i = j" by simp
  then show "p = q \<and> i = j" using v w translate_inj by blast
qed simp

lemma pt_entry_eq: "p \<in> acc \<Longrightarrow> i < 512 \<Longrightarrow> pt_entry translate p i = Some (slot translate p i)"
  using acc_translates [of p] by (auto simp: pt_entry_def uassert_def PT_ENTRY_COUNT_eq slot_def)

lemma pt_get_eq: "p \<in> acc \<Longrightarrow> i < 512 \<Longrightarrow> pt_get translate m p i = Some (view m p i)"
  by (simp add: pt_get_def pt_entry_eq view_of_def)

lemma pt_set_eq:
  assumes "p \<in> acc" "i < 512"
  obtains m' where "pt_set translate m p i e = Some m'" "view m' = (view m)(p := (view m p)(i := e))"
proof -
  let ?m = "m(slot translate p i := e)"
  have "view ?m = (view m)(p := (view m p)(i := e))"
    using assms slot_inj by (auto simp: view_of_def fun_eq_iff)
  with assms that show thesis by (simp add: pt_set_def pt_entry_eq)
qed

lemma clear_entries_eq:
  assumes "p \<in> acc" "n \<le> 512"
  shows "view (foldl (\<lambda>m i. m(vpn_addr (the (translate p)) + 8 * i := make_empty_pte)) m [0..<n]) =
    (view m)(p := (\<lambda>i. if i < n then 0 else view m p i))"
  using assms(2)
proof (induction n)
  case 0
  then show ?case by (simp add: fun_eq_iff)
next
  case (Suc n)
  let ?m = "foldl (\<lambda>m i. m(vpn_addr (the (translate p)) + 8 * i := make_empty_pte)) m [0..<n]"
  have upd: "view (?m(slot translate p n := make_empty_pte)) = (view ?m)(p := (view ?m p)(n := 0))"
    using assms(1) Suc.prems slot_inj by (auto simp: view_of_def fun_eq_iff make_empty_pte_def)
  have fold: "foldl (\<lambda>m i. m(vpn_addr (the (translate p)) + 8 * i := make_empty_pte)) m [0..<Suc n] =
    ?m(slot translate p n := make_empty_pte)" by (simp add: slot_def)
  have "n \<le> 512" using Suc.prems by simp
  note ih = Suc.IH [OF this]
  show ?case unfolding fold upd unfolding ih by (auto simp: fun_eq_iff less_Suc_eq)
qed

lemma clear_table_eq:
  assumes "p \<in> acc"
  obtains m' where "clear_table translate m p = Some m'" "view m' = (view m)(p := (\<lambda>_. 0))"
proof -
  obtain v where v: "translate p = Some v" using acc_translates [OF assms] by blast
  have "(\<lambda>i. if i < 512 then 0 else view m p i) = (\<lambda>_. 0)" by (auto simp: view_of_def)
  then have "view (clear_page_table m (vpn_addr v)) = (view m)(p := (\<lambda>_. 0))"
    using clear_entries_eq [OF assms, of 512 m] v by (simp add: clear_page_table_def PT_ENTRY_COUNT_eq)
  with v that show thesis by (simp add: clear_table_def)
qed

lemma next_table_eq:
  assumes "t \<in> acc" "i < 512"
  shows "next_table translate m t i l = Some (case child l (view m) t i of
    Some c \<Rightarrow> Inr c
  | None \<Rightarrow> Inl (if pte_is_present (view m t i) l then TerminalEntry (view m t i) else NotPresent))"
  using assms by (simp add: next_table_def pt_get_eq child_def)

lemma entries_empty_eq:
  "t \<in> acc \<Longrightarrow> \<forall>i\<in>set is. i < 512 \<Longrightarrow>
    entries_empty translate m t l is = Some (\<forall>i\<in>set is. \<not> pte_is_present (view m t i) l)"
  by (induction "is") (auto simp: pt_get_eq)

lemma table_is_empty_eq:
  "t \<in> acc \<Longrightarrow> table_is_empty translate m t l = Some (\<forall>i<512. \<not> pte_is_present (view m t i) l)"
  by (auto simp: table_is_empty_def entries_empty_eq PT_ENTRY_COUNT_eq)

end

interpretation physmap_mem: page_memory PhysmapPfnTranslator_translate "{..<PHYS_MAP_MAX_PAGES}"
  by unfold_locales
    (auto simp: PhysmapPfnTranslator_translate_def pfn_to_physmap_Some layout_consts)

section \<open>Changing a tree of tables\<close>

lemma child_upd_other: "j \<noteq> i \<Longrightarrow> child l (V(t := (V t)(i := e))) t j = child l V t j"
  by (simp add: child_def)

text \<open>Changing an entry that refers to no table before or after.\<close>

lemma set_leaf:
  assumes wf: "pt_wf acc l V t" and i: "child l V t i = None" "child l (V(t := (V t)(i := e))) t i = None"
  defines "V' \<equiv> V(t := (V t)(i := e))"
  shows "pt_wf acc l V' t" "tables l V' t = tables l V t"
    "pt_walk l V' t v = (if pt_index v l = i then (if pte_is_present e l then Some (l, e) else None) else pt_walk l V t v)"
proof -
  have ch: "child l V' t j = child l V t j" for j
    using i child_upd_other [of j i l V t e] unfolding V'_def by (cases "j = i") auto
  have "pt_wf acc l V' t \<and> tables l V' t = tables l V t \<and>
    pt_walk l V' t v = (if pt_index v l = i then (if pte_is_present e l then Some (l, e) else None) else pt_walk l V t v)"
  proof (cases l)
    case 0
    then show ?thesis using wf by (simp add: V'_def Let_def)
  next
    case (Suc k)
    have "V' p = V p" if "child (Suc k) V t j = Some c" "p \<in> tables k V c" for j c p
      using pt_wf_child(2) [OF wf [unfolded Suc] that(1)] that(2) by (auto simp: V'_def)
    then have cg: "tables k V' c = tables k V c" "pt_wf acc k V' c = pt_wf acc k V c" "pt_walk k V' c v = pt_walk k V c v"
      if "child (Suc k) V t j = Some c" for j c
      using that by (meson tables_cong, meson pt_wf_cong, meson pt_walk_cong)
    have ch': "child (Suc k) V' t j = child (Suc k) V t j" for j using ch Suc by simp
    have "pt_wf acc (Suc k) V' t" using wf unfolding Suc pt_wf.simps ch' by (simp add: cg cong: conj_cong imp_cong)
    moreover have "tables (Suc k) V' t = tables (Suc k) V t" unfolding set_eq_iff in_tables_Suc ch' using cg(1) by blast
    moreover have "pt_walk (Suc k) V' t v = (if pt_index v (Suc k) = i then (if pte_is_present e (Suc k) then Some (Suc k, e) else None)
        else pt_walk (Suc k) V t v)"
      unfolding pt_walk_Suc ch' using cg(3) i(1) Suc by (auto simp: V'_def Let_def split: option.splits)
    ultimately show ?thesis using Suc by simp
  qed
  then show "pt_wf acc l V' t" "tables l V' t = tables l V t"
    "pt_walk l V' t v = (if pt_index v l = i then (if pte_is_present e l then Some (l, e) else None) else pt_walk l V t v)"
    by auto
qed

lemma empty_table:
  assumes "\<And>i. \<not> pte_is_present (V t i) l"
  shows "tables l V t = {t}" "pt_walk l V t v = None" "t \<in> acc \<Longrightarrow> pt_wf acc l V t"
proof -
  have c: "child l V t i = None" for i using assms by (simp add: child_def)
  show "tables l V t = {t}" using c by (cases l) (auto simp: in_tables_Suc set_eq_iff)
  show "pt_walk l V t v = None"
  proof (cases l)
    case 0
    then show ?thesis using assms by (simp add: Let_def)
  next
    case (Suc k)
    then show ?thesis using assms c unfolding Suc pt_walk_Suc by (simp add: Let_def)
  qed
  show "t \<in> acc \<Longrightarrow> pt_wf acc l V t" using c by (cases l) (auto simp: pt_wf.simps)
qed

text \<open>A change confined to the tables below one entry, and to fresh frames.\<close>

lemma child_change:
  assumes wf: "pt_wf acc (Suc k) V t" and c: "child (Suc k) V t i = Some c"
    and wf': "pt_wf acc k V' c" and tab: "tables k V' c \<subseteq> tables k V c \<union> N" and fresh: "N \<inter> tables (Suc k) V t = {}"
    and same: "\<forall>p. p \<notin> tables k V c \<union> N \<longrightarrow> V' p = V p"
  shows "pt_wf acc (Suc k) V' t" "\<And>j. child (Suc k) V' t j = child (Suc k) V t j"
    "tables (Suc k) V' t \<subseteq> tables (Suc k) V t \<union> N"
    "pt_walk (Suc k) V' t v = (if pt_index v (Suc k) = i then pt_walk k V' c v else pt_walk (Suc k) V t v)"
proof -
  have "t \<notin> tables k V c" "t \<notin> N" using pt_wf_child(2) [OF wf c] fresh root_in_tables [of t "Suc k" V] by auto
  then have t: "V' t = V t" using same by blast
  show ch: "child (Suc k) V' t j = child (Suc k) V t j" for j by (rule child_cong) (rule t)
  have "V' p = V p" if "child (Suc k) V t j = Some d" "j \<noteq> i" "p \<in> tables k V d" for j d p
    using pt_wf_disjoint [OF wf c that(1)] that(2,3) fresh child_tables_subset [OF that(1)] same by blast
  then have cg: "tables k V' d = tables k V d" "pt_wf acc k V' d = pt_wf acc k V d" "pt_walk k V' d v = pt_walk k V d v"
    if "child (Suc k) V t j = Some d" "j \<noteq> i" for j d
    using that by (meson tables_cong, meson pt_wf_cong, meson pt_walk_cong)
  have sub: "tables k V' d \<subseteq> tables k V d \<union> N" if "child (Suc k) V t j = Some d" for j d
    using cg(1) [OF that] tab c that by (cases "j = i") auto
  show "tables (Suc k) V' t \<subseteq> tables (Suc k) V t \<union> N"
    unfolding subset_iff Un_iff in_tables_Suc ch using sub by blast
  show "pt_walk (Suc k) V' t v = (if pt_index v (Suc k) = i then pt_walk k V' c v else pt_walk (Suc k) V t v)"
    unfolding pt_walk_Suc ch using c cg(3) t by (auto split: option.splits)
  show "pt_wf acc (Suc k) V' t" unfolding pt_wf.simps ch
  proof (intro conjI allI impI)
    show "t \<in> acc" by (rule pt_wf_root [OF wf])
    fix j d assume d: "child (Suc k) V t j = Some d"
    show "pt_wf acc k V' d" using pt_wf_child(1) [OF wf d] cg(2) [OF d] wf' c d by (cases "j = i") auto
    show "t \<notin> tables k V' d" using sub [OF d] pt_wf_child(2) [OF wf d] \<open>t \<notin> N\<close> by blast
  next
    fix j j' d d' assume d: "j \<noteq> j'" "child (Suc k) V t j = Some d" "child (Suc k) V t j' = Some d'"
    have N: "N \<inter> tables k V x = {}" if "child (Suc k) V t y = Some x" for x y
      using child_tables_subset [OF that] fresh by blast
    have dis: "tables k V d \<inter> tables k V d' = {}" using pt_wf_disjoint [OF wf d(2,3,1)] .
    consider "j \<noteq> i" "j' \<noteq> i" | "j = i" "j' \<noteq> i" | "j' = i" "j \<noteq> i" using d(1) by blast
    then show "tables k V' d \<inter> tables k V' d' = {}"
    proof cases
      case 1
      then show ?thesis using cg(1) [OF d(2)] cg(1) [OF d(3)] dis by simp
    next
      case 2
      then show ?thesis using cg(1) [OF d(3)] sub [OF d(2)] dis N [OF d(3)] by blast
    next
      case 3
      then show ?thesis using cg(1) [OF d(2)] sub [OF d(3)] dis N [OF d(2)] by blast
    qed
  qed
qed

text \<open>Linking a fresh empty table into an entry that was not present.\<close>

lemma link_table:
  assumes wf: "pt_wf acc (Suc k) V t" and i: "i < 512" "\<not> pte_is_present (V t i) (Suc k)"
    and p: "p \<in> acc" "p < 2 ^ 40" "p \<notin> tables (Suc k) V t"
  defines "V' \<equiv> (V(p := (\<lambda>_. 0)))(t := (V t)(i := make_intermediate_pte (Suc k) p))"
  shows "pt_wf acc (Suc k) V' t" "child (Suc k) V' t i = Some p" "tables (Suc k) V' t \<subseteq> insert p (tables (Suc k) V t)"
    "tables k V' p = {p}" "pt_wf acc k V' p" "pt_walk (Suc k) V' t v = pt_walk (Suc k) V t v"
proof -
  have tp: "p \<noteq> t" using p(3) root_in_tables [of t "Suc k" V] by auto
  have "\<not> pte_is_present (V' p j) k" for j using tp by (simp add: V'_def pte_is_present_bit)
  note empty = empty_table [of V' p k, OF this]
  show tabp: "tables k V' p = {p}" and wfp: "pt_wf acc k V' p" using empty p(1) by auto
  have old: "child (Suc k) V t i = None" using i(2) by (simp add: child_def)
  have eq: "V' q = V q" if "q \<noteq> p" "q \<noteq> t" for q using that by (simp add: V'_def)
  show new: "child (Suc k) V' t i = Some p" using i(1) p(2) by (simp add: V'_def child_def)
  have ch: "child (Suc k) V' t j = child (Suc k) V t j" if "j \<noteq> i" for j using that by (simp add: V'_def child_def)
  have "V' q = V q" if "child (Suc k) V t j = Some d" "q \<in> tables k V d" for j d q
    using pt_wf_child(2) [OF wf that(1)] child_tables_subset [OF that(1)] p(3) that(2) by (intro eq) auto
  then have cg: "tables k V' d = tables k V d" "pt_wf acc k V' d = pt_wf acc k V d" "pt_walk k V' d v = pt_walk k V d v"
    if "child (Suc k) V t j = Some d" for j d
    using that by (meson tables_cong, meson pt_wf_cong, meson pt_walk_cong)
  have kids: "child (Suc k) V' t j = Some d \<longleftrightarrow> j = i \<and> d = p \<or> child (Suc k) V t j = Some d" for j d
    using new ch [of j] old by (cases "j = i") auto
  show "tables (Suc k) V' t \<subseteq> insert p (tables (Suc k) V t)"
    unfolding subset_iff insert_iff in_tables_Suc kids using cg(1) tabp by blast
  have other: "p \<notin> tables k V d" if "child (Suc k) V t j = Some d" for j d
    using child_tables_subset [OF that] p(3) by blast
  show "pt_wf acc (Suc k) V' t" unfolding pt_wf.simps kids
  proof (intro conjI allI impI)
    show "t \<in> acc" by (rule pt_wf_root [OF wf])
    fix j d assume d: "j = i \<and> d = p \<or> child (Suc k) V t j = Some d"
    show "pt_wf acc k V' d" using d wfp cg(2) [of j d] pt_wf_child(1) [OF wf, of j d] by auto
    show "t \<notin> tables k V' d" using d tabp tp cg(1) [of j d] pt_wf_child(2) [OF wf, of j d] by auto
  next
    fix j j' d d' assume "j \<noteq> j'" "j = i \<and> d = p \<or> child (Suc k) V t j = Some d"
      "j' = i \<and> d' = p \<or> child (Suc k) V t j' = Some d'"
    then consider "child (Suc k) V t j = Some d" "child (Suc k) V t j' = Some d'" "j \<noteq> j'"
      | "d = p" "child (Suc k) V t j' = Some d'" | "d' = p" "child (Suc k) V t j = Some d" by blast
    then show "tables k V' d \<inter> tables k V' d' = {}"
    proof cases
      case 1
      then show ?thesis using cg(1) pt_wf_disjoint [OF wf] by simp
    next
      case 2
      then show ?thesis using cg(1) other tabp by simp
    next
      case 3
      then show ?thesis using cg(1) other tabp by simp
    qed
  qed
  show "pt_walk (Suc k) V' t v = pt_walk (Suc k) V t v"
  proof (cases "pt_index v (Suc k) = i")
    case True
    then show ?thesis unfolding pt_walk_Suc using new old empty(2) i(2) by (simp add: Let_def)
  next
    case False
    then show ?thesis unfolding pt_walk_Suc ch [OF False] using cg(3) by (auto simp: V'_def split: option.splits)
  qed
qed

end
