(* ===== verification/Pt_Map.thy ===== *)
theory Pt_Map
  imports Pt_Spec
begin

text \<open>
  Correctness of \<open>PageTable::map\<close>. The relation \<open>map_rel\<close> says what a state of the walk over a table of level \<open>l\<close> has done since
  an earlier one: the pages between the two positions of the pointer are mapped as requested, every other page of
  the window translates as before, the tables still form a tree, and only frames of the tree or frames
  taken from the allocator have been written. It is closed under composition, every entry the closure handles
  extends it, and so the loops of all four levels do.
\<close>

section \<open>What a walk has mapped\<close>

definition maps_to :: "pfn \<Rightarrow> u8 \<Rightarrow> cache_mode \<Rightarrow> vpn \<Rightarrow> vpn \<Rightarrow> vpn \<Rightarrow> (nat \<times> u64) option \<Rightarrow> bool" where
  "maps_to phys perms mode base lim v w \<longleftrightarrow>
     (\<exists>l\<le>1. base \<le> entry_base l v \<and> entry_end l v \<le> lim \<and> w = Some (l, make_terminal_pte l (phys + (entry_base l v - base)) perms mode))"

locale pt_mapper = page_memory translate acc + page_table_alloc al ok pool
  for translate :: "pfn \<Rightarrow> vpn option" and acc :: "pfn set"
    and al :: "'a \<Rightarrow> ('a \<times> pfn result) option" and ok :: "'a \<Rightarrow> bool" and pool :: "'a \<Rightarrow> pfn set" +
  fixes phys :: pfn and perms :: u8 and mode :: cache_mode
  assumes pool_acc: "ok a \<Longrightarrow> pool a \<subseteq> acc" and pool_bound: "ok a \<Longrightarrow> p \<in> pool a \<Longrightarrow> p < 2 ^ 40"
begin

definition map_pre :: "nat \<Rightarrow> pfn \<Rightarrow> 'a pt_state \<Rightarrow> bool" where
  "map_pre l t s \<longleftrightarrow> ptr_ok (pt_ptr s) \<and> phys + mp_size (pt_ptr s) \<le> 2 ^ 40 \<and> ok (pt_env s) \<and>
     pt_wf acc l (view (pt_mem s)) t \<and> tables l (view (pt_mem s)) t \<inter> pool (pt_env s) = {}"

definition taken :: "'a pt_state \<Rightarrow> 'a pt_state \<Rightarrow> pfn set" where
  "taken s0 s = pool (pt_env s0) - pool (pt_env s)"

definition map_rel :: "nat \<Rightarrow> pfn \<Rightarrow> 'a pt_state \<Rightarrow> 'a pt_state \<Rightarrow> bool" where
  "map_rel l t s0 s \<longleftrightarrow>
     mp_base (pt_ptr s) = mp_base (pt_ptr s0) \<and> mp_size (pt_ptr s) = mp_size (pt_ptr s0) \<and>
     mp_offset (pt_ptr s0) \<le> mp_offset (pt_ptr s) \<and> virt (pt_ptr s) \<le> walk_end l (pt_ptr s0) \<and>
     ok (pt_env s) \<and> pool (pt_env s) \<subseteq> pool (pt_env s0) \<and>
     pt_wf acc l (view (pt_mem s)) t \<and>
     tables l (view (pt_mem s)) t \<subseteq> tables l (view (pt_mem s0)) t \<union> taken s0 s \<and>
     (\<forall>p. p \<notin> tables l (view (pt_mem s0)) t \<union> taken s0 s \<longrightarrow> view (pt_mem s) p = view (pt_mem s0) p) \<and>
     (\<forall>v. same_window l (virt (pt_ptr s0)) v \<longrightarrow>
        (if virt (pt_ptr s0) \<le> v \<and> v < virt (pt_ptr s)
         then maps_to phys perms mode (mp_base (pt_ptr s0)) (range_end (pt_ptr s0)) v (pt_walk l (view (pt_mem s)) t v) \<and>
           pt_walk l (view (pt_mem s0)) t v = None
         else pt_walk l (view (pt_mem s)) t v = pt_walk l (view (pt_mem s0)) t v))"

lemma map_rel_refl: "map_pre l t s \<Longrightarrow> map_rel l t s s"
  by (auto simp: map_rel_def map_pre_def taken_def ptr_ok_def intro!: walk_end_le)

lemma map_rel_pre: "map_pre l t s0 \<Longrightarrow> map_rel l t s0 s \<Longrightarrow> map_pre l t s"
  unfolding map_pre_def map_rel_def taken_def walk_end_def ptr_ok_def by auto

lemma map_rel_window:
  assumes "map_rel l t s0 s" "virt (pt_ptr s) < walk_end l (pt_ptr s0)"
  shows "same_window l (virt (pt_ptr s0)) (virt (pt_ptr s))" "walk_end l (pt_ptr s) = walk_end l (pt_ptr s0)"
proof -
  have "virt (pt_ptr s0) \<le> virt (pt_ptr s)" using assms(1) by (simp add: map_rel_def)
  then show w: "same_window l (virt (pt_ptr s0)) (virt (pt_ptr s))"
    using assms(2) by (simp add: same_window_iff walk_end_def)
  show "walk_end l (pt_ptr s) = walk_end l (pt_ptr s0)"
    using assms(1) same_window_end [OF w] by (simp add: walk_end_def map_rel_def)
qed

lemma map_rel_trans:
  assumes r: "map_rel l t s0 s1" "map_rel l t s1 s2" and lt: "virt (pt_ptr s1) < walk_end l (pt_ptr s0)"
  shows "map_rel l t s0 s2"
  unfolding map_rel_def
proof (intro conjI allI impI)
  note w = map_rel_window [OF r(1) lt]
  have tk: "taken s0 s2 = taken s0 s1 \<union> taken s1 s2" using r by (auto simp: map_rel_def taken_def)
  show "tables l (view (pt_mem s2)) t \<subseteq> tables l (view (pt_mem s0)) t \<union> taken s0 s2"
    using r unfolding map_rel_def tk by blast
  fix p assume "p \<notin> tables l (view (pt_mem s0)) t \<union> taken s0 s2"
  then have "p \<notin> tables l (view (pt_mem s0)) t \<union> taken s0 s1" "p \<notin> tables l (view (pt_mem s1)) t \<union> taken s1 s2"
    using r(1) unfolding map_rel_def tk by blast+
  then show "view (pt_mem s2) p = view (pt_mem s0) p" using r unfolding map_rel_def by metis
next
  note w = map_rel_window [OF r(1) lt]
  fix v assume v: "same_window l (virt (pt_ptr s0)) v"
  have v1: "same_window l (virt (pt_ptr s1)) v" using same_window_trans [OF w(1) v] .
  have o: "virt (pt_ptr s0) \<le> virt (pt_ptr s1)" "virt (pt_ptr s1) \<le> virt (pt_ptr s2)" using r by (auto simp: map_rel_def)
  have b: "mp_base (pt_ptr s1) = mp_base (pt_ptr s0)" "mp_size (pt_ptr s1) = mp_size (pt_ptr s0)" using r by (simp_all add: map_rel_def)
  from r(1) v have a0: "if virt (pt_ptr s0) \<le> v \<and> v < virt (pt_ptr s1)
         then maps_to phys perms mode (mp_base (pt_ptr s0)) (range_end (pt_ptr s0)) v (pt_walk l (view (pt_mem s1)) t v) \<and>
           pt_walk l (view (pt_mem s0)) t v = None
         else pt_walk l (view (pt_mem s1)) t v = pt_walk l (view (pt_mem s0)) t v" unfolding map_rel_def by blast
  from r(2) v1 have a1: "if virt (pt_ptr s1) \<le> v \<and> v < virt (pt_ptr s2)
         then maps_to phys perms mode (mp_base (pt_ptr s0)) (range_end (pt_ptr s0)) v (pt_walk l (view (pt_mem s2)) t v) \<and>
           pt_walk l (view (pt_mem s1)) t v = None
         else pt_walk l (view (pt_mem s2)) t v = pt_walk l (view (pt_mem s1)) t v" unfolding map_rel_def b by blast
  show "if virt (pt_ptr s0) \<le> v \<and> v < virt (pt_ptr s2)
         then maps_to phys perms mode (mp_base (pt_ptr s0)) (range_end (pt_ptr s0)) v (pt_walk l (view (pt_mem s2)) t v) \<and>
           pt_walk l (view (pt_mem s0)) t v = None
         else pt_walk l (view (pt_mem s2)) t v = pt_walk l (view (pt_mem s0)) t v"
  proof (cases "virt (pt_ptr s1) \<le> v")
    case True
    then show ?thesis using a0 a1 o by (cases "v < virt (pt_ptr s2)") simp_all
  next
    case False
    then show ?thesis using a0 a1 o by (cases "virt (pt_ptr s0) \<le> v") simp_all
  qed
next
  note w = map_rel_window [OF r(1) lt]
  show "virt (pt_ptr s2) \<le> walk_end l (pt_ptr s0)" using r(2) w(2) by (simp add: map_rel_def)
qed (use r in \<open>auto simp: map_rel_def\<close>)

end

section \<open>One entry\<close>

context pt_mapper
begin

lemma can_use_level_page_eq:
  assumes "map_pre l t s" "l \<le> 3"
  shows "can_use_level_page l (pt_ptr s) phys = Some (pc l dvd virt (pt_ptr s) \<and> virt (pt_ptr s) + pc l \<le> range_end (pt_ptr s)
    \<and> pc l dvd phys + mp_offset (pt_ptr s))"
proof -
  have p: "ptr_ok (pt_ptr s)" "phys + mp_offset (pt_ptr s) < USIZE_LIM"
    using assms(1) by (auto simp: map_pre_def ptr_ok_def USIZE_LIM_def)
  then show ?thesis using assms(2)
    by (auto simp: can_use_level_page_def covers_level_entry_eq uadd_def aligned_for_level_eq)
qed

text \<open>An aligned entry is mapped in one piece, if it is empty.\<close>

lemma map_terminal_spec:
  assumes pre: "map_pre l t s" and l: "l \<le> 1" and al: "pc l dvd virt (pt_ptr s)" and fits: "virt (pt_ptr s) + pc l \<le> range_end (pt_ptr s)"
  shows "(\<exists>s'. map_terminal translate t l phys perms mode s = Some (Inr (), s') \<and> map_rel l t s s' \<and> virt (pt_ptr s) < virt (pt_ptr s'))
    \<or> map_terminal translate t l phys perms mode s = Some (Inl RESOURCE_OVERLAP, s)"
proof -
  let ?p = "pt_ptr s" and ?V = "view (pt_mem s)" let ?v = "virt ?p" let ?i = "pt_index ?v l"
  let ?f = "phys + mp_offset ?p" let ?e = "make_terminal_pte l ?f perms mode"
  have "(0::nat) < pc l" by simp
  then have "mp_offset ?p < mp_size ?p" using fits by linarith
  then have p: "ptr_ok ?p" and wf: "pt_wf acc l ?V t" and f: "?f < 2 ^ 40" "?f < USIZE_LIM"
    using pre by (auto simp: map_pre_def USIZE_LIM_def)
  have t: "t \<in> acc" by (rule pt_wf_root [OF wf])
  show ?thesis
  proof (cases "pte_is_present (?V t ?i) l")
    case True
    then show ?thesis using p t by (simp add: map_terminal_def mp_virt_eq pt_get_eq index_less)
  next
    case False
    obtain m where m: "pt_set translate (pt_mem s) t ?i ?e = Some m" "view m = ?V(t := (?V t)(?i := ?e))"
      using pt_set_eq [OF t index_less] by blast
    let ?s = "s\<lparr>pt_mem := m, pt_ptr := ?p\<lparr>mp_offset := mp_offset ?p + pc l\<rparr>\<rparr>"
    have run: "map_terminal translate t l phys perms mode s = Some (Inr (), ?s)"
      using p t False f l m(1) level_page_count_eq [of l] advance_eq(1) [OF p fits]
      by (simp add: map_terminal_def mp_virt_eq pt_get_eq index_less uadd_def)
    have ch: "child l ?V t ?i = None" "child l (?V(t := (?V t)(?i := ?e))) t ?i = None"
      using False f(1) by (simp_all add: child_def)
    note leaf = set_leaf [OF wf ch]
    have base: "entry_base l ?v = ?v" by (rule aligned_entry_base [OF al])
    have fend: "?v + pc l = entry_end l ?v" using entry_bounds(3) [of l ?v] base by simp
    have "?v + pc l \<le> walk_end l ?p" using fits entry_end_le_window [of l ?v] fend by (simp add: walk_end_def)
    moreover have "if ?v \<le> v \<and> v < ?v + pc l
        then maps_to phys perms mode (mp_base ?p) (range_end ?p) v (pt_walk l (view m) t v) \<and> pt_walk l ?V t v = None
        else pt_walk l (view m) t v = pt_walk l ?V t v" if w: "same_window l ?v v" for v
    proof -
      have ix: "pt_index v l = ?i \<longleftrightarrow> ?v \<le> v \<and> v < ?v + pc l"
        using pt_index_eq_iff [OF w] entry_iff [of v l ?v] base fend by auto
      have "entry_base l v = ?v" "entry_end l v \<le> range_end ?p" if "?v \<le> v" "v < ?v + pc l"
        using entry_iff [of v l ?v] that base fend fits unfolding entry_base_def entry_end_def by auto
      moreover have "pt_walk l ?V t v = None" if "pt_index v l = ?i"
        using False ch(1) that by (cases l) (simp_all add: pt_walk_Suc Let_def)
      ultimately show ?thesis unfolding m(2) leaf(3) using f(1) l ix by (auto simp: maps_to_def)
    qed
    moreover have "pt_wf acc l (view m) t" "tables l (view m) t = tables l ?V t" using leaf(1,2) m(2) by simp_all
    moreover have "view m q = ?V q" if "q \<notin> tables l ?V t" for q
      using that root_in_tables [of t l ?V] unfolding m(2) by (metis fun_upd_apply)
    ultimately have "map_rel l t s ?s"
      using pre unfolding map_rel_def map_pre_def taken_def by (simp add: add.assoc)
    with run show ?thesis by (intro disjI1 exI [of _ ?s]) simp
  qed
qed

text \<open>The next table is there already, or a fresh one is linked; no translation changes.\<close>

lemma next_table_or_create_spec:
  assumes pre: "map_pre (Suc k) t s" and lt: "virt (pt_ptr s) < range_end (pt_ptr s)"
  defines "i \<equiv> pt_index (virt (pt_ptr s)) (Suc k)"
  shows "case next_table_or_create translate al t i (Suc k) s of
      None \<Rightarrow> \<exists>a. ok a \<and> al a = None
    | Some (Inl e, s') \<Rightarrow> map_rel (Suc k) t s s' \<and> pt_ptr s' = pt_ptr s \<and> (e = RESOURCE_OVERLAP \<or> (\<exists>a a'. ok a \<and> al a = Some (a', Inl e)))
    | Some (Inr c, s') \<Rightarrow> map_rel (Suc k) t s s' \<and> child (Suc k) (view (pt_mem s')) t i = Some c \<and> pt_ptr s' = pt_ptr s"
proof -
  let ?V = "view (pt_mem s)"
  have wf: "pt_wf acc (Suc k) ?V t" and ok: "ok (pt_env s)" and dis: "tables (Suc k) ?V t \<inter> pool (pt_env s) = {}"
    using pre by (auto simp: map_pre_def)
  have t: "t \<in> acc" by (rule pt_wf_root [OF wf])
  have i: "i < 512" by (simp add: i_def index_less)
  have end_ge: "virt (pt_ptr s) \<le> walk_end (Suc k) (pt_ptr s)" using lt by (intro walk_end_le) simp
  note nt = next_table_eq [OF t i, of "pt_mem s" "Suc k"]
  show ?thesis
  proof (cases "child (Suc k) ?V t i")
    case (Some c)
    then show ?thesis using nt map_rel_refl [OF pre] by (simp add: next_table_or_create_def)
  next
    case None
    show ?thesis
    proof (cases "pte_is_present (?V t i) (Suc k)")
      case True
      then show ?thesis using nt None map_rel_refl [OF pre] by (simp add: next_table_or_create_def)
    next
      case False
      show ?thesis
      proof (cases "al (pt_env s)")
        case fail: None
        then show ?thesis using nt None False ok by (auto simp: next_table_or_create_def)
      next
        case (Some ar)
        obtain a r where ar: "ar = (a, r)" by (cases ar)
        have al: "al (pt_env s) = Some (a, r)" using Some ar by simp
        have oka: "ok a" "pool a \<subseteq> pool (pt_env s)" using allocate_ok [OF ok al] pool_shrinks [OF ok al] by auto
        show ?thesis
        proof (cases r)
          case (Inl e)
          have "map_rel (Suc k) t s (s\<lparr>pt_env := a\<rparr>)" using wf oka end_ge by (auto simp: map_rel_def taken_def)
          then show ?thesis using nt None False ok al Inl by (auto simp: next_table_or_create_def)
        next
          case (Inr p)
          have pp: "p \<in> pool (pt_env s)" "p \<notin> pool a" using allocate_Inr [OF ok] al Inr by auto
          then have p: "p \<in> acc" "p < 2 ^ 40" "p \<notin> tables (Suc k) ?V t"
            using pool_acc [OF ok] pool_bound [OF ok] dis by auto
          obtain m1 where m1: "clear_table translate (pt_mem s) p = Some m1" "view m1 = ?V(p := (\<lambda>_. 0))"
            using clear_table_eq [OF p(1)] by blast
          obtain m2 where m2: "pt_set translate m1 t i (make_intermediate_pte (Suc k) p) = Some m2"
            "view m2 = (view m1)(t := (view m1 t)(i := make_intermediate_pte (Suc k) p))"
            using pt_set_eq [OF t i] by blast
          have tp: "t \<noteq> p" using p(3) root_in_tables [of t "Suc k" ?V] by auto
          have V2: "view m2 = (?V(p := (\<lambda>_. 0)))(t := (?V t)(i := make_intermediate_pte (Suc k) p))"
            unfolding m2(2) m1(2) using tp by simp
          note lk = link_table [OF wf i False p]
          have "map_rel (Suc k) t s (s\<lparr>pt_mem := m2, pt_env := a\<rparr>)"
            unfolding map_rel_def using oka lk(1,3,6) end_ge pp root_in_tables [of t "Suc k" ?V] by (auto simp: taken_def V2)
          then show ?thesis using nt None False al Inr m1(1) m2(1) lk(2)
            by (simp add: next_table_or_create_def V2)
        qed
      qed
    qed
  qed
qed

end

section \<open>The recursion\<close>

context pt_mapper
begin

text \<open>What the walk over a table below entry \<open>i\<close> has done, it has done to the table itself.\<close>

lemma map_rel_child:
  assumes pre: "map_pre (Suc k) t s" and c: "child (Suc k) (view (pt_mem s)) t (pt_index (virt (pt_ptr s)) (Suc k)) = Some c"
    and r: "map_rel k c s s'"
  shows "map_rel (Suc k) t s s'"
proof -
  let ?V = "view (pt_mem s)" and ?V' = "view (pt_mem s')" and ?v = "virt (pt_ptr s)"
  have wf: "pt_wf acc (Suc k) ?V t" and dis: "tables (Suc k) ?V t \<inter> pool (pt_env s) = {}"
    using pre by (auto simp: map_pre_def)
  have fresh: "taken s s' \<inter> tables (Suc k) ?V t = {}" using dis by (auto simp: taken_def)
  have wf': "pt_wf acc k ?V' c" and tab: "tables k ?V' c \<subseteq> tables k ?V c \<union> taken s s'"
    and same: "\<forall>p. p \<notin> tables k ?V c \<union> taken s s' \<longrightarrow> ?V' p = ?V p"
    and walk: "\<And>v. same_window k ?v v \<Longrightarrow> if ?v \<le> v \<and> v < virt (pt_ptr s')
         then maps_to phys perms mode (mp_base (pt_ptr s)) (range_end (pt_ptr s)) v (pt_walk k ?V' c v) \<and> pt_walk k ?V c v = None
         else pt_walk k ?V' c v = pt_walk k ?V c v"
    and le: "virt (pt_ptr s') \<le> walk_end k (pt_ptr s)" "mp_offset (pt_ptr s) \<le> mp_offset (pt_ptr s')"
      "mp_base (pt_ptr s') = mp_base (pt_ptr s)" "mp_size (pt_ptr s') = mp_size (pt_ptr s)"
    using r unfolding map_rel_def by blast+
  note cc = child_change [OF wf c wf' tab fresh same]
  have we: "window_end k ?v = entry_end (Suc k) ?v" by (rule window_entry)
  note end_le = walk_end_mono [of k "pt_ptr s"]
  have frame: "?V' p = ?V p" if "p \<notin> tables (Suc k) ?V t \<union> taken s s'" for p
    using that child_tables_subset [OF c] same by blast
  have "if ?v \<le> v \<and> v < virt (pt_ptr s')
         then maps_to phys perms mode (mp_base (pt_ptr s)) (range_end (pt_ptr s)) v (pt_walk (Suc k) ?V' t v) \<and>
           pt_walk (Suc k) ?V t v = None
         else pt_walk (Suc k) ?V' t v = pt_walk (Suc k) ?V t v" if w: "same_window (Suc k) ?v v" for v
  proof (cases "pt_index v (Suc k) = pt_index ?v (Suc k)")
    case True
    then have "same_window k ?v v"
      using pt_index_eq_iff [OF w] unfolding same_entry_same_window [symmetric] by metis
    moreover have "pt_walk (Suc k) ?V t v = pt_walk k ?V c v" using c True by (simp add: pt_walk_Suc)
    ultimately show ?thesis unfolding cc(4) using walk [of v] True by simp
  next
    case False
    then have "\<not> (?v \<le> v \<and> v < entry_end (Suc k) ?v)"
      using pt_index_eq_iff [OF w] entry_iff [of v "Suc k" ?v] entry_bounds(1) [of "Suc k" ?v] by (metis le_trans)
    moreover have "virt (pt_ptr s') \<le> entry_end (Suc k) ?v" using le(1) unfolding walk_end_def we by simp
    ultimately show ?thesis unfolding cc(4) using False by auto
  qed
  then show ?thesis
    using r cc(1,3) frame end_le le unfolding map_rel_def by (meson le_trans)
qed

definition panicked :: bool where
  "panicked \<longleftrightarrow> (\<exists>a. ok a \<and> al a = None)"

definition map_error :: "error \<Rightarrow> bool" where
  "map_error e \<longleftrightarrow> e = RESOURCE_OVERLAP \<or> (\<exists>a a'. ok a \<and> al a = Some (a', Inl e))"

definition map_result :: "nat \<Rightarrow> pfn \<Rightarrow> 'a pt_state \<Rightarrow> (unit result \<times> 'a pt_state) option \<Rightarrow> bool" where
  "map_result l t s res \<longleftrightarrow> (case res of None \<Rightarrow> panicked
     | Some (r, s') \<Rightarrow> map_rel l t s s' \<and>
         (case r of Inl e \<Rightarrow> map_error e \<and> virt (pt_ptr s') < walk_end l (pt_ptr s)
            | Inr _ \<Rightarrow> virt (pt_ptr s') = walk_end l (pt_ptr s)))"

lemma map_body_spec:
  assumes pre: "map_pre l t s" and l: "l \<le> 3" and lt: "virt (pt_ptr s) < range_end (pt_ptr s)"
    and rec: "\<And>k c s'. l = Suc k \<Longrightarrow> map_pre k c s' \<Longrightarrow> virt (pt_ptr s') < range_end (pt_ptr s') \<Longrightarrow> map_result k c s' (rec c s')"
  shows "case map_body translate al phys perms mode l rec t s of None \<Rightarrow> panicked
    | Some (r, s') \<Rightarrow> map_rel l t s s' \<and> (case r of Inl e \<Rightarrow> map_error e \<and> virt (pt_ptr s') < walk_end l (pt_ptr s)
        | Inr _ \<Rightarrow> virt (pt_ptr s) < virt (pt_ptr s'))"
proof -
  note use = can_use_level_page_eq [OF pre l]
  let ?p = "pt_ptr s"
  have gt: "virt ?p < walk_end j ?p" for j using lt window_end_gt [of "virt ?p" j] by (simp add: walk_end_def)
  show ?thesis
  proof (cases "supports_page_size l \<and> pc l dvd virt ?p \<and> virt ?p + pc l \<le> range_end ?p \<and> pc l dvd phys + mp_offset ?p")
    case True
    then have "l \<le> 1" by (auto simp: supports_page_size_def)
    from map_terminal_spec [OF pre this] True show ?thesis
      using map_rel_refl [OF pre] gt [of l] by (auto simp: map_body_def use map_error_def)
  next
    case False
    then have body: "map_body translate al phys perms mode l rec t s = do {
       (n, s') \<leftarrow> next_table_or_create translate al t (pt_index (virt ?p) l) l s;
       case n of Inl e \<Rightarrow> Some (Inl e, s') | Inr next \<Rightarrow> rec next s' }"
      using pre by (auto simp: map_body_def use mp_virt_eq map_pre_def)
    have "l \<noteq> 0"
    proof
      assume "l = 0"
      with False lt show False by (simp add: supports_page_size_def)
    qed
    then obtain k where k: "l = Suc k" by (cases l) auto
    note nt = next_table_or_create_spec [OF pre [unfolded k] lt, folded k]
    show ?thesis
    proof (cases "next_table_or_create translate al t (pt_index (virt ?p) l) l s")
      case None
      then show ?thesis using nt by (simp add: body panicked_def)
    next
      case (Some ns)
      obtain n s1 where ns: "ns = (n, s1)" by (cases ns)
      show ?thesis
      proof (cases n)
        case (Inl e)
        then show ?thesis using nt Some ns gt [of l] by (auto simp: body map_error_def)
      next
        case (Inr c)
        with nt Some ns have r1: "map_rel l t s s1" and cl: "child l (view (pt_mem s1)) t (pt_index (virt ?p) l) = Some c"
          and ptr: "pt_ptr s1 = ?p" by auto
        note c = cl [unfolded k]
        have pre1: "map_pre (Suc k) t s1" using map_rel_pre [OF pre r1] k by simp
        have prec: "map_pre k c s1"
          using pre1 pt_wf_child(1) [OF _ c] child_tables_subset [OF c] unfolding map_pre_def by blast
        have "map_result k c s1 (rec c s1)" using rec [OF k prec] lt ptr by simp
        then show ?thesis
        proof (cases "rec c s1")
          case None
          with \<open>map_result k c s1 (rec c s1)\<close> show ?thesis using Some ns Inr by (simp add: body map_result_def)
        next
          case rs: (Some rs)
          obtain r s2 where r2: "rs = (r, s2)" by (cases rs)
          with rs \<open>map_result k c s1 (rec c s1)\<close> have m: "map_rel k c s1 s2"
            "case r of Inl e \<Rightarrow> map_error e \<and> virt (pt_ptr s2) < walk_end k (pt_ptr s1) | Inr _ \<Rightarrow> virt (pt_ptr s2) = walk_end k (pt_ptr s1)" by (auto simp: map_result_def)
          have "map_rel (Suc k) t s1 s2" using map_rel_child [OF pre1 _ m(1)] c ptr by simp
          then have "map_rel l t s s2" using map_rel_trans [OF r1] ptr k gt by simp
          moreover have "walk_end k ?p \<le> walk_end l ?p" using k walk_end_mono [of k ?p] by simp
          ultimately show ?thesis using Some ns Inr rs r2 m(2) gt [of k] ptr by (auto simp: body split: sum.splits)
        qed
      qed
    qed
  qed
qed

lemma walk_level_map:
  assumes pre: "map_pre l t s" and l: "l \<le> 3" and lt: "virt (pt_ptr s) < range_end (pt_ptr s)"
    and body: "\<And>s. map_pre l t s \<Longrightarrow> virt (pt_ptr s) < range_end (pt_ptr s) \<Longrightarrow>
      case f s of None \<Rightarrow> panicked
    | Some (r, s') \<Rightarrow> map_rel l t s s' \<and> (case r of Inl e \<Rightarrow> map_error e \<and> virt (pt_ptr s') < walk_end l (pt_ptr s)
        | Inr _ \<Rightarrow> virt (pt_ptr s) < virt (pt_ptr s'))"
  shows "map_result l t s (walk_level l f s)"
proof -
  let ?mx = "walk_end l (pt_ptr s)"
  have p: "ptr_ok (pt_ptr s)" using pre by (simp add: map_pre_def)
  have "case walk_loop f ?mx s of None \<Rightarrow> panicked
    | Some (r, s') \<Rightarrow> (case r of Inl e \<Rightarrow> map_rel l t s s' \<and> map_error e \<and> virt (pt_ptr s') < ?mx
        | Inr _ \<Rightarrow> map_rel l t s s' \<and> ?mx \<le> virt (pt_ptr s'))"
  proof (rule walk_loop_rule)
    show "map_rel l t s s" by (rule map_rel_refl [OF pre])
    show "ptr_ok (pt_ptr s1)" if "map_rel l t s s1" for s1
      using map_rel_pre [OF pre that] by (simp add: map_pre_def)
    fix s1 assume r: "map_rel l t s s1" and lt1: "virt (pt_ptr s1) < ?mx"
    have pre1: "map_pre l t s1" by (rule map_rel_pre [OF pre r])
    have "virt (pt_ptr s1) < range_end (pt_ptr s1)" using lt1 r by (auto simp: walk_end_def map_rel_def)
    from body [OF pre1 this] show "case f s1 of None \<Rightarrow> panicked
      | Some (x, s') \<Rightarrow> (case x of Inl e \<Rightarrow> map_rel l t s s' \<and> map_error e \<and> virt (pt_ptr s') < ?mx
          | Inr _ \<Rightarrow> map_rel l t s s' \<and> virt (pt_ptr s1) < virt (pt_ptr s'))"
      unfolding map_rel_window(2) [OF r lt1] using map_rel_trans [OF r _ lt1] by (auto split: option.splits sum.splits)
  qed
  then show ?thesis unfolding walk_level_eq [OF p l] walk_end_def [symmetric] map_result_def
    by (auto simp: map_rel_def split: option.splits sum.splits)
qed

lemma inner_map_spec:
  "l \<le> 3 \<Longrightarrow> map_pre l t s \<Longrightarrow> virt (pt_ptr s) < range_end (pt_ptr s) \<Longrightarrow>
    map_result l t s (inner_map l translate al phys perms mode t s)"
proof (induction l arbitrary: t s)
  case 0
  show ?case unfolding inner_map.simps
    by (rule walk_level_map [OF 0(2,1,3)]) (rule map_body_spec, simp_all)
next
  case (Suc l)
  show ?case unfolding inner_map.simps
  proof (rule walk_level_map [OF Suc.prems(2,1,3)], rule map_body_spec)
    fix k c s' assume "Suc l = Suc k" "map_pre k c s'" "virt (pt_ptr s') < range_end (pt_ptr s')"
    then show "map_result k c s' (inner_map l translate al phys perms mode c s')" using Suc.IH Suc.prems(1) by simp
  qed (use Suc.prems(1) in simp_all)
qed

end

section \<open>Properties\<close>

lemma maps_to_translate:
  assumes "maps_to phys perms mode base lim v w" "phys + (v - base) < 2 ^ 40" "base \<le> v"
  shows "\<exists>l e. w = Some (l, e) \<and> get_pte_frame e l + v mod pc l = phys + (v - base) \<and>
    e = make_terminal_pte l (get_pte_frame e l) perms mode"
proof -
  from assms(1) obtain l where l: "base \<le> entry_base l v"
    "w = Some (l, make_terminal_pte l (phys + (entry_base l v - base)) perms mode)" by (auto simp: maps_to_def)
  have "entry_base l v + v mod pc l = v" unfolding entry_base_def by (rule div_mult_mod_eq)
  moreover have "phys + (entry_base l v - base) < 2 ^ 40" using assms(2) entry_bounds(1) [of l v] by linarith
  ultimately show ?thesis using l by simp
qed

lemma pt_map_run:
  assumes loc: "pt_mapper tr acc al ok pool" and total: "\<forall>a. ok a \<longrightarrow> al a \<noteq> None"
    and range: "0 < sz" "base + sz \<le> 2 ^ 52" "base + sz \<le> window_end 3 base" "phys + sz \<le> 2 ^ 40"
    and pre: "ok a" "pt_wf acc 3 (view_of tr acc m) root" "tables 3 (view_of tr acc m) root \<inter> pool a = {}"
  obtains r s where "pt_map tr al root phys perms mode \<lparr>pt_mem = m, pt_ptr = mp_new base sz, pt_env = a\<rparr> = Some (r, s)"
    "mp_offset (pt_ptr s) \<le> sz" "r = Inr () \<longleftrightarrow> mp_offset (pt_ptr s) = sz" "pt_wf acc 3 (view_of tr acc (pt_mem s)) root"
    "\<forall>v. same_window 3 base v \<longrightarrow> (if base \<le> v \<and> v < base + mp_offset (pt_ptr s)
      then maps_to phys perms mode base (base + sz) v (pt_walk 3 (view_of tr acc (pt_mem s)) root v) \<and>
        pt_walk 3 (view_of tr acc m) root v = None
      else pt_walk 3 (view_of tr acc (pt_mem s)) root v = pt_walk 3 (view_of tr acc m) root v)"
    "\<forall>p. p \<notin> tables 3 (view_of tr acc m) root \<union> pool a \<longrightarrow> view_of tr acc (pt_mem s) p = view_of tr acc m p"
proof -
  let ?s0 = "\<lparr>pt_mem = m, pt_ptr = mp_new base sz, pt_env = a\<rparr>"
  have p0: "pt_mapper.map_pre tr acc ok pool phys 3 root ?s0"
    using range pre unfolding pt_mapper.map_pre_def [OF loc] by (simp add: mp_new_def ptr_ok_def)
  have lt: "virt (pt_ptr ?s0) < range_end (pt_ptr ?s0)" using range(1) by (simp add: mp_new_def)
  have mr: "pt_mapper.map_result tr acc al ok pool phys perms mode 3 root ?s0 (pt_map tr al root phys perms mode ?s0)"
    unfolding pt_map_def PT_LEVEL_COUNT_def using pt_mapper.inner_map_spec [OF loc _ p0 lt] by simp
  have "\<not> pt_mapper.panicked al ok" using total by (simp add: pt_mapper.panicked_def [OF loc])
  then obtain r s where run: "pt_map tr al root phys perms mode ?s0 = Some (r, s)"
    using mr unfolding pt_mapper.map_result_def [OF loc] by (cases "pt_map tr al root phys perms mode ?s0") auto
  have rel: "pt_mapper.map_rel tr acc ok pool phys perms mode 3 root ?s0 s"
    using mr unfolding run by (simp add: pt_mapper.map_result_def [OF loc])
  have res: "case r of Inl e \<Rightarrow> virt (pt_ptr s) < walk_end 3 (mp_new base sz) | Inr _ \<Rightarrow> virt (pt_ptr s) = walk_end 3 (mp_new base sz)"
    using mr unfolding run by (cases r) (simp_all add: pt_mapper.map_result_def [OF loc])
  have me: "walk_end 3 (mp_new base sz) = base + sz" using range(3) by (simp add: walk_end_def mp_new_def)
  note rel' = rel [unfolded pt_mapper.map_rel_def [OF loc], simplified, unfolded mp_new_def, simplified]
  have b: "virt (pt_ptr s) = base + mp_offset (pt_ptr s)" "mp_offset (pt_ptr s) \<le> sz" using rel' me by (auto simp: mp_new_def)
  have ok_iff: "r = Inr () \<longleftrightarrow> mp_offset (pt_ptr s) = sz" using res me b by (cases r) auto
  have walk: "if base \<le> v \<and> v < base + mp_offset (pt_ptr s)
      then maps_to phys perms mode base (base + sz) v (pt_walk 3 (view_of tr acc (pt_mem s)) root v) \<and>
        pt_walk 3 (view_of tr acc m) root v = None
      else pt_walk 3 (view_of tr acc (pt_mem s)) root v = pt_walk 3 (view_of tr acc m) root v"
    if "same_window 3 base v" for v
  proof -
    have "if virt (pt_ptr ?s0) \<le> v \<and> v < virt (pt_ptr s)
        then maps_to phys perms mode (mp_base (pt_ptr ?s0)) (range_end (pt_ptr ?s0)) v (pt_walk 3 (view_of tr acc (pt_mem s)) root v) \<and>
          pt_walk 3 (view_of tr acc (pt_mem ?s0)) root v = None
        else pt_walk 3 (view_of tr acc (pt_mem s)) root v = pt_walk 3 (view_of tr acc (pt_mem ?s0)) root v"
      if "same_window 3 (virt (pt_ptr ?s0)) v"
      using rel that unfolding pt_mapper.map_rel_def [OF loc] by blast
    with that b(1) show ?thesis by (simp add: mp_new_def cong: if_cong)
  qed
  have frame: "view_of tr acc (pt_mem s) p = view_of tr acc m p" if "p \<notin> tables 3 (view_of tr acc m) root \<union> pool a" for p
    using rel' that by (auto simp: pt_mapper.taken_def [OF loc])
  have wf': "pt_wf acc 3 (view_of tr acc (pt_mem s)) root" using rel' by simp
  show thesis using that [OF run b(2) ok_iff wf'] walk frame by blast
qed

text \<open>
  C6. \<open>PageTable::map\<close> on a tree of tables, with an allocator that does not panic, always returns. It reports progress \<open>n\<close>, the whole range
  exactly when it succeeds. Afterwards page number \<open>i < n\<close> of the range translates to frame \<open>phys + i\<close> with exactly the requested
  permissions and cache bits, whatever mix of large and small pages was used, and was not mapped before; every other page of the
  address space translates as before, on errors too; the tables are still a tree; and no frame outside the
  tree and the allocator's pool has been touched.
\<close>

theorem pt_map_correct:
  assumes loc: "pt_mapper tr acc al ok pool" and total: "\<forall>a. ok a \<longrightarrow> al a \<noteq> None"
    and range: "0 < sz" "base + sz \<le> 2 ^ 52" "base + sz \<le> window_end 3 base" "phys + sz \<le> 2 ^ 40"
    and pre: "ok a" "pt_wf acc 3 (view_of tr acc m) root" "tables 3 (view_of tr acc m) root \<inter> pool a = {}"
  shows "\<exists>r s. pt_map tr al root phys perms mode \<lparr>pt_mem = m, pt_ptr = mp_new base sz, pt_env = a\<rparr> = Some (r, s) \<and>
    mp_offset (pt_ptr s) \<le> sz \<and> (r = Inr () \<longleftrightarrow> mp_offset (pt_ptr s) = sz) \<and>
    pt_wf acc 3 (view_of tr acc (pt_mem s)) root \<and>
    (\<forall>v. base \<le> v \<and> v < base + mp_offset (pt_ptr s) \<longrightarrow>
       (\<exists>l e. pt_walk 3 (view_of tr acc (pt_mem s)) root v = Some (l, e) \<and>
          get_pte_frame e l + v mod pc l = phys + (v - base) \<and> e = make_terminal_pte l (get_pte_frame e l) perms mode) \<and>
       pt_walk 3 (view_of tr acc m) root v = None) \<and>
    (\<forall>v. same_window 3 base v \<and> \<not> (base \<le> v \<and> v < base + mp_offset (pt_ptr s)) \<longrightarrow>
       pt_walk 3 (view_of tr acc (pt_mem s)) root v = pt_walk 3 (view_of tr acc m) root v) \<and>
    (\<forall>p. p \<notin> tables 3 (view_of tr acc m) root \<union> pool a \<longrightarrow> view_of tr acc (pt_mem s) p = view_of tr acc m p)"
proof -
  obtain r s where run: "pt_map tr al root phys perms mode \<lparr>pt_mem = m, pt_ptr = mp_new base sz, pt_env = a\<rparr> = Some (r, s)"
    and le: "mp_offset (pt_ptr s) \<le> sz" and ok_iff: "r = Inr () \<longleftrightarrow> mp_offset (pt_ptr s) = sz"
    and wf: "pt_wf acc 3 (view_of tr acc (pt_mem s)) root"
    and walk: "\<forall>v. same_window 3 base v \<longrightarrow> (if base \<le> v \<and> v < base + mp_offset (pt_ptr s)
      then maps_to phys perms mode base (base + sz) v (pt_walk 3 (view_of tr acc (pt_mem s)) root v) \<and>
        pt_walk 3 (view_of tr acc m) root v = None
      else pt_walk 3 (view_of tr acc (pt_mem s)) root v = pt_walk 3 (view_of tr acc m) root v)"
    and frame: "\<forall>p. p \<notin> tables 3 (view_of tr acc m) root \<union> pool a \<longrightarrow> view_of tr acc (pt_mem s) p = view_of tr acc m p"
    by (rule pt_map_run [OF assms, where perms = perms and mode = mode])
  have inside: "same_window 3 base v" if "base \<le> v" "v < base + mp_offset (pt_ptr s)" for v
    using that le range(3) same_window_iff [OF that(1), of 3] by linarith
  have mapped: "\<exists>l e. pt_walk 3 (view_of tr acc (pt_mem s)) root v = Some (l, e) \<and>
      get_pte_frame e l + v mod pc l = phys + (v - base) \<and> e = make_terminal_pte l (get_pte_frame e l) perms mode"
    if "base \<le> v" "v < base + mp_offset (pt_ptr s)" for v
    using walk [rule_format, OF inside [OF that]] that le range(4) by (intro maps_to_translate [of _ _ _ _ "base + sz"]) auto
  have unmapped: "pt_walk 3 (view_of tr acc m) root v = None" if "base \<le> v" "v < base + mp_offset (pt_ptr s)" for v
    using walk [rule_format, OF inside [OF that]] that by simp
  show ?thesis using run le ok_iff wf mapped unmapped walk frame by (intro exI [of _ r] exI [of _ s]) auto
qed

definition bump_ok :: "bump_pt_alloc \<Rightarrow> bool" where
  "bump_ok b \<longleftrightarrow> bp_end b \<le> PHYS_MAP_MAX_PAGES"

interpretation bump_mapper: pt_mapper PhysmapPfnTranslator_translate "{..<PHYS_MAP_MAX_PAGES}" bump_allocate bump_ok bump_pool
  phys perms mode for phys perms mode
  by unfold_locales
    (auto simp: bump_allocate_def bump_pool_def bump_ok_def panic_simps layout_consts split: if_splits)

lemma bump_total: "bump_ok a \<Longrightarrow> bump_allocate a \<noteq> None"
  by (auto simp: bump_ok_def bump_allocate_def uadd_def layout_consts USIZE_LIM_def)

lemma zero_memory: "view_of tr acc (\<lambda>_. 0) = (\<lambda>_ _. 0)"
  by (simp add: view_of_def fun_eq_iff)

lemma zero_tables: "tables l (\<lambda>_ _. 0) t = {t}" "t \<in> acc \<Longrightarrow> pt_wf acc l (\<lambda>_ _. 0) t" "pt_walk l (\<lambda>_ _. 0) t v = None"
  by (rule empty_table(1), simp add: pte_is_present_bit) (rule empty_table(3), simp_all add: pte_is_present_bit empty_table(2))

theorem pt_map_correct_witness:
  "\<exists>r s. pt_map PhysmapPfnTranslator_translate bump_allocate 1 2048 PERM_READ Cached
     \<lparr>pt_mem = (\<lambda>_. 0), pt_ptr = mp_new 1000 600, pt_env = \<lparr>bp_cur = 16, bp_end = 32\<rparr>\<rparr> = Some (r, s) \<and>
     mp_offset (pt_ptr s) \<le> 600 \<and> (r = Inr () \<longleftrightarrow> mp_offset (pt_ptr s) = 600)"
proof -
  let ?V = "view_of PhysmapPfnTranslator_translate {..<PHYS_MAP_MAX_PAGES} (\<lambda>_. 0)" and ?a = "\<lparr>bp_cur = 16, bp_end = 32\<rparr>"
  have "bump_ok ?a" by (simp add: bump_ok_def layout_consts)
  moreover have "pt_wf {..<PHYS_MAP_MAX_PAGES} 3 ?V 1"
    unfolding zero_memory by (rule zero_tables) (simp add: layout_consts)
  moreover have "tables 3 ?V 1 \<inter> bump_pool ?a = {}" unfolding zero_memory by (simp add: zero_tables bump_pool_def)
  moreover have "\<forall>a. bump_ok a \<longrightarrow> bump_allocate a \<noteq> None" using bump_total by blast
  ultimately show ?thesis
    using pt_map_correct [OF bump_mapper.pt_mapper_axioms, of 600 1000 2048 ?a "\<lambda>_. 0" 1 PERM_READ Cached]
    by (simp add: window_end_def) blast
qed

end
