(* ===== verification/Pt_Update.thy ===== *)
theory Pt_Update
  imports Pt_Map
begin

text \<open>
  Correctness of \<open>PageTable::unmap\<close> and \<open>PageTable::protect\<close>, which share \<open>walk_update\<close>. Every entry that maps a page of the
  range is replaced by its update and reported for invalidation, and no other translation changes,
  provided the walk does not start in the middle of an absent entry of a higher level (\<open>start_ok\<close>): there the code skips
  a whole entry's worth of pages from the unaligned position and so passes over pages of the following
  entry. \<open>unmap_skips_mapped_page\<close> is a run in which a mapped page of the range survives.
\<close>

section \<open>What a walk has updated\<close>

primrec start_ok :: "nat \<Rightarrow> view \<Rightarrow> pfn \<Rightarrow> vpn \<Rightarrow> bool" where
  "start_ok 0 V t v = True"
| "start_ok (Suc l) V t v =
     (case child (Suc l) V t (pt_index v (Suc l)) of
        Some c \<Rightarrow> start_ok l V c v
      | None \<Rightarrow> pte_is_present (V t (pt_index v (Suc l))) (Suc l) \<or> pc (Suc l) dvd v)"

lemma aligned_start_ok: "pc l dvd v \<Longrightarrow> start_ok l V t v"
proof (induction l arbitrary: t)
  case (Suc l)
  have "pc l dvd pc (Suc l)" by (rule le_imp_power_dvd) simp
  then have "pc l dvd v" using Suc.prems by (rule dvd_trans)
  with Suc show ?case by (simp split: option.splits)
qed simp

text \<open>A page that is mapped is a good place to start.\<close>

lemma mapped_start_ok: "pt_walk l V t v \<noteq> None \<Longrightarrow> start_ok l V t v"
proof (induction l arbitrary: t)
  case (Suc l)
  then show ?case unfolding pt_walk_Suc by (auto simp: Let_def split: option.splits if_splits)
qed simp

definition updated :: "(vpn \<Rightarrow> u64 \<Rightarrow> nat \<Rightarrow> u64) \<Rightarrow> vpn \<Rightarrow> (nat \<times> u64) option \<Rightarrow> (nat \<times> u64) option" where
  "updated u v w = (case w of None \<Rightarrow> None
     | Some (l, e) \<Rightarrow> if pte_is_present (u (entry_base l v) e l) l then Some (l, u (entry_base l v) e l) else None)"

text \<open>The walk stops at a page inside a large page that the range does not cover.\<close>

definition blocked :: "nat \<Rightarrow> view \<Rightarrow> pfn \<Rightarrow> vpn \<Rightarrow> vpn \<Rightarrow> vpn \<Rightarrow> bool" where
  "blocked l V t start lim v \<longleftrightarrow>
     (\<exists>j e. pt_walk l V t v = Some (j, e) \<and> (v = start \<or> pc j dvd v) \<and> \<not> (pc j dvd v \<and> v + pc j \<le> lim))"

lemma pt_walk_level: "pt_walk l V t v = Some (j, e) \<Longrightarrow> j \<le> l"
proof (induction l arbitrary: t)
  case (Suc l)
  then show ?case unfolding pt_walk_Suc by (fastforce simp: Let_def split: option.splits if_splits)
qed (simp add: Let_def split: if_splits)

locale pt_updater = page_memory translate acc
  for translate :: "pfn \<Rightarrow> vpn option" and acc :: "pfn set" +
  fixes u :: "vpn \<Rightarrow> u64 \<Rightarrow> nat \<Rightarrow> u64" and gf :: "vpn \<Rightarrow> 'g \<Rightarrow> 'g"
  assumes u_absent: "\<not> pte_is_present e l \<Longrightarrow> \<not> pte_is_present (u v e l) l"
    and u_terminal: "pte_is_present e l \<Longrightarrow> pte_is_terminal e l \<Longrightarrow> pte_is_present (u v e l) l \<Longrightarrow> pte_is_terminal (u v e l) l"
begin

definition upd_pre :: "nat \<Rightarrow> pfn \<Rightarrow> 'g pt_state \<Rightarrow> bool" where
  "upd_pre l t s \<longleftrightarrow> ptr_ok (pt_ptr s) \<and> pt_wf acc l (view (pt_mem s)) t \<and>
     start_ok l (view (pt_mem s)) t (virt (pt_ptr s))"

definition upd_rel :: "nat \<Rightarrow> pfn \<Rightarrow> 'g pt_state \<Rightarrow> 'g pt_state \<Rightarrow> bool" where
  "upd_rel l t s0 s \<longleftrightarrow>
     mp_base (pt_ptr s) = mp_base (pt_ptr s0) \<and> mp_size (pt_ptr s) = mp_size (pt_ptr s0) \<and>
     mp_offset (pt_ptr s0) \<le> mp_offset (pt_ptr s) \<and> virt (pt_ptr s) \<le> walk_end l (pt_ptr s0) \<and>
     pt_wf acc l (view (pt_mem s)) t \<and>
     tables l (view (pt_mem s)) t = tables l (view (pt_mem s0)) t \<and>
     (\<forall>p. p \<notin> tables l (view (pt_mem s0)) t \<longrightarrow> view (pt_mem s) p = view (pt_mem s0) p) \<and>
     (\<forall>v. same_window l (virt (pt_ptr s0)) v \<longrightarrow>
        pt_walk l (view (pt_mem s)) t v =
          (if virt (pt_ptr s0) \<le> v \<and> v < virt (pt_ptr s) then updated u v (pt_walk l (view (pt_mem s0)) t v)
           else pt_walk l (view (pt_mem s0)) t v)) \<and>
     (\<exists>vs. pt_env s = fold gf vs (pt_env s0) \<and>
        (\<forall>v j e. virt (pt_ptr s0) \<le> v \<and> v < virt (pt_ptr s) \<and> pt_walk l (view (pt_mem s0)) t v = Some (j, e) \<longrightarrow>
           entry_base j v \<in> set vs))"

lemma upd_rel_refl: "upd_pre l t s \<Longrightarrow> upd_rel l t s s"
  unfolding upd_rel_def upd_pre_def ptr_ok_def by (auto intro!: walk_end_le exI [of _ "[]"])

lemma upd_rel_ok: "ptr_ok (pt_ptr s0) \<Longrightarrow> upd_rel l t s0 s \<Longrightarrow> ptr_ok (pt_ptr s)"
  by (simp add: upd_rel_def ptr_ok_def walk_end_def)

lemma upd_rel_le: "upd_rel l t s0 s \<Longrightarrow> virt (pt_ptr s) \<le> walk_end l (pt_ptr s0)"
  by (simp add: upd_rel_def)

lemma upd_rel_window:
  assumes "upd_rel l t s0 s" "virt (pt_ptr s) < walk_end l (pt_ptr s0)"
  shows "same_window l (virt (pt_ptr s0)) (virt (pt_ptr s))" "walk_end l (pt_ptr s) = walk_end l (pt_ptr s0)"
proof -
  have "virt (pt_ptr s0) \<le> virt (pt_ptr s)" using assms(1) by (simp add: upd_rel_def)
  then show w: "same_window l (virt (pt_ptr s0)) (virt (pt_ptr s))"
    using assms(2) by (simp add: same_window_iff walk_end_def)
  show "walk_end l (pt_ptr s) = walk_end l (pt_ptr s0)"
    using assms(1) same_window_end [OF w] by (simp add: walk_end_def upd_rel_def)
qed

lemma upd_rel_trans:
  assumes r: "upd_rel l t s0 s1" "upd_rel l t s1 s2" and lt: "virt (pt_ptr s1) < walk_end l (pt_ptr s0)"
  shows "upd_rel l t s0 s2"
  unfolding upd_rel_def
proof (intro conjI allI impI)
  fix p assume "p \<notin> tables l (view (pt_mem s0)) t"
  then show "view (pt_mem s2) p = view (pt_mem s0) p" using r unfolding upd_rel_def by metis
next
  note w = upd_rel_window [OF r(1) lt]
  fix v assume v: "same_window l (virt (pt_ptr s0)) v"
  have v1: "same_window l (virt (pt_ptr s1)) v" using same_window_trans [OF w(1) v] .
  have o: "virt (pt_ptr s0) \<le> virt (pt_ptr s1)" "virt (pt_ptr s1) \<le> virt (pt_ptr s2)" using r by (auto simp: upd_rel_def)
  from r(1) v have a0: "pt_walk l (view (pt_mem s1)) t v =
      (if virt (pt_ptr s0) \<le> v \<and> v < virt (pt_ptr s1) then updated u v (pt_walk l (view (pt_mem s0)) t v)
       else pt_walk l (view (pt_mem s0)) t v)" unfolding upd_rel_def by blast
  from r(2) v1 have a1: "pt_walk l (view (pt_mem s2)) t v =
      (if virt (pt_ptr s1) \<le> v \<and> v < virt (pt_ptr s2) then updated u v (pt_walk l (view (pt_mem s1)) t v)
       else pt_walk l (view (pt_mem s1)) t v)" unfolding upd_rel_def by blast
  show "pt_walk l (view (pt_mem s2)) t v =
      (if virt (pt_ptr s0) \<le> v \<and> v < virt (pt_ptr s2) then updated u v (pt_walk l (view (pt_mem s0)) t v)
       else pt_walk l (view (pt_mem s0)) t v)"
    unfolding a1 a0 using o by auto
next
  note w = upd_rel_window [OF r(1) lt]
  show "virt (pt_ptr s2) \<le> walk_end l (pt_ptr s0)" using r(2) w(2) by (simp add: upd_rel_def)
  have o: "virt (pt_ptr s0) \<le> virt (pt_ptr s1)" "virt (pt_ptr s2) \<le> walk_end l (pt_ptr s0)"
    using r w(2) by (auto simp: upd_rel_def)
  obtain vs where vs: "pt_env s1 = fold gf vs (pt_env s0)" "\<forall>v j e. virt (pt_ptr s0) \<le> v \<and> v < virt (pt_ptr s1) \<and>
      pt_walk l (view (pt_mem s0)) t v = Some (j, e) \<longrightarrow> entry_base j v \<in> set vs" using r(1) unfolding upd_rel_def by blast
  obtain ws where ws: "pt_env s2 = fold gf ws (pt_env s1)" "\<forall>v j e. virt (pt_ptr s1) \<le> v \<and> v < virt (pt_ptr s2) \<and>
      pt_walk l (view (pt_mem s1)) t v = Some (j, e) \<longrightarrow> entry_base j v \<in> set ws" using r(2) unfolding upd_rel_def by blast
  have "pt_walk l (view (pt_mem s1)) t v = pt_walk l (view (pt_mem s0)) t v"
    if "virt (pt_ptr s1) \<le> v" "v < virt (pt_ptr s2)" for v
  proof -
    have "same_window l (virt (pt_ptr s0)) v" using that o by (subst same_window_iff) (auto simp: walk_end_def)
    then show ?thesis using r(1) that unfolding upd_rel_def by auto
  qed
  then have "entry_base j v \<in> set (vs @ ws)" if "virt (pt_ptr s0) \<le> v" "v < virt (pt_ptr s2)"
    "pt_walk l (view (pt_mem s0)) t v = Some (j, e)" for v j e
    using that vs(2) ws(2) by (cases "v < virt (pt_ptr s1)") auto
  moreover have "pt_env s2 = fold gf (vs @ ws) (pt_env s0)" using vs(1) ws(1) by simp
  ultimately show "\<exists>vs. pt_env s2 = fold gf vs (pt_env s0) \<and> (\<forall>v j e. virt (pt_ptr s0) \<le> v \<and> v < virt (pt_ptr s2) \<and>
      pt_walk l (view (pt_mem s0)) t v = Some (j, e) \<longrightarrow> entry_base j v \<in> set vs)" by blast
qed (use r in \<open>auto simp: upd_rel_def\<close>)

end

section \<open>One entry\<close>

context pt_updater
begin

text \<open>Updating an entry that refers to no table, of level 0 or covering a large page.\<close>

lemma update_terminal_spec:
  assumes pre: "upd_pre l t s" and l: "l \<le> 3" and al: "pc l dvd virt (pt_ptr s)" and fits: "virt (pt_ptr s) + pc l \<le> range_end (pt_ptr s)"
    and leaf: "child l (view (pt_mem s)) t (pt_index (virt (pt_ptr s)) l) = None"
  shows "\<exists>s'. update_terminal translate gf u t l s = Some s' \<and> upd_rel l t s s' \<and> virt (pt_ptr s') = entry_end l (virt (pt_ptr s))"
proof -
  let ?p = "pt_ptr s" and ?V = "view (pt_mem s)" let ?v = "virt ?p" let ?i = "pt_index ?v l"
  let ?e = "u ?v (?V t ?i) l"
  have p: "ptr_ok ?p" and wf: "pt_wf acc l ?V t" using pre by (auto simp: upd_pre_def)
  have t: "t \<in> acc" by (rule pt_wf_root [OF wf])
  have leaf': "child l (?V(t := (?V t)(?i := ?e))) t ?i = None"
    using leaf u_absent [of "?V t ?i" l ?v] u_terminal [of "?V t ?i" l ?v] by (auto simp: child_def index_less split: if_splits)
  obtain m where m: "pt_set translate (pt_mem s) t ?i ?e = Some m" "view m = ?V(t := (?V t)(?i := ?e))"
    using pt_set_eq [OF t index_less] by blast
  let ?s = "s\<lparr>pt_mem := m, pt_ptr := ?p\<lparr>mp_offset := mp_offset ?p + pc l\<rparr>, pt_env := gf ?v (pt_env s)\<rparr>"
  have run: "update_terminal translate gf u t l s = Some ?s"
    using p t l m(1) level_page_count_eq [of l] advance_eq(1) [OF p fits]
    by (simp add: update_terminal_def mp_virt_eq pt_get_eq index_less)
  note sl = set_leaf [OF wf leaf leaf']
  have base: "entry_base l ?v = ?v" by (rule aligned_entry_base [OF al])
  have fend: "?v + pc l = entry_end l ?v" using entry_bounds(3) [of l ?v] base by simp
  have le: "?v + pc l \<le> walk_end l ?p" using fits entry_end_le_window [of l ?v] fend by (simp add: walk_end_def)
  have old: "pt_walk l ?V t v = (if pte_is_present (?V t ?i) l then Some (l, ?V t ?i) else None)" if "pt_index v l = ?i" for v
    using leaf that by (cases l) (simp_all add: pt_walk_Suc Let_def)
  have ix: "pt_index v l = ?i \<longleftrightarrow> ?v \<le> v \<and> v < ?v + pc l" if "same_window l ?v v" for v
    using pt_index_eq_iff [OF that] entry_iff [of v l ?v] base fend by auto
  have eb: "entry_base l v = ?v" if "?v \<le> v" "v < ?v + pc l" for v
    using entry_iff [of v l ?v] that base fend unfolding entry_base_def by auto
  have walk: "pt_walk l (view m) t v = (if ?v \<le> v \<and> v < ?v + pc l then updated u v (pt_walk l ?V t v) else pt_walk l ?V t v)"
    if w: "same_window l ?v v" for v
    unfolding m(2) sl(3) ix [OF w] using old [of v] ix [OF w] eb [of v] u_absent [of "?V t ?i" l ?v] by (auto simp: updated_def)
  have flush: "entry_base j v \<in> set [?v]" if v: "?v \<le> v" "v < ?v + pc l" and w: "pt_walk l ?V t v = Some (j, e)" for v j e
  proof -
    have "same_window l ?v v" using v le by (subst same_window_iff) (auto simp: walk_end_def)
    then have "j = l" using old [of v] ix [of v] v w by (auto split: if_splits)
    then show ?thesis using eb [OF v] by simp
  qed
  have "pt_wf acc l (view m) t" "tables l (view m) t = tables l ?V t" using sl(1,2) m(2) by simp_all
  moreover have "view m q = ?V q" if "q \<notin> tables l ?V t" for q
    using that root_in_tables [of t l ?V] unfolding m(2) by (metis fun_upd_apply)
  ultimately have "upd_rel l t s ?s"
    unfolding upd_rel_def using le walk flush by (intro conjI exI [of _ "[?v]"]) (simp_all add: add.assoc)
  with run fend show ?thesis by (intro exI [of _ ?s]) (simp add: add.assoc)
qed

text \<open>Skipping an aligned entry that is not present.\<close>

lemma skip_entry_spec:
  assumes pre: "upd_pre l t s" and l: "l \<le> 3" and al: "pc l dvd virt (pt_ptr s)"
    and absent: "\<not> pte_is_present (view (pt_mem s) t (pt_index (virt (pt_ptr s)) l)) l"
  defines "s' \<equiv> s\<lparr>pt_ptr := pt_ptr s\<lparr>mp_offset := min (mp_offset (pt_ptr s) + pc l) (mp_size (pt_ptr s))\<rparr>\<rparr>"
  shows "upd_rel l t s s' \<and> virt (pt_ptr s') = min (range_end (pt_ptr s)) (entry_end l (virt (pt_ptr s)))"
proof -
  let ?p = "pt_ptr s" and ?V = "view (pt_mem s)" let ?v = "virt ?p"
  have p: "ptr_ok ?p" and wf: "pt_wf acc l ?V t" using pre by (auto simp: upd_pre_def)
  have base: "entry_base l ?v = ?v" by (rule aligned_entry_base [OF al])
  have fend: "?v + pc l = entry_end l ?v" using entry_bounds(3) [of l ?v] base by simp
  have v': "virt (pt_ptr s') = min (range_end ?p) (entry_end l ?v)" using fend by (simp add: s'_def min_def)
  have le: "virt (pt_ptr s') \<le> walk_end l ?p" using v' entry_end_le_window [of l ?v] by (auto simp: walk_end_def)
  have none: "pt_walk l ?V t v = None" if "?v \<le> v" "v < virt (pt_ptr s')" for v
  proof -
    have "same_window l ?v v" using that le by (subst same_window_iff) (auto simp: walk_end_def)
    then have "pt_index v l = pt_index ?v l"
      using pt_index_eq_iff [of l ?v v] entry_iff [of v l ?v] that v' base by auto
    moreover have "child l ?V t (pt_index ?v l) = None" using absent by (simp add: child_def)
    ultimately show ?thesis using absent by (cases l) (simp_all add: pt_walk_Suc Let_def)
  qed
  have "upd_rel l t s s'"
    unfolding upd_rel_def using le p wf none
    by (intro conjI exI [of _ "[]"]) (auto simp: s'_def ptr_ok_def updated_def)
  with v' show ?thesis by simp
qed

text \<open>What the walk over a table below an entry has done, it has done to the table itself.\<close>

lemma upd_rel_child:
  assumes pre: "upd_pre (Suc k) t s" and c: "child (Suc k) (view (pt_mem s)) t (pt_index (virt (pt_ptr s)) (Suc k)) = Some c"
    and r: "upd_rel k c s s'"
  shows "upd_rel (Suc k) t s s'"
proof -
  let ?V = "view (pt_mem s)" and ?V' = "view (pt_mem s')" and ?v = "virt (pt_ptr s)"
  have wf: "pt_wf acc (Suc k) ?V t" using pre by (auto simp: upd_pre_def)
  have tab: "tables k ?V' c = tables k ?V c" and same: "\<forall>p. p \<notin> tables k ?V c \<longrightarrow> ?V' p = ?V p" and wf': "pt_wf acc k ?V' c"
    and walk: "\<And>v. same_window k ?v v \<Longrightarrow> pt_walk k ?V' c v =
         (if ?v \<le> v \<and> v < virt (pt_ptr s') then updated u v (pt_walk k ?V c v) else pt_walk k ?V c v)"
    and le: "virt (pt_ptr s') \<le> walk_end k (pt_ptr s)" "mp_offset (pt_ptr s) \<le> mp_offset (pt_ptr s')"
      "mp_base (pt_ptr s') = mp_base (pt_ptr s)" "mp_size (pt_ptr s') = mp_size (pt_ptr s)"
    and log: "\<exists>vs. pt_env s' = fold gf vs (pt_env s) \<and> (\<forall>v j e. ?v \<le> v \<and> v < virt (pt_ptr s') \<and>
        pt_walk k ?V c v = Some (j, e) \<longrightarrow> entry_base j v \<in> set vs)"
    using r unfolding upd_rel_def by blast+
  have tab': "tables k ?V' c \<subseteq> tables k ?V c \<union> {}" and fresh: "{} \<inter> tables (Suc k) ?V t = {}"
    and same': "\<forall>p. p \<notin> tables k ?V c \<union> {} \<longrightarrow> ?V' p = ?V p" using tab same by simp_all
  note cc = child_change [OF wf c wf' tab' fresh same']
  have tabs: "tables (Suc k) ?V' t = tables (Suc k) ?V t"
  proof -
    have "tables k ?V' d = tables k ?V d" if "child (Suc k) ?V t j = Some d" for j d
    proof (cases "j = pt_index ?v (Suc k)")
      case True
      then show ?thesis using c that tab by simp
    next
      case False
      have "V' p = ?V p" if "p \<in> tables k ?V d" "V' = ?V'" for p V'
        using pt_wf_disjoint [OF wf c \<open>child (Suc k) ?V t j = Some d\<close>] False that same by blast
      then show ?thesis by (intro tables_cong) blast
    qed
    then show ?thesis unfolding set_eq_iff in_tables_Suc cc(2) by blast
  qed
  have we: "window_end k ?v = entry_end (Suc k) ?v" by (rule window_entry)
  have v'le: "virt (pt_ptr s') \<le> entry_end (Suc k) ?v" using le(1) unfolding walk_end_def we by simp
  have down: "pt_walk (Suc k) ?V t v = pt_walk k ?V c v" if "pt_index v (Suc k) = pt_index ?v (Suc k)" for v
    using c that by (simp add: pt_walk_Suc)
  have range_ix: "pt_index v (Suc k) = pt_index ?v (Suc k)" if "?v \<le> v" "v < virt (pt_ptr s')" for v
  proof -
    have "v < entry_end (Suc k) ?v" using that v'le by simp
    then have "v div pc (Suc k) = ?v div pc (Suc k)" using entry_iff [of v "Suc k" ?v] entry_bounds(1) [of "Suc k" ?v] that(1) by linarith
    then show ?thesis by (simp only: pt_index_eq)
  qed
  have "pt_walk (Suc k) ?V' t v = (if ?v \<le> v \<and> v < virt (pt_ptr s') then updated u v (pt_walk (Suc k) ?V t v)
      else pt_walk (Suc k) ?V t v)" if w: "same_window (Suc k) ?v v" for v
  proof (cases "pt_index v (Suc k) = pt_index ?v (Suc k)")
    case True
    then have "same_window k ?v v" using pt_index_eq_iff [OF w] unfolding same_entry_same_window [symmetric] by metis
    then show ?thesis unfolding cc(4) using walk [of v] True down [OF True] by simp
  next
    case False
    then show ?thesis unfolding cc(4) using range_ix [of v] by auto
  qed
  moreover have "\<exists>vs. pt_env s' = fold gf vs (pt_env s) \<and> (\<forall>v j e. ?v \<le> v \<and> v < virt (pt_ptr s') \<and>
        pt_walk (Suc k) ?V t v = Some (j, e) \<longrightarrow> entry_base j v \<in> set vs)"
    using log down range_ix by (metis (no_types, lifting))
  moreover have "?V' p = ?V p" if "p \<notin> tables (Suc k) ?V t" for p
    using that child_tables_subset [OF c] same by blast
  moreover have "virt (pt_ptr s') \<le> walk_end (Suc k) (pt_ptr s)" using le(1) walk_end_mono [of k "pt_ptr s"] by linarith
  ultimately show ?thesis
    unfolding upd_rel_def using cc(1) tabs le(2-) by blast
qed

end

section \<open>The recursion\<close>

context pt_updater
begin

definition upd_result :: "nat \<Rightarrow> pfn \<Rightarrow> 'g pt_state \<Rightarrow> (unit result \<times> 'g pt_state) option \<Rightarrow> bool" where
  "upd_result l t s res \<longleftrightarrow> (case res of None \<Rightarrow> False
     | Some (r, s') \<Rightarrow> upd_rel l t s s' \<and>
         (case r of Inl e \<Rightarrow> e = RESOURCE_OVERLAP \<and> virt (pt_ptr s') < walk_end l (pt_ptr s) \<and>
              blocked l (view (pt_mem s)) t (virt (pt_ptr s)) (range_end (pt_ptr s)) (virt (pt_ptr s'))
            | Inr _ \<Rightarrow> virt (pt_ptr s') = walk_end l (pt_ptr s)))"

lemma update_body_spec:
  assumes pre: "upd_pre l t s" and l: "l \<le> 3" and lt: "virt (pt_ptr s) < range_end (pt_ptr s)"
    and rec: "\<And>k c s'. l = Suc k \<Longrightarrow> upd_pre k c s' \<Longrightarrow> virt (pt_ptr s') < range_end (pt_ptr s') \<Longrightarrow> upd_result k c s' (rec c s')"
  shows "case update_body translate gf u l rec t s of None \<Rightarrow> False
    | Some (r, s') \<Rightarrow> upd_rel l t s s' \<and> (case r of Inl e \<Rightarrow> e = RESOURCE_OVERLAP \<and> virt (pt_ptr s') < walk_end l (pt_ptr s) \<and>
          blocked l (view (pt_mem s)) t (virt (pt_ptr s)) (range_end (pt_ptr s)) (virt (pt_ptr s'))
        | Inr _ \<Rightarrow> virt (pt_ptr s') = min (range_end (pt_ptr s)) (entry_end l (virt (pt_ptr s))))"
proof -
  let ?p = "pt_ptr s" and ?V = "view (pt_mem s)" let ?v = "virt ?p" let ?i = "pt_index ?v l"
  have p: "ptr_ok ?p" and wf: "pt_wf acc l ?V t" using pre by (auto simp: upd_pre_def)
  have t: "t \<in> acc" by (rule pt_wf_root [OF wf])
  have gt: "?v < walk_end j ?p" for j by (rule walk_end_gt [OF lt])
  show ?thesis
  proof (cases l)
    case 0
    then have "child l ?V t ?i = None" by (simp add: child_def pte_is_terminal_bit)
    from update_terminal_spec [OF pre l _ _ this] 0 lt
    obtain s' where "update_terminal translate gf u t l s = Some s'" "upd_rel l t s s'" "virt (pt_ptr s') = entry_end l ?v"
      by (auto simp: Suc_le_eq)
    then show ?thesis using 0 lt by (simp add: update_body_def entry_end_def)
  next
    case (Suc k)
    note nt = next_table_eq [OF t index_less, of "pt_mem s" ?v l l]
    show ?thesis
    proof (cases "child l ?V t ?i")
      case c: (Some c)
      then have body: "update_body translate gf u l rec t s = rec c s"
        using Suc p nt by (simp add: update_body_def mp_virt_eq)
      have "start_ok k ?V c ?v" using pre c Suc by (simp add: upd_pre_def)
      moreover have "pt_wf acc k ?V c" using pt_wf_child(1) wf c Suc by blast
      ultimately have "upd_pre k c s" using p by (simp add: upd_pre_def)
      from rec [OF Suc this lt] obtain r s' where rs: "rec c s = Some (r, s')" "upd_rel k c s s'"
        "case r of Inl e \<Rightarrow> e = RESOURCE_OVERLAP \<and> virt (pt_ptr s') < walk_end k ?p \<and>
            blocked k ?V c ?v (range_end ?p) (virt (pt_ptr s')) | Inr _ \<Rightarrow> virt (pt_ptr s') = walk_end k ?p"
        unfolding upd_result_def by (cases "rec c s") auto
      have "upd_rel l t s s'" using upd_rel_child pre c rs(2) Suc by blast
      moreover have "walk_end k ?p \<le> walk_end l ?p" using walk_end_mono [of k ?p] Suc by simp
      moreover have "walk_end k ?p = min (range_end ?p) (entry_end l ?v)" unfolding walk_end_def Suc window_entry by simp
      moreover have "blocked l ?V t ?v (range_end ?p) (virt (pt_ptr s'))"
        if "blocked k ?V c ?v (range_end ?p) (virt (pt_ptr s'))" "virt (pt_ptr s') < walk_end k ?p"
      proof -
        have "?v \<le> virt (pt_ptr s')" using rs(2) by (simp add: upd_rel_def)
        moreover have "virt (pt_ptr s') < entry_end l ?v" using that(2) unfolding walk_end_def Suc window_entry by simp
        ultimately have "virt (pt_ptr s') div pc l = ?v div pc l"
          using entry_iff [of "virt (pt_ptr s')" l ?v] entry_bounds(1) [of l ?v] by linarith
        then have "pt_index (virt (pt_ptr s')) l = ?i" by (simp only: pt_index_eq)
        then have "pt_walk l ?V t (virt (pt_ptr s')) = pt_walk k ?V c (virt (pt_ptr s'))" using c Suc by (simp add: pt_walk_Suc)
        then show ?thesis using that(1) by (simp add: blocked_def)
      qed
      ultimately show ?thesis using rs by (auto simp: body split: sum.splits)
    next
      case None
      show ?thesis
      proof (cases "pte_is_present (?V t ?i) l")
        case True
        then have body: "update_body translate gf u l rec t s = (if pc l dvd ?v \<and> ?v + pc l \<le> range_end ?p
            then do { s' \<leftarrow> update_terminal translate gf u t l s; Some (Inr (), s') } else Some (Inl RESOURCE_OVERLAP, s))"
          using Suc p nt None covers_level_entry_eq [OF p l] by (simp add: update_body_def mp_virt_eq)
        show ?thesis
        proof (cases "pc l dvd ?v \<and> ?v + pc l \<le> range_end ?p")
          case True
          then obtain s' where "update_terminal translate gf u t l s = Some s'" "upd_rel l t s s'" "virt (pt_ptr s') = entry_end l ?v"
            using update_terminal_spec [OF pre l _ _ None] by blast
          moreover have "entry_end l ?v \<le> range_end ?p" using True entry_bounds(3) [of l ?v] aligned_entry_base [of l ?v] by simp
          ultimately show ?thesis using True by (simp add: body)
        next
          case False
          have "pt_walk l ?V t ?v = Some (l, ?V t ?i)" using \<open>pte_is_present (?V t ?i) l\<close> None Suc by (simp add: pt_walk_Suc Let_def)
          then have "blocked l ?V t ?v (range_end ?p) ?v" using False by (simp add: blocked_def)
          then show ?thesis unfolding body if_not_P [OF False] using upd_rel_refl [OF pre] gt by simp
        qed
      next
        case False
        then have "pc l dvd ?v" using pre None Suc by (simp add: upd_pre_def)
        from skip_entry_spec [OF pre l this False] show ?thesis
          using Suc p nt None False level_page_count_eq [OF l] advance_clamped_eq(1) [OF p l]
          by (simp add: update_body_def mp_virt_eq)
      qed
    qed
  qed
qed

lemma blocked_later:
  assumes r: "upd_rel l t s s1" "upd_rel l t s1 s'" and lt: "virt (pt_ptr s') < walk_end l (pt_ptr s)"
    and st: "s1 = s \<or> pc l dvd virt (pt_ptr s1)"
    and b: "blocked l (view (pt_mem s1)) t (virt (pt_ptr s1)) lim (virt (pt_ptr s'))"
  shows "blocked l (view (pt_mem s)) t (virt (pt_ptr s)) lim (virt (pt_ptr s'))"
proof -
  let ?v = "virt (pt_ptr s')"
  have o: "virt (pt_ptr s) \<le> virt (pt_ptr s1)" "virt (pt_ptr s1) \<le> ?v" using r by (auto simp: upd_rel_def)
  then have "same_window l (virt (pt_ptr s)) ?v" using lt by (subst same_window_iff) (auto simp: walk_end_def)
  then have w: "pt_walk l (view (pt_mem s1)) t ?v = pt_walk l (view (pt_mem s)) t ?v"
    using r(1) o unfolding upd_rel_def by auto
  obtain j e where j: "pt_walk l (view (pt_mem s)) t ?v = Some (j, e)" "?v = virt (pt_ptr s1) \<or> pc j dvd ?v"
    "\<not> (pc j dvd ?v \<and> ?v + pc j \<le> lim)" using b unfolding blocked_def w by blast
  have "pc j dvd pc l" using pt_walk_level [OF j(1)] by (intro le_imp_power_dvd) simp
  then have "?v = virt (pt_ptr s) \<or> pc j dvd ?v" using j(2) st by (metis dvd_trans)
  with j(1,3) show ?thesis unfolding blocked_def by blast
qed

lemma walk_level_update:
  assumes pre: "upd_pre l t s" and l: "l \<le> 3" and lt: "virt (pt_ptr s) < range_end (pt_ptr s)"
    and body: "\<And>s. upd_pre l t s \<Longrightarrow> virt (pt_ptr s) < range_end (pt_ptr s) \<Longrightarrow>
      case f s of None \<Rightarrow> False
    | Some (r, s') \<Rightarrow> upd_rel l t s s' \<and> (case r of Inl e \<Rightarrow> e = RESOURCE_OVERLAP \<and> virt (pt_ptr s') < walk_end l (pt_ptr s) \<and>
          blocked l (view (pt_mem s)) t (virt (pt_ptr s)) (range_end (pt_ptr s)) (virt (pt_ptr s'))
        | Inr _ \<Rightarrow> virt (pt_ptr s') = min (range_end (pt_ptr s)) (entry_end l (virt (pt_ptr s))))"
  shows "upd_result l t s (walk_level l f s)"
proof -
  let ?mx = "walk_end l (pt_ptr s)"
  let ?P = "\<lambda>s1. upd_rel l t s s1 \<and> (s1 = s \<or> virt (pt_ptr s1) = range_end (pt_ptr s) \<or> pc l dvd virt (pt_ptr s1))"
  let ?E = "\<lambda>e s1. upd_rel l t s s1 \<and> e = RESOURCE_OVERLAP \<and> virt (pt_ptr s1) < ?mx \<and>
    blocked l (view (pt_mem s)) t (virt (pt_ptr s)) (range_end (pt_ptr s)) (virt (pt_ptr s1))"
  have p: "ptr_ok (pt_ptr s)" using pre by (simp add: upd_pre_def)
  have "case walk_loop f ?mx s of None \<Rightarrow> False
    | Some (r, s') \<Rightarrow> (case r of Inl e \<Rightarrow> ?E e s' | Inr _ \<Rightarrow> ?P s' \<and> ?mx \<le> virt (pt_ptr s'))"
  proof (rule walk_loop_rule)
    show "?P s" using upd_rel_refl [OF pre] by blast
    show "ptr_ok (pt_ptr s1)" if "?P s1" for s1 using upd_rel_ok [OF p] that by blast
    fix s1 assume P: "?P s1" and lt1: "virt (pt_ptr s1) < ?mx"
    have r: "upd_rel l t s s1" using P by blast
    have ends: "range_end (pt_ptr s1) = range_end (pt_ptr s)" using r by (simp add: upd_rel_def)
    have lt1': "virt (pt_ptr s1) < range_end (pt_ptr s1)" using lt1 ends by (simp add: walk_end_def)
    have "start_ok l (view (pt_mem s1)) t (virt (pt_ptr s1))"
      using P lt1' ends pre aligned_start_ok by (auto simp: upd_pre_def)
    then have "upd_pre l t s1" using r upd_rel_ok [OF p r] by (simp add: upd_pre_def upd_rel_def)
    note b = body [OF this lt1']
    show "case f s1 of None \<Rightarrow> False
      | Some (x, s') \<Rightarrow> (case x of Inl e \<Rightarrow> ?E e s' | Inr _ \<Rightarrow> ?P s' \<and> virt (pt_ptr s1) < virt (pt_ptr s'))"
    proof (cases "f s1")
      case None
      then show ?thesis using b by simp
    next
      case (Some xs)
      obtain x s' where xs: "xs = (x, s')" by (cases xs)
      with b Some have r': "upd_rel l t s1 s'" by auto
      have rel: "upd_rel l t s s'" by (rule upd_rel_trans [OF r r' lt1])
      show ?thesis
      proof (cases x)
        case (Inl e)
        then have b': "e = RESOURCE_OVERLAP" "virt (pt_ptr s') < walk_end l (pt_ptr s1)"
          "blocked l (view (pt_mem s1)) t (virt (pt_ptr s1)) (range_end (pt_ptr s)) (virt (pt_ptr s'))"
          using b Some xs ends by auto
        have "blocked l (view (pt_mem s)) t (virt (pt_ptr s)) (range_end (pt_ptr s)) (virt (pt_ptr s'))"
          using blocked_later [OF r r' _ _ b'(3)] b'(2) upd_rel_window(2) [OF r lt1] P lt1' ends by auto
        then show ?thesis using Some xs Inl b' rel upd_rel_window(2) [OF r lt1] by simp
      next
        case (Inr y)
        then have v': "virt (pt_ptr s') = min (range_end (pt_ptr s)) (entry_end l (virt (pt_ptr s1)))" using b Some xs ends by simp
        have "pc l dvd entry_end l (virt (pt_ptr s1))" by (rule entry_end_dvd) simp
        then have "virt (pt_ptr s') = range_end (pt_ptr s) \<or> pc l dvd virt (pt_ptr s')" unfolding v' by (auto simp: min_def)
        moreover have "virt (pt_ptr s1) < virt (pt_ptr s')" unfolding v' using lt1' ends entry_bounds(2) by simp
        ultimately show ?thesis using Some xs Inr rel by simp
      qed
    qed
  qed
  then show ?thesis unfolding walk_level_eq [OF p l] walk_end_def [symmetric] upd_result_def
    by (auto dest: upd_rel_le split: option.splits sum.splits)
qed

lemma walk_update_spec:
  "l \<le> 3 \<Longrightarrow> upd_pre l t s \<Longrightarrow> virt (pt_ptr s) < range_end (pt_ptr s) \<Longrightarrow>
    upd_result l t s (walk_update l translate gf u t s)"
proof (induction l arbitrary: t s)
  case 0
  show ?case unfolding walk_update.simps
    by (rule walk_level_update [OF 0(2,1,3)]) (rule update_body_spec, simp_all)
next
  case (Suc l)
  show ?case unfolding walk_update.simps
  proof (rule walk_level_update [OF Suc.prems(2,1,3)], rule update_body_spec)
    fix k c s' assume "Suc l = Suc k" "upd_pre k c s'" "virt (pt_ptr s') < range_end (pt_ptr s')"
    then show "upd_result k c s' (walk_update l translate gf u c s')" using Suc.IH Suc.prems(1) by simp
  qed (use Suc.prems(1) in simp_all)
qed

end

section \<open>Unmapping and changing permissions\<close>

definition clear_pte :: "vpn \<Rightarrow> u64 \<Rightarrow> nat \<Rightarrow> u64" where
  "clear_pte vpn pte level = make_empty_pte"

definition set_perms :: "u8 \<Rightarrow> vpn \<Rightarrow> u64 \<Rightarrow> nat \<Rightarrow> u64" where
  "set_perms perms vpn pte level = update_pte_perms pte level perms"

lemma updated_clear [simp]: "updated clear_pte v w = None"
  by (simp add: updated_def clear_pte_def split: option.splits)

lemma updated_set_perms: "pte_is_present e l \<Longrightarrow> updated (set_perms perms) v (Some (l, e)) = Some (l, update_pte_perms e l perms)"
  by (simp add: updated_def set_perms_def)

lemma pt_walk_present: "pt_walk l V t v = Some (j, e) \<Longrightarrow> pte_is_present e j"
proof (induction l arbitrary: t)
  case (Suc l)
  then show ?case unfolding pt_walk_Suc by (fastforce simp: Let_def split: option.splits if_splits)
qed (auto simp: Let_def split: if_splits)

context pt_updater
begin

text \<open>The walk from the root over a whole range.\<close>

lemma walk_update_root:
  assumes range: "0 < sz" "base + sz \<le> 2 ^ 52" "base + sz \<le> window_end 3 base"
    and pre: "pt_wf acc 3 (view m) root" "start_ok 3 (view m) root base"
  shows "\<exists>r s. walk_update 3 translate gf u root \<lparr>pt_mem = m, pt_ptr = mp_new base sz, pt_env = g\<rparr> = Some (r, s) \<and>
    mp_offset (pt_ptr s) \<le> sz \<and> (r = Inr () \<longleftrightarrow> mp_offset (pt_ptr s) = sz) \<and>
    (\<forall>e. r = Inl e \<longrightarrow> e = RESOURCE_OVERLAP \<and> blocked 3 (view m) root base (base + sz) (base + mp_offset (pt_ptr s))) \<and>
    pt_wf acc 3 (view (pt_mem s)) root \<and> tables 3 (view (pt_mem s)) root = tables 3 (view m) root \<and>
    (\<forall>p. p \<notin> tables 3 (view m) root \<longrightarrow> view (pt_mem s) p = view m p) \<and>
    (\<forall>v. same_window 3 base v \<longrightarrow> pt_walk 3 (view (pt_mem s)) root v =
      (if base \<le> v \<and> v < base + mp_offset (pt_ptr s) then updated u v (pt_walk 3 (view m) root v) else pt_walk 3 (view m) root v)) \<and>
    (\<exists>vs. pt_env s = fold gf vs g \<and> (\<forall>v j e. base \<le> v \<and> v < base + mp_offset (pt_ptr s) \<and>
       pt_walk 3 (view m) root v = Some (j, e) \<longrightarrow> entry_base j v \<in> set vs))"
proof -
  let ?s0 = "\<lparr>pt_mem = m, pt_ptr = mp_new base sz, pt_env = g\<rparr>"
  have p0: "upd_pre 3 root ?s0" using range pre by (simp add: upd_pre_def mp_new_def ptr_ok_def)
  have lt: "virt (pt_ptr ?s0) < range_end (pt_ptr ?s0)" using range(1) by (simp add: mp_new_def)
  have ur: "upd_result 3 root ?s0 (walk_update 3 translate gf u root ?s0)" using walk_update_spec [OF _ p0 lt] by simp
  then obtain r s where run: "walk_update 3 translate gf u root ?s0 = Some (r, s)" and rel: "upd_rel 3 root ?s0 s"
    unfolding upd_result_def by (cases "walk_update 3 translate gf u root ?s0") auto
  have res: "case r of Inl e \<Rightarrow> e = RESOURCE_OVERLAP \<and> virt (pt_ptr s) < walk_end 3 (mp_new base sz) \<and>
         blocked 3 (view m) root base (base + sz) (virt (pt_ptr s))
       | Inr _ \<Rightarrow> virt (pt_ptr s) = walk_end 3 (mp_new base sz)"
    using ur unfolding run by (cases r) (simp_all add: upd_result_def mp_new_def)
  have me: "walk_end 3 (mp_new base sz) = base + sz" using range(3) by (simp add: walk_end_def mp_new_def)
  note rel' = rel [unfolded upd_rel_def, simplified, unfolded mp_new_def, simplified]
  have b: "virt (pt_ptr s) = base + mp_offset (pt_ptr s)" "mp_offset (pt_ptr s) \<le> sz" using rel' me by (auto simp: mp_new_def)
  have "r = Inr () \<longleftrightarrow> mp_offset (pt_ptr s) = sz" using res me b by (cases r) auto
  moreover have "\<forall>e. r = Inl e \<longrightarrow> e = RESOURCE_OVERLAP \<and> blocked 3 (view m) root base (base + sz) (base + mp_offset (pt_ptr s))"
    using res b(1) by auto
  ultimately show ?thesis using run rel' b by (intro exI [of _ r] exI [of _ s] conjI) simp_all
qed

end

sublocale page_memory \<subseteq> unm: pt_updater translate acc clear_pte gf for gf :: "vpn \<Rightarrow> 'g \<Rightarrow> 'g"
  by unfold_locales (simp_all add: clear_pte_def)

sublocale page_memory \<subseteq> prot: pt_updater translate acc "set_perms perms" gf for perms and gf :: "vpn \<Rightarrow> 'g \<Rightarrow> 'g"
  by unfold_locales (simp_all add: set_perms_def)

context page_memory
begin

lemmas unmap_root = unm.walk_update_root
lemmas protect_root = prot.walk_update_root

end

section \<open>An example\<close>

text \<open>Four tables in frames 1 to 4, which map page 512 to frame 99 and nothing else.\<close>

abbreviation demo_tr :: "pfn \<Rightarrow> vpn option" where
  "demo_tr \<equiv> PhysmapPfnTranslator_translate"

abbreviation demo_acc :: "pfn set" where
  "demo_acc \<equiv> {..<PHYS_MAP_MAX_PAGES}"

definition demo_mem :: memory where
  "demo_mem = (\<lambda>_. 0)(slot demo_tr 1 0 := make_intermediate_pte 3 2, slot demo_tr 2 0 := make_intermediate_pte 2 3,
     slot demo_tr 3 1 := make_intermediate_pte 1 4, slot demo_tr 4 0 := make_terminal_pte 0 99 PERM_READ Cached)"

definition demo_view :: view where
  "demo_view p i = (if p = 1 \<and> i = 0 then make_intermediate_pte 3 2 else if p = 2 \<and> i = 0 then make_intermediate_pte 2 3
     else if p = 3 \<and> i = 1 then make_intermediate_pte 1 4 else if p = 4 \<and> i = 0 then make_terminal_pte 0 99 PERM_READ Cached else 0)"

lemma demo_view_eq: "view_of demo_tr demo_acc demo_mem = demo_view"
proof (intro ext)
  fix p i
  have small: "1 \<in> demo_acc" "2 \<in> demo_acc" "3 \<in> demo_acc" "4 \<in> demo_acc" by (simp_all add: layout_consts)
  show "view_of demo_tr demo_acc demo_mem p i = demo_view p i"
  proof (cases "p \<in> demo_acc \<and> i < 512")
    case True
    then have eq: "slot demo_tr p i = slot demo_tr q j \<longleftrightarrow> p = q \<and> i = j" if "q \<in> demo_acc" "j < 512" for q j
      using physmap_mem.slot_inj that by blast
    have ix: "(0::nat) < 512" "(1::nat) < 512" by simp_all
    have "demo_mem (slot demo_tr p i) = (if p = 4 \<and> i = 0 then make_terminal_pte 0 99 PERM_READ Cached
        else if p = 3 \<and> i = 1 then make_intermediate_pte 1 4 else if p = 2 \<and> i = 0 then make_intermediate_pte 2 3
        else if p = 1 \<and> i = 0 then make_intermediate_pte 3 2 else 0)"
      unfolding demo_mem_def fun_upd_apply eq [OF small(1) ix(1)] eq [OF small(2) ix(1)] eq [OF small(3) ix(2)] eq [OF small(4) ix(1)]
      by (rule refl)
    then show ?thesis using True by (auto simp: view_of_def demo_view_def)
  next
    case False
    then show ?thesis using small by (auto simp: view_of_def demo_view_def)
  qed
qed

lemma zero_absent [simp]: "\<not> pte_is_present 0 l"
  by (simp add: pte_is_present_bit)

lemma demo_child:
  "child 3 demo_view 1 i = (if i = 0 then Some 2 else None)"
  "child 2 demo_view 2 i = (if i = 0 then Some 3 else None)"
  "child 1 demo_view 3 i = (if i = 1 then Some 4 else None)"
  by (simp_all add: child_def demo_view_def)

lemma level_Suc: "Suc 0 = 1" "Suc 1 = 2" "Suc 2 = 3"
  by simp_all

lemma demo_tables: "tables 0 demo_view 4 = {4}" "tables 1 demo_view 3 = {3, 4}" "tables 2 demo_view 2 = {2, 3, 4}"
  "tables 3 demo_view 1 = {1, 2, 3, 4}"
proof -
  show t0: "tables 0 demo_view 4 = {4}" by simp
  show t1: "tables 1 demo_view 3 = {3, 4}"
    using in_tables_Suc [of _ 0 demo_view 3, unfolded level_Suc demo_child] t0 by (auto split: if_splits)
  show t2: "tables 2 demo_view 2 = {2, 3, 4}"
    using in_tables_Suc [of _ 1 demo_view 2, unfolded level_Suc demo_child] t1 by (auto split: if_splits)
  show "tables 3 demo_view 1 = {1, 2, 3, 4}"
    using in_tables_Suc [of _ 2 demo_view 1, unfolded level_Suc demo_child] t2 by (auto split: if_splits)
qed

lemma demo_wf: "pt_wf demo_acc 3 demo_view 1"
proof -
  have w0: "pt_wf demo_acc 0 demo_view 4" by (simp add: layout_consts)
  have w1: "pt_wf demo_acc 1 demo_view 3"
    unfolding pt_wf.simps(2) [of demo_acc 0 demo_view 3, unfolded level_Suc demo_child]
    using w0 by (auto simp: layout_consts split: if_splits)
  have w2: "pt_wf demo_acc 2 demo_view 2"
    unfolding pt_wf.simps(2) [of demo_acc 1 demo_view 2, unfolded level_Suc demo_child]
    using w1 demo_tables(2) by (auto simp: layout_consts split: if_splits)
  show ?thesis
    unfolding pt_wf.simps(2) [of demo_acc 2 demo_view 1, unfolded level_Suc demo_child]
    using w2 demo_tables(3) by (auto simp: layout_consts split: if_splits)
qed

lemma demo_index: "pt_index 512 3 = 0" "pt_index 512 2 = 0" "pt_index 512 1 = 1" "pt_index 512 0 = 0"
  "pt_index 256 3 = 0" "pt_index 256 2 = 0" "pt_index 256 1 = 0"
  by (simp_all add: pt_index_eq)

lemma demo_walk: "pt_walk 3 demo_view 1 512 = Some (0, make_terminal_pte 0 99 PERM_READ Cached)"
proof -
  have "pt_walk 0 demo_view 4 512 = Some (0, make_terminal_pte 0 99 PERM_READ Cached)"
    by (simp add: demo_index demo_view_def)
  then have "pt_walk 1 demo_view 3 512 = Some (0, make_terminal_pte 0 99 PERM_READ Cached)"
    using pt_walk_Suc [of 0 demo_view 3 512, unfolded level_Suc demo_index demo_child] by simp
  then have "pt_walk 2 demo_view 2 512 = Some (0, make_terminal_pte 0 99 PERM_READ Cached)"
    using pt_walk_Suc [of 1 demo_view 2 512, unfolded level_Suc demo_index demo_child] by simp
  then show ?thesis
    using pt_walk_Suc [of 2 demo_view 1 512, unfolded level_Suc demo_index demo_child] by simp
qed

section \<open>Properties\<close>

lemma pt_unmap_eq: "pt_unmap tr gf root s = walk_update 3 tr gf clear_pte root s"
proof -
  have "(\<lambda>vpn pte level. make_empty_pte) = clear_pte" by (simp add: clear_pte_def fun_eq_iff)
  then show ?thesis by (simp add: pt_unmap_def PT_LEVEL_COUNT_def)
qed

lemma pt_protect_eq: "pt_protect tr gf root perms s = walk_update 3 tr gf (set_perms perms) root s"
proof -
  have "(\<lambda>vpn pte level. update_pte_perms pte level perms) = set_perms perms" by (simp add: set_perms_def fun_eq_iff)
  then show ?thesis by (simp add: pt_protect_def PT_LEVEL_COUNT_def)
qed

text \<open>
  C7. \<open>PageTable::unmap\<close> on a tree of tables always returns when it does not start inside an absent entry of a higher level. It
  reports progress \<open>n\<close>, the whole range exactly when it succeeds, and can fail only with \<open>RESOURCE_OVERLAP\<close>. The pages it passed are
  not mapped any more, all other pages translate as before, the set of tables is unchanged, and for every page
  that was mapped the base of its entry was reported for invalidation.
\<close>

theorem pt_unmap_correct:
  assumes "page_memory tr acc" "0 < sz" "base + sz \<le> 2 ^ 52" "base + sz \<le> window_end 3 base"
    "pt_wf acc 3 (view_of tr acc m) root" "start_ok 3 (view_of tr acc m) root base"
  shows "\<exists>r s. pt_unmap tr gf root \<lparr>pt_mem = m, pt_ptr = mp_new base sz, pt_env = g\<rparr> = Some (r, s) \<and>
    mp_offset (pt_ptr s) \<le> sz \<and> (r = Inr () \<longleftrightarrow> mp_offset (pt_ptr s) = sz) \<and> (\<forall>e. r = Inl e \<longrightarrow> e = RESOURCE_OVERLAP) \<and>
    pt_wf acc 3 (view_of tr acc (pt_mem s)) root \<and> tables 3 (view_of tr acc (pt_mem s)) root = tables 3 (view_of tr acc m) root \<and>
    (\<forall>v. base \<le> v \<and> v < base + mp_offset (pt_ptr s) \<longrightarrow> pt_walk 3 (view_of tr acc (pt_mem s)) root v = None) \<and>
    (\<forall>v. same_window 3 base v \<and> \<not> (base \<le> v \<and> v < base + mp_offset (pt_ptr s)) \<longrightarrow>
       pt_walk 3 (view_of tr acc (pt_mem s)) root v = pt_walk 3 (view_of tr acc m) root v) \<and>
    (\<exists>vs. pt_env s = fold gf vs g \<and> (\<forall>v j e. base \<le> v \<and> v < base + mp_offset (pt_ptr s) \<and>
       pt_walk 3 (view_of tr acc m) root v = Some (j, e) \<longrightarrow> entry_base j v \<in> set vs))"
proof -
  note spec = page_memory.unmap_root [OF assms, where gf = gf and g = g]
  have "same_window 3 base v" if "base \<le> v" "v < base + n" "n \<le> sz" for v n
    using that assms(4) same_window_iff [OF that(1), of 3] by linarith
  with spec show ?thesis unfolding pt_unmap_eq by (elim exE conjE, intro exI conjI) (assumption | auto)+
qed

lemma demo_start: "start_ok 3 (view_of demo_tr demo_acc demo_mem) 1 512"
  unfolding demo_view_eq by (rule mapped_start_ok, unfold demo_walk) simp

theorem pt_unmap_correct_witness:
  "\<exists>r s. pt_unmap demo_tr (#) 1 \<lparr>pt_mem = demo_mem, pt_ptr = mp_new 512 100, pt_env = []\<rparr> = Some (r, s) \<and>
     (r = Inr () \<longrightarrow> pt_walk 3 (view_of demo_tr demo_acc (pt_mem s)) 1 512 = None)"
  using pt_unmap_correct [OF physmap_mem.page_memory_axioms _ _ _ _ demo_start, of 100 "(#)" "[]"] demo_wf
  by (auto simp: demo_view_eq window_end_def)

text \<open>The bits of an entry with new permissions: the three permission bits are as requested, the rest but the global bit is kept.\<close>

definition perms_changed :: "u8 \<Rightarrow> u64 \<Rightarrow> u64 \<Rightarrow> bool" where
  "perms_changed perms e e' \<longleftrightarrow> (bit e' 1 \<longleftrightarrow> flag_contains perms PERM_WRITE) \<and> (bit e' 2 \<longleftrightarrow> flag_contains perms PERM_USER) \<and>
     (bit e' 63 \<longleftrightarrow> \<not> flag_contains perms PERM_EXECUTE) \<and> (bit e' 8 \<longleftrightarrow> bit e 8 \<or> flag_contains perms PERM_GLOBAL) \<and>
     (\<forall>n < 63. n \<notin> {1, 2, 8} \<longrightarrow> bit e' n = bit e n)"

lemma update_pte_perms_changed: "perms_changed perms e (update_pte_perms e l perms)"
  by (simp add: perms_changed_def bit_update_pte_perms bit_flags_from_perms)

text \<open>
  C8. \<open>PageTable::protect\<close> on a tree of tables always returns when it does not start inside an absent entry of a higher level. It reports progress, the
  whole range exactly when it succeeds. Every mapped page it passed stays mapped to the same frame by an entry of the same level, which is writable,
  user-accessible and executable exactly as the new permissions say and has every other bit as before, except that the global bit can only be
  set; holes stay holes, and pages outside the range translate as before.
\<close>

theorem pt_protect_correct:
  assumes "page_memory tr acc" "0 < sz" "base + sz \<le> 2 ^ 52" "base + sz \<le> window_end 3 base"
    "pt_wf acc 3 (view_of tr acc m) root" "start_ok 3 (view_of tr acc m) root base"
  shows "\<exists>r s. pt_protect tr gf root perms \<lparr>pt_mem = m, pt_ptr = mp_new base sz, pt_env = g\<rparr> = Some (r, s) \<and>
    mp_offset (pt_ptr s) \<le> sz \<and> (r = Inr () \<longleftrightarrow> mp_offset (pt_ptr s) = sz) \<and> pt_wf acc 3 (view_of tr acc (pt_mem s)) root \<and>
    (\<forall>v. same_window 3 base v \<longrightarrow> (case pt_walk 3 (view_of tr acc m) root v of
        None \<Rightarrow> pt_walk 3 (view_of tr acc (pt_mem s)) root v = None
      | Some (l, e) \<Rightarrow> if base \<le> v \<and> v < base + mp_offset (pt_ptr s)
          then \<exists>e'. pt_walk 3 (view_of tr acc (pt_mem s)) root v = Some (l, e') \<and> get_pte_frame e' l = get_pte_frame e l \<and> perms_changed perms e e'
          else pt_walk 3 (view_of tr acc (pt_mem s)) root v = Some (l, e)))"
proof -
  obtain r s where run: "pt_protect tr gf root perms \<lparr>pt_mem = m, pt_ptr = mp_new base sz, pt_env = g\<rparr> = Some (r, s)"
      "mp_offset (pt_ptr s) \<le> sz" "r = Inr () \<longleftrightarrow> mp_offset (pt_ptr s) = sz" "pt_wf acc 3 (view_of tr acc (pt_mem s)) root"
    and walk: "\<forall>v. same_window 3 base v \<longrightarrow> pt_walk 3 (view_of tr acc (pt_mem s)) root v =
      (if base \<le> v \<and> v < base + mp_offset (pt_ptr s) then updated (set_perms perms) v (pt_walk 3 (view_of tr acc m) root v) else pt_walk 3 (view_of tr acc m) root v)"
    using page_memory.protect_root [OF assms, where gf = gf and g = g and perms = perms] unfolding pt_protect_eq by blast
  have "case pt_walk 3 (view_of tr acc m) root v of
        None \<Rightarrow> pt_walk 3 (view_of tr acc (pt_mem s)) root v = None
      | Some (l, e) \<Rightarrow> if base \<le> v \<and> v < base + mp_offset (pt_ptr s)
          then \<exists>e'. pt_walk 3 (view_of tr acc (pt_mem s)) root v = Some (l, e') \<and> get_pte_frame e' l = get_pte_frame e l \<and> perms_changed perms e e'
          else pt_walk 3 (view_of tr acc (pt_mem s)) root v = Some (l, e)" if "same_window 3 base v" for v
  proof (cases "pt_walk 3 (view_of tr acc m) root v")
    case None
    then show ?thesis using walk that by (simp add: updated_def)
  next
    case (Some le)
    then show ?thesis
      using pt_walk_present [of 3 "view_of tr acc m" root v] walk that
      by (cases le) (auto simp: updated_set_perms update_pte_perms_changed split: if_splits)
  qed
  then show ?thesis using run by blast
qed

theorem pt_protect_correct_witness:
  "\<exists>r s. pt_protect demo_tr (#) 1 (PERM_READ OR PERM_WRITE) \<lparr>pt_mem = demo_mem, pt_ptr = mp_new 512 100, pt_env = []\<rparr> = Some (r, s) \<and>
     (mp_offset (pt_ptr s) = 100 \<longrightarrow> (\<exists>e. pt_walk 3 (view_of demo_tr demo_acc (pt_mem s)) 1 512 = Some (0, e) \<and> get_pte_frame e 0 = 99 \<and> bit e 1))"
proof -
  have w: "flag_contains (PERM_READ OR PERM_WRITE) PERM_WRITE" by (simp add: perm_defs flag_contains_def)
  obtain r s where c: "pt_protect demo_tr (#) 1 (PERM_READ OR PERM_WRITE) \<lparr>pt_mem = demo_mem, pt_ptr = mp_new 512 100, pt_env = []\<rparr> = Some (r, s)"
    and v: "\<forall>v. same_window 3 512 v \<longrightarrow> (case pt_walk 3 (view_of demo_tr demo_acc demo_mem) 1 v of
        None \<Rightarrow> pt_walk 3 (view_of demo_tr demo_acc (pt_mem s)) 1 v = None
      | Some (l, e) \<Rightarrow> if 512 \<le> v \<and> v < 512 + mp_offset (pt_ptr s)
          then \<exists>e'. pt_walk 3 (view_of demo_tr demo_acc (pt_mem s)) 1 v = Some (l, e') \<and> get_pte_frame e' l = get_pte_frame e l \<and> perms_changed (PERM_READ OR PERM_WRITE) e e'
          else pt_walk 3 (view_of demo_tr demo_acc (pt_mem s)) 1 v = Some (l, e))"
    using pt_protect_correct [OF physmap_mem.page_memory_axioms _ _ _ _ demo_start, of 100 "(#)" "PERM_READ OR PERM_WRITE" "[]"] demo_wf
    by (auto simp: demo_view_eq window_end_def)
  have "same_window 3 512 512" by simp
  with v [rule_format, of 512] w have "mp_offset (pt_ptr s) = 100 \<longrightarrow> (\<exists>e. pt_walk 3 (view_of demo_tr demo_acc (pt_mem s)) 1 512 = Some (0, e) \<and> get_pte_frame e 0 = 99 \<and> bit e 1)"
    by (auto simp: demo_view_eq demo_walk [simplified] perms_changed_def)
  with c show ?thesis by blast
qed

lemma walk_loop_step:
  "mp_virt (pt_ptr s) = Some v \<Longrightarrow> v < mx \<Longrightarrow> f s = Some (Inr (), s') \<Longrightarrow> mp_virt (pt_ptr s') = Some w \<Longrightarrow> mx \<le> w \<Longrightarrow>
    walk_loop f mx s = Some (Inr (), s')"
  by (subst walk_loop.simps, simp, subst walk_loop.simps, simp)

text \<open>Mapping page 513 of the example needs no new table: one entry of the last table changes.\<close>

lemma demo_next_table:
  assumes "t < 5" "i < 512"
  shows "next_table demo_tr demo_mem t i l = Some (case child l demo_view t i of Some c \<Rightarrow> Inr c
    | None \<Rightarrow> Inl (if pte_is_present (demo_view t i) l then TerminalEntry (demo_view t i) else NotPresent))"
proof -
  have "t \<in> demo_acc" using assms(1) by (simp add: layout_consts)
  from physmap_mem.next_table_eq [OF this assms(2), of demo_mem l] show ?thesis by (simp only: demo_view_eq)
qed

lemma demo_map_run:
  "\<exists>s. pt_map demo_tr bump_allocate 1 77 PERM_READ Cached
     \<lparr>pt_mem = demo_mem, pt_ptr = mp_new 513 1, pt_env = \<lparr>bp_cur = 16, bp_end = 32\<rparr>\<rparr> = Some (Inr (), s)"
proof -
  let ?s = "\<lparr>pt_mem = demo_mem, pt_ptr = mp_new 513 1, pt_env = \<lparr>bp_cur = 16, bp_end = 32\<rparr>\<rparr>"
  let ?f = "map_body demo_tr bump_allocate 77 PERM_READ Cached" and ?r = "\<lambda>l. inner_map l demo_tr bump_allocate 77 PERM_READ Cached"
  have v: "mp_virt (pt_ptr ?s) = Some 513" by (simp add: mp_virt_def mp_new_def uadd_def USIZE_LIM_def)
  have ok: "ptr_ok (pt_ptr ?s)" by (simp add: ptr_ok_def mp_new_def)
  have ix: "pt_index 513 3 = 0" "pt_index 513 2 = 0" "pt_index 513 1 = 1" "pt_index 513 0 = 1" by (simp_all add: pt_index_eq)
  have wl: "walk_level l f ?s = Some (Inr (), s')" if "f ?s = Some (Inr (), s')" "l \<le> 3" "mp_virt (pt_ptr s') = Some 514" for l f s'
  proof -
    from that(2) consider "l = 0" | "l = 1" | "l = 2" | "l = 3" by linarith
    then have "min (range_end (pt_ptr ?s)) (window_end l (virt (pt_ptr ?s))) = 514"
      by cases (simp_all add: mp_new_def window_end_def)
    then show ?thesis unfolding walk_level_eq [OF ok that(2)] using walk_loop_step [of ?s 513 514 f s' 514] that(1,3) v by simp
  qed
  have "4 \<in> demo_acc" by (simp add: layout_consts)
  obtain m where m: "pt_set demo_tr demo_mem 4 1 (make_terminal_pte 0 77 PERM_READ Cached) = Some m"
    by (rule physmap_mem.pt_set_eq [OF \<open>4 \<in> demo_acc\<close>, of 1 demo_mem "make_terminal_pte 0 77 PERM_READ Cached"]) simp_all
  let ?s' = "?s\<lparr>pt_mem := m, pt_ptr := \<lparr>mp_base = 513, mp_size = 1, mp_offset = 1\<rparr>\<rparr>"
  have v': "mp_virt (pt_ptr ?s') = Some 514" by (simp add: mp_virt_def uadd_def USIZE_LIM_def)
  have use: "can_use_level_page 0 (pt_ptr ?s) 77 = Some True" "can_use_level_page 1 (pt_ptr ?s) 77 = Some False"
    unfolding can_use_level_page_def by (simp_all only: covers_level_entry_eq [OF ok], simp_all add: covers_level_entry_eq [OF ok] aligned_for_level_eq uadd_def USIZE_LIM_def mp_new_def)
  have "pt_get demo_tr demo_mem 4 1 = Some 0"
    using physmap_mem.pt_get_eq [OF \<open>4 \<in> demo_acc\<close>, of 1 demo_mem] by (simp add: demo_view_eq demo_view_def)
  then have "?f 0 (\<lambda>next s. None) 4 ?s = Some (Inr (), ?s')"
    using use(1) v m ix(4) by (simp add: map_body_def map_terminal_def supports_page_size_def level_page_count_eq mp_advance_def mp_new_def uadd_def USIZE_LIM_def uassert_def)
  then have l0: "?r 0 4 ?s = Some (Inr (), ?s')" using wl [of _ ?s' 0] v' by simp
  have step: "?f l (?r k) t ?s = Some (Inr (), ?s')" if "?r k c ?s = Some (Inr (), ?s')" "child l demo_view t (pt_index 513 l) = Some c"
    "l = 1 \<or> \<not> supports_page_size l" "t < 5" "pt_index 513 l < 512" for l k t c
    using that demo_next_table [OF that(4,5), of l] use(2) v by (auto simp: map_body_def next_table_or_create_def)
  have l1: "?r 1 3 ?s = Some (Inr (), ?s')"
    unfolding inner_map.simps(2) [of 0, unfolded level_Suc]
    by (rule wl, rule step [OF l0]) (simp_all only: ix demo_child, simp_all add: v' [simplified])
  have l2: "?r 2 2 ?s = Some (Inr (), ?s')"
    unfolding inner_map.simps(2) [of 1, unfolded level_Suc]
    by (rule wl, rule step [OF l1]) (simp_all add: ix demo_child v' [simplified] supports_page_size_def)
  have "?r 3 1 ?s = Some (Inr (), ?s')"
    unfolding inner_map.simps(2) [of 2, unfolded level_Suc]
    by (rule wl, rule step [OF l2]) (simp_all only: ix demo_child, simp_all add: v' [simplified] supports_page_size_def)
  then show ?thesis by (auto simp: pt_map_def PT_LEVEL_COUNT_def)
qed

text \<open>
  C9. After a successful \<open>map\<close>, \<open>unmap\<close> of the same range succeeds, and every page of the address space translates
  as it did before the two calls, although the tables that \<open>map\<close> created stay in place.
\<close>

theorem map_unmap_round_trip:
  assumes loc: "pt_mapper tr acc al ok pool" and total: "\<forall>a. ok a \<longrightarrow> al a \<noteq> None"
    and range: "0 < sz" "base + sz \<le> 2 ^ 52" "base + sz \<le> window_end 3 base" "phys + sz \<le> 2 ^ 40"
    and pre: "ok a" "pt_wf acc 3 (view_of tr acc m) root" "tables 3 (view_of tr acc m) root \<inter> pool a = {}"
    and run: "pt_map tr al root phys perms mode \<lparr>pt_mem = m, pt_ptr = mp_new base sz, pt_env = a\<rparr> = Some (Inr (), s)"
  shows "\<exists>s'. pt_unmap tr gf root \<lparr>pt_mem = pt_mem s, pt_ptr = mp_new base sz, pt_env = g\<rparr> = Some (Inr (), s') \<and>
    (\<forall>v. same_window 3 base v \<longrightarrow> pt_walk 3 (view_of tr acc (pt_mem s')) root v = pt_walk 3 (view_of tr acc m) root v)"
proof -
  let ?V1 = "view_of tr acc (pt_mem s)"
  obtain r s1 where m: "pt_map tr al root phys perms mode \<lparr>pt_mem = m, pt_ptr = mp_new base sz, pt_env = a\<rparr> = Some (r, s1)"
    "r = Inr () \<longleftrightarrow> mp_offset (pt_ptr s1) = sz" "pt_wf acc 3 (view_of tr acc (pt_mem s1)) root"
    "\<forall>v. same_window 3 base v \<longrightarrow> (if base \<le> v \<and> v < base + mp_offset (pt_ptr s1)
      then maps_to phys perms mode base (base + sz) v (pt_walk 3 (view_of tr acc (pt_mem s1)) root v) \<and>
        pt_walk 3 (view_of tr acc m) root v = None
      else pt_walk 3 (view_of tr acc (pt_mem s1)) root v = pt_walk 3 (view_of tr acc m) root v)"
    using pt_map_run [OF loc total range pre, where perms = perms and mode = mode] by metis
  have s1: "s1 = s" "r = Inr ()" using m(1) run by auto
  have walk1: "if base \<le> v \<and> v < base + sz then maps_to phys perms mode base (base + sz) v (pt_walk 3 ?V1 root v) \<and>
        pt_walk 3 (view_of tr acc m) root v = None else pt_walk 3 ?V1 root v = pt_walk 3 (view_of tr acc m) root v"
    if "same_window 3 base v" for v using m(4) [rule_format, OF that] m(2) unfolding s1 by simp
  have inside: "same_window 3 base v" if "base \<le> v" "v < base + sz" for v
    using that range(3) same_window_iff [OF that(1), of 3] by linarith
  have mem: "page_memory tr acc" using loc by (simp add: pt_mapper_def)
  have "pt_walk 3 ?V1 root base \<noteq> None" using walk1 [of base] range(1) by (auto simp: maps_to_def)
  then have st: "start_ok 3 ?V1 root base" by (rule mapped_start_ok)
  have wf1: "pt_wf acc 3 ?V1 root" using m(3) s1 by simp
  from page_memory.unmap_root [OF mem range(1-3) wf1 st, where gf = gf and g = g] obtain r' s' where
    u: "walk_update 3 tr gf clear_pte root \<lparr>pt_mem = pt_mem s, pt_ptr = mp_new base sz, pt_env = g\<rparr> = Some (r', s')"
    "mp_offset (pt_ptr s') \<le> sz" "r' = Inr () \<longleftrightarrow> mp_offset (pt_ptr s') = sz"
    "\<forall>e. r' = Inl e \<longrightarrow> e = RESOURCE_OVERLAP \<and> blocked 3 ?V1 root base (base + sz) (base + mp_offset (pt_ptr s'))"
    "\<forall>v. same_window 3 base v \<longrightarrow> pt_walk 3 (view_of tr acc (pt_mem s')) root v =
      (if base \<le> v \<and> v < base + mp_offset (pt_ptr s') then updated clear_pte v (pt_walk 3 ?V1 root v) else pt_walk 3 ?V1 root v)"
    by blast
  have "r' = Inr ()"
  proof (rule ccontr)
    let ?v = "base + mp_offset (pt_ptr s')"
    assume "r' \<noteq> Inr ()"
    then have lt: "?v < base + sz" and b: "blocked 3 ?V1 root base (base + sz) ?v" using u(2-4) by (cases r'; auto)+
    from b obtain j e where j: "pt_walk 3 ?V1 root ?v = Some (j, e)" "?v = base \<or> pc j dvd ?v"
      "\<not> (pc j dvd ?v \<and> ?v + pc j \<le> base + sz)" by (auto simp: blocked_def)
    have "base \<le> entry_base j ?v" "entry_end j ?v \<le> base + sz"
      using walk1 [OF inside [OF _ lt]] lt j(1) by (auto simp: maps_to_def)
    moreover have "?v = base \<Longrightarrow> pc j dvd entry_base j ?v" by (simp add: entry_base_def)
    ultimately have "pc j dvd ?v" using j(2) entry_bounds(1) [of j ?v] by (metis le_antisym)
    then show False using j(3) \<open>entry_end j ?v \<le> base + sz\<close> entry_bounds(3) [of j ?v] aligned_entry_base [of j ?v] by simp
  qed
  then show ?thesis using u(1,3,5) walk1 inside unfolding pt_unmap_eq by (intro exI [of _ s']) auto
qed

theorem map_unmap_round_trip_witness:
  "\<exists>s s'. pt_map demo_tr bump_allocate 1 77 PERM_READ Cached
      \<lparr>pt_mem = demo_mem, pt_ptr = mp_new 513 1, pt_env = \<lparr>bp_cur = 16, bp_end = 32\<rparr>\<rparr> = Some (Inr (), s) \<and>
    pt_unmap demo_tr (#) 1 \<lparr>pt_mem = pt_mem s, pt_ptr = mp_new 513 1, pt_env = []\<rparr> = Some (Inr (), s') \<and>
    (\<forall>v. same_window 3 513 v \<longrightarrow> pt_walk 3 (view_of demo_tr demo_acc (pt_mem s')) 1 v = pt_walk 3 (view_of demo_tr demo_acc demo_mem) 1 v)"
proof -
  let ?a = "\<lparr>bp_cur = 16, bp_end = 32\<rparr>"
  obtain s where s: "pt_map demo_tr bump_allocate 1 77 PERM_READ Cached
      \<lparr>pt_mem = demo_mem, pt_ptr = mp_new 513 1, pt_env = ?a\<rparr> = Some (Inr (), s)" using demo_map_run by blast
  have "bump_ok ?a" by (simp add: bump_ok_def layout_consts)
  moreover have "\<forall>a. bump_ok a \<longrightarrow> bump_allocate a \<noteq> None" using bump_total by blast
  moreover have "pt_wf demo_acc 3 (view_of demo_tr demo_acc demo_mem) 1" unfolding demo_view_eq by (rule demo_wf)
  moreover have "tables 3 (view_of demo_tr demo_acc demo_mem) 1 \<inter> bump_pool ?a = {}"
    unfolding demo_view_eq demo_tables(4) by (simp add: bump_pool_def)
  ultimately have "\<exists>s'. pt_unmap demo_tr (#) 1 \<lparr>pt_mem = pt_mem s, pt_ptr = mp_new 513 1, pt_env = []\<rparr> = Some (Inr (), s') \<and>
    (\<forall>v. same_window 3 513 v \<longrightarrow> pt_walk 3 (view_of demo_tr demo_acc (pt_mem s')) 1 v = pt_walk 3 (view_of demo_tr demo_acc demo_mem) 1 v)"
    by (intro map_unmap_round_trip [OF bump_mapper.pt_mapper_axioms _ _ _ _ _ _ _ _ s]) (simp_all add: window_end_def)
  with s show ?thesis by blast
qed

section \<open>A page that unmapping skips\<close>

text \<open>
  Unmapping pages 256 to 767 of the example starts in the middle of the absent entry of level 1 for pages 0 to 511. The code
  advances by 512 pages from there, reports success, and page 512, in the range, is still mapped.
\<close>

lemma unmap_skips_mapped_page:
  "\<exists>s. pt_unmap demo_tr (#) 1 \<lparr>pt_mem = demo_mem, pt_ptr = mp_new 256 512, pt_env = []\<rparr> = Some (Inr (), s) \<and>
     pt_walk 3 (view_of demo_tr demo_acc (pt_mem s)) 1 512 = Some (0, make_terminal_pte 0 99 PERM_READ Cached)"
proof -
  let ?s = "\<lparr>pt_mem = demo_mem, pt_ptr = mp_new 256 512, pt_env = [] :: vpn list\<rparr>" and ?s' = "\<lparr>pt_mem = demo_mem, pt_ptr = \<lparr>mp_base = 256, mp_size = 512, mp_offset = 512\<rparr>, pt_env = []\<rparr>"
  let ?f = "update_body demo_tr (#) clear_pte"
  have v: "mp_virt (pt_ptr ?s) = Some 256" "mp_virt (pt_ptr ?s') = Some 768" by (simp_all add: mp_virt_def mp_new_def uadd_def USIZE_LIM_def)
  have ok: "ptr_ok (pt_ptr ?s)" by (simp add: ptr_ok_def mp_new_def)
  have wl: "walk_level l f ?s = Some (Inr (), ?s')" if "f ?s = Some (Inr (), ?s')" "l \<le> 3" "1 \<le> l" for l f
  proof -
    from that(2,3) consider "l = 1" | "l = 2" | "l = 3" by linarith
    then have "min (range_end (pt_ptr ?s)) (window_end l (virt (pt_ptr ?s))) = 768"
      by cases (simp_all add: mp_new_def window_end_def)
    then show ?thesis unfolding walk_level_eq [OF ok that(2)] using walk_loop_step [of ?s 256 768 f ?s' 768] that(1) v by simp
  qed
  have "next_table demo_tr demo_mem 3 (pt_index 256 1) 1 = Some (Inl NotPresent)"
    unfolding demo_index by (subst demo_next_table) (simp_all only: demo_child, simp_all add: demo_view_def)
  then have b1: "?f 1 rec 3 ?s = Some (Inr (), ?s')" for rec
    using v(1) level_page_count_eq [of 1] advance_clamped_eq(1) [OF ok, of 1]
    by (simp add: update_body_def mp_new_def)
  have l1: "walk_update 1 demo_tr (#) clear_pte 3 ?s = Some (Inr (), ?s')"
    unfolding walk_update.simps(2) [of 0, unfolded level_Suc] by (rule wl, rule b1) simp_all
  have b2: "?f 2 (walk_update 1 demo_tr (#) clear_pte) 2 ?s = Some (Inr (), ?s')"
    using demo_next_table [of 2 0 2] v(1) l1 by (simp add: update_body_def demo_index demo_child)
  have l2: "walk_update 2 demo_tr (#) clear_pte 2 ?s = Some (Inr (), ?s')"
    unfolding walk_update.simps(2) [of 1, unfolded level_Suc] by (rule wl, rule b2) simp_all
  have "next_table demo_tr demo_mem 1 (pt_index 256 3) 3 = Some (Inr 2)"
    unfolding demo_index by (subst demo_next_table) (simp_all only: demo_child, simp_all)
  then have b3: "?f 3 (walk_update 2 demo_tr (#) clear_pte) 1 ?s = Some (Inr (), ?s')"
    using v(1) l2 by (simp add: update_body_def)
  have "walk_update 3 demo_tr (#) clear_pte 1 ?s = Some (Inr (), ?s')"
    unfolding walk_update.simps(2) [of 2, unfolded level_Suc] by (rule wl, rule b3) simp_all
  then show ?thesis unfolding pt_unmap_eq using demo_walk by (intro exI [of _ ?s']) (simp add: demo_view_eq)
qed

end
