(* ===== verification/Pt_Cull.thy ===== *)
theory Pt_Cull
  imports Pt_Update
begin

text \<open>
  Correctness of \<open>PageTable::cull_tables\<close>, which frees the tables below a range that are empty or wholly covered by the range. The walk
  may skip tables that it could free (it advances by whole entries from unaligned positions), so the relation between two states of the walk only bounds what it
  did: a page keeps its translation unless it is in the range, the tables stay a tree, and every frame handed to \<open>cull\<close> was a table of the tree before,
  is none afterwards, and is handed over once.
\<close>

section \<open>Unlinking a table\<close>

lemma unlink_table:
  assumes wf: "pt_wf acc (Suc k) V t" and c: "child (Suc k) V t i = Some c"
  defines "V' \<equiv> V(t := (V t)(i := make_empty_pte))"
  shows "pt_wf acc (Suc k) V' t" "tables (Suc k) V' t \<subseteq> tables (Suc k) V t" "c \<notin> tables (Suc k) V' t"
    "pt_walk (Suc k) V' t v = (if pt_index v (Suc k) = i then None else pt_walk (Suc k) V t v)"
proof -
  have absent: "\<not> pte_is_present make_empty_pte l" for l by (simp add: make_empty_pte_def pte_is_present_bit)
  have eq: "V' q = V q" if "q \<noteq> t" for q using that by (simp add: V'_def)
  have kids: "child (Suc k) V' t j = (if j = i then None else child (Suc k) V t j)" for j
    using absent by (simp add: V'_def child_def)
  have cg: "tables k V' d = tables k V d" "pt_wf acc k V' d = pt_wf acc k V d" "pt_walk k V' d v = pt_walk k V d v"
    if d: "child (Suc k) V t j = Some d" for j d
  proof -
    have "V' q = V q" if "q \<in> tables k V d" for q using pt_wf_child(2) [OF wf d] that by (intro eq) auto
    then show "tables k V' d = tables k V d" "pt_wf acc k V' d = pt_wf acc k V d" "pt_walk k V' d v = pt_walk k V d v"
      by (meson tables_cong, meson pt_wf_cong, meson pt_walk_cong)
  qed
  show sub: "tables (Suc k) V' t \<subseteq> tables (Suc k) V t"
    unfolding subset_iff in_tables_Suc kids using cg(1) by (metis option.distinct(1))
  have "c \<noteq> t" using pt_wf_child(2) [OF wf c] root_in_tables [of c k V] by auto
  moreover have "c \<notin> tables k V d" if "child (Suc k) V t j = Some d" "j \<noteq> i" for j d
    using pt_wf_disjoint [OF wf c that(1)] that(2) by (metis IntI empty_iff root_in_tables)
  ultimately show "c \<notin> tables (Suc k) V' t" unfolding in_tables_Suc kids using cg(1) by (metis option.distinct(1))
  show "pt_wf acc (Suc k) V' t" unfolding pt_wf.simps kids
  proof (intro conjI allI impI)
    show "t \<in> acc" by (rule pt_wf_root [OF wf])
    fix j d assume "(if j = i then None else child (Suc k) V t j) = Some d"
    then have d: "child (Suc k) V t j = Some d" by (simp split: if_splits)
    show "pt_wf acc k V' d" "t \<notin> tables k V' d" using cg(1,2) [OF d] pt_wf_child [OF wf d] by simp_all
  next
    fix j j' d d' assume "j \<noteq> j'" "(if j = i then None else child (Suc k) V t j) = Some d" "(if j' = i then None else child (Suc k) V t j') = Some d'"
    then have "child (Suc k) V t j = Some d" "child (Suc k) V t j' = Some d'" "j \<noteq> j'" by (simp_all split: if_splits)
    then show "tables k V' d \<inter> tables k V' d' = {}" using cg(1) pt_wf_disjoint [OF wf] by simp
  qed
  show "pt_walk (Suc k) V' t v = (if pt_index v (Suc k) = i then None else pt_walk (Suc k) V t v)"
  proof (cases "pt_index v (Suc k) = i")
    case True
    then show ?thesis unfolding pt_walk_Suc kids using absent by (simp add: V'_def Let_def)
  next
    case False
    then show ?thesis unfolding pt_walk_Suc kids using cg(3) by (auto simp: V'_def split: option.splits)
  qed
qed

section \<open>What a walk has freed\<close>

locale pt_culler = page_memory translate acc
  for translate :: "pfn \<Rightarrow> vpn option" and acc :: "pfn set" +
  fixes can_cull :: "'c \<Rightarrow> pfn \<Rightarrow> usize \<Rightarrow> bool" and cull :: "pfn \<Rightarrow> usize \<Rightarrow> 'c \<Rightarrow> 'c"
begin

definition culled :: "(pfn \<times> usize) list \<Rightarrow> 'c \<Rightarrow> 'c" where
  "culled fs c = fold (\<lambda>(p, l). cull p l) fs c"

definition cull_log :: "(pfn \<times> usize) list \<Rightarrow> bool" where
  "cull_log fs \<longleftrightarrow> distinct (map fst fs) \<and> (\<forall>p k. (p, k) \<in> set fs \<longrightarrow> (\<exists>c. can_cull c p k))"

definition cull_rel :: "nat \<Rightarrow> pfn \<Rightarrow> 'c pt_state \<Rightarrow> 'c pt_state \<Rightarrow> bool" where
  "cull_rel l t s0 s \<longleftrightarrow> ptr_ok (pt_ptr s) \<and>
     mp_base (pt_ptr s) = mp_base (pt_ptr s0) \<and> mp_size (pt_ptr s) = mp_size (pt_ptr s0) \<and> mp_offset (pt_ptr s0) \<le> mp_offset (pt_ptr s) \<and>
     pt_wf acc l (view (pt_mem s)) t \<and> tables l (view (pt_mem s)) t \<subseteq> tables l (view (pt_mem s0)) t \<and>
     (\<forall>p. p \<notin> tables l (view (pt_mem s0)) t \<longrightarrow> view (pt_mem s) p = view (pt_mem s0) p) \<and>
     (\<forall>v. same_window l (virt (pt_ptr s0)) v \<longrightarrow>
        pt_walk l (view (pt_mem s)) t v = pt_walk l (view (pt_mem s0)) t v \<or>
        virt (pt_ptr s0) \<le> v \<and> v < range_end (pt_ptr s0) \<and> pt_walk l (view (pt_mem s)) t v = None) \<and>
     (\<exists>fs. pt_env s = culled fs (pt_env s0) \<and> cull_log fs \<and>
        fst ` set fs \<subseteq> tables l (view (pt_mem s0)) t - tables l (view (pt_mem s)) t)"

lemma cull_relD:
  assumes "cull_rel l t s0 s"
  shows "ptr_ok (pt_ptr s)" "mp_base (pt_ptr s) = mp_base (pt_ptr s0)" "mp_size (pt_ptr s) = mp_size (pt_ptr s0)" "mp_offset (pt_ptr s0) \<le> mp_offset (pt_ptr s)"
    "pt_wf acc l (view (pt_mem s)) t" "tables l (view (pt_mem s)) t \<subseteq> tables l (view (pt_mem s0)) t"
    "p \<notin> tables l (view (pt_mem s0)) t \<Longrightarrow> view (pt_mem s) p = view (pt_mem s0) p"
    "same_window l (virt (pt_ptr s0)) v \<Longrightarrow> pt_walk l (view (pt_mem s)) t v = pt_walk l (view (pt_mem s0)) t v \<or>
        virt (pt_ptr s0) \<le> v \<and> v < range_end (pt_ptr s0) \<and> pt_walk l (view (pt_mem s)) t v = None"
    "\<exists>fs. pt_env s = culled fs (pt_env s0) \<and> cull_log fs \<and>
        fst ` set fs \<subseteq> tables l (view (pt_mem s0)) t - tables l (view (pt_mem s)) t"
  using assms unfolding cull_rel_def by simp_all

lemma cull_rel_move:
  assumes "ptr_ok (pt_ptr s)" "pt_wf acc l (view (pt_mem s)) t" "ptr_ok p" "mp_base p = mp_base (pt_ptr s)" "mp_size p = mp_size (pt_ptr s)"
    "mp_offset (pt_ptr s) \<le> mp_offset p"
  shows "cull_rel l t s (s\<lparr>pt_ptr := p\<rparr>)"
  using assms unfolding cull_rel_def by (simp add: culled_def cull_log_def exI [of _ "[]"])

lemma cull_rel_trans:
  assumes r: "cull_rel l t s0 s1" "cull_rel l t s1 s2" and w: "same_window l (virt (pt_ptr s0)) (virt (pt_ptr s1))"
  shows "cull_rel l t s0 s2"
proof -
  let ?V = "\<lambda>s. view (pt_mem s)"
  obtain fs1 where f1: "pt_env s1 = culled fs1 (pt_env s0)" "cull_log fs1" "fst ` set fs1 \<subseteq> tables l (?V s0) t - tables l (?V s1) t"
    using cull_relD(9) [OF r(1)] by blast
  obtain fs2 where f2: "pt_env s2 = culled fs2 (pt_env s1)" "cull_log fs2" "fst ` set fs2 \<subseteq> tables l (?V s1) t - tables l (?V s2) t"
    using cull_relD(9) [OF r(2)] by blast
  have tb: "tables l (?V s2) t \<subseteq> tables l (?V s1) t" "tables l (?V s1) t \<subseteq> tables l (?V s0) t" by (rule cull_relD(6) [OF r(2)], rule cull_relD(6) [OF r(1)])
  have "fst ` set fs1 \<inter> fst ` set fs2 = {}" using f1(3) f2(3) by blast
  then have "cull_log (fs1 @ fs2)" using f1(2) f2(2) by (auto simp: cull_log_def)
  moreover have "fst ` set (fs1 @ fs2) \<subseteq> tables l (?V s0) t - tables l (?V s2) t" unfolding set_append image_Un using f1(3) f2(3) tb by blast
  moreover have "pt_env s2 = culled (fs1 @ fs2) (pt_env s0)" using f1(1) f2(1) by (simp add: culled_def)
  moreover have "pt_walk l (?V s2) t v = pt_walk l (?V s0) t v \<or> virt (pt_ptr s0) \<le> v \<and> v < range_end (pt_ptr s0) \<and> pt_walk l (?V s2) t v = None"
    if v: "same_window l (virt (pt_ptr s0)) v" for v
  proof -
    have a: "pt_walk l (?V s1) t v = pt_walk l (?V s0) t v \<or> virt (pt_ptr s0) \<le> v \<and> v < range_end (pt_ptr s0) \<and> pt_walk l (?V s1) t v = None"
      by (rule cull_relD(8) [OF r(1) v])
    have b: "pt_walk l (?V s2) t v = pt_walk l (?V s1) t v \<or> virt (pt_ptr s1) \<le> v \<and> v < range_end (pt_ptr s1) \<and> pt_walk l (?V s2) t v = None"
      by (rule cull_relD(8) [OF r(2) same_window_trans [OF w v]])
    have "virt (pt_ptr s0) \<le> virt (pt_ptr s1)" "range_end (pt_ptr s1) = range_end (pt_ptr s0)" using cull_relD(2-4) [OF r(1)] by simp_all
    with a b show ?thesis by auto
  qed
  moreover have "?V s2 p = ?V s0 p" if "p \<notin> tables l (?V s0) t" for p
  proof -
    have "p \<notin> tables l (?V s1) t" using that tb(2) by blast
    then show ?thesis using cull_relD(7) [OF r(1) that] cull_relD(7) [OF r(2)] by simp
  qed
  moreover have "tables l (?V s2) t \<subseteq> tables l (?V s0) t" using tb by simp
  moreover have "ptr_ok (pt_ptr s2)" "mp_base (pt_ptr s2) = mp_base (pt_ptr s0)" "mp_size (pt_ptr s2) = mp_size (pt_ptr s0)"
    "mp_offset (pt_ptr s0) \<le> mp_offset (pt_ptr s2)" "pt_wf acc l (?V s2) t" using cull_relD(1-5) [OF r(1)] cull_relD(1-5) [OF r(2)] by simp_all
  ultimately show ?thesis unfolding cull_rel_def by blast
qed

lemma cull_rel_child:
  assumes wf: "pt_wf acc (Suc k) (view (pt_mem s)) t" and c: "child (Suc k) (view (pt_mem s)) t (pt_index (virt (pt_ptr s)) (Suc k)) = Some c"
    and r: "cull_rel k c s s'"
  shows "cull_rel (Suc k) t s s'" "child (Suc k) (view (pt_mem s')) t (pt_index (virt (pt_ptr s)) (Suc k)) = Some c"
proof -
  let ?V = "view (pt_mem s)" and ?V' = "view (pt_mem s')" and ?v = "virt (pt_ptr s)"
  have tab: "tables k ?V' c \<subseteq> tables k ?V c" and same: "\<forall>p. p \<notin> tables k ?V c \<longrightarrow> ?V' p = ?V p" and wf': "pt_wf acc k ?V' c"
    and walk: "\<forall>v. same_window k ?v v \<longrightarrow> pt_walk k ?V' c v = pt_walk k ?V c v \<or> ?v \<le> v \<and> v < range_end (pt_ptr s) \<and> pt_walk k ?V' c v = None"
    and log: "\<exists>fs. pt_env s' = culled fs (pt_env s) \<and> cull_log fs \<and> fst ` set fs \<subseteq> tables k ?V c - tables k ?V' c"
    using cull_relD(5-9) [OF r] by simp_all
  have tab': "tables k ?V' c \<subseteq> tables k ?V c \<union> {}" and fresh: "{} \<inter> tables (Suc k) ?V t = {}"
    and same': "\<forall>p. p \<notin> tables k ?V c \<union> {} \<longrightarrow> ?V' p = ?V p" using tab same by simp_all
  note cc = child_change [OF wf c wf' tab' fresh same']
  show "child (Suc k) ?V' t (pt_index ?v (Suc k)) = Some c" using cc(2) c by simp
  have tabs: "p \<in> tables (Suc k) ?V' t \<longleftrightarrow> p \<in> tables (Suc k) ?V t" if "p \<notin> tables k ?V c" for p
  proof -
    have "p \<in> tables k ?V' d \<longleftrightarrow> p \<in> tables k ?V d" if d: "child (Suc k) ?V t j = Some d" for j d
    proof (cases "j = pt_index ?v (Suc k)")
      case True
      then show ?thesis using c d \<open>p \<notin> tables k ?V c\<close> tab by auto
    next
      case False
      have "?V' q = ?V q" if "q \<in> tables k ?V d" for q using pt_wf_disjoint [OF wf c d] False that same by blast
      then show ?thesis by (metis tables_cong)
    qed
    then show ?thesis unfolding in_tables_Suc cc(2) by blast
  qed
  have gone: "p \<notin> tables (Suc k) ?V' t" if p: "p \<in> tables k ?V c" "p \<notin> tables k ?V' c" for p
  proof
    assume "p \<in> tables (Suc k) ?V' t"
    then obtain j d where "p = t \<or> child (Suc k) ?V t j = Some d \<and> p \<in> tables k ?V' d" unfolding in_tables_Suc cc(2) by blast
    moreover have "p \<noteq> t" using pt_wf_child(2) [OF wf c] p(1) by auto
    ultimately have d: "child (Suc k) ?V t j = Some d" "p \<in> tables k ?V' d" by auto
    then have j: "j \<noteq> pt_index ?v (Suc k)" using p(2) c by auto
    have "?V' q = ?V q" if "q \<in> tables k ?V d" for q using pt_wf_disjoint [OF wf c d(1)] j that same by blast
    then have "p \<in> tables k ?V d" using d(2) by (metis tables_cong)
    then show False using pt_wf_disjoint [OF wf c d(1)] j p(1) by blast
  qed
  have "pt_walk (Suc k) ?V' t v = pt_walk (Suc k) ?V t v \<or> ?v \<le> v \<and> v < range_end (pt_ptr s) \<and> pt_walk (Suc k) ?V' t v = None"
    if w: "same_window (Suc k) ?v v" for v
  proof (cases "pt_index v (Suc k) = pt_index ?v (Suc k)")
    case True
    then have "same_window k ?v v" using pt_index_eq_iff [OF w] unfolding same_entry_same_window [symmetric] by metis
    moreover have "pt_walk (Suc k) ?V t v = pt_walk k ?V c v" using c True by (simp add: pt_walk_Suc)
    ultimately show ?thesis unfolding cc(4) using walk True by auto
  qed (simp add: cc(4))
  moreover have "?V' p = ?V p" if "p \<notin> tables (Suc k) ?V t" for p using that child_tables_subset [OF c] same by blast
  moreover have "\<exists>fs. pt_env s' = culled fs (pt_env s) \<and> cull_log fs \<and> fst ` set fs \<subseteq> tables (Suc k) ?V t - tables (Suc k) ?V' t"
    using log gone child_tables_subset [OF c] by blast
  moreover have "tables (Suc k) ?V' t \<subseteq> tables (Suc k) ?V t" using cc(3) by simp
  moreover have "ptr_ok (pt_ptr s')" "mp_base (pt_ptr s') = mp_base (pt_ptr s)" "mp_size (pt_ptr s') = mp_size (pt_ptr s)"
    "mp_offset (pt_ptr s) \<le> mp_offset (pt_ptr s')" using cull_relD(1-4) [OF r] by simp_all
  ultimately show "cull_rel (Suc k) t s s'" using cc(1) unfolding cull_rel_def by blast
qed

section \<open>One entry\<close>

lemma advance_rel:
  assumes "ptr_ok (pt_ptr s)" "pt_wf acc k (view (pt_mem s)) t" "virt (pt_ptr s) < range_end (pt_ptr s)" "l \<le> 3"
  defines "p \<equiv> pt_ptr s\<lparr>mp_offset := min (mp_offset (pt_ptr s) + pc l) (mp_size (pt_ptr s))\<rparr>"
  shows "cull_rel k t s (s\<lparr>pt_ptr := p\<rparr>)" "virt (pt_ptr s) < virt p" "mp_advance_clamped (pc l) (pt_ptr s) = Some p"
proof -
  show "mp_advance_clamped (pc l) (pt_ptr s) = Some p" unfolding p_def by (rule advance_clamped_eq(1) [OF assms(1,4)])
  have "ptr_ok p" unfolding p_def by (rule advance_clamped_eq(2) [OF assms(1,4)])
  then show "cull_rel k t s (s\<lparr>pt_ptr := p\<rparr>)" using assms(1-3) by (intro cull_rel_move) (simp_all add: p_def)
  show "virt (pt_ptr s) < virt p" using assms(3) pc_pos [of l] by (simp add: p_def)
qed

text \<open>Dropping the table below an entry that is covered by the range, or that is empty.\<close>

lemma drop_rel:
  assumes r: "cull_rel (Suc k) t s s1" and c: "child (Suc k) (view (pt_mem s1)) t (pt_index (virt (pt_ptr s)) (Suc k)) = Some c"
    and p: "ptr_ok (pt_ptr s)" and cc: "\<exists>x. can_cull x c k"
    and why: "pc (Suc k) dvd virt (pt_ptr s) \<and> virt (pt_ptr s) + pc (Suc k) \<le> range_end (pt_ptr s) \<or>
      (\<forall>i<512. \<not> pte_is_present (view (pt_mem s1) c i) k)"
    and m: "view m = (view (pt_mem s1))(t := (view (pt_mem s1) t)(pt_index (virt (pt_ptr s)) (Suc k) := make_empty_pte))"
  shows "cull_rel (Suc k) t s (s1\<lparr>pt_mem := m, pt_env := cull c k (pt_env s1)\<rparr>)"
proof -
  let ?V = "view (pt_mem s)" and ?V1 = "view (pt_mem s1)" and ?v = "virt (pt_ptr s)" let ?i = "pt_index ?v (Suc k)"
  note d = cull_relD [OF r]
  note u = unlink_table [OF d(5) c, folded m]
  have ct: "c \<in> tables (Suc k) ?V1 t" using child_tables_subset [OF c] root_in_tables [of c k ?V1] by blast
  obtain fs where fs: "pt_env s1 = culled fs (pt_env s)" "cull_log fs" "fst ` set fs \<subseteq> tables (Suc k) ?V t - tables (Suc k) ?V1 t" using d(9) by blast
  have "cull_log (fs @ [(c, k)])" using fs(2,3) ct cc by (auto simp: cull_log_def)
  moreover have "cull c k (pt_env s1) = culled (fs @ [(c, k)]) (pt_env s)" by (simp add: fs(1) culled_def)
  moreover have "fst ` set (fs @ [(c, k)]) \<subseteq> tables (Suc k) ?V t - tables (Suc k) (view m) t" using fs(3) ct d(6) u(2,3) by auto
  moreover have "pt_walk (Suc k) (view m) t v = pt_walk (Suc k) ?V t v \<or> ?v \<le> v \<and> v < range_end (pt_ptr s) \<and> pt_walk (Suc k) (view m) t v = None"
    if w: "same_window (Suc k) ?v v" for v
  proof (cases "pt_index v (Suc k) = ?i")
    case False
    then show ?thesis using d(8) [OF w] u(4) [of v] by simp
  next
    case True
    have none: "pt_walk (Suc k) (view m) t v = None" using u(4) [of v] True by simp
    from why show ?thesis
    proof
      assume a: "pc (Suc k) dvd ?v \<and> ?v + pc (Suc k) \<le> range_end (pt_ptr s)"
      have "v div pc (Suc k) = ?v div pc (Suc k)" using pt_index_eq_iff [OF w] True by simp
      then have "entry_base (Suc k) ?v \<le> v" "v < entry_end (Suc k) ?v" using entry_iff [of v "Suc k" ?v] by simp_all
      moreover have "entry_base (Suc k) ?v = ?v" using a by (intro aligned_entry_base) simp
      ultimately show ?thesis using a none entry_bounds(3) [of "Suc k" ?v] by linarith
    next
      assume "\<forall>i<512. \<not> pte_is_present (?V1 c i) k"
      moreover have "\<not> pte_is_present (?V1 c i) k" if "\<not> i < 512" for i using that by (simp add: view_of_def pte_is_present_bit)
      ultimately have "pt_walk k ?V1 c v = None" by (intro empty_table(2)) blast
      then have "pt_walk (Suc k) ?V1 t v = None" using c True by (simp add: pt_walk_Suc)
      then show ?thesis using d(8) [OF w] none by auto
    qed
  qed
  moreover have "view m q = ?V q" if "q \<notin> tables (Suc k) ?V t" for q
  proof -
    have "q \<noteq> t" using that root_in_tables [of t "Suc k" ?V] by blast
    then show ?thesis using d(7) [OF that] by (simp add: m)
  qed
  moreover have "tables (Suc k) (view m) t \<subseteq> tables (Suc k) ?V t" using u(2) d(6) by blast
  ultimately show ?thesis unfolding cull_rel_def using d(1-4) u(1) by (simp del: set_append) blast
qed

definition cull_step :: "nat \<Rightarrow> pfn \<Rightarrow> 'c pt_state \<Rightarrow> 'c pt_state \<Rightarrow> bool" where
  "cull_step l t s s' \<longleftrightarrow> cull_rel l t s s' \<and> virt (pt_ptr s) < virt (pt_ptr s')"

lemma cull_body_spec:
  assumes p: "ptr_ok (pt_ptr s)" and wf: "pt_wf acc l (view (pt_mem s)) t" and l: "l \<le> 3" and lt: "virt (pt_ptr s) < range_end (pt_ptr s)"
    and rec: "\<And>k c. l = Suc k \<Longrightarrow> pt_wf acc k (view (pt_mem s)) c \<Longrightarrow> \<exists>s'. rec c s = Some s' \<and> cull_step k c s s'"
  shows "\<exists>s'. cull_body translate can_cull cull l rec t s = Some (Inr (), s') \<and> cull_step l t s s'"
proof -
  let ?V = "view (pt_mem s)" and ?v = "virt (pt_ptr s)" let ?i = "pt_index ?v l"
  have t: "t \<in> acc" by (rule pt_wf_root [OF wf])
  note eqs = covers_level_entry_eq [OF p l] mp_virt_eq [OF p] next_table_eq [OF t index_less] level_page_count_eq [OF l]
  show ?thesis
  proof (cases "child l ?V t ?i")
    case None
    then show ?thesis using advance_rel [OF p wf lt l] by (simp add: cull_body_def eqs cull_step_def)
  next
    case (Some c)
    then obtain k where k: "l = Suc k" by (cases l) (auto simp: child_def pte_is_terminal_def split: if_splits)
    note c = Some [unfolded k]
    have wfc: "pt_wf acc k ?V c" using pt_wf_child(1) [OF wf [unfolded k] c] .
    have "\<exists>s1. (if l > 1 then rec c s else do { p \<leftarrow> mp_advance_clamped (pc l) (pt_ptr s); Some (s\<lparr>pt_ptr := p\<rparr>) }) = Some s1 \<and> cull_step k c s s1"
      using rec [OF k wfc] advance_rel [OF p wfc lt l] by (simp add: cull_step_def)
    then obtain s1 where s1: "(if l > 1 then rec c s else do { p \<leftarrow> mp_advance_clamped (pc l) (pt_ptr s); Some (s\<lparr>pt_ptr := p\<rparr>) }) = Some s1"
      "cull_rel k c s s1" "?v < virt (pt_ptr s1)" by (auto simp: cull_step_def)
    note ch = cull_rel_child [OF wf [unfolded k] c s1(2)]
    have c1: "c \<in> acc" using pt_wf_root [OF cull_relD(5) [OF s1(2)]] .
    obtain m where m: "pt_set translate (pt_mem s1) t ?i make_empty_pte = Some m" "view m = (view (pt_mem s1))(t := (view (pt_mem s1) t)(?i := make_empty_pte))"
      using pt_set_eq [OF t index_less] by blast
    let ?drop = "can_cull (pt_env s1) c k \<and> (pc l dvd ?v \<and> ?v + pc l \<le> range_end (pt_ptr s) \<or> (\<forall>i<512. \<not> pte_is_present (view (pt_mem s1) c i) k))"
    have body: "cull_body translate can_cull cull l rec t s =
        Some (Inr (), if ?drop then s1\<lparr>pt_mem := m, pt_env := cull c k (pt_env s1)\<rparr> else s1)"
    proof -
      have nl: "usub l 1 = Some k" by (simp add: usub_def k)
      have adv: "(if l > 1 then rec c s else do { n \<leftarrow> level_page_count l; p \<leftarrow> mp_advance_clamped n (pt_ptr s); Some (s\<lparr>pt_ptr := p\<rparr>) }) = Some s1"
        using s1(1) unfolding eqs(4) Option.bind.bind_lunit .
      show ?thesis unfolding cull_body_def eqs(1-3) Some nl Let_def Option.bind.bind_lunit option.case sum.case adv table_is_empty_eq [OF c1] m(1)
        by auto
    qed
    have "cull_rel l t s (s1\<lparr>pt_mem := m, pt_env := cull c k (pt_env s1)\<rparr>)" if ?drop
      unfolding k by (rule drop_rel [OF ch p]) (use that m(2) in \<open>auto simp: k\<close>)
    then show ?thesis using body ch(1) s1(3) by (simp add: cull_step_def k)
  qed
qed


section \<open>The recursion\<close>

lemma walk_level_cull:
  assumes p: "ptr_ok (pt_ptr s)" and wf: "pt_wf acc l (view (pt_mem s)) t" and l: "l \<le> 3"
    and body: "\<And>s. ptr_ok (pt_ptr s) \<Longrightarrow> pt_wf acc l (view (pt_mem s)) t \<Longrightarrow> virt (pt_ptr s) < range_end (pt_ptr s) \<Longrightarrow>
      \<exists>s'. f s = Some (Inr (), s') \<and> cull_step l t s s'"
  shows "\<exists>s'. unwrap_state (walk_level l f s) = Some s' \<and> cull_rel l t s s' \<and> walk_end l (pt_ptr s) \<le> virt (pt_ptr s')"
proof -
  let ?mx = "walk_end l (pt_ptr s)"
  have "case walk_loop f ?mx s of None \<Rightarrow> False
    | Some (r, s') \<Rightarrow> (case r of Inl e \<Rightarrow> False | Inr _ \<Rightarrow> cull_rel l t s s' \<and> ?mx \<le> virt (pt_ptr s'))"
  proof (rule walk_loop_rule)
    show "cull_rel l t s s" using cull_rel_move [OF p wf p] by simp
    show "ptr_ok (pt_ptr s1)" if "cull_rel l t s s1" for s1 by (rule cull_relD(1) [OF that])
    fix s1 assume r: "cull_rel l t s s1" and lt: "virt (pt_ptr s1) < ?mx"
    note d = cull_relD(1-5) [OF r]
    have re: "range_end (pt_ptr s1) = range_end (pt_ptr s)" using d(2,3) by simp
    have "virt (pt_ptr s1) < range_end (pt_ptr s1)" using lt re by (simp add: walk_end_def)
    from body [OF d(1,5) this] obtain s2 where s2: "f s1 = Some (Inr (), s2)" "cull_rel l t s1 s2" "virt (pt_ptr s1) < virt (pt_ptr s2)"
      by (auto simp: cull_step_def)
    have "virt (pt_ptr s) \<le> virt (pt_ptr s1)" using d(2,4) by simp
    then have "same_window l (virt (pt_ptr s)) (virt (pt_ptr s1))" using lt by (simp add: same_window_iff walk_end_def)
    from cull_rel_trans [OF r s2(2) this] s2 show "case f s1 of None \<Rightarrow> False
        | Some (r, s') \<Rightarrow> (case r of Inl e \<Rightarrow> False | Inr _ \<Rightarrow> cull_rel l t s s' \<and> virt (pt_ptr s1) < virt (pt_ptr s'))" by simp
  qed
  then show ?thesis unfolding walk_level_eq [OF p l] walk_end_def [symmetric]
    by (auto simp: unwrap_state_def split: option.splits sum.splits)
qed

lemma inner_cull_spec:
  assumes "l \<le> 3" "ptr_ok (pt_ptr s)" "pt_wf acc l (view (pt_mem s)) t"
  shows "\<exists>s'. inner_cull_tables l translate can_cull cull t s = Some s' \<and> cull_rel l t s s' \<and> walk_end l (pt_ptr s) \<le> virt (pt_ptr s')"
  using assms
proof (induction l arbitrary: t s)
  case 0
  show ?case unfolding inner_cull_tables.simps by (rule walk_level_cull [OF 0(2,3,1)], rule cull_body_spec) simp_all
next
  case (Suc l)
  show ?case unfolding inner_cull_tables.simps
  proof (rule walk_level_cull [OF Suc.prems(2,3,1)], rule cull_body_spec)
    fix k c and s' :: "'c pt_state"
    assume k: "Suc l = Suc k" and s': "ptr_ok (pt_ptr s')" "virt (pt_ptr s') < range_end (pt_ptr s')" "pt_wf acc k (view (pt_mem s')) c"
    obtain s2 where "inner_cull_tables l translate can_cull cull c s' = Some s2" "cull_rel l c s' s2" "walk_end l (pt_ptr s') \<le> virt (pt_ptr s2)"
      using Suc.IH [of s' c] Suc.prems(1) k s' by auto
    then show "\<exists>s2. inner_cull_tables l translate can_cull cull c s' = Some s2 \<and> cull_step k c s' s2"
      using walk_end_gt [OF s'(2), of l] k by (auto simp: cull_step_def)
  qed (use Suc.prems(1) in simp_all)
qed

end

sublocale page_memory \<subseteq> cul: pt_culler translate acc can_cull cull for can_cull :: "'c \<Rightarrow> pfn \<Rightarrow> usize \<Rightarrow> bool" and cull
  by unfold_locales

section \<open>Properties\<close>

lemma pt_cull_run:
  assumes pm: "page_memory tr acc" and rng: "base + sz \<le> 2 ^ 52" and wf: "pt_wf acc 3 (view_of tr acc m) root"
  shows "\<exists>m' fs. pt_cull_tables tr can_cull cull root base sz m c = Some (m', fold (\<lambda>(p, l). cull p l) fs c) \<and>
    pt_wf acc 3 (view_of tr acc m') root \<and> tables 3 (view_of tr acc m') root \<subseteq> tables 3 (view_of tr acc m) root \<and>
    distinct (map fst fs) \<and> fst ` set fs \<subseteq> tables 3 (view_of tr acc m) root - tables 3 (view_of tr acc m') root \<and>
    (\<forall>p k. (p, k) \<in> set fs \<longrightarrow> (\<exists>c. can_cull c p k)) \<and>
    (\<forall>p. p \<notin> tables 3 (view_of tr acc m) root \<longrightarrow> view_of tr acc m' p = view_of tr acc m p) \<and>
    (\<forall>v. same_window 3 base v \<longrightarrow> pt_walk 3 (view_of tr acc m') root v = pt_walk 3 (view_of tr acc m) root v \<or>
       base \<le> v \<and> v < base + sz \<and> pt_walk 3 (view_of tr acc m') root v = None)"
proof -
  let ?s0 = "\<lparr>pt_mem = m, pt_ptr = mp_new base sz, pt_env = c\<rparr>"
  have loc: "pt_culler tr acc" using pm by (simp add: pt_culler_def)
  have "ptr_ok (pt_ptr ?s0)" using rng by (simp add: mp_new_def ptr_ok_def)
  from pt_culler.inner_cull_spec [OF loc _ this, of 3 root can_cull cull] wf obtain s where
    run: "inner_cull_tables 3 tr can_cull cull root ?s0 = Some s" and rel: "pt_culler.cull_rel tr acc can_cull cull 3 root ?s0 s" by auto
  note d = pt_culler.cull_relD [OF loc rel, unfolded mp_new_def, simplified]
  obtain fs where fs: "pt_env s = fold (\<lambda>(p, l). cull p l) fs c" "distinct (map fst fs)" "\<forall>p k. (p, k) \<in> set fs \<longrightarrow> (\<exists>c. can_cull c p k)"
    "fst ` set fs \<subseteq> tables 3 (view_of tr acc m) root - tables 3 (view_of tr acc (pt_mem s)) root"
    using d(9) unfolding pt_culler.culled_def [OF loc] pt_culler.cull_log_def [OF loc] by blast
  have "pt_cull_tables tr can_cull cull root base sz m c = Some (pt_mem s, fold (\<lambda>(p, l). cull p l) fs c)"
    using run fs(1) by (simp add: pt_cull_tables_def PT_LEVEL_COUNT_def)
  then show ?thesis using d(5,6) fs(2-4) d(7,8) by (intro exI [of _ "pt_mem s"] exI [of _ fs]) blast
qed

text \<open>
  C22. \<open>PageTable::cull_tables\<close> on a tree of tables always returns, whatever tables it may cull, and the tables stay a tree. Every frame handed to \<open>cull\<close> was a table of the tree, is
  no table any more, was allowed to be culled, and is handed over only once. Pages outside the range keep their translation, pages inside keep it or lose it, and no frame
  outside the tree is written.
\<close>

theorem pt_cull_tables_correct:
  assumes "page_memory tr acc" "base + sz \<le> 2 ^ 52" "pt_wf acc 3 (view_of tr acc m) root"
  shows "\<exists>m' fs. pt_cull_tables tr can_cull cull root base sz m c = Some (m', fold (\<lambda>(p, l). cull p l) fs c) \<and>
    pt_wf acc 3 (view_of tr acc m') root \<and> tables 3 (view_of tr acc m') root \<subseteq> tables 3 (view_of tr acc m) root \<and>
    distinct (map fst fs) \<and> fst ` set fs \<subseteq> tables 3 (view_of tr acc m) root - tables 3 (view_of tr acc m') root \<and>
    (\<forall>p k. (p, k) \<in> set fs \<longrightarrow> (\<exists>c. can_cull c p k)) \<and>
    (\<forall>p. p \<notin> tables 3 (view_of tr acc m) root \<longrightarrow> view_of tr acc m' p = view_of tr acc m p) \<and>
    (\<forall>v. same_window 3 base v \<longrightarrow> pt_walk 3 (view_of tr acc m') root v = pt_walk 3 (view_of tr acc m) root v \<or>
       base \<le> v \<and> v < base + sz \<and> pt_walk 3 (view_of tr acc m') root v = None)"
  by (rule pt_cull_run [OF assms])

theorem pt_cull_tables_correct_witness:
  "\<exists>m' fs. pt_cull_tables demo_tr (\<lambda>_ _ _. True) (\<lambda>p _. (#) p) 1 512 512 demo_mem [] = Some (m', fold (\<lambda>(p, l :: usize). (#) p) fs []) \<and>
     pt_wf demo_acc 3 (view_of demo_tr demo_acc m') 1 \<and> distinct (map fst fs)"
proof -
  have wf: "pt_wf demo_acc 3 (view_of demo_tr demo_acc demo_mem) 1" using demo_wf by (simp add: demo_view_eq)
  have lim: "512 + 512 \<le> (2 :: nat) ^ 52" by simp
  obtain m' fs where "pt_cull_tables demo_tr (\<lambda>_ _ _. True) (\<lambda>p _. (#) p) 1 512 512 demo_mem [] = Some (m', fold (\<lambda>(p, l :: usize). (#) p) fs [])"
    "pt_wf demo_acc 3 (view_of demo_tr demo_acc m') 1" "distinct (map fst fs)"
    using pt_cull_tables_correct [OF physmap_mem.page_memory_axioms lim wf, of "\<lambda>_ _ _. True" "\<lambda>p _. (#) p" "[]"] by (elim exE conjE) (rule that)
  then show ?thesis by blast
qed

end
