(* ===== verification/Aspace.thy ===== *)
theory Aspace
  imports Vm_Object Aspace_Tree_Inv Pt_Cull
begin

text \<open>
  Address spaces (\<open>mm/vm/aspace.rs\<close>): creating and removing slices and mappings, and filling the page tables on a fault or a commit. The
  functions run with the lock of the address space held, so they are single steps on the state. Page tables are
  reached through the physmap and their frames come from the frame allocator.
\<close>

section \<open>The interface to the page tables\<close>

datatype tlb_flush = FlushSpecific "vpn list" | FlushAll

record aspace_ops =
  ao_root_pt :: pfn
  ao_flush :: "tlb_flush \<Rightarrow> x64_mmu \<Rightarrow> x64_mmu option"
  ao_can_cull_pt :: "pfn \<Rightarrow> usize \<Rightarrow> bool"
  ao_base_perms :: u8

record addr_space =
  as_root_slice :: slice_id
  as_ops :: aspace_ops

text \<open>The state an operation works on: the tree of the address space with the kernel's memory, the objects, the page tables and the TLB.\<close>

record ('g, 'l) vm =
  vm_tree :: "('g, 'l) kmem vm_tree"
  vm_objects :: "vm_object list"
  vm_mem :: memory
  vm_mmu :: x64_mmu

definition on_tree :: "(('g, 'l) kmem vm_tree, 'e, 'a) eff \<Rightarrow> (('g, 'l) vm, 'e, 'a) eff" where
  "on_tree m s = map_option (\<lambda>(r, t). (r, s\<lparr>vm_tree := t\<rparr>)) (m (vm_tree s))"

definition vm_pmm :: "('g, 'l) vm \<Rightarrow> 'l phys_manager option" where
  "vm_pmm s = km_pmm (vt_heap (vm_tree s))"

definition set_pmm :: "'l phys_manager option \<Rightarrow> ('g, 'l) vm \<Rightarrow> ('g, 'l) vm" where
  "set_pmm p s = s\<lparr>vm_tree := (vm_tree s)\<lparr>vt_heap := (vt_heap (vm_tree s))\<lparr>km_pmm := p\<rparr>\<rparr>\<rparr>"

text \<open>The arguments of a trace message are evaluated when tracing is on.\<close>

definition trace_args :: "'h vm_env \<Rightarrow> 'a option \<Rightarrow> ('s, 'e, unit) eff" where
  "trace_args env x = (if ve_trace env then eff_bind (eff_lift x) (\<lambda>_. eff_return ()) else eff_return ())"

section \<open>Pending TLB invalidations\<close>

definition MAX_PAGE_INVALIDATIONS :: usize where "MAX_PAGE_INVALIDATIONS = 10"

datatype pending_gather = GatherSpecific "vpn list" | GatherAll

definition gather_new :: pending_gather where
  "gather_new = GatherSpecific []"

fun as_tlb_flush :: "pending_gather \<Rightarrow> tlb_flush" where
  "as_tlb_flush (GatherSpecific vpns) = FlushSpecific vpns"
| "as_tlb_flush GatherAll = FlushAll"

fun add_tlb_flush :: "'h vm_env \<Rightarrow> vpn \<Rightarrow> pending_gather \<Rightarrow> pending_gather" where
  "add_tlb_flush env vpn (GatherSpecific vpns) = (case ve_try_push env MAX_PAGE_INVALIDATIONS vpns vpn of
     None \<Rightarrow> GatherAll | Some vpns' \<Rightarrow> GatherSpecific vpns')"
| "add_tlb_flush env vpn GatherAll = GatherAll"

section \<open>Slices and mappings\<close>

definition aspace_new :: "'h vm_env \<Rightarrow> vpn \<times> vpn \<Rightarrow> aspace_ops \<Rightarrow> ('h vm_tree, error, addr_space) eff" where
  "aspace_new env rng ops =
     eff_bind (eff_assert (snd rng \<ge> fst rng)) (\<lambda>_.
     eff_bind (eff_lift (usub (snd rng) (fst rng))) (\<lambda>n.
     eff_bind (slice_new env None [0x72, 0x6f, 0x6f, 0x74] (fst rng) n) (\<lambda>root.
     eff_return \<lparr>as_root_slice = root, as_ops = ops\<rparr>)))"

fun subslice_id :: "slice_child \<Rightarrow> slice_id option" where
  "subslice_id (Subslice j) = Some j"
| "subslice_id (MappingChild m) = None"

fun mapping_child_id :: "slice_child \<Rightarrow> mapping_id option" where
  "mapping_child_id (Subslice j) = None"
| "mapping_child_id (MappingChild m) = Some m"

definition create_subslice :: "'h vm_env \<Rightarrow> slice_id \<Rightarrow> u8 list \<Rightarrow> map_base \<Rightarrow> usize \<Rightarrow> ('h vm_tree, error, slice_id) eff" where
  "create_subslice env i name base npages =
     eff_bind (alloc_spot i base npages (\<lambda>start.
       eff_bind (trace_args env (uadd start npages)) (\<lambda>_.
       eff_bind (slice_new env (Some i) name start npages) (\<lambda>j. eff_return (Subslice j))))) (\<lambda>child.
     eff_lift (subslice_id child))"

definition create_mapping :: "'h vm_env \<Rightarrow> slice_id \<Rightarrow> map_base \<Rightarrow> usize \<Rightarrow> usize \<Rightarrow> usize \<Rightarrow> object_id \<Rightarrow> u8 \<Rightarrow> ('h vm_tree, error, mapping_id) eff" where
  "create_mapping env i base total_page_count npages object_offset object prot =
     eff_bind (alloc_spot i base total_page_count (\<lambda>start.
       eff_bind (trace_args env (uadd start npages)) (\<lambda>_.
       eff_bind (mapping_new env i start npages object object_offset prot) (\<lambda>m. eff_return (MappingChild m))))) (\<lambda>child.
     eff_lift (mapping_child_id child))"

definition object_at :: "('g, 'l) vm \<Rightarrow> object_id \<Rightarrow> vm_object option" where
  "object_at s i = (if i < length (vm_objects s) then Some (vm_objects s ! i) else None)"

definition aspace_map :: "('g, 'l) kmem vm_env \<Rightarrow> slice_id \<Rightarrow> map_base \<Rightarrow> usize \<Rightarrow> usize \<Rightarrow> object_id \<Rightarrow> u8 \<Rightarrow> (('g, 'l) vm, error, mapping_id) eff" where
  "aspace_map env i base npages object_offset object prot s = do {
     obj \<leftarrow> object_at s object;
     let total_page_count = object_page_count obj;
     if object_offset > total_page_count \<or> npages > total_page_count - object_offset then Some (Inl INVALID_ARGUMENT, s)
     else on_tree (create_mapping env i base total_page_count npages object_offset object prot) s }"

section \<open>Committing\<close>

record commit_range =
  cr_mapping :: mapping_id
  cr_commit_type :: commit_type
  cr_offset :: usize
  cr_page_count :: usize

fun get_commit_type :: "access_type \<Rightarrow> commit_type" where
  "get_commit_type ReadAccess = CommitRead"
| "get_commit_type ExecuteAccess = CommitRead"
| "get_commit_type WriteAccess = CommitWrite"

fun access_allowed :: "access_type \<Rightarrow> u8 \<Rightarrow> bool" where
  "access_allowed ReadAccess prot = flag_contains prot PROT_READ"
| "access_allowed WriteAccess prot = flag_contains prot PROT_WRITE"
| "access_allowed ExecuteAccess prot = flag_contains prot PROT_EXECUTE"

definition perms_for_prot :: "aspace_ops \<Rightarrow> u8 \<Rightarrow> u8" where
  "perms_for_prot ops prot =
     flag_set (flag_set (flag_set (ao_base_perms ops) PERM_READ (flag_contains prot PROT_READ))
       PERM_WRITE (flag_contains prot PROT_WRITE)) PERM_EXECUTE (flag_contains prot PROT_EXECUTE)"

definition aspace_pt_alloc :: "(virt_addr, 'l) ll_ops \<Rightarrow> 'l phys_manager option \<Rightarrow> ('l phys_manager option \<times> pfn result) option" where
  "aspace_pt_alloc L st = do {
     (r, st') \<leftarrow> pmm_allocate L st 0;
     Some (st', case r of None \<Rightarrow> Inl OUT_OF_MEMORY | Some p \<Rightarrow> Inr p) }"

record mapping_run =
  run_base_off :: usize
  run_base_pfn :: pfn
  run_size :: usize

definition do_map :: "(virt_addr, 'l) ll_ops \<Rightarrow> aspace_ops \<Rightarrow> mapping \<Rightarrow> u8 \<Rightarrow> cache_mode \<Rightarrow> mapping_run \<Rightarrow> (('g, 'l) vm, error, unit) eff" where
  "do_map L ops m prot mode run s = do {
     v \<leftarrow> uadd (ma_start m) (run_base_off run);
     (r, p) \<leftarrow> pt_map PhysmapPfnTranslator_translate (aspace_pt_alloc L) (ao_root_pt ops) (run_base_pfn run) (perms_for_prot ops prot) mode
       \<lparr>pt_mem = vm_mem s, pt_ptr = mp_new v (run_size run), pt_env = vm_pmm s\<rparr>;
     Some (r, set_pmm (pt_env p) (s\<lparr>vm_mem := pt_mem p\<rparr>)) }"

definition object_provide :: "(virt_addr, 'l) ll_ops \<Rightarrow> object_id \<Rightarrow> usize \<Rightarrow> commit_type \<Rightarrow> (('g, 'l) vm, error, pfn) eff" where
  "object_provide L object offset ct s = do {
     obj \<leftarrow> object_at s object;
     (r, obj', st) \<leftarrow> provide_page L offset ct obj (vm_pmm s);
     Some (r, set_pmm st (s\<lparr>vm_objects := (vm_objects s)[object := obj']\<rparr>)) }"

text \<open>The loop of \<open>do_commit\<close> over the offsets, with the run of contiguous frames that is not mapped yet.\<close>

fun commit_loop :: "(virt_addr, 'l) ll_ops \<Rightarrow> aspace_ops \<Rightarrow> mapping \<Rightarrow> u8 \<Rightarrow> cache_mode \<Rightarrow> commit_type \<Rightarrow> usize list \<Rightarrow> mapping_run option
    \<Rightarrow> (('g, 'l) vm, error, unit) eff" where
  "commit_loop L ops m prot mode ct [] cur_run = (case cur_run of None \<Rightarrow> eff_return () | Some run \<Rightarrow> do_map L ops m prot mode run)"
| "commit_loop L ops m prot mode ct (offset # offsets) cur_run =
     eff_bind (eff_lift (uadd offset (ma_object_offset m))) (\<lambda>object_offset.
     eff_bind (object_provide L (ma_object m) object_offset ct) (\<lambda>pfn.
     case cur_run of
       Some run \<Rightarrow>
         if addr_checked_add (run_base_pfn run) (run_size run) = Some pfn
         then commit_loop L ops m prot mode ct offsets (Some (run\<lparr>run_size := run_size run + 1\<rparr>))
         else eff_bind (do_map L ops m prot mode run) (\<lambda>_.
           commit_loop L ops m prot mode ct offsets (Some \<lparr>run_base_off = offset, run_base_pfn = pfn, run_size = 1\<rparr>))
     | None \<Rightarrow> commit_loop L ops m prot mode ct offsets (Some \<lparr>run_base_off = offset, run_base_pfn = pfn, run_size = 1\<rparr>)))"

definition do_commit :: "('g, 'l) kmem vm_env \<Rightarrow> (virt_addr, 'l) ll_ops \<Rightarrow> addr_space \<Rightarrow> (('g, 'l) vm, error, commit_range) eff \<Rightarrow> (('g, 'l) vm, error, unit) eff" where
  "do_commit env L asp get_range =
     eff_bind get_range (\<lambda>rng.
     eff_bind (on_tree (mapping_prot (cr_mapping rng))) (\<lambda>prot s. do {
       m \<leftarrow> mapping_at (vm_tree s) (cr_mapping rng);
       obj \<leftarrow> object_at s (ma_object m);
       end_offset \<leftarrow> uadd (cr_offset rng) (cr_page_count rng);
       eff_bind (trace_args env (do { a \<leftarrow> uadd (ma_start m) (cr_offset rng); b \<leftarrow> uadd (ma_start m) end_offset; Some (a, b) })) (\<lambda>_.
         commit_loop L (as_ops asp) m prot (object_cache_mode obj) (cr_commit_type rng) [cr_offset rng..<end_offset] None) s }))"

definition commit_range_requested :: "mapping_id \<Rightarrow> usize \<Rightarrow> usize \<Rightarrow> (('g, 'l) vm, error, commit_range) eff" where
  "commit_range_requested m offset npages =
     eff_bind (on_tree (mapping_prot m)) (\<lambda>prot.
     eff_return \<lparr>cr_mapping = m, cr_commit_type = (if flag_contains prot PROT_WRITE then CommitWrite else CommitRead),
       cr_offset = offset, cr_page_count = npages\<rparr>)"

definition commit_range_by_vpn :: "addr_space \<Rightarrow> vpn \<Rightarrow> access_type \<Rightarrow> (('g, 'l) vm, error, commit_range) eff" where
  "commit_range_by_vpn asp vpn access =
     eff_bind (on_tree (get_mapping (as_root_slice asp) vpn)) (\<lambda>m.
     eff_bind (on_tree (mapping_prot m)) (\<lambda>prot.
     if \<not> access_allowed access prot then eff_fail NO_PERMS
     else (\<lambda>s. do {
       mm \<leftarrow> mapping_at (vm_tree s) m;
       offset \<leftarrow> usub vpn (ma_start mm);
       Some (Inr \<lparr>cr_mapping = m, cr_commit_type = get_commit_type access, cr_offset = offset, cr_page_count = 1\<rparr>, s) })))"

definition aspace_commit :: "('g, 'l) kmem vm_env \<Rightarrow> (virt_addr, 'l) ll_ops \<Rightarrow> addr_space \<Rightarrow> mapping_id \<Rightarrow> usize \<Rightarrow> usize \<Rightarrow> (('g, 'l) vm, error, unit) eff" where
  "aspace_commit env L asp m offset npages = do_commit env L asp (commit_range_requested m offset npages)"

definition aspace_fault :: "('g, 'l) kmem vm_env \<Rightarrow> (virt_addr, 'l) ll_ops \<Rightarrow> addr_space \<Rightarrow> vpn \<Rightarrow> access_type \<Rightarrow> (('g, 'l) vm, error, unit) eff" where
  "aspace_fault env L asp vpn access = do_commit env L asp (commit_range_by_vpn asp vpn access)"

definition map_committed :: "('g, 'l) kmem vm_env \<Rightarrow> (virt_addr, 'l) ll_ops \<Rightarrow> addr_space \<Rightarrow> slice_id \<Rightarrow> map_base \<Rightarrow> usize \<Rightarrow> usize \<Rightarrow> object_id \<Rightarrow> u8
    \<Rightarrow> (('g, 'l) vm, error, mapping_id) eff" where
  "map_committed env L asp i base npages object_offset object prot =
     eff_bind (aspace_map env i base npages object_offset object prot) (\<lambda>m.
     eff_bind (aspace_commit env L asp m 0 npages) (\<lambda>_. eff_return m))"

section \<open>Unmapping\<close>

text \<open>Culled tables are freed; \<open>None\<close> in the environment of the walk is a panic of the frame allocator.\<close>

definition cull_table :: "(virt_addr, 'l) ll_ops \<Rightarrow> pfn \<Rightarrow> usize \<Rightarrow> 'l phys_manager option option \<Rightarrow> 'l phys_manager option option" where
  "cull_table L pt level st = Option.bind st (\<lambda>p. pmm_deallocate L p pt 0)"

definition do_unmap :: "('g, 'l) kmem vm_env \<Rightarrow> (virt_addr, 'l) ll_ops \<Rightarrow> addr_space \<Rightarrow> vpn \<Rightarrow> usize \<Rightarrow> ('g, 'l) vm \<Rightarrow> ('g, 'l) vm option" where
  "do_unmap env L asp start npages s = do {
     (r, p) \<leftarrow> pt_unmap PhysmapPfnTranslator_translate (add_tlb_flush env) (ao_root_pt (as_ops asp))
       \<lparr>pt_mem = vm_mem s, pt_ptr = mp_new start npages, pt_env = gather_new\<rparr>;
     _ \<leftarrow> (case r of Inl _ \<Rightarrow> None | Inr _ \<Rightarrow> Some ());
     mmu \<leftarrow> ao_flush (as_ops asp) (as_tlb_flush (pt_env p)) (vm_mmu s);
     (mem, st) \<leftarrow> pt_cull_tables PhysmapPfnTranslator_translate (\<lambda>_ pt level. ao_can_cull_pt (as_ops asp) pt level) (cull_table L)
       (ao_root_pt (as_ops asp)) start npages (pt_mem p) (Some (vm_pmm s));
     pmm \<leftarrow> st;
     Some (set_pmm pmm (s\<lparr>vm_mem := mem, vm_mmu := mmu\<rparr>)) }"

definition unmap_slice :: "('g, 'l) kmem vm_env \<Rightarrow> (virt_addr, 'l) ll_ops \<Rightarrow> addr_space \<Rightarrow> slice_id \<Rightarrow> (('g, 'l) vm, error, unit) eff" where
  "unmap_slice env L asp i =
     eff_bind (on_tree (slice_parent i)) (\<lambda>parent.
     case parent of
       None \<Rightarrow> eff_fail INVALID_ARGUMENT
     | Some p \<Rightarrow> (\<lambda>s. do {
         sl \<leftarrow> slice_at (vm_tree s) i;
         eff_bind (trace_args env (slice_end sl)) (\<lambda>_.
         eff_bind (on_tree (remove_child p (sl_start sl))) (\<lambda>_ s1. do {
           t \<leftarrow> detach_children i (vm_tree s1);
           s2 \<leftarrow> do_unmap env L asp (sl_start sl) (sl_page_count sl) (s1\<lparr>vm_tree := t\<rparr>);
           Some (Inr (), s2) })) s }))"

definition aspace_unmap :: "('g, 'l) kmem vm_env \<Rightarrow> (virt_addr, 'l) ll_ops \<Rightarrow> addr_space \<Rightarrow> mapping_id \<Rightarrow> (('g, 'l) vm, error, unit) eff" where
  "aspace_unmap env L asp m =
     eff_bind (on_tree (mapping_parent m)) (\<lambda>parent s. do {
       mm \<leftarrow> mapping_at (vm_tree s) m;
       eff_bind (on_tree (remove_child parent (ma_start mm))) (\<lambda>_.
       eff_bind (trace_args env (mapping_end mm)) (\<lambda>_ s1. do {
         s2 \<leftarrow> do_unmap env L asp (ma_start mm) (ma_page_count mm) s1;
         Some (Inr (), s2) })) s })"

definition aspace_drop :: "addr_space \<Rightarrow> ('g, 'l) vm \<Rightarrow> ('g, 'l) vm option" where
  "aspace_drop asp s = do { t \<leftarrow> detach_children (as_root_slice asp) (vm_tree s); Some (s\<lparr>vm_tree := t\<rparr>) }"

end
