(* ===== verification/Aspace_Ops.thy ===== *)
theory Aspace_Ops
  imports Aspace
begin

text \<open>
  Correctness of the operations of an address space that change its tree: creating subslices and mappings on every branch, finding the
  mapping of a page, and detaching a subtree.
\<close>

section \<open>Making a child and finding a place for it\<close>

definition same_tree :: "'h vm_tree \<Rightarrow> 'h vm_tree \<Rightarrow> bool" where
  "same_tree t t' \<longleftrightarrow> vt_slices t' = vt_slices t \<and> vt_mappings t' = vt_mappings t"

text \<open>A new child of slice \<open>i\<close> at \<open>start\<close>, at most \<open>n\<close> pages long, has been added to the store.\<close>

definition made_child :: "'h vm_tree \<Rightarrow> slice_id \<Rightarrow> vpn \<Rightarrow> usize \<Rightarrow> slice_child \<Rightarrow> 'h vm_tree \<Rightarrow> bool" where
  "made_child t i start n c t1 \<longleftrightarrow> grows t t1 \<and> tree_ok t1 \<and> \<not> c_valid t c \<and> c_valid t1 c \<and> c_lo t1 c = start \<and> c_hi t1 c \<le> start + n \<and> c_linked t1 i c"

definition within :: "slice \<Rightarrow> vpn \<Rightarrow> usize \<Rightarrow> bool" where
  "within s start n \<longleftrightarrow> sl_start s \<le> start \<and> start + n \<le> s_end s"

lemma same_tree_grows: "same_tree t t' \<Longrightarrow> grows t t'"
  by (simp add: same_tree_def grows_def)

lemma same_tree_ok: "same_tree t t' \<Longrightarrow> tree_ok t \<Longrightarrow> tree_ok t'"
  by (rule grows_tree_ok [of t]) (auto simp: same_tree_def grows_def)

lemma grows_slice: "grows t t1 \<Longrightarrow> attached t i inn \<Longrightarrow> vt_slices t1 ! i = vt_slices t ! i"
  by (simp add: grows_def attached_def)

lemma grows_clear:
  assumes "grows t t1" "tree_ok t" "attached t i inn"
  shows "clear_at t1 (si_children inn) a n = clear_at t (si_children inn) a n" "free_at t1 inn a n = free_at t inn a n"
proof -
  have h: "c_hi t1 c = c_hi t c" if q: "(k, c) \<in> set (si_children inn)" for k c
    by (rule grows_child(3) [OF assms(1) children_okD(1) [OF tree_ok_children [OF assms(2,3)] q]])
  show "clear_at t1 (si_children inn) a n = clear_at t (si_children inn) a n"
    unfolding clear_at_def by (rule ball_cong) (auto simp: h)
  show "free_at t1 inn a n = free_at t inn a n"
    unfolding free_at_def by (rule ball_cong) (auto simp: h)
qed

lemma place_fixed:
  assumes ok: "tree_ok t" and at: "attached t i inn" and n: "0 < n" "start + n < USIZE_LIM"
    and mk: "f start t = Some (Inr c, t1)" "made_child t i start n c t1"
  shows "alloc_spot i (Fixed start) n f t =
    (if \<not> within (vt_slices t ! i) start n then Some (Inl INVALID_ARGUMENT, t1)
     else if free_at t inn start n then Some (Inr c, add_child i inn start c t1) else Some (Inl RESOURCE_OVERLAP, t1))"
    "within (vt_slices t ! i) start n \<Longrightarrow> free_at t inn start n \<Longrightarrow> tree_ok (add_child i inn start c t1)"
proof -
  have g: "grows t t1" "tree_ok t1" "attached t1 i inn" "vt_slices t1 ! i = vt_slices t ! i"
    using mk(2) grows_attached [OF _ at] grows_slice [OF _ at] by (auto simp: made_child_def)
  have fx: "alloc_spot_fixed i start n c t1 =
    (if \<not> within (vt_slices t ! i) start n then Some (Inl INVALID_ARGUMENT, t1)
     else if free_at t inn start n then Some (Inr (), add_child i inn start c t1) else Some (Inl RESOURCE_OVERLAP, t1))"
    using fixed_eq [OF g(2,3) n(1), of start c] n(2) unfolding grows_clear(2) [OF g(1) ok at] g(4) by (simp add: within_def)
  show "alloc_spot i (Fixed start) n f t =
    (if \<not> within (vt_slices t ! i) start n then Some (Inl INVALID_ARGUMENT, t1)
     else if free_at t inn start n then Some (Inr c, add_child i inn start c t1) else Some (Inl RESOURCE_OVERLAP, t1))"
    using mk(1) by (simp add: alloc_spot_def eff_bind_def fx eff_return_def)
  assume w: "within (vt_slices t ! i) start n" and fr: "free_at t inn start n"
  show "tree_ok (add_child i inn start c t1)"
  proof (rule add_child_ok [OF g(2,3) _ n(1)])
    show "clear_at t1 (si_children inn) start n" using free_clear [OF fr] grows_clear(1) [OF g(1) ok at] by simp
  qed (use mk(2) w g(4) in \<open>auto simp: made_child_def within_def\<close>)
qed

lemma place_aligned:
  assumes ok: "tree_ok t" and at: "attached t i inn" and n: "0 < n" and r: "gaps_reach t i inn order"
  obtains (none) "alloc_spot i (Aligned order) n f t = Some (Inl OUT_OF_RESOURCES, t)"
      "\<And>a. 2 ^ order dvd a \<Longrightarrow> within (vt_slices t ! i) a (n + 1) \<Longrightarrow> \<not> clear_at t (si_children inn) a (n + 1)"
  | (spot) start where "2 ^ order dvd start" "within (vt_slices t ! i) start (n + 1)" "clear_at t (si_children inn) start (n + 1)"
      "alloc_spot i (Aligned order) n f t = eff_bind (f start) (\<lambda>child t. do { t1 \<leftarrow> insert_child i start child t; Some (Inr child, t1) }) t"
proof -
  have fa: "(2 :: nat) ^ order dvd first_aligned (2 ^ order) g" "g \<le> first_aligned (2 ^ order) g" "first_aligned (2 ^ order) g \<le> g + k"
    "\<And>m. 2 ^ order dvd m \<Longrightarrow> g \<le> m \<Longrightarrow> first_aligned (2 ^ order) g \<le> m" if "(g, k) \<in> set (slice_gaps t i inn)" for g k
    using that r first_aligned_spec(2-) [of g "2 ^ order"] by (auto simp: gaps_reach_def)
  show thesis
  proof (cases "find (gap_fits (2 ^ order) n) (slice_gaps t i inn)")
    case None
    note dyn = dynamic_eq [OF ok at r, of n f, unfolded None, simplified]
    have "\<not> clear_at t (si_children inn) a (n + 1)" if q: "2 ^ order dvd a" "within (vt_slices t ! i) a (n + 1)" for a
    proof
      assume "clear_at t (si_children inn) a (n + 1)"
      then obtain g k where g: "(g, k) \<in> set (slice_gaps t i inn)" "g \<le> a" "a + (n + 1) \<le> g + k"
        using slice_gaps_complete [OF ok at _ _ _, of a "n + 1"] q unfolding within_def by auto
      have "g + k - first_aligned (2 ^ order) g \<le> n" using None g(1) unfolding find_no_fit by blast
      then show False using fa(4) [OF g(1) q(1) g(2)] g(3) by linarith
    qed
    then show thesis using dyn by (intro none) (simp_all add: alloc_spot_def)
  next
    case (Some p)
    obtain g k where p: "p = (g, k)" by (cases p)
    note fg = find_fits [OF Some [unfolded p]]
    have "within (vt_slices t ! i) (first_aligned (2 ^ order) g) (n + 1)" "clear_at t (si_children inn) (first_aligned (2 ^ order) g) (n + 1)"
      using slice_gaps_sound [OF ok at fg(1)] fg(2) fa(2,3) [OF fg(1)] by (fastforce simp: within_def clear_at_def)+
    then show thesis using dynamic_eq [OF ok at r, of n f, unfolded Some p] fa(1) [OF fg(1)] by (intro spot) (simp_all add: alloc_spot_def)
  qed
qed

text \<open>
  Both kinds of placement at once, for a closure that either runs out of memory or makes a child. An aligned placement that finds
  nothing says that no free aligned run is longer than the request.
\<close>

definition place_failed :: "'h vm_tree \<Rightarrow> slice_id \<Rightarrow> map_base \<Rightarrow> usize \<Rightarrow> bool \<Rightarrow> error \<Rightarrow> bool" where
  "place_failed t i base n mem e \<longleftrightarrow> \<not> mem \<and> e = OUT_OF_MEMORY \<or> sl_inner (vt_slices t ! i) = None \<and> e = INVALID_STATE \<or>
     (case base of
        Fixed start \<Rightarrow>
          if within (vt_slices t ! i) start n then e = RESOURCE_OVERLAP \<and> (\<exists>inn. attached t i inn \<and> \<not> free_at t inn start n)
          else e = INVALID_ARGUMENT
      | Aligned order \<Rightarrow> e = OUT_OF_RESOURCES \<and> (\<exists>inn. attached t i inn \<and>
          (\<forall>a. 2 ^ order dvd a \<longrightarrow> within (vt_slices t ! i) a (n + 1) \<longrightarrow> \<not> clear_at t (si_children inn) a (n + 1))))"

fun base_met :: "map_base \<Rightarrow> vpn \<Rightarrow> bool" where
  "base_met (Fixed v) start \<longleftrightarrow> start = v"
| "base_met (Aligned order) start \<longleftrightarrow> 2 ^ order dvd start"

text \<open>The requests that do not make the arithmetic of the search panic.\<close>

definition base_ok :: "'h vm_tree \<Rightarrow> slice_id \<Rightarrow> map_base \<Rightarrow> usize \<Rightarrow> bool" where
  "base_ok t i base n \<longleftrightarrow> (case base of
     Fixed start \<Rightarrow> start + n < USIZE_LIM
   | Aligned order \<Rightarrow> order < 64 \<and> (\<forall>inn. attached t i inn \<longrightarrow> gaps_reach t i inn order))"

lemma alloc_spot_attached:
  assumes ok: "tree_ok t" and at: "attached t i inn" and n: "0 < n" and b: "base_ok t i base n"
    and mk: "\<And>start. start + n < USIZE_LIM \<Longrightarrow> \<not> mem \<and> (\<exists>t1. f start t = Some (Inl OUT_OF_MEMORY, t1) \<and> same_tree t t1) \<or>
      mem \<and> (\<exists>c t1. f start t = Some (Inr c, t1) \<and> made_child t i start n c t1)"
  shows "\<exists>r t'. alloc_spot i base n f t = Some (r, t') \<and> tree_ok t' \<and>
    (case r of
       Inl e \<Rightarrow> place_failed t i base n mem e \<and> grows t t'
     | Inr c \<Rightarrow> mem \<and> (\<exists>start t1. f start t = Some (Inr c, t1) \<and> made_child t i start n c t1 \<and> t' = add_child i inn start c t1 \<and>
         within (vt_slices t ! i) start n \<and> clear_at t (si_children inn) start n \<and> base_met base start))"
proof (cases base)
  case (Fixed start)
  then have lim: "start + n < USIZE_LIM" using b by (simp add: base_ok_def)
  from mk [OF lim] show ?thesis
  proof (elim disjE exE conjE)
    fix t1 assume "\<not> mem" "f start t = Some (Inl OUT_OF_MEMORY, t1)" "same_tree t t1"
    then show ?thesis using same_tree_ok [OF _ ok] same_tree_grows
      by (simp add: Fixed alloc_spot_def eff_bind_def place_failed_def)
  next
    fix c t1 assume mem: mem and m: "f start t = Some (Inr c, t1)" "made_child t i start n c t1"
    from m have "grows t t1" "tree_ok t1" by (simp_all add: made_child_def)
    then show ?thesis using place_fixed [where f = f, OF ok at n lim m] m mem free_clear [of t inn start n]
      using at by (auto simp: Fixed place_failed_def)
  qed
next
  case (Aligned order)
  then have o: "gaps_reach t i inn order" using b at by (auto simp: base_ok_def)
  from ok at n o show ?thesis
  proof (cases rule: place_aligned [where f = f])
    case none
    then have "place_failed t i base n mem OUT_OF_RESOURCES" using at unfolding place_failed_def Aligned by auto
    then show ?thesis using none(1) ok by (simp add: Aligned grows_def)
  next
    case (spot start)
    have e: "s_end (vt_slices t ! i) < USIZE_LIM" using ok at by (simp add: tree_ok_def slice_ok_def attached_def)
    then have lim: "start + n < USIZE_LIM" using spot(2) by (simp add: within_def)
    have cl: "within (vt_slices t ! i) start n" "clear_at t (si_children inn) start n" using spot(2,3) by (auto simp: within_def clear_at_def)
    from mk [OF lim] show ?thesis
    proof (elim disjE exE conjE)
      fix t1 assume "\<not> mem" "f start t = Some (Inl OUT_OF_MEMORY, t1)" "same_tree t t1"
      then show ?thesis using spot(4) same_tree_ok [OF _ ok] same_tree_grows by (simp add: Aligned eff_bind_def place_failed_def)
    next
      fix c t1 assume mem: mem and m: "f start t = Some (Inr c, t1)" "made_child t i start n c t1"
      have g: "grows t t1" "tree_ok t1" "attached t1 i inn" "vt_slices t1 ! i = vt_slices t ! i"
        using m grows_attached [OF _ at] grows_slice [OF _ at] by (auto simp: made_child_def)
      have r: "alloc_spot i base n f t = Some (Inr c, add_child i inn start c t1)"
        using spot(4) m(1) insert_child_eq [OF g(3)] by (simp add: Aligned eff_bind_def)
      have "tree_ok (add_child i inn start c t1)"
      proof (rule add_child_ok [OF g(2,3) _ n])
        show "clear_at t1 (si_children inn) start n" using cl(2) grows_clear(1) [OF g(1) ok at] by simp
      qed (use m(2) cl g(4) in \<open>auto simp: made_child_def within_def\<close>)
      then show ?thesis using r m mem cl spot(1) by (auto simp: Aligned)
    qed
  qed
qed

lemma alloc_spot_detached:
  assumes ok: "tree_ok t" and i: "i < length (vt_slices t)" "sl_inner (vt_slices t ! i) = None" and b: "base_ok t i base n"
    and mk: "\<And>start. start + n < USIZE_LIM \<Longrightarrow> \<not> mem \<and> (\<exists>t1. f start t = Some (Inl OUT_OF_MEMORY, t1) \<and> same_tree t t1) \<or>
      mem \<and> (\<exists>c t1. f start t = Some (Inr c, t1) \<and> made_child t i start n c t1)"
  shows "\<exists>e t'. alloc_spot i base n f t = Some (Inl e, t') \<and> tree_ok t' \<and> place_failed t i base n mem e \<and> grows t t'"
proof (cases base)
  case (Fixed start)
  then have lim: "start + n < USIZE_LIM" using b by (simp add: base_ok_def)
  from mk [OF lim] show ?thesis
  proof (elim disjE exE conjE)
    fix t1 assume "\<not> mem" "f start t = Some (Inl OUT_OF_MEMORY, t1)" "same_tree t t1"
    then show ?thesis using same_tree_ok [OF _ ok] same_tree_grows
      by (simp add: Fixed alloc_spot_def eff_bind_def place_failed_def)
  next
    fix c t1 assume m: "f start t = Some (Inr c, t1)" "made_child t i start n c t1"
    from m have g: "grows t t1" "tree_ok t1" by (simp_all add: made_child_def)
    from g(1) i have u: "slice_at t1 i = Some (vt_slices t ! i)" by (simp add: grows_def slice_at_def)
    have "slice_end (vt_slices t ! i) = Some (s_end (vt_slices t ! i))" using slice_end_ok [OF ok i(1)] .
    then have "alloc_spot_fixed i start n c t1 = Some (Inl (if within (vt_slices t ! i) start n then INVALID_STATE else INVALID_ARGUMENT), t1)"
      using u i(2) lim by (auto simp: alloc_spot_fixed_def addr_checked_add_def within_def eff_bind_def inner_def)
    then show ?thesis using m(1) g i(2) by (simp add: Fixed alloc_spot_def eff_bind_def place_failed_def)
  qed
next
  case (Aligned order)
  then have "order < 64" using b by (simp add: base_ok_def)
  then have "alloc_spot i base n f t = Some (Inl INVALID_STATE, t)"
    using i by (simp add: Aligned alloc_spot_def alloc_spot_dynamic_def iter_gaps_def eff_bind_def eff_lift_def ushl_def inner_def slice_at_def)
  then show ?thesis using ok i(2) by (simp add: place_failed_def grows_def)
qed

lemma alloc_spot_spec:
  assumes ok: "tree_ok t" and i: "i < length (vt_slices t)" and n: "0 < n" and b: "base_ok t i base n"
    and mk: "\<And>start. start + n < USIZE_LIM \<Longrightarrow> \<not> mem \<and> (\<exists>t1. f start t = Some (Inl OUT_OF_MEMORY, t1) \<and> same_tree t t1) \<or>
      mem \<and> (\<exists>c t1. f start t = Some (Inr c, t1) \<and> made_child t i start n c t1)"
  shows "\<exists>r t'. alloc_spot i base n f t = Some (r, t') \<and> tree_ok t' \<and>
    (case r of
       Inl e \<Rightarrow> place_failed t i base n mem e \<and> grows t t'
     | Inr c \<Rightarrow> mem \<and> (\<exists>inn start t1. attached t i inn \<and> f start t = Some (Inr c, t1) \<and> made_child t i start n c t1 \<and> t' = add_child i inn start c t1 \<and>
         within (vt_slices t ! i) start n \<and> clear_at t (si_children inn) start n \<and> base_met base start))"
proof (cases "sl_inner (vt_slices t ! i)")
  case None
  from alloc_spot_detached [OF ok i None b, of mem f] mk show ?thesis by (metis (no_types, lifting) sum.simps(5))
next
  case (Some inn)
  then have at: "attached t i inn" using i by (simp add: attached_def)
  from alloc_spot_attached [OF ok at n b, of mem f] mk obtain r t' where "alloc_spot i base n f t = Some (r, t')" "tree_ok t'"
    "case r of
       Inl e \<Rightarrow> place_failed t i base n mem e \<and> grows t t'
     | Inr c \<Rightarrow> mem \<and> (\<exists>start t1. f start t = Some (Inr c, t1) \<and> made_child t i start n c t1 \<and> t' = add_child i inn start c t1 \<and>
         within (vt_slices t ! i) start n \<and> clear_at t (si_children inn) start n \<and> base_met base start)" by blast
  then show ?thesis using at by (cases r) auto
qed

lemma slice_new_makes:
  assumes ok: "tree_ok t" and at: "i < length (vt_slices t)" and n: "0 < n" "start + n < USIZE_LIM" and name: "name_new (ve_array_string env) name = Some nm"
  defines "mem \<equiv> fst (ve_try_new env ArcSlice (vt_heap t))"
    and "t1 \<equiv> t\<lparr>vt_heap := snd (ve_try_new env ArcSlice (vt_heap t))\<rparr>"
  defines "t2 \<equiv> t1\<lparr>vt_slices := vt_slices t @ [\<lparr>sl_name = nm, sl_start = start, sl_page_count = n, sl_inner = Some \<lparr>si_parent = Some i, si_children = []\<rparr>\<rparr>]\<rparr>"
  shows "slice_new env (Some i) name start n t = (if mem then Some (Inr (length (vt_slices t)), t2) else Some (Inl OUT_OF_MEMORY, t1))"
    "made_child t i start n (Subslice (length (vt_slices t))) t2" "same_tree t t1"
proof -
  show "slice_new env (Some i) name start n t = (if mem then Some (Inr (length (vt_slices t)), t2) else Some (Inl OUT_OF_MEMORY, t1))"
    using name by (auto simp: slice_new_def eff_bind_def eff_lift_def arc_try_new_def on_heap_def try_alloc_def mem_def t1_def t2_def split: prod.splits)
  have gr: "grows t t2" by (auto simp: grows_def t2_def t1_def nth_append)
  have "tree_ok t2" by (rule grows_tree_ok [OF ok gr]) (use n in \<open>auto simp: t2_def t1_def nth_append less_Suc_eq\<close>)
  then show "made_child t i start n (Subslice (length (vt_slices t))) t2"
    using gr at by (simp add: made_child_def t2_def t1_def attached_def)
  show "same_tree t t1" by (simp add: same_tree_def t1_def)
qed

lemma mapping_new_makes:
  fixes env :: "'h vm_env" and i :: slice_id and start :: vpn and off :: usize and obj :: object_id and prot :: u8
  assumes ok: "tree_ok t" and n: "m \<le> n"
  defines "mem \<equiv> fst (ve_try_new env ArcMapping (vt_heap t))"
    and "t1 \<equiv> t\<lparr>vt_heap := snd (ve_try_new env ArcMapping (vt_heap t))\<rparr>"
  defines "t2 \<equiv> t1\<lparr>vt_mappings := vt_mappings t @ [\<lparr>ma_start = start, ma_page_count = m, ma_object_offset = off, ma_object = obj,
         ma_inner = Some \<lparr>mi_parent = i, mi_prot = prot\<rparr>\<rparr>]\<rparr>"
  shows "mapping_new env i start m obj off prot t = (if mem then Some (Inr (length (vt_mappings t)), t2) else Some (Inl OUT_OF_MEMORY, t1))"
    "made_child t i start n (MappingChild (length (vt_mappings t))) t2" "same_tree t t1"
proof -
  show "mapping_new env i start m obj off prot t = (if mem then Some (Inr (length (vt_mappings t)), t2) else Some (Inl OUT_OF_MEMORY, t1))"
    by (auto simp: mapping_new_def eff_bind_def arc_try_new_def on_heap_def try_alloc_def mem_def t1_def t2_def split: prod.splits)
  have gr: "grows t t2" by (auto simp: grows_def t2_def t1_def nth_append)
  have "tree_ok t2" by (rule grows_tree_ok [OF ok gr]) (auto simp: t2_def t1_def)
  then show "made_child t i start n (MappingChild (length (vt_mappings t))) t2"
    using gr n by (simp add: made_child_def t2_def t1_def)
  show "same_tree t t1" by (simp add: same_tree_def t1_def)
qed

lemma trace_args_ok: "(ve_trace env \<Longrightarrow> x \<noteq> None) \<Longrightarrow> trace_args env x s = Some (Inr (), s)"
  by (auto simp: trace_args_def eff_defs eff_bind_def)

lemma add_child_attached:
  assumes "attached t1 i inn"
  shows "attached (add_child i inn start c t1) i (inn\<lparr>si_children := bt_insert start c (si_children inn)\<rparr>)"
    "j \<noteq> i \<Longrightarrow> attached (add_child i inn start c t1) j inn' \<longleftrightarrow> attached t1 j inn'"
    "vt_mappings (add_child i inn start c t1) = vt_mappings t1" "j \<noteq> i \<Longrightarrow> vt_slices (add_child i inn start c t1) ! j = vt_slices t1 ! j"
  using assms by (auto simp: add_child_def attached_def set_inner_nth)


lemma get_mapping_run:
  assumes ok: "tree_ok t" and at: "attached t i inn"
  shows "\<exists>r. get_mapping i vpn t = Some (r, t) \<and> (\<forall>m. r = Inr m \<longleftrightarrow> lookup_path t vpn i m) \<and> (\<forall>e. r = Inl e \<longrightarrow> e = BAD_ADDRESS)"
proof -
  from get_mapping_loop_eq [OF ok at, of vpn] obtain r where r: "get_mapping_loop t vpn i = Some (r, t)"
    "\<forall>m. r = Inr m \<longleftrightarrow> lookup_path t vpn i m" "\<forall>e. r = Inl e \<longrightarrow> e = BAD_ADDRESS" by blast
  have i: "i < length (vt_slices t)" using at by (simp add: attached_def)
  let ?s = "vt_slices t ! i"
  have cv: "check_vpn i vpn t = Some (if sl_start ?s \<le> vpn \<and> vpn < s_end ?s then Inr () else Inl BAD_ADDRESS, t)"
    using attached_simps(1) [OF at] slice_end_ok [OF ok i] by (simp add: check_vpn_def)
  show ?thesis
  proof (cases "sl_start ?s \<le> vpn \<and> vpn < s_end ?s")
    case True
    then show ?thesis using r cv by (simp add: get_mapping_def eff_bind_def)
  next
    case False
    then have "\<not> lookup_path t vpn i m" for m using lookup_path_range [OF _ ok, of vpn i m] by auto
    then show ?thesis using cv False by (simp add: get_mapping_def eff_bind_def)
  qed
qed

section \<open>An example\<close>

text \<open>A root slice of 4096 pages with one subslice, which holds a mapping of 16 pages.\<close>

definition demo_push :: "usize \<Rightarrow> vpn list \<Rightarrow> vpn \<Rightarrow> vpn list option" where
  "demo_push cap xs x = (if length xs < cap then Some (xs @ [x]) else None)"

definition demo_env :: "'h vm_env" where
  "demo_env = \<lparr>ve_try_new = (\<lambda>_ h. (True, h)), ve_array_string = fixed_string, ve_try_push = demo_push, ve_trace = False\<rparr>"

definition demo_mapping :: mapping where
  "demo_mapping = \<lparr>ma_start = 0x108, ma_page_count = 16, ma_object_offset = 2, ma_object = 0, ma_inner = Some \<lparr>mi_parent = 1, mi_prot = PROT_READ\<rparr>\<rparr>"

definition demo_tree :: "'h \<Rightarrow> 'h vm_tree" where
  "demo_tree h = \<lparr>vt_slices =
     [\<lparr>sl_name = [], sl_start = 0, sl_page_count = 0x1000, sl_inner = Some \<lparr>si_parent = None, si_children = [(0x100, Subslice 1)]\<rparr>\<rparr>,
      \<lparr>sl_name = [], sl_start = 0x100, sl_page_count = 0x80, sl_inner = Some \<lparr>si_parent = Some 0, si_children = [(0x108, MappingChild 0)]\<rparr>\<rparr>],
     vt_mappings = [demo_mapping], vt_heap = h\<rparr>"

lemma demo_attached:
  "attached (demo_tree h) 0 \<lparr>si_parent = None, si_children = [(0x100, Subslice 1)]\<rparr>"
  "attached (demo_tree h) 1 \<lparr>si_parent = Some 0, si_children = [(0x108, MappingChild 0)]\<rparr>"
  by (simp_all add: attached_def demo_tree_def)

lemma demo_tree_ok: "tree_ok (demo_tree h)"
  unfolding tree_ok_def
  by (auto simp: demo_tree_def demo_mapping_def slice_ok_def children_ok_def apart_def USIZE_LIM_def less_Suc_eq)

lemma demo_lookup: "lookup_path (demo_tree h) 0x110 0 0"
proof -
  have p: "lookup_path (demo_tree h) 0x110 1 0"
    by (rule path_mapping [where k = "0x108", OF demo_attached(2)]) (simp_all add: demo_tree_def demo_mapping_def)
  show ?thesis by (rule path_subslice [where k = "0x100", OF demo_attached(1) _ _ _ p]) (simp_all add: demo_tree_def)
qed

lemma demo_child_of: "child_of (demo_tree h) i j \<longleftrightarrow> i = 0 \<and> j = 1"
  by (auto simp: child_of_def attached_def demo_tree_def less_Suc_eq)

lemma demo_subtree: "subtree (demo_tree h) 1 = {1}"
proof -
  have "subtree (demo_tree h) 1 \<subseteq> {1}" by (rule subtree_least) (auto simp: demo_child_of)
  then show ?thesis using subtree_refl [of 1 "demo_tree h"] by blast
qed

definition demo_vm :: "'l phys_manager option \<Rightarrow> (unit, 'l) vm" where
  "demo_vm pmm = \<lparr>vm_tree = demo_tree \<lparr>km_heap = (), km_pmm = pmm\<rparr>, vm_objects = [PhysVmObject 0x1000 64 Uncached], vm_mem = (\<lambda>_. 0), 
     vm_mmu = \<lparr>cr0 = 0, cr3 = 0, cr4 = 0, ia32_efer = 0, pat = 0, mtrr_def_type = 0, tlb = {}, cached_lines = {}\<rparr>\<rparr>"

definition demo_vm0 :: "(unit, virt_addr list) vm" where
  "demo_vm0 = demo_vm None"

lemma demo_not_failed: "\<not> place_failed (demo_tree h) 0 (Fixed 0x200) 64 True e" "\<not> place_failed (demo_tree h) 0 (Fixed 0x200) 16 True e"
  by (auto simp: place_failed_def attached_def demo_tree_def within_def free_at_def)

lemma demo_no_start: "\<not> starts_child (demo_tree h) 0x110"
  by (auto simp: starts_child_def attached_def demo_tree_def less_Suc_eq nth_Cons split: nat.splits)

section \<open>Placing a mapping\<close>

text \<open>
  \<open>AddrSpace::map\<close> looks for a spot of the size of the whole object, whatever the size of the requested range, so
  a part of an object is only placed where the whole object would fit.
\<close>

lemma aspace_map_run:
  assumes ok: "tree_ok (vm_tree s)" and i: "i < length (vt_slices (vm_tree s))" and obj: "object_at s object = Some obj"
    and n: "0 < object_page_count obj" and b: "base_ok (vm_tree s) i base (object_page_count obj)" and fit: "off + npages \<le> object_page_count obj"
  shows "\<exists>r s'. aspace_map env i base npages off object prot s = Some (r, s') \<and> s' = s\<lparr>vm_tree := vm_tree s'\<rparr> \<and> tree_ok (vm_tree s') \<and>
     (case r of
       Inl e \<Rightarrow> place_failed (vm_tree s) i base (object_page_count obj) (fst (ve_try_new env ArcMapping (vt_heap (vm_tree s)))) e \<and> grows (vm_tree s) (vm_tree s')
     | Inr m \<Rightarrow> \<exists>inn start. attached (vm_tree s) i inn \<and> m = length (vt_mappings (vm_tree s)) \<and>
         within (vt_slices (vm_tree s) ! i) start (object_page_count obj) \<and>
         clear_at (vm_tree s) (si_children inn) start (object_page_count obj) \<and> base_met base start \<and>
         vt_mappings (vm_tree s') = vt_mappings (vm_tree s) @ [\<lparr>ma_start = start, ma_page_count = npages, ma_object_offset = off, ma_object = object,
           ma_inner = Some \<lparr>mi_parent = i, mi_prot = prot\<rparr>\<rparr>] \<and>
         attached (vm_tree s') i (inn\<lparr>si_children := bt_insert start (MappingChild m) (si_children inn)\<rparr>) \<and>
         (\<forall>k < length (vt_slices (vm_tree s)). k \<noteq> i \<longrightarrow> vt_slices (vm_tree s') ! k = vt_slices (vm_tree s) ! k))"
proof -
  have fits: "npages \<le> object_page_count obj" "\<not> (off > object_page_count obj \<or> npages > object_page_count obj - off)" using fit by auto
  let ?t = "vm_tree s" and ?N = "object_page_count obj"
  let ?mem = "fst (ve_try_new env ArcMapping (vt_heap ?t))" and ?m = "length (vt_mappings ?t)"
  let ?f = "\<lambda>start. eff_bind (trace_args env (uadd start npages)) (\<lambda>_. eff_bind (mapping_new env i start npages object off prot) (\<lambda>m. eff_return (MappingChild m)))"
  define t1 where "t1 = ?t\<lparr>vt_heap := snd (ve_try_new env ArcMapping (vt_heap ?t))\<rparr>"
  define t2 where "t2 = (\<lambda>start. t1\<lparr>vt_mappings := vt_mappings ?t @ [\<lparr>ma_start = start, ma_page_count = npages, ma_object_offset = off, ma_object = object,
           ma_inner = Some \<lparr>mi_parent = i, mi_prot = prot\<rparr>\<rparr>]\<rparr>)"
  note mk = mapping_new_makes [OF ok fits(1), where env = env, folded t1_def]
  have f: "?f start ?t = (if ?mem then Some (Inr (MappingChild ?m), t2 start) else Some (Inl OUT_OF_MEMORY, t1))" if q: "start + ?N < USIZE_LIM" for start
    using mk(1) q fits(1) by (simp add: eff_bind_def trace_args_ok uadd_def eff_return_def t2_def)
  have "\<not> ?mem \<and> (\<exists>t1. ?f start ?t = Some (Inl OUT_OF_MEMORY, t1) \<and> same_tree ?t t1) \<or>
      ?mem \<and> (\<exists>c t1. ?f start ?t = Some (Inr c, t1) \<and> made_child ?t i start ?N c t1)" if q: "start + ?N < USIZE_LIM" for start
    using f [OF q] mk(2,3) by (simp add: t2_def)
  from alloc_spot_spec [where f = ?f, OF ok i n b this] obtain r t' where run: "alloc_spot i base ?N ?f ?t = Some (r, t')" "tree_ok t'"
    and res: "case r of Inl e \<Rightarrow> place_failed ?t i base ?N ?mem e \<and> grows ?t t'
      | Inr c \<Rightarrow> ?mem \<and> (\<exists>inn start t1. attached ?t i inn \<and> ?f start ?t = Some (Inr c, t1) \<and> made_child ?t i start ?N c t1 \<and> t' = add_child i inn start c t1 \<and>
         within (vt_slices ?t ! i) start ?N \<and> clear_at ?t (si_children inn) start ?N \<and> base_met base start)" by blast
  have am: "aspace_map env i base npages off object prot s = map_option (\<lambda>(r, t). (r, s\<lparr>vm_tree := t\<rparr>))
    (eff_bind (alloc_spot i base ?N ?f) (\<lambda>child. eff_lift (mapping_child_id child)) ?t)"
    using obj fits(2) by (simp add: aspace_map_def on_tree_def create_mapping_def Let_def)
  show ?thesis
  proof (cases r)
    case (Inl e)
    then show ?thesis using run res by (simp add: am eff_bind_def)
  next
    case (Inr c)
    with res obtain inn start u where s: "?mem" "attached ?t i inn" "?f start ?t = Some (Inr c, u)" "t' = add_child i inn start c u"
      "within (vt_slices ?t ! i) start ?N" "clear_at ?t (si_children inn) start ?N" "base_met base start" by auto
    have "s_end (vt_slices ?t ! i) < USIZE_LIM" using ok i by (simp add: tree_ok_def slice_ok_def)
    then have cu: "c = MappingChild ?m" "u = t2 start" using s(1,3,5) f [of start] by (auto simp: within_def)
    have "attached u i inn" using s(2) by (auto simp: cu t2_def t1_def attached_def)
    note ac = add_child_attached [OF this, where start = start and c = c, folded s(4)]
    show ?thesis using run s(2,5-7) ac unfolding am
      by (auto simp: Inr cu eff_bind_def eff_lift_def t2_def t1_def)
  qed
qed

section \<open>Properties\<close>



text \<open>
  C20. \<open>Slice::get_mapping\<close> on an attached slice of a well-formed tree, for a page with which no child in the tree starts, returns the attached mapping that contains the page,
  reached through the subslices that contain it, and \<open>BAD_ADDRESS\<close> exactly when there is none; the tree is left as it is. (For the first page of a mapping or
  subslice the code does not find it: \<open>get_mapping_run\<close> describes the lookup on every page.)
\<close>

theorem get_mapping_correct:
  assumes ok: "tree_ok t" and at: "attached t i inn" and first: "\<not> starts_child t vpn"
  shows "\<exists>r. get_mapping i vpn t = Some (r, t) \<and> (\<forall>m. r = Inr m \<longleftrightarrow> maps_page t vpn i m) \<and> (\<forall>e. r = Inl e \<longrightarrow> e = BAD_ADDRESS) \<and>
    (\<forall>m. r = Inr m \<longrightarrow> m < length (vt_mappings t) \<and> ma_inner (vt_mappings t ! m) \<noteq> None \<and>
       ma_start (vt_mappings t ! m) \<le> vpn \<and> vpn < ma_start (vt_mappings t ! m) + ma_page_count (vt_mappings t ! m))"
proof -
  from get_mapping_run [OF ok at, of vpn] obtain r where r: "get_mapping i vpn t = Some (r, t)" "\<forall>m. r = Inr m \<longleftrightarrow> lookup_path t vpn i m"
    "\<forall>e. r = Inl e \<longrightarrow> e = BAD_ADDRESS" by blast
  then show ?thesis using lookup_path_mapping [OF _ ok, of vpn i] by (auto simp: maps_page_iff_lookup [OF first] intro: less_imp_le)
qed

theorem get_mapping_correct_witness:
  "get_mapping 0 0x110 (demo_tree ()) = Some (Inr 0, demo_tree ())"
proof -
  obtain r where r: "get_mapping 0 0x110 (demo_tree ()) = Some (r, demo_tree ())" "\<forall>m. r = Inr m \<longleftrightarrow> maps_page (demo_tree ()) 0x110 0 m"
    using get_mapping_correct [OF demo_tree_ok demo_attached(1) demo_no_start, of "()"] by (elim exE conjE) (rule that)
  from r(2) [rule_format, of 0] lookup_maps_page [OF demo_lookup] r(1) show ?thesis by simp
qed

text \<open>
  C21. \<open>Slice::detach_children\<close> on an attached slice of a well-formed tree terminates without panicking: afterwards exactly the slices of its subtree, itself
  included, are detached, every operation that needs one of them reports \<open>INVALID_STATE\<close>, and every other slice is unchanged. On a detached
  slice it panics.
\<close>

theorem detach_children_correct:
  assumes ok: "tree_ok t" and i: "i < length (vt_slices t)"
  shows "(if sl_inner (vt_slices t ! i) = None then detach_children i t = None else
    \<exists>t'. detach_children i t = Some t' \<and> length (vt_slices t') = length (vt_slices t) \<and>
      (\<forall>j < length (vt_slices t). if j \<in> subtree t i then inner j t' = Some (Inl INVALID_STATE, t') else vt_slices t' ! j = vt_slices t ! j))"
proof (cases "sl_inner (vt_slices t ! i)")
  case None
  then show ?thesis using i by (simp add: detach_children_def detach_loop.simps slice_at_def)
next
  case (Some inn)
  let ?t = "detached (subtree t i) t"
  have at: "attached t i inn" using Some i by (simp add: attached_def)
  have "inner j ?t = Some (Inl INVALID_STATE, ?t)" if "j < length (vt_slices t)" "j \<in> subtree t i" for j
    using that by (simp add: inner_def slice_at_def detached_nth)
  then show ?thesis using detach_children_eq [OF ok at] Some by (auto simp: detached_def)
qed

theorem detach_children_correct_witness:
  "\<exists>t'. detach_children 1 (demo_tree ()) = Some t' \<and> inner 1 t' = Some (Inl INVALID_STATE, t') \<and> vt_slices t' ! 0 = vt_slices (demo_tree ()) ! 0"
proof -
  have l: "length (vt_slices (demo_tree ())) = 2" "1 < length (vt_slices (demo_tree ()))" "sl_inner (vt_slices (demo_tree ()) ! 1) \<noteq> None"
    by (simp_all add: demo_tree_def)
  obtain t' where t: "detach_children 1 (demo_tree ()) = Some t'"
    "\<forall>j < 2. if j \<in> {1} then inner j t' = Some (Inl INVALID_STATE, t') else vt_slices t' ! j = vt_slices (demo_tree ()) ! j"
    using detach_children_correct [OF demo_tree_ok l(2)] l(3) unfolding demo_subtree l(1) by auto
  from t(2) [rule_format, of 0] t(2) [rule_format, of 1] t(1) show ?thesis by simp
qed



end
