(* ===== verification/Aspace_Commit.thy ===== *)
theory Aspace_Commit
  imports Aspace_Ops
begin

text \<open>
  Correctness of \<open>AddrSpace::do_commit\<close>, the function behind page faults and explicit commits. The invariant \<open>vm_ok\<close> says that the page tables form
  a tree, and that the frames of the tables, the frames of the objects and the free frames do not overlap. The loop collects runs of
  contiguous frames; it is shown to map each page to the frame the object provides for it, and to keep the invariant, on errors too.
\<close>

section \<open>Frames and their owners\<close>

abbreviation phys_acc :: "pfn set" where
  "phys_acc \<equiv> {..<PHYS_MAP_MAX_PAGES}"

abbreviation vm_view :: "('g, 'l) vm \<Rightarrow> view" where
  "vm_view s \<equiv> view_of PhysmapPfnTranslator_translate phys_acc (vm_mem s)"

definition pmm_ok :: "('l \<Rightarrow> virt_addr list) \<Rightarrow> nat \<Rightarrow> 'l phys_manager option \<Rightarrow> bool" where
  "pmm_ok elems N st \<longleftrightarrow> (\<exists>pm. st = Some pm \<and> pmm_inv elems N pm)"

definition pmm_free :: "('l \<Rightarrow> virt_addr list) \<Rightarrow> 'l phys_manager option \<Rightarrow> pfn set" where
  "pmm_free elems st = (case st of None \<Rightarrow> {} | Some pm \<Rightarrow> free_frames elems pm)"

fun object_frames :: "vm_object \<Rightarrow> pfn set" where
  "object_frames (EagerVmObject frames) = set frames"
| "object_frames (LazyVmObject npages frames) = {p. Some p \<in> set frames}"
| "object_frames (PhysVmObject base npages mode) = {}"

fun object_shape :: "vm_object \<Rightarrow> bool" where
  "object_shape (EagerVmObject frames) \<longleftrightarrow> True"
| "object_shape (LazyVmObject npages frames) \<longleftrightarrow> length frames = npages"
| "object_shape (PhysVmObject base npages mode) \<longleftrightarrow> base + npages \<le> 2 ^ 40"

definition object_ok :: "nat \<Rightarrow> vm_object \<Rightarrow> bool" where
  "object_ok N obj \<longleftrightarrow> object_shape obj \<and> object_frames obj \<subseteq> {..<N} \<and> object_page_count obj < USIZE_LIM"

definition vm_ok :: "('l \<Rightarrow> virt_addr list) \<Rightarrow> nat \<Rightarrow> pfn \<Rightarrow> ('g, 'l) vm \<Rightarrow> bool" where
  "vm_ok elems N root s \<longleftrightarrow> pmm_ok elems N (vm_pmm s) \<and> pt_wf phys_acc 3 (vm_view s) root \<and>
     tables 3 (vm_view s) root \<inter> pmm_free elems (vm_pmm s) = {} \<and>
     (\<forall>obj\<in>set (vm_objects s). object_ok N obj \<and> object_frames obj \<inter> (tables 3 (vm_view s) root \<union> pmm_free elems (vm_pmm s)) = {})"

text \<open>How the state changes while pages of one object are committed: frames that were provided stay, and nothing but
  memory, the allocator and that object changes.\<close>

definition vm_step :: "object_id \<Rightarrow> ('g, 'l) vm \<Rightarrow> ('g, 'l) vm \<Rightarrow> bool" where
  "vm_step object s s' \<longleftrightarrow> same_tree (vm_tree s) (vm_tree s') \<and> vm_mmu s' = vm_mmu s \<and> length (vm_objects s') = length (vm_objects s) \<and>
     (\<forall>j. j \<noteq> object \<longrightarrow> vm_objects s' ! j = vm_objects s ! j) \<and>
     object_page_count (vm_objects s' ! object) = object_page_count (vm_objects s ! object) \<and>
     object_cache_mode (vm_objects s' ! object) = object_cache_mode (vm_objects s ! object) \<and>
     (\<forall>i p. provided (vm_objects s ! object) i = Some p \<longrightarrow> provided (vm_objects s' ! object) i = Some p)"

lemma vm_step_refl [simp]: "vm_step object s s"
  by (simp add: vm_step_def same_tree_def)

lemma vm_step_trans: "vm_step object s s1 \<Longrightarrow> vm_step object s1 s2 \<Longrightarrow> vm_step object s s2"
  unfolding vm_step_def same_tree_def by simp

definition mapped_as :: "('g, 'l) vm \<Rightarrow> pfn \<Rightarrow> vpn \<Rightarrow> pfn \<Rightarrow> u8 \<Rightarrow> cache_mode \<Rightarrow> bool" where
  "mapped_as s root v p perms mode \<longleftrightarrow> (\<exists>l e. pt_walk 3 (vm_view s) root v = Some (l, e) \<and>
     get_pte_frame e l + v mod pc l = p \<and> e = make_terminal_pte l (get_pte_frame e l) perms mode)"

lemma mapped_as_cong: "pt_walk 3 (vm_view s') root v = pt_walk 3 (vm_view s) root v \<Longrightarrow> mapped_as s' root v p perms mode = mapped_as s root v p perms mode"
  by (simp add: mapped_as_def)

lemma set_pmm_simps [simp]:
  "vm_pmm (set_pmm st s) = st" "vm_mem (set_pmm st s) = vm_mem s" "vm_objects (set_pmm st s) = vm_objects s" "vm_mmu (set_pmm st s) = vm_mmu s"
  "same_tree (vm_tree s) (vm_tree (set_pmm st s))" "same_tree t (vm_tree (set_pmm st s)) = same_tree t (vm_tree s)"
  by (simp_all add: set_pmm_def vm_pmm_def same_tree_def)

lemma max_pages_bound: "PHYS_MAP_MAX_PAGES \<le> 2 ^ 40"
  by (simp add: layout_consts)

lemma pmm_free_bound: "pmm_ok elems N st \<Longrightarrow> pmm_free elems st \<subseteq> {..<N} \<and> N \<le> PHYS_MAP_MAX_PAGES"
proof -
  assume "pmm_ok elems N st"
  then obtain pm where pm: "st = Some pm" "pmm_inv elems N pm" by (auto simp: pmm_ok_def)
  then have "N \<le> PHYS_MAP_MAX_PAGES" by (simp add: pmm_inv_def pmm_wf_def)
  with free_frames_bounds(1) [OF pm(2)] pm(1) show ?thesis by (simp add: pmm_free_def)
qed

text \<open>The run that is waiting to be mapped ends just before the next offset, and lists frames the object has provided.\<close>

definition run_ok :: "mapping \<Rightarrow> vm_object \<Rightarrow> usize \<Rightarrow> mapping_run option \<Rightarrow> bool" where
  "run_ok m obj n run \<longleftrightarrow> (case run of None \<Rightarrow> True | Some r \<Rightarrow>
     run_base_off r + run_size r = n \<and> 0 < run_size r \<and> run_base_pfn r + run_size r \<le> 2 ^ 40 \<and>
     (\<forall>i < run_size r. provided obj (run_base_off r + i + ma_object_offset m) = Some (run_base_pfn r + i)))"

definition run_start :: "usize \<Rightarrow> mapping_run option \<Rightarrow> usize" where
  "run_start n run = (case run of None \<Rightarrow> n | Some r \<Rightarrow> run_base_off r)"

text \<open>A page of the mapping translates to the frame its object provides.\<close>

definition committed :: "('g, 'l) vm \<Rightarrow> pfn \<Rightarrow> mapping \<Rightarrow> u8 \<Rightarrow> cache_mode \<Rightarrow> usize \<Rightarrow> bool" where
  "committed s root m perms mode off \<longleftrightarrow> (\<exists>p. provided (vm_objects s ! ma_object m) (off + ma_object_offset m) = Some p \<and>
     mapped_as s root (ma_start m + off) p perms mode)"

definition same_walk :: "pfn \<Rightarrow> ('g, 'l) vm \<Rightarrow> ('g, 'l) vm \<Rightarrow> vpn \<Rightarrow> bool" where
  "same_walk root s s' v \<longleftrightarrow> pt_walk 3 (vm_view s') root v = pt_walk 3 (vm_view s) root v"

definition commit_post :: "pfn \<Rightarrow> mapping \<Rightarrow> u8 \<Rightarrow> cache_mode \<Rightarrow> ('g, 'l) vm \<Rightarrow> ('g, 'l) vm \<Rightarrow> bool \<Rightarrow> usize \<Rightarrow> usize \<Rightarrow> bool" where
  "commit_post root m perms mode s s' done lo hi \<longleftrightarrow> vm_step (ma_object m) s s' \<and>
     (\<forall>off. lo \<le> off \<and> off < hi \<longrightarrow> committed s' root m perms mode off \<or> \<not> done \<and> same_walk root s s' (ma_start m + off)) \<and>
     (\<forall>v. same_window 3 (ma_start m) v \<and> \<not> (ma_start m + lo \<le> v \<and> v < ma_start m + hi) \<longrightarrow> same_walk root s s' v)"

lemma committed_later:
  assumes "committed s root m perms mode off" "vm_step (ma_object m) s s'" "same_walk root s s' (ma_start m + off)"
  shows "committed s' root m perms mode off"
proof -
  from assms(1) obtain p where p: "provided (vm_objects s ! ma_object m) (off + ma_object_offset m) = Some p"
    "mapped_as s root (ma_start m + off) p perms mode" by (auto simp: committed_def)
  have "provided (vm_objects s' ! ma_object m) (off + ma_object_offset m) = Some p" using assms(2) p(1) by (simp add: vm_step_def)
  moreover have "mapped_as s' root (ma_start m + off) p perms mode" using p(2) assms(3) by (simp add: mapped_as_def same_walk_def)
  ultimately show ?thesis by (auto simp: committed_def)
qed

lemma commit_post_trans:
  assumes a: "commit_post root m perms mode s s1 True lo n" and b: "commit_post root m perms mode s1 s' done n hi" and n: "lo \<le> n" "n \<le> hi"
    and w: "ma_start m + hi \<le> window_end 3 (ma_start m)"
  shows "commit_post root m perms mode s s' done lo hi"
  unfolding commit_post_def
proof (intro conjI allI impI)
  show "vm_step (ma_object m) s s'" using a b vm_step_trans unfolding commit_post_def by blast
  show "same_walk root s s' v" if "same_window 3 (ma_start m) v \<and> \<not> (ma_start m + lo \<le> v \<and> v < ma_start m + hi)" for v
  proof -
    have "\<not> (ma_start m + lo \<le> v \<and> v < ma_start m + n)" "\<not> (ma_start m + n \<le> v \<and> v < ma_start m + hi)" using that n by auto
    then have "same_walk root s s1 v" "same_walk root s1 s' v" using that a b unfolding commit_post_def by blast+
    then show ?thesis by (simp add: same_walk_def)
  qed
next
  fix off assume off: "lo \<le> off \<and> off < hi"
  have win: "same_window 3 (ma_start m) (ma_start m + off)" using same_window_iff [of "ma_start m" "ma_start m + off" 3] off w by simp
  show "committed s' root m perms mode off \<or> \<not> done \<and> same_walk root s s' (ma_start m + off)"
  proof (cases "off < n")
    case True
    then have "committed s1 root m perms mode off" "same_walk root s1 s' (ma_start m + off)" using a b off win by (simp_all add: commit_post_def)
    then show ?thesis using committed_later b unfolding commit_post_def by blast
  next
    case False
    then have "same_walk root s s1 (ma_start m + off)" using a win by (simp add: commit_post_def)
    moreover have "committed s' root m perms mode off \<or> \<not> done \<and> same_walk root s1 s' (ma_start m + off)"
      using b off False unfolding commit_post_def by simp
    ultimately show ?thesis by (auto simp: same_walk_def)
  qed
qed

text \<open>Steps that leave memory alone can be put in front.\<close>

lemma commit_post_step:
  assumes "vm_step (ma_object m) s s1" "vm_mem s1 = vm_mem s" "commit_post root m perms mode s1 s' done lo hi"
  shows "commit_post root m perms mode s s' done lo hi"
  using assms vm_step_trans [OF assms(1)] unfolding commit_post_def same_walk_def by simp

text \<open>A commit that fails early has left the pages behind it alone.\<close>

lemma commit_post_fail:
  assumes a: "commit_post root m perms mode s s' False lo n" and n: "n \<le> hi" and w: "ma_start m + hi \<le> window_end 3 (ma_start m)"
  shows "commit_post root m perms mode s s' False lo hi"
  unfolding commit_post_def
proof (intro conjI allI impI)
  fix off assume off: "lo \<le> off \<and> off < hi"
  have win: "same_window 3 (ma_start m) (ma_start m + off)" using same_window_iff [of "ma_start m" "ma_start m + off" 3] off w by simp
  show "committed s' root m perms mode off \<or> \<not> False \<and> same_walk root s s' (ma_start m + off)"
    using a off win by (cases "off < n") (simp_all add: commit_post_def)
next
  fix v assume "same_window 3 (ma_start m) v \<and> \<not> (ma_start m + lo \<le> v \<and> v < ma_start m + hi)"
  moreover from this n have "\<not> (ma_start m + lo \<le> v \<and> v < ma_start m + n)" by auto
  ultimately show "same_walk root s s' v" using a unfolding commit_post_def by blast
qed (use a in \<open>simp add: commit_post_def\<close>)

lemma run_ok_step: "run_ok m (vm_objects s ! ma_object m) n run \<Longrightarrow> vm_step (ma_object m) s s1 \<Longrightarrow> run_ok m (vm_objects s1 ! ma_object m) n run"
  by (auto simp: run_ok_def vm_step_def split: option.splits)

lemma run_ok_extend:
  assumes "run_ok m obj n (Some run)" "provided obj (n + ma_object_offset m) = Some (run_base_pfn run + run_size run)" "run_base_pfn run + run_size run < 2 ^ 40"
  shows "run_ok m obj (Suc n) (Some (run\<lparr>run_size := run_size run + 1\<rparr>))"
  using assms by (auto simp: run_ok_def less_Suc_eq)

text \<open>What mapping does to the allocator and to the set of table frames.\<close>

lemma pt_map_frames:
  assumes loc: "pt_mapper tr acc al ok pool"
    and range: "0 < sz" "base + sz \<le> 2 ^ 52" "phys + sz \<le> 2 ^ 40"
    and pre: "ok a" "pt_wf acc 3 (view_of tr acc m) root" "tables 3 (view_of tr acc m) root \<inter> pool a = {}"
    and run: "pt_map tr al root phys perms mode \<lparr>pt_mem = m, pt_ptr = mp_new base sz, pt_env = a\<rparr> = Some (r, s)"
  shows "ok (pt_env s)" "pool (pt_env s) \<subseteq> pool a"
    "tables 3 (view_of tr acc (pt_mem s)) root \<subseteq> tables 3 (view_of tr acc m) root \<union> (pool a - pool (pt_env s))"
proof -
  let ?s0 = "\<lparr>pt_mem = m, pt_ptr = mp_new base sz, pt_env = a\<rparr>"
  have p0: "pt_mapper.map_pre tr acc ok pool phys 3 root ?s0"
    using range pre unfolding pt_mapper.map_pre_def [OF loc] by (simp add: mp_new_def ptr_ok_def)
  have lt: "virt (pt_ptr ?s0) < range_end (pt_ptr ?s0)" using range(1) by (simp add: mp_new_def)
  have mr: "pt_mapper.map_result tr acc al ok pool phys perms mode 3 root ?s0 (pt_map tr al root phys perms mode ?s0)"
    unfolding pt_map_def PT_LEVEL_COUNT_def using pt_mapper.inner_map_spec [OF loc _ p0 lt] by simp
  have "pt_mapper.map_rel tr acc ok pool phys perms mode 3 root ?s0 s"
    using mr unfolding run by (simp add: pt_mapper.map_result_def [OF loc])
  then show "ok (pt_env s)" "pool (pt_env s) \<subseteq> pool a"
    "tables 3 (view_of tr acc (pt_mem s)) root \<subseteq> tables 3 (view_of tr acc m) root \<union> (pool a - pool (pt_env s))"
    unfolding pt_mapper.map_rel_def [OF loc] by (simp_all add: pt_mapper.taken_def [OF loc])
qed

section \<open>One frame and one run\<close>

context frame_list
begin

lemma pt_alloc_run:
  assumes "pmm_ok elems N st"
  shows "(\<exists>p st'. pmm_allocate L st 0 = Some (Some p, st') \<and> pmm_ok elems N st' \<and> p \<in> pmm_free elems st \<and> pmm_free elems st' = pmm_free elems st - {p}) \<or>
    pmm_allocate L st 0 = Some (None, st) \<and> pmm_free elems st = {}"
proof -
  from assms obtain pm where pm: "st = Some pm" "pmm_inv elems N pm" by (auto simp: pmm_ok_def)
  have b: "blk 0 p = {p}" for p :: nat by (auto simp: blk_def)
  have "0 < ORDER_COUNT" by (simp add: ORDER_COUNT_def)
  from allocate_spec [OF pm(2) this] show ?thesis
  proof (elim disjE exE conjE)
    fix p pm' assume "pm_allocate L pm 0 = Some (Some p, pm')" "pmm_inv elems N pm'" "blk 0 p \<subseteq> free_frames elems pm"
      "free_frames elems pm' = free_frames elems pm - blk 0 p"
    then show ?thesis using pm(1) by (simp add: pmm_allocate_def pmm_ok_def pmm_free_def b)
  next
    assume "pm_allocate L pm 0 = Some (None, pm)" "\<not> (\<exists>p. 2 ^ 0 dvd p \<and> blk 0 p \<subseteq> free_frames elems pm)"
    then show ?thesis using pm(1) by (simp add: pmm_allocate_def pmm_free_def b)
  qed
qed

lemma aspace_alloc_run:
  assumes "pmm_ok elems N st"
  shows "\<exists>st' r. aspace_pt_alloc L st = Some (st', r) \<and> pmm_ok elems N st' \<and>
    (case r of Inl e \<Rightarrow> st' = st | Inr p \<Rightarrow> p \<in> pmm_free elems st \<and> pmm_free elems st' = pmm_free elems st - {p})"
  using pt_alloc_run [OF assms]
proof (elim disjE exE conjE)
  fix p st' assume "pmm_allocate L st 0 = Some (Some p, st')" "pmm_ok elems N st'" "p \<in> pmm_free elems st" "pmm_free elems st' = pmm_free elems st - {p}"
  then show ?thesis by (simp add: aspace_pt_alloc_def)
next
  assume "pmm_allocate L st 0 = Some (None, st)"
  then show ?thesis using assms by (simp add: aspace_pt_alloc_def)
qed

lemma aspace_mapper: "pt_mapper PhysmapPfnTranslator_translate phys_acc (aspace_pt_alloc L) (pmm_ok elems N) (pmm_free elems)"
proof unfold_locales
  fix st st' p e r
  assume ok: "pmm_ok elems N st"
  note run = aspace_alloc_run [OF ok]
  show "p \<in> pmm_free elems st \<and> pmm_free elems st' \<subseteq> pmm_free elems st - {p}" if "aspace_pt_alloc L st = Some (st', Inr p)"
    using run that by (elim exE conjE) simp
  show "pmm_free elems st' \<subseteq> pmm_free elems st" if "aspace_pt_alloc L st = Some (st', Inl e)"
    using run that by (elim exE conjE) simp
  show "pmm_ok elems N st'" if "aspace_pt_alloc L st = Some (st', r)"
    using run that by (elim exE conjE) simp
  show "pmm_free elems st \<subseteq> phys_acc" using pmm_free_bound [OF ok] by auto
  show "p < 2 ^ 40" if "p \<in> pmm_free elems st" using that pmm_free_bound [OF ok] max_pages_bound by (meson lessThan_iff less_le_trans subsetD)
qed

lemma aspace_alloc_total: "\<forall>st. pmm_ok elems N st \<longrightarrow> aspace_pt_alloc L st \<noteq> None"
proof (intro allI impI)
  fix st assume "pmm_ok elems N st"
  from aspace_alloc_run [OF this] show "aspace_pt_alloc L st \<noteq> None" by (elim exE conjE) simp
qed

text \<open>An object provides a frame: one it has already provided, or one that was free.\<close>

lemma provide_page_run:
  assumes ok: "pmm_ok elems N st" and obj: "object_ok N obj" and off: "offset < object_page_count obj"
  shows "\<exists>r obj' st'. provide_page L offset ct obj st = Some (r, obj', st') \<and> pmm_ok elems N st' \<and> pmm_free elems st' \<subseteq> pmm_free elems st \<and> object_ok N obj' \<and>
    object_frames obj' \<subseteq> object_frames obj \<union> (pmm_free elems st - pmm_free elems st') \<and>
    (case r of Inl e \<Rightarrow> e = OUT_OF_MEMORY \<and> obj' = obj | Inr p \<Rightarrow> p < 2 ^ 40)"
proof (cases obj)
  case (EagerVmObject frames)
  then have "frames ! offset < N" using obj off nth_mem [of offset frames] by (auto simp: object_ok_def subset_iff)
  then have "frames ! offset < 2 ^ 40" using pmm_free_bound [OF ok] max_pages_bound by linarith
  then show ?thesis using EagerVmObject off ok obj by simp
next
  case (PhysVmObject base npages mode)
  then have "base + offset < 2 ^ 40" using obj off by (simp add: object_ok_def)
  then show ?thesis using PhysVmObject off ok obj by (simp add: panic_simps USIZE_LIM_def)
next
  case (LazyVmObject npages frames)
  then have len: "offset < length frames" "length frames = npages" using off obj by (simp_all add: object_ok_def)
  have N: "N \<le> 2 ^ 40" using pmm_free_bound [OF ok] max_pages_bound by linarith
  show ?thesis
  proof (cases "frames ! offset")
    case (Some p)
    then have "p \<in> object_frames obj" using LazyVmObject len nth_mem [OF len(1)] by simp
    then have "p < N" using obj by (auto simp: object_ok_def)
    then show ?thesis using LazyVmObject len ok obj Some N by simp
  next
    case None
    from pt_alloc_run [OF ok] show ?thesis
    proof (elim disjE exE conjE)
      fix p st' assume a: "pmm_allocate L st 0 = Some (Some p, st')" "pmm_ok elems N st'" "p \<in> pmm_free elems st" "pmm_free elems st' = pmm_free elems st - {p}"
      have "object_frames (LazyVmObject npages (frames[offset := Some p])) \<subseteq> insert p (object_frames obj)"
        using set_update_subset_insert [of frames offset "Some p"] LazyVmObject by auto
      moreover have "p < N" using a(3) pmm_free_bound [OF ok] by auto
      ultimately show ?thesis using LazyVmObject len None a obj N by (auto simp: frame_box_new_def object_ok_def)
    next
      assume "pmm_allocate L st 0 = Some (None, st)"
      then show ?thesis using LazyVmObject len None ok obj by (simp add: frame_box_new_def)
    qed
  qed
qed

lemma object_provide_run:
  assumes ok: "vm_ok elems N root s" and o: "object < length (vm_objects s)" and off: "offset < object_page_count (vm_objects s ! object)"
  shows "\<exists>r s'. object_provide L object offset ct s = Some (r, s') \<and> vm_ok elems N root s' \<and> vm_step object s s' \<and> vm_mem s' = vm_mem s \<and>
    (\<forall>p. r = Inr p \<longrightarrow> p < 2 ^ 40 \<and> provided (vm_objects s' ! object) offset = Some p)"
proof -
  let ?obj = "vm_objects s ! object" and ?st = "vm_pmm s"
  have oo: "object_ok N ?obj" "pmm_ok elems N ?st" using ok o by (auto simp: vm_ok_def)
  from provide_page_run [OF oo(2,1) off, of ct] obtain r obj' st' where run: "provide_page L offset ct ?obj ?st = Some (r, obj', st')"
    and st: "pmm_ok elems N st'" "pmm_free elems st' \<subseteq> pmm_free elems ?st" and o': "object_ok N obj'"
      "object_frames obj' \<subseteq> object_frames ?obj \<union> (pmm_free elems ?st - pmm_free elems st')"
    and r: "case r of Inl e \<Rightarrow> e = OUT_OF_MEMORY \<and> obj' = ?obj | Inr p \<Rightarrow> p < 2 ^ 40" by blast
  let ?s = "set_pmm st' (s\<lparr>vm_objects := (vm_objects s)[object := obj']\<rparr>)"
  have eq: "object_provide L object offset ct s = Some (r, ?s)" using run o by (simp add: object_provide_def object_at_def)
  have fr: "object_frames x \<inter> (tables 3 (vm_view s) root \<union> pmm_free elems ?st) = {}" if "x \<in> set (vm_objects s)" for x
    using ok that by (simp add: vm_ok_def)
  have tb: "tables 3 (vm_view s) root \<inter> pmm_free elems ?st = {}" using ok by (simp add: vm_ok_def)
  have "object_frames obj' \<inter> (tables 3 (vm_view s) root \<union> pmm_free elems st') = {}"
    using fr [of ?obj] o tb o'(2) st(2) nth_mem [OF o] by blast
  moreover have "object_frames x \<inter> (tables 3 (vm_view s) root \<union> pmm_free elems st') = {}" if "x \<in> set (vm_objects s)" for x
    using fr [OF that] st(2) by blast
  ultimately have "object_ok N x \<and> object_frames x \<inter> (tables 3 (vm_view s) root \<union> pmm_free elems st') = {}"
    if "x \<in> insert obj' (set (vm_objects s))" for x using that o'(1) ok by (auto simp: vm_ok_def)
  then have "\<forall>x \<in> set ((vm_objects s)[object := obj']). object_ok N x \<and> object_frames x \<inter> (tables 3 (vm_view s) root \<union> pmm_free elems st') = {}"
    using set_update_subset_insert [of "vm_objects s" object obj'] by blast
  moreover have "tables 3 (vm_view s) root \<inter> pmm_free elems st' = {}" using tb st(2) by blast
  ultimately have "vm_ok elems N root ?s" using ok st(1) by (simp add: vm_ok_def)
  moreover have "provided obj' i = Some p" if "provided ?obj i = Some p" for i p
    using that r provide_page_provided(2) [of L offset ct ?obj ?st _ obj' st' i p] run by (cases r) auto
  then have "vm_step object s ?s" using o r provide_page_provided(3,4) [of L offset ct ?obj ?st _ obj' st'] run
    by (cases r) (auto simp: vm_step_def same_tree_def set_pmm_def)
  ultimately show ?thesis using eq r provide_page_provided(1) [of L offset ct ?obj ?st _ obj' st'] run o by (intro exI [of _ r] exI [of _ ?s]) auto
qed


lemma do_map_run:
  assumes ok: "vm_ok elems N (ao_root_pt ops) s" and v: "v = ma_start m + run_base_off run"
    and rng: "0 < run_size run" "v + run_size run \<le> 2 ^ 52" "v + run_size run \<le> window_end 3 v" "run_base_pfn run + run_size run \<le> 2 ^ 40"
  shows "\<exists>r s' k. do_map L ops m prot mode run s = Some (r, s') \<and> vm_ok elems N (ao_root_pt ops) s' \<and> vm_step object s s' \<and> vm_objects s' = vm_objects s \<and>
    k \<le> run_size run \<and> (r = Inr () \<longleftrightarrow> k = run_size run) \<and>
    (\<forall>i < k. mapped_as s' (ao_root_pt ops) (v + i) (run_base_pfn run + i) (perms_for_prot ops prot) mode) \<and>
    (\<forall>w. same_window 3 v w \<and> \<not> (v \<le> w \<and> w < v + k) \<longrightarrow> pt_walk 3 (vm_view s') (ao_root_pt ops) w = pt_walk 3 (vm_view s) (ao_root_pt ops) w)"
proof -
  let ?root = "ao_root_pt ops" and ?sz = "run_size run" and ?phys = "run_base_pfn run" and ?perms = "perms_for_prot ops prot"
  have pre: "pmm_ok elems N (vm_pmm s)" "pt_wf phys_acc 3 (vm_view s) ?root" "tables 3 (vm_view s) ?root \<inter> pmm_free elems (vm_pmm s) = {}"
    using ok by (simp_all add: vm_ok_def)
  note lims = rng(2)
  obtain r p where run: "pt_map PhysmapPfnTranslator_translate (aspace_pt_alloc L) ?root ?phys ?perms mode
      \<lparr>pt_mem = vm_mem s, pt_ptr = mp_new v ?sz, pt_env = vm_pmm s\<rparr> = Some (r, p)"
    and k: "mp_offset (pt_ptr p) \<le> ?sz" "r = Inr () \<longleftrightarrow> mp_offset (pt_ptr p) = ?sz"
    and wf: "pt_wf phys_acc 3 (view_of PhysmapPfnTranslator_translate phys_acc (pt_mem p)) ?root"
    and walk: "\<forall>w. same_window 3 v w \<longrightarrow> (if v \<le> w \<and> w < v + mp_offset (pt_ptr p)
      then maps_to ?phys ?perms mode v (v + ?sz) w (pt_walk 3 (view_of PhysmapPfnTranslator_translate phys_acc (pt_mem p)) ?root w) \<and>
        pt_walk 3 (vm_view s) ?root w = None
      else pt_walk 3 (view_of PhysmapPfnTranslator_translate phys_acc (pt_mem p)) ?root w = pt_walk 3 (vm_view s) ?root w)"
    by (rule pt_map_run [OF aspace_mapper aspace_alloc_total rng pre, where perms = ?perms and mode = mode])
  note env = pt_map_frames [OF aspace_mapper rng(1,2,4) pre run]
  let ?s = "set_pmm (pt_env p) (s\<lparr>vm_mem := pt_mem p\<rparr>)"
  have "v < USIZE_LIM" using rng(1,2) by (simp add: USIZE_LIM_def)
  then have eq: "do_map L ops m prot mode run s = Some (r, ?s)" using run v by (simp add: do_map_def uadd_def)
  have tb: "tables 3 (vm_view ?s) ?root \<subseteq> tables 3 (vm_view s) ?root \<union> (pmm_free elems (vm_pmm s) - pmm_free elems (pt_env p))" using env(3) by simp
  have "object_frames x \<inter> (tables 3 (vm_view ?s) ?root \<union> pmm_free elems (pt_env p)) = {}" "object_ok N x" if "x \<in> set (vm_objects s)" for x
    using ok that env(2) tb unfolding vm_ok_def by blast+
  moreover have "tables 3 (vm_view ?s) ?root \<inter> pmm_free elems (pt_env p) = {}" using tb pre(3) env(2) by blast
  ultimately have "vm_ok elems N ?root ?s" using env(1) wf by (simp add: vm_ok_def)
  moreover have "vm_step object s ?s" by (simp add: vm_step_def) (simp add: same_tree_def)
  moreover have "mapped_as ?s ?root (v + i) (?phys + i) ?perms mode" if i: "i < mp_offset (pt_ptr p)" for i
  proof -
    have "same_window 3 v (v + i)" using same_window_iff [of v "v + i" 3] i k(1) rng(3) by simp
    with walk i have "maps_to ?phys ?perms mode v (v + ?sz) (v + i) (pt_walk 3 (vm_view ?s) ?root (v + i))" by simp
    from maps_to_translate [OF this] i k(1) rng(4) show ?thesis by (simp add: mapped_as_def)
  qed
  ultimately show ?thesis using eq k walk by (intro exI [of _ r] exI [of _ ?s] exI [of _ "mp_offset (pt_ptr p)"]) simp
qed


lemma do_map_post:
  assumes ok: "vm_ok elems N (ao_root_pt ops) s" and r: "run_ok m (vm_objects s ! ma_object m) n (Some run)"
    and rng: "ma_start m + n \<le> 2 ^ 52" "ma_start m + n \<le> window_end 3 (ma_start m)"
  shows "\<exists>r s'. do_map L ops m prot mode run s = Some (r, s') \<and> vm_ok elems N (ao_root_pt ops) s' \<and> vm_objects s' = vm_objects s \<and>
    commit_post (ao_root_pt ops) m (perms_for_prot ops prot) mode s s' (r = Inr ()) (run_base_off run) n"
proof -
  let ?v = "ma_start m + run_base_off run" and ?root = "ao_root_pt ops" and ?perms = "perms_for_prot ops prot"
  have n: "run_base_off run + run_size run = n" "0 < run_size run" "run_base_pfn run + run_size run \<le> 2 ^ 40"
    and pr: "\<forall>i < run_size run. provided (vm_objects s ! ma_object m) (run_base_off run + i + ma_object_offset m) = Some (run_base_pfn run + i)"
    using r by (simp_all add: run_ok_def)
  have win: "same_window 3 (ma_start m) ?v" using same_window_iff [of "ma_start m" ?v 3] n rng(2) by simp
  have we: "window_end 3 ?v = window_end 3 (ma_start m)" by (rule same_window_end [OF win])
  have "?v + run_size run \<le> 2 ^ 52" "?v + run_size run \<le> window_end 3 ?v" using n(1) rng unfolding we by (simp_all add: add.assoc)
  from do_map_run [OF ok refl n(2) this n(3), of prot mode "ma_object m"] obtain r s' k
    where run: "do_map L ops m prot mode run s = Some (r, s')" "vm_ok elems N ?root s'" "vm_step (ma_object m) s s'" "vm_objects s' = vm_objects s"
      and k: "k \<le> run_size run" "r = Inr () \<longleftrightarrow> k = run_size run"
      and mp: "\<forall>i < k. mapped_as s' ?root (?v + i) (run_base_pfn run + i) ?perms mode"
      and wk: "\<forall>w. same_window 3 ?v w \<and> \<not> (?v \<le> w \<and> w < ?v + k) \<longrightarrow> pt_walk 3 (vm_view s') ?root w = pt_walk 3 (vm_view s) ?root w" by blast
  have sw: "same_walk ?root s s' w" if "same_window 3 (ma_start m) w" "\<not> (?v \<le> w \<and> w < ?v + k)" for w
    using wk that same_window_trans [OF win that(1)] by (simp add: same_walk_def)
  have "committed s' ?root m ?perms mode off \<or> r \<noteq> Inr () \<and> same_walk ?root s s' (ma_start m + off)" if off: "run_base_off run \<le> off" "off < n" for off
  proof -
    obtain i where i: "off = run_base_off run + i" "i < run_size run" using off n(1) by (metis add_less_cancel_left le_Suc_ex)
    have "same_window 3 (ma_start m) (ma_start m + off)" using same_window_iff [of "ma_start m" "ma_start m + off" 3] off rng(2) by simp
    then show ?thesis using sw [of "ma_start m + off"] pr i mp run(4) k by (cases "i < k") (auto simp: committed_def add.assoc)
  qed
  moreover have "same_walk ?root s s' w" if "same_window 3 (ma_start m) w" "\<not> (ma_start m + run_base_off run \<le> w \<and> w < ma_start m + n)" for w
    using sw [OF that(1)] that(2) k(1) n(1) by linarith
  ultimately show ?thesis using run by (auto simp: commit_post_def)
qed


lemma flush_run:
  assumes s1: "vm_ok elems N (ao_root_pt ops) s" and ro: "run_ok m (vm_objects s ! ma_object m) n (Some run)" and n: "n \<le> hi"
    and rng: "ma_start m + hi \<le> 2 ^ 52" "ma_start m + hi \<le> window_end 3 (ma_start m)"
    and k: "\<And>s2. vm_ok elems N (ao_root_pt ops) s2 \<Longrightarrow> vm_objects s2 = vm_objects s \<Longrightarrow>
      \<exists>r s'. k s2 = Some (r, s') \<and> vm_ok elems N (ao_root_pt ops) s' \<and> commit_post (ao_root_pt ops) m (perms_for_prot ops prot) mode s2 s' (r = Inr ()) n hi"
  shows "\<exists>r s'. eff_bind (do_map L ops m prot mode run) (\<lambda>_. k) s = Some (r, s') \<and> vm_ok elems N (ao_root_pt ops) s' \<and>
    commit_post (ao_root_pt ops) m (perms_for_prot ops prot) mode s s' (r = Inr ()) (run_base_off run) hi"
proof -
  let ?root = "ao_root_pt ops" and ?perms = "perms_for_prot ops prot"
  have "ma_start m + n \<le> 2 ^ 52" "ma_start m + n \<le> window_end 3 (ma_start m)" using rng n by linarith+
  from do_map_post [OF s1 ro this, of prot mode] obtain r2 s2 where dm: "do_map L ops m prot mode run s = Some (r2, s2)"
    and s2: "vm_ok elems N ?root s2" "vm_objects s2 = vm_objects s" "commit_post ?root m ?perms mode s s2 (r2 = Inr ()) (run_base_off run) n" by blast
  have le: "run_base_off run \<le> n" using ro by (simp add: run_ok_def)
  show ?thesis
  proof (cases r2)
    case (Inl e)
    with s2(3) have "commit_post ?root m ?perms mode s s2 False (run_base_off run) n" by simp
    from commit_post_fail [OF this n rng(2)] show ?thesis using s2(1) Inl by (simp add: eff_bind_def dm)
  next
    case (Inr u)
    from k [OF s2(1,2)] obtain r3 s3 where l3: "k s2 = Some (r3, s3)" "vm_ok elems N ?root s3"
      "commit_post ?root m ?perms mode s2 s3 (r3 = Inr ()) n hi" by blast
    have "commit_post ?root m ?perms mode s s2 True (run_base_off run) n" using s2(3) Inr by simp
    from commit_post_trans [OF this l3(3) le n rng(2)] show ?thesis using l3 Inr by (simp add: eff_bind_def dm)
  qed
qed

lemma commit_loop_run:
  fixes s :: "('g, 'l) vm"
  assumes "vm_ok elems N (ao_root_pt ops) s" "ma_object m < length (vm_objects s)" "run_ok m (vm_objects s ! ma_object m) n cur" "n \<le> hi"
    and rng: "ma_start m + hi \<le> 2 ^ 52" "ma_start m + hi \<le> window_end 3 (ma_start m)"
    and "hi + ma_object_offset m \<le> object_page_count (vm_objects s ! ma_object m)"
  shows "\<exists>r s'. commit_loop L ops m prot mode ct [n..<hi] cur s = Some (r, s') \<and> vm_ok elems N (ao_root_pt ops) s' \<and>
    commit_post (ao_root_pt ops) m (perms_for_prot ops prot) mode s s' (r = Inr ()) (run_start n cur) hi"
  using assms(1-4,7)
proof (induction "hi - n" arbitrary: n cur s)
  case 0
  then have n: "hi = n" by simp
  show ?case
  proof (cases cur)
    case None
    then show ?thesis using 0 by (auto simp: n run_start_def eff_return_def commit_post_def same_walk_def)
  next
    case (Some run)
    then show ?thesis using do_map_post [OF "0.prems"(1), of m n run prot mode] "0.prems"(3) rng by (auto simp: n run_start_def)
  qed
next
  case (Suc d)
  let ?root = "ao_root_pt ops" and ?perms = "perms_for_prot ops prot" and ?obj = "\<lambda>s. vm_objects s ! ma_object m"
  have up: "[n..<hi] = n # [Suc n..<hi]" "d = hi - Suc n" "Suc n \<le> hi" using Suc(2) by (simp_all add: upt_conv_Cons)
  have off: "n + ma_object_offset m < object_page_count (?obj s)" using Suc.prems(5) up(3) by simp
  have "object_ok N (?obj s)" using Suc.prems(1,2) by (simp add: vm_ok_def)
  then have add: "uadd n (ma_object_offset m) = Some (n + ma_object_offset m)" using off by (simp add: uadd_def object_ok_def)
  from object_provide_run [OF Suc.prems(1,2) off, of ct] obtain r s1 where pv: "object_provide L (ma_object m) (n + ma_object_offset m) ct s = Some (r, s1)"
    and s1: "vm_ok elems N ?root s1" "vm_step (ma_object m) s s1" "vm_mem s1 = vm_mem s"
    and r: "\<forall>p. r = Inr p \<longrightarrow> p < 2 ^ 40 \<and> provided (?obj s1) (n + ma_object_offset m) = Some p" by blast
  have o1: "ma_object m < length (vm_objects s1)" "hi + ma_object_offset m \<le> object_page_count (?obj s1)" and ro: "run_ok m (?obj s1) n cur"
    using s1(2) Suc.prems(2,5) run_ok_step [OF Suc.prems(3) s1(2)] by (simp_all add: vm_step_def)
  note step = commit_post_step [OF s1(2,3)]
  note loop = up(1) add pv eff_bind_def eff_lift_def
  show ?case
  proof (cases r)
    case (Inl e)
    have "commit_post ?root m ?perms mode s s1 False (run_start n cur) hi" by (rule step) (simp add: commit_post_def same_walk_def)
    then show ?thesis using s1(1) by (simp add: loop Inl)
  next
    case (Inr p)
    with r have p: "p < 2 ^ 40" "provided (?obj s1) (n + ma_object_offset m) = Some p" by auto
    let ?new = "Some \<lparr>run_base_off = n, run_base_pfn = p, run_size = 1\<rparr>"
    have new: "run_ok m (?obj s') (Suc n) ?new" if "provided (?obj s') (n + ma_object_offset m) = Some p" for s'
      using p(1) that by (simp add: run_ok_def)
    show ?thesis
    proof (cases cur)
      case None
      from Suc.hyps(1) [OF up(2) s1(1) o1(1) new [OF p(2)] up(3) o1(2)] show ?thesis
        using step by (auto simp: loop Inr None run_start_def)
    next
      case (Some run)
      have rs: "run_start n cur = run_base_off run" "run_base_off run \<le> n" using ro by (simp_all add: Some run_start_def run_ok_def)
      show ?thesis
      proof (cases "addr_checked_add (run_base_pfn run) (run_size run) = Some p")
        case True
        then have "p = run_base_pfn run + run_size run" by (simp add: addr_checked_add_def split: if_splits)
        then have "run_ok m (?obj s1) (Suc n) (Some (run\<lparr>run_size := run_size run + 1\<rparr>))" using run_ok_extend ro p Some by blast
        from Suc.hyps(1) [OF up(2) s1(1) o1(1) this up(3) o1(2)] show ?thesis using step True by (auto simp: loop Inr Some run_start_def)
      next
        case False
        let ?k = "commit_loop L ops m prot mode ct [Suc n..<hi] ?new"
        have "\<exists>r s'. ?k s2 = Some (r, s') \<and> vm_ok elems N ?root s' \<and> commit_post ?root m ?perms mode s2 s' (r = Inr ()) n hi"
          if q: "vm_ok elems N ?root s2" "vm_objects s2 = vm_objects s1" for s2 :: "('g, 'l) vm"
        proof -
          have "run_ok m (vm_objects s2 ! ma_object m) (Suc n) ?new" using new p(2) q(2) by simp
          from Suc.hyps(1) [OF up(2) q(1) _ this up(3)] show ?thesis using q(2) o1 by (simp add: run_start_def)
        qed
        from flush_run [OF s1(1) ro [unfolded Some] Suc.prems(4) rng this] show ?thesis
          using step False rs(1) by (auto simp: loop Inr Some)
      qed
    qed
  qed
qed


lemma do_commit_run:
  assumes ok: "vm_ok elems N (ao_root_pt (as_ops asp)) s" and get: "get_range s = Some (Inr rng, s)"
    and m: "mapping_at (vm_tree s) (cr_mapping rng) = Some m" "ma_inner m = Some inn" "ma_object m < length (vm_objects s)"
    and hi: "hi = cr_offset rng + cr_page_count rng" "hi + ma_object_offset m \<le> object_page_count (vm_objects s ! ma_object m)"
      "ma_start m + hi \<le> 2 ^ 52" "ma_start m + hi \<le> window_end 3 (ma_start m)"
  shows "\<exists>r s'. do_commit env L asp get_range s = Some (r, s') \<and> vm_ok elems N (ao_root_pt (as_ops asp)) s' \<and>
    commit_post (ao_root_pt (as_ops asp)) m (perms_for_prot (as_ops asp) (mi_prot inn)) (object_cache_mode (vm_objects s ! ma_object m)) s s' (r = Inr ()) (cr_offset rng) hi"
proof -
  have lim: "ma_start m + hi < USIZE_LIM" using hi(3) by (simp add: USIZE_LIM_def)
  have prot: "on_tree (mapping_prot (cr_mapping rng)) s = Some (Inr (mi_prot inn), s)"
    using m(1,2) by (simp add: on_tree_def mapping_prot_def mapping_inner_of_def eff_bind_def eff_return_def)
  let ?loop = "commit_loop L (as_ops asp) m (mi_prot inn) (object_cache_mode (vm_objects s ! ma_object m)) (cr_commit_type rng) [cr_offset rng..<hi] None s"
  have "do_commit env L asp get_range s = ?loop"
    using get prot m(1,3) lim hi(1) by (simp add: do_commit_def eff_bind_def object_at_def uadd_def trace_args_ok)
  moreover have "run_ok m (vm_objects s ! ma_object m) (cr_offset rng) None" by (simp add: run_ok_def)
  note commit_loop_run [OF ok m(3) this _ hi(3,4,2), of "mi_prot inn" "object_cache_mode (vm_objects s ! ma_object m)" "cr_commit_type rng"]
  ultimately show ?thesis using hi(1) by (simp add: run_start_def)
qed

end

section \<open>Properties\<close>

definition mapping_fits :: "('g, 'l) vm \<Rightarrow> mapping \<Rightarrow> bool" where
  "mapping_fits s m \<longleftrightarrow> ma_object m < length (vm_objects s) \<and> ma_page_count m + ma_object_offset m \<le> object_page_count (vm_objects s ! ma_object m) \<and>
     ma_start m + ma_page_count m \<le> 2 ^ 52 \<and> ma_start m + ma_page_count m \<le> window_end 3 (ma_start m)"

text \<open>An example: the tree of \<open>demo_tree\<close> over empty page tables with root frame 1.\<close>

definition demo_asp :: addr_space where
  "demo_asp = \<lparr>as_root_slice = 0, as_ops = \<lparr>ao_root_pt = 1, ao_flush = (\<lambda>_ mmu. Some mmu), ao_can_cull_pt = (\<lambda>_ _. True), ao_base_perms = 0\<rparr>\<rparr>"

lemma demo_vm_ok:
  assumes "pmm_inv (\<lambda>l. l) 1024 pm" "free_frames (\<lambda>l. l) pm = {256..<300}"
  shows "vm_ok (\<lambda>l. l) 1024 1 (demo_vm (Some pm))"
proof -
  have v: "vm_view (demo_vm (Some pm)) = (\<lambda>_ _. 0)" by (simp add: demo_vm_def zero_memory)
  have p: "vm_pmm (demo_vm (Some pm)) = Some pm" by (simp add: vm_pmm_def demo_vm_def demo_tree_def)
  have "1 \<in> phys_acc" by (simp add: layout_consts)
  then show ?thesis using assms unfolding vm_ok_def v p
    by (simp add: zero_tables pmm_ok_def pmm_free_def demo_vm_def object_ok_def USIZE_LIM_def)
qed

lemma demo_vm_mapping:
  "mapping_at (vm_tree (demo_vm pmm)) 0 = Some demo_mapping" "ma_inner demo_mapping = Some \<lparr>mi_parent = 1, mi_prot = PROT_READ\<rparr>" "mapping_fits (demo_vm pmm) demo_mapping"
  "vt_mappings (vm_tree (demo_vm pmm)) = [demo_mapping]"
  by (simp_all add: demo_vm_def demo_tree_def mapping_at_def demo_mapping_def mapping_fits_def window_end_def)

text \<open>The fault handler on every page, over the path the lookup takes.\<close>

lemma fault_run:
  assumes "frame_list L elems" and ok: "vm_ok elems N (ao_root_pt (as_ops asp)) s"
    and tree: "tree_ok (vm_tree s)" "attached (vm_tree s) (as_root_slice asp) rinn" and fits: "\<forall>m\<in>set (vt_mappings (vm_tree s)). mapping_fits s m"
  shows "\<exists>r s'. aspace_fault env L asp vpn access s = Some (r, s') \<and>
    (if \<exists>mid. lookup_path (vm_tree s) vpn (as_root_slice asp) mid then
       \<exists>mid inn. lookup_path (vm_tree s) vpn (as_root_slice asp) mid \<and> ma_inner (vt_mappings (vm_tree s) ! mid) = Some inn \<and>
         (if access_allowed access (mi_prot inn) then vm_ok elems N (ao_root_pt (as_ops asp)) s' \<and>
            (let m = vt_mappings (vm_tree s) ! mid in commit_post (ao_root_pt (as_ops asp)) m (perms_for_prot (as_ops asp) (mi_prot inn))
               (object_cache_mode (vm_objects s ! ma_object m)) s s' (r = Inr ()) (vpn - ma_start m) (vpn - ma_start m + 1))
          else r = Inl NO_PERMS \<and> s' = s)
     else r = Inl BAD_ADDRESS \<and> s' = s)"
proof -
  let ?t = "vm_tree s" and ?i = "as_root_slice asp"
  obtain r where g: "get_mapping ?i vpn ?t = Some (r, ?t)" "\<forall>mid. r = Inr mid \<longleftrightarrow> lookup_path ?t vpn ?i mid" "\<forall>e. r = Inl e \<longrightarrow> e = BAD_ADDRESS"
    using get_mapping_run [OF tree, of vpn] by blast
  have ot: "on_tree (get_mapping ?i vpn) s = Some (r, s)" using g(1) by (simp add: on_tree_def)
  show ?thesis
  proof (cases r)
    case (Inl e)
    then show ?thesis using g ot by (auto simp: aspace_fault_def do_commit_def commit_range_by_vpn_def eff_bind_def)
  next
    case (Inr mid)
    then have lp: "lookup_path ?t vpn ?i mid" using g(2) by simp
    let ?m = "vt_mappings ?t ! mid"
    have m: "mid < length (vt_mappings ?t)" "ma_inner ?m \<noteq> None" "ma_start ?m < vpn" "vpn < ma_start ?m + ma_page_count ?m"
      using lookup_path_mapping [OF lp tree(1)] by simp_all
    then obtain inn where inn: "ma_inner ?m = Some inn" by blast
    have at: "mapping_at ?t mid = Some ?m" using m(1) by (simp add: mapping_at_def)
    have pr: "on_tree (mapping_prot mid) s = Some (Inr (mi_prot inn), s)"
      using at inn by (simp add: on_tree_def mapping_prot_def mapping_inner_of_def eff_bind_def eff_return_def)
    show ?thesis
    proof (cases "access_allowed access (mi_prot inn)")
      case False
      then show ?thesis using lp inn ot Inr pr by (auto simp: aspace_fault_def do_commit_def commit_range_by_vpn_def eff_bind_def eff_fail_def)
    next
      case True
      let ?rng = "\<lparr>cr_mapping = mid, cr_commit_type = get_commit_type access, cr_offset = vpn - ma_start ?m, cr_page_count = 1\<rparr>"
      have get: "commit_range_by_vpn asp vpn access s = Some (Inr ?rng, s)"
        using ot Inr pr True at m(3) by (simp add: commit_range_by_vpn_def eff_bind_def usub_def)
      have f: "mapping_fits s ?m" using fits nth_mem [OF m(1)] by blast
      have b: "vpn - ma_start ?m + 1 + ma_object_offset ?m \<le> object_page_count (vm_objects s ! ma_object ?m)" "ma_start ?m + (vpn - ma_start ?m + 1) \<le> 2 ^ 52"
        "ma_start ?m + (vpn - ma_start ?m + 1) \<le> window_end 3 (ma_start ?m)" "ma_object ?m < length (vm_objects s)" using f m(3,4) by (auto simp: mapping_fits_def)
      show ?thesis unfolding aspace_fault_def
        using frame_list.do_commit_run [where get_range = "commit_range_by_vpn asp vpn access", OF assms(1) ok get _ inn b(4) _ b(1-3), where env = env] at lp inn True by (auto simp: Let_def)
    qed
  qed
qed

text \<open>
  C10. \<open>AddrSpace::commit\<close> of pages of an attached mapping always returns, and keeps the invariant that page tables, frames of objects and free frames are apart. On
  success every page of the range translates to the very frame the object provides for it, with the permissions of the mapping and the
  cache mode of the object, although contiguous frames are mapped in one go. On an error each page of the range is either mapped that way or left as it
  was, and in both cases every page outside the range translates as before and no frame already provided is lost.
\<close>

theorem commit_correct:
  assumes "frame_list L elems" and ok: "vm_ok elems N (ao_root_pt (as_ops asp)) s"
    and m: "mapping_at (vm_tree s) mid = Some m" "ma_inner m = Some inn" and fits: "mapping_fits s m" "off + n \<le> ma_page_count m"
  shows "\<exists>r s'. aspace_commit env L asp mid off n s = Some (r, s') \<and> vm_ok elems N (ao_root_pt (as_ops asp)) s' \<and>
    commit_post (ao_root_pt (as_ops asp)) m (perms_for_prot (as_ops asp) (mi_prot inn)) (object_cache_mode (vm_objects s ! ma_object m)) s s' (r = Inr ()) off (off + n)"
proof -
  let ?rng = "\<lparr>cr_mapping = mid, cr_commit_type = (if flag_contains (mi_prot inn) PROT_WRITE then CommitWrite else CommitRead), cr_offset = off, cr_page_count = n\<rparr>"
  have get: "commit_range_requested mid off n s = Some (Inr ?rng, s)"
    using m by (simp add: commit_range_requested_def on_tree_def mapping_prot_def mapping_inner_of_def eff_bind_def eff_return_def)
  have b: "off + n + ma_object_offset m \<le> object_page_count (vm_objects s ! ma_object m)" "ma_start m + (off + n) \<le> 2 ^ 52"
    "ma_start m + (off + n) \<le> window_end 3 (ma_start m)" "ma_object m < length (vm_objects s)" using fits by (auto simp: mapping_fits_def)
  show ?thesis unfolding aspace_commit_def
    using frame_list.do_commit_run [where get_range = "commit_range_requested mid off n", OF assms(1) ok get _ m(2) b(4) _ b(1-3), where env = env] m(1) by simp
qed

theorem commit_correct_witness:
  "\<exists>pm r s'. example_pmm = Some pm \<and> aspace_commit demo_env seq_list demo_asp 0 3 5 (demo_vm (Some pm)) = Some (r, s') \<and> vm_ok (\<lambda>l. l) 1024 1 s'"
proof -
  obtain pm where e: "example_pmm = Some pm" "pmm_inv (\<lambda>l. l) 1024 pm" "free_frames (\<lambda>l. l) pm = {256..<300}" by (rule example_pmm_inv)
  have "vm_ok (\<lambda>l. l) 1024 (ao_root_pt (as_ops demo_asp)) (demo_vm (Some pm))" using demo_vm_ok [OF e(2,3)] by (simp add: demo_asp_def)
  from commit_correct [OF seq_fl.frame_list_axioms this demo_vm_mapping(1-3), of 3 5 demo_env] e(1) show ?thesis
    by (auto simp: demo_mapping_def demo_asp_def)
qed

text \<open>
  C11. \<open>AddrSpace::fault\<close>, for a page with which no child in the tree starts (the lookup misses those, see \<open>fault_run\<close>), always returns. When no mapping contains the page it fails with
  \<open>BAD_ADDRESS\<close>, and when the mapping forbids the access with \<open>NO_PERMS\<close>; then nothing changes. Otherwise the
  page, and no other, is committed, which has two outcomes: on success the page translates to the frame its object provides, with the permissions of the
  mapping and the cache mode of the object; or the commit fails with an error of its own, such as \<open>OUT_OF_MEMORY\<close> from the object or for a page table, and
  the page is then as before or mapped as on success. Every other page translates as before.
\<close>

theorem fault_correct:
  assumes "frame_list L elems" and ok: "vm_ok elems N (ao_root_pt (as_ops asp)) s"
    and tree: "tree_ok (vm_tree s)" "attached (vm_tree s) (as_root_slice asp) rinn" and fits: "\<forall>m\<in>set (vt_mappings (vm_tree s)). mapping_fits s m"
    and first: "\<not> starts_child (vm_tree s) vpn"
  shows "\<exists>r s'. aspace_fault env L asp vpn access s = Some (r, s') \<and>
    (if \<exists>mid. maps_page (vm_tree s) vpn (as_root_slice asp) mid then
       \<exists>mid inn. maps_page (vm_tree s) vpn (as_root_slice asp) mid \<and> ma_inner (vt_mappings (vm_tree s) ! mid) = Some inn \<and>
         (if access_allowed access (mi_prot inn) then vm_ok elems N (ao_root_pt (as_ops asp)) s' \<and>
            (let m = vt_mappings (vm_tree s) ! mid in commit_post (ao_root_pt (as_ops asp)) m (perms_for_prot (as_ops asp) (mi_prot inn))
               (object_cache_mode (vm_objects s ! ma_object m)) s s' (r = Inr ()) (vpn - ma_start m) (vpn - ma_start m + 1))
          else r = Inl NO_PERMS \<and> s' = s)
     else r = Inl BAD_ADDRESS \<and> s' = s)"
  unfolding maps_page_iff_lookup [OF first] using assms(1-5) by (rule fault_run)

theorem fault_correct_witness:
  "\<exists>pm. example_pmm = Some pm \<and> (\<exists>r s'. aspace_fault demo_env seq_list demo_asp 0x110 WriteAccess (demo_vm (Some pm)) = Some (r, s') \<and> r = Inl NO_PERMS \<and> s' = demo_vm (Some pm))"
proof -
  obtain pm where e: "example_pmm = Some pm" "pmm_inv (\<lambda>l. l) 1024 pm" "free_frames (\<lambda>l. l) pm = {256..<300}" by (rule example_pmm_inv)
  have ok: "vm_ok (\<lambda>l. l) 1024 (ao_root_pt (as_ops demo_asp)) (demo_vm (Some pm))" using demo_vm_ok [OF e(2,3)] by (simp add: demo_asp_def)
  have t: "tree_ok (vm_tree (demo_vm (Some pm)))"
    "attached (vm_tree (demo_vm (Some pm))) (as_root_slice demo_asp) \<lparr>si_parent = None, si_children = [(0x100, Subslice 1)]\<rparr>"
    using demo_tree_ok demo_attached(1) by (simp_all add: demo_vm_def demo_asp_def)
  have "\<forall>m\<in>set (vt_mappings (vm_tree (demo_vm (Some pm)))). mapping_fits (demo_vm (Some pm)) m" by (simp add: demo_vm_mapping)
  moreover have first: "\<not> starts_child (vm_tree (demo_vm (Some pm))) 0x110" using demo_no_start by (simp add: demo_vm_def)
  ultimately have fits: "\<forall>m\<in>set (vt_mappings (vm_tree (demo_vm (Some pm)))). mapping_fits (demo_vm (Some pm)) m" by simp
  note f = fault_correct [OF seq_fl.frame_list_axioms ok t fits first, of demo_env WriteAccess]
  have lk: "maps_page (vm_tree (demo_vm (Some pm))) 0x110 (as_root_slice demo_asp) 0" using lookup_maps_page [OF demo_lookup] by (simp add: demo_vm_def demo_asp_def)
  have one: "mid = 0" if "maps_page (vm_tree (demo_vm (Some pm))) 0x110 (as_root_slice demo_asp) mid" for mid
    using lookup_path_mapping [OF maps_page_lookup [OF that first] t(1)] by (simp add: demo_vm_mapping)
  have "\<not> access_allowed WriteAccess PROT_READ" by code_simp
  moreover obtain r s' mid inn where run: "aspace_fault demo_env seq_list demo_asp 0x110 WriteAccess (demo_vm (Some pm)) = Some (r, s')"
    and mid: "maps_page (vm_tree (demo_vm (Some pm))) 0x110 (as_root_slice demo_asp) mid" "ma_inner (vt_mappings (vm_tree (demo_vm (Some pm))) ! mid) = Some inn"
    and res: "\<not> access_allowed WriteAccess (mi_prot inn) \<Longrightarrow> r = Inl NO_PERMS \<and> s' = demo_vm (Some pm)"
    using f unfolding if_P [OF exI [of "maps_page (vm_tree (demo_vm (Some pm))) 0x110 (as_root_slice demo_asp)", OF lk]] by (elim exE conjE) (rule that, assumption, assumption, assumption, simp)
  ultimately have "r = Inl NO_PERMS \<and> s' = demo_vm (Some pm)" using one [OF mid(1)] mid(2) by (intro res) (auto simp: demo_vm_mapping)
  then show ?thesis using run e(1) by (intro exI [of _ pm]) simp
qed

end
