(* ===== verification/Mem_Ranges.thy ===== *)
theory Mem_Ranges
  imports Bootparse Boot_Heap
begin

text \<open>
  Ranges of physical memory at boot (\<open>mm/utils.rs\<close> and the helpers of \<open>mm/init.rs\<close>): which ranges of the memory map are usable, and the
  walk that carves the reserved ranges out of them. The walk is proved to report exactly the usable frames that are not
  reserved, when every reserved range that ends before a usable one ends in an earlier usable range; without that it
  may report reserved frames, as \<open>iter_usable_ranges_leak\<close> shows.
\<close>

section \<open>Helpers\<close>

definition display_byte_size :: "usize \<Rightarrow> string" where
  "display_byte_size bytes =
     (if bytes < 1024 then show_nat bytes @ ''B''
      else if bytes < 1024 * 1024 then show_nat (bytes div 1024) @ ''K''
      else if bytes < 1024 * 1024 * 1024 then show_nat (bytes div (1024 * 1024)) @ ''M''
      else show_nat (bytes div (1024 * 1024 * 1024)) @ ''G'')"

definition to_page_count :: "usize \<Rightarrow> usize option" where
  "to_page_count bytes = div_ceil bytes PAGE_SIZE"

definition is_usable :: "memory_kind \<Rightarrow> bool" where
  "is_usable kind \<longleftrightarrow> kind = USABLE \<or> kind = FIRMWARE_BOOT"

definition is_early_usable :: "memory_kind \<Rightarrow> bool" where
  "is_early_usable kind \<longleftrightarrow> kind = USABLE"

type_synonym frame_range = "pfn \<times> pfn"

section \<open>Carving out reserved ranges\<close>

text \<open>
  The inner loop for one usable range, over the peekable iterator of reserved ranges; \<open>func\<close> acts on the state of the closure. Returned are
  the ranges left in the iterator and the state.
\<close>

fun chop_range :: "(pfn \<Rightarrow> pfn \<Rightarrow> 's \<Rightarrow> 's option) \<Rightarrow> pfn \<Rightarrow> pfn \<Rightarrow> frame_range list \<Rightarrow> 's \<Rightarrow> (frame_range list \<times> 's) option" where
  "chop_range func start en [] s = do {
     s1 \<leftarrow> (if start < en then func start en s else Some s);
     Some ([], s1) }"
| "chop_range func start en ((rs, re) # rest) s = do {
     uassert (rs \<le> re);
     if rs \<ge> en \<or> re < start then do {
       s1 \<leftarrow> (if start < en then func start en s else Some s);
       Some ((rs, re) # rest, s1)
     } else do {
       s1 \<leftarrow> (if rs > start then func start rs s else Some s);
       if re \<ge> en then Some (if re \<le> en then rest else (rs, re) # rest, s1)
       else chop_range func re en rest s1 } }"

fun iter_usable_ranges :: "frame_range list \<Rightarrow> frame_range list \<Rightarrow> (pfn \<Rightarrow> pfn \<Rightarrow> 's \<Rightarrow> 's option) \<Rightarrow> 's \<Rightarrow> 's option" where
  "iter_usable_ranges [] reserved func s = Some s"
| "iter_usable_ranges ((start, en) # usable) reserved func s = do {
     (reserved1, s1) \<leftarrow> chop_range func start en reserved s;
     iter_usable_ranges usable reserved1 func s1 }"

section \<open>The memory map\<close>

fun early_usable_ranges :: "memory_range list \<Rightarrow> frame_range list option" where
  "early_usable_ranges [] = Some []"
| "early_usable_ranges (r # rs) =
     (if is_early_usable (mr_kind r) then do {
        en \<leftarrow> uadd (start_page r) (page_count r);
        rest \<leftarrow> early_usable_ranges rs;
        Some ((start_page r, en) # rest) }
      else early_usable_ranges rs)"

text \<open>
  The ranges are computed before the walk rather than on demand; a range that overflows panics in both cases.
\<close>

definition iter_early_usable_ranges :: "memory_range list \<Rightarrow> frame_range list \<Rightarrow> (pfn \<Rightarrow> pfn \<Rightarrow> 's \<Rightarrow> 's option) \<Rightarrow> 's \<Rightarrow> 's option" where
  "iter_early_usable_ranges mem_map reserved func s = do {
     usable \<leftarrow> early_usable_ranges mem_map;
     iter_usable_ranges usable reserved func s }"

definition pick_largest :: "pfn \<Rightarrow> pfn \<Rightarrow> frame_range option \<Rightarrow> frame_range option option" where
  "pick_largest start en largest = (case largest of
     Some (cs, ce) \<Rightarrow> do {
       n \<leftarrow> usub en start;
       m \<leftarrow> usub ce cs;
       Some (if n > m then Some (start, en) else largest) }
   | None \<Rightarrow> Some (Some (start, en)))"

definition largest_early_usable_range :: "memory_range list \<Rightarrow> frame_range list \<Rightarrow> frame_range option" where
  "largest_early_usable_range mem_map reserved = do {
     largest \<leftarrow> iter_early_usable_ranges mem_map reserved pick_largest None;
     largest }"

fun usable_ends :: "memory_range list \<Rightarrow> pfn list option" where
  "usable_ends [] = Some []"
| "usable_ends (r # rs) =
     (if is_usable (mr_kind r) then do {
        en \<leftarrow> uadd (start_page r) (page_count r);
        rest \<leftarrow> usable_ends rs;
        Some (en # rest) }
      else usable_ends rs)"

definition highest_usable_pfn :: "memory_range list \<Rightarrow> pfn option" where
  "highest_usable_pfn mem_map = do {
     ends \<leftarrow> usable_ends mem_map;
     if ends = [] then None else Some (fold max (tl ends) (hd ends)) }"

section \<open>Reserved ranges\<close>

text \<open>
  \<open>ReservedRanges\<close> is an \<open>ArrayVec\<close> of capacity 5, a type of a library; \<open>push cap xs x\<close> is its \<open>push\<close> on a vector of that capacity with
  elements \<open>xs\<close>.
\<close>

type_synonym 'a array_vec_push = "usize \<Rightarrow> 'a list \<Rightarrow> 'a \<Rightarrow> 'a list option"

definition RESERVED_RANGES_CAP :: usize where "RESERVED_RANGES_CAP = 5"

fun av_extend :: "'a array_vec_push \<Rightarrow> usize \<Rightarrow> 'a list \<Rightarrow> 'a list \<Rightarrow> 'a list option" where
  "av_extend push cap xs [] = Some xs"
| "av_extend push cap xs (y # ys) = do { xs1 \<leftarrow> push cap xs y; av_extend push cap xs1 ys }"

definition sort_reserved_ranges :: "frame_range list \<Rightarrow> frame_range list" where
  "sort_reserved_ranges reserved = sort_key fst reserved"

definition gather_reserved_ranges :: "frame_range array_vec_push \<Rightarrow> kimage \<Rightarrow> frame_range \<Rightarrow> frame_range list option" where
  "gather_reserved_ranges push ki bootinfo_range = do {
     kend \<leftarrow> phys_end ki;
     ret \<leftarrow> av_extend push RESERVED_RANGES_CAP [] [(phys_base ki, kend), bootinfo_range];
     ret \<leftarrow> av_extend push RESERVED_RANGES_CAP ret RESERVED_RANGES;
     Some (sort_reserved_ranges ret) }"

definition reserve_bootheap :: "frame_range array_vec_push \<Rightarrow> frame_range list \<Rightarrow> boot_heap \<Rightarrow> frame_range list option" where
  "reserve_bootheap push reserved bootheap = do {
     let (st, en) = boot_heap_used_range bootheap;
     tail \<leftarrow> containing_tail_frame en;
     reserved1 \<leftarrow> push RESERVED_RANGES_CAP reserved (containing_frame st, tail);
     Some (sort_reserved_ranges reserved1) }"

section \<open>Reporting\<close>

text \<open>
  The arguments of a log message are only evaluated when its level is on; \<open>tr\<close> and \<open>info\<close> say whether \<open>Trace\<close> and \<open>Info\<close> are.
  The format \<open>{:#012x}\<close> pads with zeros to twelve characters, prefix included.
\<close>

definition fmt_hex12 :: "usize \<Rightarrow> string" where
  "fmt_hex12 n = (let h = show_hex n in ''0x'' @ replicate (10 - length h) (CHR ''0'') @ h)"

definition kind_name :: "memory_kind \<Rightarrow> string" where
  "kind_name k =
     (if k = RESERVED then ''reserved'' else if k = USABLE then ''usable'' else if k = FIRMWARE_BOOT then ''firmware (boot)''
      else if k = FIRMWARE_RUNIME then ''firmware (runtime)'' else if k = ACPI_TABLES then ''ACPI tables''
      else if k = UNUSABLE then ''unusable'' else ''other'')"

definition display_range :: "bool \<Rightarrow> memory_range \<Rightarrow> string list option" where
  "display_range tr r =
     (if \<not> tr then Some []
      else do {
        a \<leftarrow> umul (start_page r) PAGE_SIZE;
        e \<leftarrow> uadd (start_page r) (page_count r);
        b \<leftarrow> umul e PAGE_SIZE;
        Some [fmt_hex12 a @ ''-'' @ fmt_hex12 b @ '': '' @ kind_name (mr_kind r)] })"

fun mem_info_loop :: "bool \<Rightarrow> memory_range list \<Rightarrow> usize \<Rightarrow> string list \<Rightarrow> (usize \<times> string list) option" where
  "mem_info_loop tr [] pages log = Some (pages, log)"
| "mem_info_loop tr (r # rs) pages log = do {
     out \<leftarrow> display_range tr r;
     pages1 \<leftarrow> (if mr_kind r = USABLE then uadd pages (page_count r) else Some pages);
     mem_info_loop tr rs pages1 (log @ out) }"

definition print_mem_info :: "bool \<Rightarrow> bool \<Rightarrow> memory_range list \<Rightarrow> string list option" where
  "print_mem_info tr info mem_map = do {
     let log = (if tr then [''physical memory map ('' @ show_nat (length mem_map) @ '' entries):''] else []);
     (pages, log) \<leftarrow> mem_info_loop tr mem_map 0 log;
     if \<not> info then Some log
     else do {
       bytes \<leftarrow> umul pages PAGE_SIZE;
       Some (log @ [show_nat pages @ '' pages ('' @ display_byte_size bytes @ '') usable'']) } }"

section \<open>The reported ranges\<close>

text \<open>The walk with a closure that collects the ranges; every other closure is run over this list.\<close>

abbreviation collect :: "pfn \<Rightarrow> pfn \<Rightarrow> frame_range list \<Rightarrow> frame_range list option" where
  "collect st en out \<equiv> Some (out @ [(st, en)])"

fun run_func :: "(pfn \<Rightarrow> pfn \<Rightarrow> 's \<Rightarrow> 's option) \<Rightarrow> frame_range list \<Rightarrow> 's \<Rightarrow> 's option" where
  "run_func func [] s = Some s"
| "run_func func ((st, en) # rs) s = do { s1 \<leftarrow> func st en s; run_func func rs s1 }"

lemma run_func_append: "run_func func (xs @ ys) s = Option.bind (run_func func xs s) (run_func func ys)"
  by (induction func xs s rule: run_func.induct) (simp_all split: Option.bind_split)

lemma chop_collect_acc:
  "chop_range collect start en rs out = map_option (\<lambda>(rs', o'). (rs', out @ o')) (chop_range collect start en rs [])"
proof (induction rs arbitrary: start out)
  case (Cons r rs)
  obtain a b where r: "r = (a, b)" by (cases r)
  show ?case unfolding r
    by (cases "a \<le> b"; cases "a \<ge> en \<or> b < start"; cases "b \<ge> en"; cases "a > start")
      (simp_all add: uassert_def Cons.IH [of b "out @ [(start, a)]"] Cons.IH [of b out] Cons.IH [of b "[(start, a)]"]
        option.map_comp o_def split_def map_conv_bind_option)
qed simp

lemma chop_run:
  "chop_range func start en rs s = Option.bind (chop_range collect start en rs [])
     (\<lambda>(rs', out). map_option (Pair rs') (run_func func out s))"
proof (induction rs arbitrary: start s)
  case (Cons r rs)
  obtain a b where r: "r = (a, b)" by (cases r)
  show ?case unfolding r
    by (cases "a \<le> b"; cases "a \<ge> en \<or> b < start"; cases "b \<ge> en"; cases "a > start"; cases "func start a s")
      (simp_all add: uassert_def Cons.IH chop_collect_acc [of b en rs "[(start, a)]"] map_option_bind_eq split_def map_conv_bind_option split: Option.bind_split)
qed (simp add: map_conv_bind_option)

definition range_frames :: "frame_range list \<Rightarrow> pfn set" where
  "range_frames rs = (\<Union>(a, b)\<in>set rs. {a..<b})"

lemma range_frames_simps [simp]:
  "range_frames [] = {}" "range_frames ((a, b) # rs) = {a..<b} \<union> range_frames rs"
  "range_frames (xs @ ys) = range_frames xs \<union> range_frames ys"
  by (auto simp: range_frames_def)

definition ranges_ok :: "frame_range list \<Rightarrow> bool" where
  "ranges_ok rs \<longleftrightarrow> sorted_wrt (\<lambda>(a, b) (c, d). b \<le> c) rs \<and> (\<forall>(a, b)\<in>set rs. a \<le> b)"

lemma ranges_ok_simps [simp]:
  "ranges_ok []" "ranges_ok ((a, b) # rs) \<longleftrightarrow> a \<le> b \<and> (\<forall>(c, d)\<in>set rs. b \<le> c) \<and> ranges_ok rs"
  by (auto simp: ranges_ok_def)

lemma ranges_ok_append: "ranges_ok (xs @ ys) \<longleftrightarrow> ranges_ok xs \<and> ranges_ok ys \<and> (\<forall>(a, b)\<in>set xs. \<forall>(c, d)\<in>set ys. b \<le> c)"
  by (fastforce simp: ranges_ok_def sorted_wrt_append)

lemma ranges_ok_filter: "ranges_ok rs \<Longrightarrow> ranges_ok (filter P rs)"
  by (auto simp: ranges_ok_def sorted_wrt_filter)

text \<open>One usable range: what is reported, and which reserved ranges are consumed.\<close>

lemma chop_spec:
  assumes "ranges_ok rs" "start \<le> en" "\<forall>(a, b)\<in>set rs. start \<le> b"
  shows "\<exists>out. chop_range collect start en rs [] = Some (filter (\<lambda>(a, b). \<not> (a < en \<and> b \<le> en)) rs, out) \<and>
    range_frames out = {start..<en} - range_frames rs \<and> ranges_ok out \<and> (\<forall>(c, d)\<in>set out. start \<le> c \<and> c < d \<and> d \<le> en)"
  using assms
proof (induction rs arbitrary: start)
  case Nil
  then show ?case by (cases "start < en") auto
next
  case (Cons r rs)
  obtain a b where r: "r = (a, b)" by (cases r)
  have rs: "ranges_ok rs" "a \<le> b" "\<forall>(c, d)\<in>set rs. b \<le> c \<and> c \<le> d" "start \<le> b" using Cons.prems by (auto simp: r ranges_ok_def)
  let ?P = "\<lambda>(a, b). \<not> (a < en \<and> b \<le> en)"
  have keep: "filter ?P rs = rs" if "en \<le> b" using that rs(3) by (auto simp: filter_id_conv)
  have out: "range_frames rs \<inter> {..<b} = {}" using rs(3) by (fastforce simp: range_frames_def)
  consider "en \<le> a" | "a < en" "en \<le> b" | "a < en" "b < en" by linarith
  then show ?case
  proof cases
    case 1
    then have "range_frames rs \<inter> {..<en} = {}" "{a..<b} \<inter> {..<en} = {}" using out rs(2) by auto
    then show ?thesis using 1 rs(2) keep by (cases "start < en") (auto simp: r uassert_def)
  next
    case 2
    then show ?thesis using rs(2,4) keep out by (cases "start < a"; cases "b = en") (auto simp: r uassert_def)
  next
    case 3
    have "\<forall>(c, d)\<in>set rs. b \<le> d" using rs(3) by fastforce
    from Cons.IH [OF rs(1) _ this] 3 obtain out2 where o2: "chop_range collect b en rs [] = Some (filter ?P rs, out2)"
      "range_frames out2 = {b..<en} - range_frames rs" "ranges_ok out2" "\<forall>(c, d)\<in>set out2. b \<le> c \<and> c < d \<and> d \<le> en" by auto
    let ?pre = "if start < a then [(start, a)] else []"
    have "chop_range collect start en (r # rs) [] = Some (filter ?P (r # rs), ?pre @ out2)"
      using 3 rs(2,4) o2(1) by (simp add: r uassert_def chop_collect_acc [of b en rs "[(start, a)]"])
    moreover have "range_frames (?pre @ out2) = {start..<en} - range_frames (r # rs)"
      using o2(2) out 3 rs(2,4) by (auto simp: r)
    moreover have "ranges_ok (?pre @ out2)" using o2(3,4) rs(2) by (fastforce simp: ranges_ok_append)
    moreover have "\<forall>(c, d)\<in>set (?pre @ out2). start \<le> c \<and> c < d \<and> d \<le> en" using o2(4) 3 rs(4) by fastforce
    ultimately show ?thesis by blast
  qed
qed

text \<open>Every reserved range that ends before the start of some usable range ends in, or at an end of, a usable range.\<close>

definition reserved_seen :: "frame_range list \<Rightarrow> frame_range list \<Rightarrow> bool" where
  "reserved_seen usable reserved \<longleftrightarrow> (\<forall>(a, b)\<in>set reserved. \<forall>(s, e)\<in>set usable. b < s \<longrightarrow>
     (\<exists>(s', e')\<in>set usable. s' \<le> b \<and> b \<le> e' \<and> a < e'))"

lemma reserved_seenD:
  "reserved_seen us rs \<Longrightarrow> (a, b) \<in> set rs \<Longrightarrow> (s, e) \<in> set us \<Longrightarrow> b < s \<Longrightarrow> \<exists>s' e'. (s', e') \<in> set us \<and> s' \<le> b \<and> b \<le> e' \<and> a < e'"
  by (fastforce simp: reserved_seen_def)

lemma iter_spec:
  assumes "ranges_ok (pre @ us)" "ranges_ok rs" "reserved_seen (pre @ us) rs"
    and rem: "rem = filter (\<lambda>(a, b). \<forall>(s, e)\<in>set pre. \<not> (a < e \<and> b \<le> e)) rs"
  shows "\<exists>out. (\<forall>func (s :: 's). iter_usable_ranges us rem func s = run_func func out s) \<and>
    range_frames out = range_frames us - range_frames rs \<and> ranges_ok out \<and> (\<forall>(c, d)\<in>set out. c < d \<and> (\<exists>(a, b)\<in>set us. a \<le> c \<and> d \<le> b))"
  using assms(1,3) rem
proof (induction us arbitrary: pre rem)
  case Nil
  then show ?case by (intro exI [of _ "[]"]) simp
next
  case (Cons u us)
  obtain s e where u: "u = (s, e)" by (cases u)
  have us: "ranges_ok pre" "ranges_ok us" "s \<le> e" "\<forall>(a, b)\<in>set pre. b \<le> s" "\<forall>(a, b)\<in>set us. e \<le> a"
    using Cons.prems(1) by (auto simp: u ranges_ok_append)
  have "s \<le> b" if ab: "(a, b) \<in> set rem" for a b
  proof (rule ccontr)
    assume "\<not> s \<le> b"
    moreover have "(a, b) \<in> set rs" using ab Cons.prems(3) by simp
    ultimately obtain s' e' where m: "(s', e') \<in> set (pre @ u # us)" "s' \<le> b" "b \<le> e'" "a < e'"
      using reserved_seenD [OF Cons.prems(2), of a b s e] by (auto simp: u)
    have "(s', e') \<notin> set pre" using ab Cons.prems(3) m(3,4) by auto
    then have "s \<le> s'" using m(1) us(3,5) by (auto simp: u)
    then show False using m(2) \<open>\<not> s \<le> b\<close> by linarith
  qed
  moreover have "ranges_ok rem" using assms(2) Cons.prems(3) by (simp add: ranges_ok_filter)
  ultimately obtain out1 where o1: "chop_range collect s e rem [] = Some (filter (\<lambda>(a, b). \<not> (a < e \<and> b \<le> e)) rem, out1)"
    "range_frames out1 = {s..<e} - range_frames rem" "ranges_ok out1" "\<forall>(c, d)\<in>set out1. s \<le> c \<and> c < d \<and> d \<le> e"
    using chop_spec [of rem s e] us(3) by auto
  have "filter (\<lambda>(a, b). \<not> (a < e \<and> b \<le> e)) rem = filter (\<lambda>(a, b). \<forall>(s, e)\<in>set (pre @ [u]). \<not> (a < e \<and> b \<le> e)) rs"
    unfolding Cons.prems(3) filter_filter by (rule filter_cong) (auto simp: u)
  moreover have "ranges_ok ((pre @ [u]) @ us)" "reserved_seen ((pre @ [u]) @ us) rs" using Cons.prems(1,2) by simp_all
  ultimately obtain out2 where o2: "\<And>func (s :: 's). iter_usable_ranges us (filter (\<lambda>(a, b). \<not> (a < e \<and> b \<le> e)) rem) func s = run_func func out2 s"
    "range_frames out2 = range_frames us - range_frames rs" "ranges_ok out2" "\<forall>(c, d)\<in>set out2. c < d \<and> (\<exists>(a, b)\<in>set us. a \<le> c \<and> d \<le> b)"
    using Cons.IH by blast
  have "iter_usable_ranges (u # us) rem func st = run_func func (out1 @ out2) st" for func and st :: 's
    unfolding u iter_usable_ranges.simps chop_run [of func s e rem] o1(1) run_func_append by (cases "run_func func out1 st") (simp_all add: o2(1) del: not_le de_Morgan_conj)
  moreover have "{s..<e} \<inter> range_frames rs = {s..<e} \<inter> range_frames rem"
    unfolding Cons.prems(3) range_frames_def using us(4) by fastforce
  then have "range_frames (out1 @ out2) = range_frames (u # us) - range_frames rs" using o1(2) o2(2) by (auto simp: u)
  moreover have "\<forall>(c, d)\<in>set out2. e \<le> c" using o2(4) us(5) by fastforce
  then have "ranges_ok (out1 @ out2)" using o1(3,4) o2(3) by (fastforce simp: ranges_ok_append)
  moreover have "\<forall>(c, d)\<in>set (out1 @ out2). c < d \<and> (\<exists>(a, b)\<in>set (u # us). a \<le> c \<and> d \<le> b)"
    using o1(4) o2(4) by (fastforce simp: u)
  ultimately show ?case by blast
qed

text \<open>
  C32. The walk over the usable ranges: when both lists are sorted and disjoint, and every reserved range that ends before a usable one ends in
  a usable one, it never panics by itself and runs the closure, in ascending order, over disjoint non-empty ranges that cover exactly
  the usable frames that are not reserved.
\<close>

theorem iter_usable_ranges_correct:
  assumes "ranges_ok usable" "ranges_ok reserved" "reserved_seen usable reserved"
  shows "\<exists>out. iter_usable_ranges usable reserved func s = run_func func out s \<and>
    range_frames out = range_frames usable - range_frames reserved \<and> ranges_ok out \<and> (\<forall>(c, d)\<in>set out. c < d)"
proof -
  have f: "reserved = filter (\<lambda>(a, b). \<forall>(s, e)\<in>set []. \<not> (a < e \<and> b \<le> e)) reserved" by simp
  have ok: "ranges_ok ([] @ usable)" "reserved_seen ([] @ usable) reserved" using assms(1,3) by simp_all
  from iter_spec [OF ok(1) assms(2) ok(2) f]
  obtain out where o: "\<forall>func (s :: 'a). iter_usable_ranges usable reserved func s = run_func func out s"
    "range_frames out = range_frames usable - range_frames reserved" "ranges_ok out"
    "\<forall>(c, d)\<in>set out. c < d \<and> (\<exists>(a, b)\<in>set usable. a \<le> c \<and> d \<le> b)" by (elim exE conjE)
  have "\<forall>(c, d)\<in>set out. c < d" using o(4) by auto
  with o(1-3) show ?thesis by (intro exI [of _ out]) simp
qed

theorem iter_usable_ranges_correct_witness:
  "\<exists>out. iter_usable_ranges [(0, 0xA0), (0x100, 0x800)] [(0, 0x100), (0x200, 0x240)] collect [] = run_func collect out [] \<and>
     range_frames out = {0x100..<0x200} \<union> {0x240..<0x800}"
proof -
  have e: "range_frames [(0, 0xA0), (0x100, 0x800)] - range_frames [(0, 0x100), (0x200, 0x240)] = {0x100..<0x200} \<union> {0x240..<0x800::nat}"
    by auto
  show ?thesis
    using iter_usable_ranges_correct [of "[(0, 0xA0), (0x100, 0x800)]" "[(0, 0x100), (0x200, 0x240)]" collect "[]"]
    unfolding e by (simp add: reserved_seen_def) blast
qed

text \<open>
  The condition on reserved ranges is needed: a reserved range that lies before the first usable one stops the walk from ever
  looking at later reserved ranges, and reserved frames are reported as usable.
\<close>

lemma iter_usable_ranges_leak: "iter_usable_ranges [(0x200, 0x800)] [(0, 0x100), (0x300, 0x400)] collect [] = Some [(0x200, 0x800)]"
  by (simp add: uassert_def)

end
