(* ===== verification/Kernel_Aspace.thy ===== *)
theory Kernel_Aspace
  imports Aspace_Commit Mem_Ranges
begin

text \<open>
  The kernel's address space (\<open>mm/vm/kernel_aspace.rs\<close> with \<open>finish_init_kernel_pt\<close> of \<open>arch/x86_64/mmu.rs\<close>), low address spaces (\<open>mm/vm/low_aspace.rs\<close>),
  the dispatch of page faults (\<open>mm/vm.rs\<close>) and kernel mappings and stacks (\<open>mm/kmap.rs\<close>). Memory is addressed through the physmap. The root table of the kernel
  is a static of the kernel image, so the code also reaches it through its image address; both name the same frame.
\<close>

section \<open>The root table of the kernel\<close>

text \<open>\<open>pml4\<close> is the address of the static \<open>KERNEL_PML4\<close>, which the linker chooses.\<close>

definition kernel_pt_root :: "kimage \<Rightarrow> virt_addr \<Rightarrow> pfn option" where
  "kernel_pt_root ki pml4 = pfn_from_kernel_vpn ki (containing_page pml4)"

text \<open>The physmap address of a place in the kernel image.\<close>

definition kimage_alias :: "kimage \<Rightarrow> virt_addr \<Rightarrow> virt_addr option" where
  "kimage_alias ki a = do {
     p \<leftarrow> pfn_from_kernel_vpn ki (containing_page a);
     v \<leftarrow> pfn_to_physmap p;
     Some (vpn_addr v + page_offset a) }"

definition write_zero_table :: "memory \<Rightarrow> virt_addr \<Rightarrow> memory" where
  "write_zero_table m a = foldl (\<lambda>m i. m(a + 8 * i := 0)) m [0..<PT_ENTRY_COUNT]"

fun finish_entries :: "(virt_addr, 'l) ll_ops \<Rightarrow> virt_addr \<Rightarrow> usize list \<Rightarrow> memory \<Rightarrow> 'l phys_manager option \<Rightarrow> (memory \<times> 'l phys_manager option) option" where
  "finish_entries L table [] m st = Some (m, st)"
| "finish_entries L table (i # is) m st =
     (if \<not> pte_is_present (m (table + 8 * i)) 3 then do {
        (r, st1) \<leftarrow> pmm_allocate L st 0;
        next_table \<leftarrow> r;
        v \<leftarrow> pfn_to_physmap next_table;
        let m1 = write_zero_table m (vpn_addr v);
        finish_entries L table is (m1(table + 8 * i := make_intermediate_pte 3 next_table)) st1 }
      else finish_entries L table is m st)"

definition finish_init_kernel_pt :: "(virt_addr, 'l) ll_ops \<Rightarrow> kimage \<Rightarrow> virt_addr \<Rightarrow> ('g, 'l) vm \<Rightarrow> ('g, 'l) vm option" where
  "finish_init_kernel_pt L ki pml4 s = do {
     table \<leftarrow> kimage_alias ki pml4;
     (m, st) \<leftarrow> finish_entries L table [PT_ENTRY_COUNT div 2..<PT_ENTRY_COUNT] (vm_mem s) (vm_pmm s);
     Some (set_pmm st (s\<lparr>vm_mem := m\<rparr>)) }"

section \<open>The kernel address space\<close>

fun kernel_flush :: "tlb_flush \<Rightarrow> x64_mmu \<Rightarrow> x64_mmu option" where
  "kernel_flush (FlushSpecific vpns) c = Some (fold flush_kernel_tlb_page vpns c)"
| "kernel_flush FlushAll c = flush_kernel_tlb c"

definition kernel_aspace_ops :: "pfn \<Rightarrow> aspace_ops" where
  "kernel_aspace_ops root = \<lparr>ao_root_pt = root, ao_flush = kernel_flush, ao_can_cull_pt = can_cull_kernel_pt, ao_base_perms = PERM_GLOBAL\<rparr>"

definition protect_region :: "pfn \<Rightarrow> vpn \<Rightarrow> usize option \<Rightarrow> u8 \<Rightarrow> memory \<Rightarrow> memory option" where
  "protect_region root base npages perms m = do {
     n \<leftarrow> npages;
     (r, p) \<leftarrow> pt_protect PhysmapPfnTranslator_translate (\<lambda>_ u. u) root perms \<lparr>pt_mem = m, pt_ptr = mp_new base n, pt_env = ()\<rparr>;
     case r of Inl _ \<Rightarrow> None | Inr _ \<Rightarrow> Some (pt_mem p) }"

definition protect_kimage :: "kimage \<Rightarrow> pfn \<Rightarrow> ('g, 'l) vm \<Rightarrow> ('g, 'l) vm option" where
  "protect_kimage ki root s = do {
     m1 \<leftarrow> protect_region root (code_base ki) (code_pages ki) (PERM_EXECUTE OR PERM_GLOBAL) (vm_mem s);
     m2 \<leftarrow> protect_region root (rodata_base ki) (rodata_pages ki) (PERM_READ OR PERM_GLOBAL) m1;
     m3 \<leftarrow> protect_region root (data_base ki) (data_pages ki) (PERM_READ OR PERM_WRITE OR PERM_GLOBAL) m2;
     mmu \<leftarrow> flush_kernel_tlb (vm_mmu s);
     Some (s\<lparr>vm_mem := m3, vm_mmu := mmu\<rparr>) }"

text \<open>The state with the static \<open>KERNEL_ASPACE\<close>.\<close>

record ('g, 'l) kernel_vm =
  kv_vm :: "('g, 'l) vm"
  kv_aspace :: "addr_space option"

definition expect_eff :: "('s, 'e, 'a) eff \<Rightarrow> 's \<Rightarrow> ('a \<times> 's) option" where
  "expect_eff f s = (case f s of None \<Rightarrow> None | Some (Inl _, _) \<Rightarrow> None | Some (Inr a, s') \<Rightarrow> Some (a, s'))"

definition kernel_aspace_get :: "('g, 'l) kernel_vm \<Rightarrow> addr_space option" where
  "kernel_aspace_get s = kv_aspace s"

definition NAME_PHYSMAP :: "u8 list" where
  "NAME_PHYSMAP = [0x70, 0x68, 0x79, 0x73, 0x6d, 0x61, 0x70]"

definition NAME_KERNEL_IMAGE :: "u8 list" where
  "NAME_KERNEL_IMAGE = [0x6b, 0x65, 0x72, 0x6e, 0x65, 0x6c, 0x20, 0x69, 0x6d, 0x61, 0x67, 0x65]"

definition kernel_aspace_reserve :: "('g, 'l) kmem vm_env \<Rightarrow> kimage \<Rightarrow> pfn \<Rightarrow> ('g, 'l) vm \<Rightarrow> (addr_space \<times> ('g, 'l) vm) option" where
  "kernel_aspace_reserve env ki root s = do {
     (aspace, s1) \<leftarrow> expect_eff (on_tree (aspace_new env (KERNEL_ASPACE_BASE, KERNEL_ASPACE_END) (kernel_aspace_ops root))) s;
     (_, s2) \<leftarrow> expect_eff (on_tree (create_subslice env (as_root_slice aspace) NAME_PHYSMAP (Fixed PHYS_MAP_BASE) PHYS_MAP_MAX_PAGES)) s1;
     n \<leftarrow> total_pages ki;
     (_, s3) \<leftarrow> expect_eff (on_tree (create_subslice env (as_root_slice aspace) NAME_KERNEL_IMAGE (Fixed (virt_base ki)) n)) s2;
     Some (aspace, s3) }"

definition kernel_aspace_init :: "('g, 'l) kmem vm_env \<Rightarrow> (virt_addr, 'l) ll_ops \<Rightarrow> kimage \<Rightarrow> virt_addr \<Rightarrow> ('g, 'l) kernel_vm \<Rightarrow> ('g, 'l) kernel_vm option" where
  "kernel_aspace_init env L ki pml4 k = do {
     root \<leftarrow> kernel_pt_root ki pml4;
     (aspace, s1) \<leftarrow> kernel_aspace_reserve env ki root (kv_vm k);
     uassert (kv_aspace k = None);
     s2 \<leftarrow> finish_init_kernel_pt L ki pml4 s1;
     s3 \<leftarrow> protect_kimage ki root s2;
     Some \<lparr>kv_vm = s3, kv_aspace = Some aspace\<rparr> }"

definition vm_init :: "('g, 'l) kmem vm_env \<Rightarrow> (virt_addr, 'l) ll_ops \<Rightarrow> kimage \<Rightarrow> virt_addr \<Rightarrow> ('g, 'l) kernel_vm \<Rightarrow> ('g, 'l) kernel_vm option" where
  "vm_init env L ki pml4 k = kernel_aspace_init env L ki pml4 k"

section \<open>Low address spaces\<close>

fun low_flush :: "tlb_flush \<Rightarrow> x64_mmu \<Rightarrow> x64_mmu option" where
  "low_flush (FlushSpecific vpns) c = Some (fold flush_low_tlb_page vpns c)"
| "low_flush FlushAll c = Some (flush_low_tlb c)"

fun low_base_perms :: "access_mode \<Rightarrow> u8" where
  "low_base_perms UserMode = PERM_USER"
| "low_base_perms KernelMode = 0"

definition low_aspace_ops :: "pfn \<Rightarrow> access_mode \<Rightarrow> aspace_ops" where
  "low_aspace_ops root_pt allowed = \<lparr>ao_root_pt = root_pt, ao_flush = low_flush, ao_can_cull_pt = (\<lambda>_ _. True), ao_base_perms = low_base_perms allowed\<rparr>"

fun read_words :: "memory \<Rightarrow> virt_addr \<Rightarrow> nat \<Rightarrow> u64 list" where
  "read_words m a 0 = []"
| "read_words m a (Suc n) = m a # read_words m (a + 8) n"

fun write_words :: "memory \<Rightarrow> virt_addr \<Rightarrow> u64 list \<Rightarrow> memory" where
  "write_words m a [] = m"
| "write_words m a (w # ws) = write_words (m(a := w)) (a + 8) ws"

definition make_root_pt :: "(virt_addr, 'l) ll_ops \<Rightarrow> kimage \<Rightarrow> virt_addr \<Rightarrow> (('g, 'l) vm, error, pfn) eff" where
  "make_root_pt L ki pml4 s = do {
     (r, st) \<leftarrow> frame_box_new L 0 (vm_pmm s);
     let s1 = set_pmm st s;
     case r of
       Inl e \<Rightarrow> Some (Inl e, s1)
     | Inr root_pt \<Rightarrow> do {
         v \<leftarrow> pfn_to_physmap root_pt;
         let a = vpn_addr v;
         let m1 = clear_page_table (vm_mem s) a;
         kernel \<leftarrow> kimage_alias ki pml4;
         entries \<leftarrow> prepare_low_pt_root (read_words m1 kernel PT_ENTRY_COUNT) (read_words m1 a PT_ENTRY_COUNT);
         Some (Inr root_pt, s1\<lparr>vm_mem := write_words m1 a entries\<rparr>) } }"

text \<open>Each address space has its own tree. On a failure the frame of the root table is freed with the rest.\<close>

definition make_low_addr_space :: "('g, 'l) kmem vm_env \<Rightarrow> (virt_addr, 'l) ll_ops \<Rightarrow> kimage \<Rightarrow> virt_addr \<Rightarrow> access_mode \<Rightarrow> (('g, 'l) vm, error, addr_space) eff" where
  "make_low_addr_space env L ki pml4 allowed =
     eff_bind (make_root_pt L ki pml4) (\<lambda>root_pt s. do {
       let s0 = s\<lparr>vm_tree := \<lparr>vt_slices = [], vt_mappings = [], vt_heap = vt_heap (vm_tree s)\<rparr>\<rparr>;
       (r, s1) \<leftarrow> on_tree (aspace_new env (LOW_ASPACE_BASE, LOW_ASPACE_END) (low_aspace_ops root_pt allowed)) s0;
       case r of
         Inl e \<Rightarrow> do { st \<leftarrow> frame_box_drop L 0 root_pt (vm_pmm s1); Some (Inl e, set_pmm st s1) }
       | Inr aspace \<Rightarrow> do {
           (r2, s2) \<leftarrow> on_tree (arc_try_new env ArcAspace) s1;
           case r2 of
             Inl e \<Rightarrow> do {
               s3 \<leftarrow> aspace_drop aspace s2;
               st \<leftarrow> frame_box_drop L 0 root_pt (vm_pmm s3);
               Some (Inl e, set_pmm st s3) }
           | Inr _ \<Rightarrow> Some (Inr aspace, s2) } })"

text \<open>Address spaces are compared by address; \<open>Some (i, asp)\<close> is the address space allocated at \<open>i\<close>.\<close>

definition raw_aspace_ptr :: "(usize \<times> addr_space) option \<Rightarrow> usize" where
  "raw_aspace_ptr a = (case a of None \<Rightarrow> 0 | Some (p, _) \<Rightarrow> p)"

definition aspace_switch_to :: "pfn \<Rightarrow> (usize \<times> addr_space) option \<Rightarrow> (usize \<times> addr_space) option \<Rightarrow> x64_mmu \<Rightarrow> x64_mmu" where
  "aspace_switch_to kernel_root old_aspace new_aspace c =
     (if raw_aspace_ptr new_aspace = raw_aspace_ptr old_aspace then c
      else set_low_root_pt kernel_root (map_option (\<lambda>(_, a). ao_root_pt (as_ops a)) new_aspace) c)"

section \<open>Page faults\<close>

definition is_low_addr :: "virt_addr \<Rightarrow> bool" where
  "is_low_addr a \<longleftrightarrow> containing_page a < LOW_ASPACE_END"

text \<open>\<open>current\<close> is the current thread, as the address space it has, if it has one.\<close>

definition page_fault :: "('g, 'l) kmem vm_env \<Rightarrow> (virt_addr, 'l) ll_ops \<Rightarrow> addr_space option option \<Rightarrow> virt_addr \<Rightarrow> access_type \<Rightarrow> (('g, 'l) vm, error, unit) eff" where
  "page_fault env L current a access =
     (if is_low_addr a then (case current of
          None \<Rightarrow> eff_fail INVALID_STATE
        | Some None \<Rightarrow> eff_fail BAD_ADDRESS
        | Some (Some asp) \<Rightarrow> aspace_fault env L asp (containing_page a) access)
      else eff_fail BAD_ADDRESS)"

section \<open>Kernel mappings and stacks\<close>

text \<open>\<open>asp\<close> is the kernel address space.\<close>

definition push_object :: "vm_object \<Rightarrow> ('g, 'l) vm \<Rightarrow> object_id \<times> ('g, 'l) vm" where
  "push_object obj s = (length (vm_objects s), s\<lparr>vm_objects := vm_objects s @ [obj]\<rparr>)"

definition on_kmem :: "(('g, 'l) kmem, 'e, 'a) eff \<Rightarrow> (('g, 'l) vm, 'e, 'a) eff" where
  "on_kmem m = on_tree (on_heap m)"

definition kernel_mapping_addr :: "('g, 'l) vm \<Rightarrow> mapping_id \<Rightarrow> virt_addr option" where
  "kernel_mapping_addr s m = do { mm \<leftarrow> mapping_at (vm_tree s) m; Some (vpn_addr (ma_start mm)) }"

definition kernel_mapping_drop :: "('g, 'l) kmem vm_env \<Rightarrow> (virt_addr, 'l) ll_ops \<Rightarrow> addr_space \<Rightarrow> mapping_id \<Rightarrow> ('g, 'l) vm \<Rightarrow> ('g, 'l) vm option" where
  "kernel_mapping_drop env L asp m s = map_option snd (expect_eff (aspace_unmap env L asp m) s)"

record io_mapping =
  io_mapping_id :: mapping_id
  io_page_offset :: usize
  io_len :: usize

definition io_mapping_addr :: "('g, 'l) vm \<Rightarrow> io_mapping \<Rightarrow> virt_addr option" where
  "io_mapping_addr s io = do { a \<leftarrow> kernel_mapping_addr s (io_mapping_id io); uadd a (io_page_offset io) }"

definition STACK_SIZE :: usize where "STACK_SIZE = 0x8000"
definition STACK_PAGES :: usize where "STACK_PAGES = STACK_SIZE div PAGE_SIZE"

definition NAME_KERNEL_STACK :: "u8 list" where
  "NAME_KERNEL_STACK = [0x6b, 0x65, 0x72, 0x6e, 0x65, 0x6c, 0x20, 0x73, 0x74, 0x61, 0x63, 0x6b]"

definition kernel_stack_drop :: "('g, 'l) kmem vm_env \<Rightarrow> (virt_addr, 'l) ll_ops \<Rightarrow> addr_space \<Rightarrow> slice_id \<Rightarrow> ('g, 'l) vm \<Rightarrow> ('g, 'l) vm option" where
  "kernel_stack_drop env L asp sl s = map_option snd (expect_eff (unmap_slice env L asp sl) s)"

definition kernel_stack_new :: "('g, 'l) kmem vm_env \<Rightarrow> (virt_addr, 'l) ll_ops \<Rightarrow> addr_space \<Rightarrow> (('g, 'l) vm, error, slice_id) eff" where
  "kernel_stack_new env L asp =
     eff_bind (on_kmem (eager_new env L STACK_PAGES)) (\<lambda>obj.
     eff_bind (\<lambda>s. Some (Inr (fst (push_object obj s)), snd (push_object obj s))) (\<lambda>stack_obj.
     eff_bind (on_tree (create_subslice env (as_root_slice asp) NAME_KERNEL_STACK map_base_any (STACK_PAGES + 1))) (\<lambda>sl s. do {
       slice \<leftarrow> slice_at (vm_tree s) sl;
       start \<leftarrow> uadd (sl_start slice) 1;
       (r, s1) \<leftarrow> map_committed env L asp sl (Fixed start) STACK_PAGES 0 stack_obj (PROT_READ OR PROT_WRITE) s;
       case r of
         Inl e \<Rightarrow> do { s2 \<leftarrow> kernel_stack_drop env L asp sl s1; Some (Inl e, s2) }
       | Inr _ \<Rightarrow> Some (Inr sl, s1) })))"

definition stack_top :: "('g, 'l) vm \<Rightarrow> slice_id \<Rightarrow> virt_addr option" where
  "stack_top s sl = do { slice \<leftarrow> slice_at (vm_tree s) sl; e \<leftarrow> slice_end slice; Some (vpn_addr e) }"

definition stack_bottom :: "('g, 'l) vm \<Rightarrow> slice_id \<Rightarrow> virt_addr option" where
  "stack_bottom s sl = do { slice \<leftarrow> slice_at (vm_tree s) sl; Some (vpn_addr (sl_start slice)) }"

definition guard_page_contains :: "('g, 'l) vm \<Rightarrow> slice_id \<Rightarrow> virt_addr \<Rightarrow> bool option" where
  "guard_page_contains s sl a = do {
     slice \<leftarrow> slice_at (vm_tree s) sl;
     e \<leftarrow> uadd (sl_start slice) 1;
     Some (vpn_addr (sl_start slice) \<le> a \<and> a < vpn_addr e) }"

definition kmap :: "('g, 'l) kmem vm_env \<Rightarrow> (virt_addr, 'l) ll_ops \<Rightarrow> addr_space \<Rightarrow> object_id \<Rightarrow> u8 \<Rightarrow> (('g, 'l) vm, error, mapping_id) eff" where
  "kmap env L asp object prot s = do {
     obj \<leftarrow> object_at s object;
     map_committed env L asp (as_root_slice asp) map_base_any (object_page_count obj) 0 object prot s }"

definition iomap :: "('g, 'l) kmem vm_env \<Rightarrow> (virt_addr, 'l) ll_ops \<Rightarrow> addr_space \<Rightarrow> phys_addr \<Rightarrow> usize \<Rightarrow> u8 \<Rightarrow> cache_mode \<Rightarrow> (('g, 'l) vm, error, io_mapping) eff" where
  "iomap env L asp base len prot mode =
     eff_bind (eff_lift (to_page_count len)) (\<lambda>npages.
     eff_bind (on_kmem (phys_object_new env (containing_frame base) npages mode)) (\<lambda>obj.
     eff_bind (\<lambda>s. Some (Inr (fst (push_object obj s)), snd (push_object obj s))) (\<lambda>object.
     eff_bind (kmap env L asp object prot) (\<lambda>m.
     eff_return \<lparr>io_mapping_id = m, io_page_offset = frame_offset base, io_len = len\<rparr>))))"

end
