(* ===== verification/Heap.thy ===== *)
theory Heap
  imports Mem_Ranges Pmm
begin

text \<open>
  The kernel heap (\<open>mm/heap.rs\<close>): a slab allocator with 25 size classes over the frame allocator, and the global
  allocator of the Rust runtime on top of it. A slab is a block of frames that starts with a \<open>SlabHeader\<close>, followed by
  a bitmap of its objects and by the objects. The links of the partially filled slabs are those of
  \<open>intrusive_collections\<close>, as for the frame allocator, with the query \<open>is_linked\<close> added. The
  size of a \<open>SlabHeader\<close>, which contains such a link, is the argument \<open>hs\<close>. Slab headers and bitmaps are kept in a store by the address of the slab;
  the bytes of the objects are the memory \<open>hp_mem\<close>. \<open>None\<close> is a panic or a header read where there is no slab.
\<close>

section \<open>Layouts\<close>

record layout =
  ly_size :: usize
  ly_align :: usize

fun count_ones :: "nat \<Rightarrow> nat" where
  "count_ones n = (if n = 0 then 0 else n mod 2 + count_ones (n div 2))"

declare count_ones.simps [simp del]

definition is_power_of_two :: "usize \<Rightarrow> bool" where
  "is_power_of_two n \<longleftrightarrow> count_ones n = 1"

definition ISIZE_MAX :: usize where "ISIZE_MAX = 2 ^ 63 - 1"

definition from_size_align :: "usize \<Rightarrow> usize \<Rightarrow> layout option" where
  "from_size_align bytes align =
     (if is_power_of_two align \<and> bytes \<le> ISIZE_MAX - (align - 1) then Some \<lparr>ly_size = bytes, ly_align = align\<rparr> else None)"

definition get_effective_size :: "layout \<Rightarrow> usize option" where
  "get_effective_size l = align_up (ly_size l) (ly_align l)"

section \<open>Size classes\<close>

record size_class_meta =
  scm_size :: usize
  scm_slab_order :: usize
  scm_objects_per_slab :: usize

function shrink_objects :: "usize \<Rightarrow> usize \<Rightarrow> usize \<Rightarrow> usize \<Rightarrow> usize option" where
  "shrink_objects hs obj_size slab_size objects_per_slab = do {
     b \<leftarrow> bytes_required objects_per_slab;
     hb \<leftarrow> uadd hs b;
     ob \<leftarrow> umul objects_per_slab obj_size;
     t \<leftarrow> uadd hb ob;
     if slab_size < t
     then do { n \<leftarrow> usub objects_per_slab 1; shrink_objects hs obj_size slab_size n }
     else Some objects_per_slab }"
  by pat_completeness auto
termination by (relation "measure (\<lambda>(_, _, _, n). n)") (auto simp: panic_simps)

declare shrink_objects.simps [simp del]

definition size_class_meta_new :: "usize \<Rightarrow> usize \<Rightarrow> usize \<Rightarrow> size_class_meta option" where
  "size_class_meta_new hs obj_size slab_order = do {
     slab_size \<leftarrow> ushl PAGE_SIZE slab_order;
     room \<leftarrow> usub slab_size hs;
     n \<leftarrow> udiv room obj_size;
     objects_per_slab \<leftarrow> shrink_objects hs obj_size slab_size n;
     Some \<lparr>scm_size = obj_size, scm_slab_order = slab_order, scm_objects_per_slab = objects_per_slab\<rparr> }"

definition first_object_offset :: "size_class_meta \<Rightarrow> usize option" where
  "first_object_offset m = do {
     slab_size \<leftarrow> ushl PAGE_SIZE (scm_slab_order m);
     ob \<leftarrow> umul (scm_size m) (scm_objects_per_slab m);
     usub slab_size ob }"

definition bitmap_bytes :: "size_class_meta \<Rightarrow> usize option" where
  "bitmap_bytes m = bytes_required (scm_objects_per_slab m)"

text \<open>The operations of the list of partially filled slabs.\<close>

record ('a, 'q) slab_list_ops = "('a, 'q) ll_ops" +
  ll_is_linked :: "'a \<Rightarrow> 'q \<Rightarrow> bool"

record 'q size_class =
  sc_meta :: size_class_meta
  sc_partial_slabs :: 'q

definition size_class_new :: "(virt_addr, 'q) slab_list_ops \<Rightarrow> usize \<Rightarrow> usize \<Rightarrow> usize \<Rightarrow> 'q size_class option" where
  "size_class_new Q hs obj_size slab_order = do {
     m \<leftarrow> size_class_meta_new hs obj_size slab_order;
     Some \<lparr>sc_meta = m, sc_partial_slabs = ll_new Q\<rparr> }"

definition sc_size :: "'q size_class \<Rightarrow> usize" where
  "sc_size c = scm_size (sc_meta c)"

text \<open>The size and the slab order of the classes of the static \<open>ALLOCATOR\<close>.\<close>

definition ALLOCATOR_TABLE :: "(usize \<times> usize) list" where
  "ALLOCATOR_TABLE =
     [(2, 0),
      (8, 0),
      (16, 0), (32, 0), (48, 0), (64, 0), (80, 0), (96, 0),
      (128, 0), (160, 0), (192, 0), (224, 0),
      (256, 1), (320, 1), (384, 1), (448, 1),
      (512, 2), (640, 2), (768, 2), (896, 2),
      (1024, 3), (1280, 3), (1536, 3), (1792, 3), (2048, 3)]"

definition ALLOCATOR :: "(virt_addr, 'q) slab_list_ops \<Rightarrow> usize \<Rightarrow> 'q size_class list option" where
  "ALLOCATOR Q hs = those (map (\<lambda>(obj_size, slab_order). size_class_new Q hs obj_size slab_order) ALLOCATOR_TABLE)"

text \<open>\<open>binary_search_by_key\<close> of a slice: \<open>Inr\<close> is \<open>Ok\<close>, the index of an equal key, \<open>Inl\<close> is \<open>Err\<close>, the insertion point.\<close>

function binary_search_loop :: "usize list \<Rightarrow> usize \<Rightarrow> usize \<Rightarrow> usize \<Rightarrow> usize + usize" where
  "binary_search_loop keys key left right =
     (if left < right then
        let mid = left + (right - left) div 2 in
        if keys ! mid < key then binary_search_loop keys key (mid + 1) right
        else if key < keys ! mid then binary_search_loop keys key left mid
        else Inr mid
      else Inl left)"
  by pat_completeness auto
termination by (relation "measure (\<lambda>(_, _, left, right). right - left)") auto

declare binary_search_loop.simps [simp del]

definition binary_search_by_key :: "'a list \<Rightarrow> usize \<Rightarrow> ('a \<Rightarrow> usize) \<Rightarrow> usize + usize" where
  "binary_search_by_key xs key f = binary_search_loop (map f xs) key 0 (length xs)"

text \<open>The index of the class that serves a size.\<close>

definition get_size_class :: "'q size_class list \<Rightarrow> usize \<Rightarrow> usize option" where
  "get_size_class classes effective_size =
     (let i = (case binary_search_by_key classes effective_size sc_size of Inr i \<Rightarrow> i | Inl i \<Rightarrow> i)
      in if i < length classes then Some i else None)"

definition raw_page_order :: "usize \<Rightarrow> usize option" where
  "raw_page_order bytes = do { npages \<leftarrow> to_page_count bytes; log2_ceil npages }"

section \<open>Slabs\<close>

record slab =
  sl_allocated :: usize
  sl_bitmap :: bitmap

record ('q, 'l) heap =
  hp_classes :: "'q size_class list"
  hp_slabs :: "virt_addr \<Rightarrow> slab option"
  hp_mem :: "virt_addr \<Rightarrow> u8"
  hp_pmm :: "'l phys_manager option"

datatype heap_alloc_error = HeapAllocError

definition alloc_virt_pages :: "(virt_addr, 'l) ll_ops \<Rightarrow> usize \<Rightarrow> ('q, 'l) heap \<Rightarrow> (virt_addr option \<times> ('q, 'l) heap) option" where
  "alloc_virt_pages L order h = do {
     (r, pmm) \<leftarrow> pmm_allocate L (hp_pmm h) order;
     case r of
       None \<Rightarrow> Some (None, h\<lparr>hp_pmm := pmm\<rparr>)
     | Some p \<Rightarrow> do { v \<leftarrow> pfn_to_physmap p; Some (Some (vpn_addr v), h\<lparr>hp_pmm := pmm\<rparr>) } }"

definition free_virt_pages :: "(virt_addr, 'l) ll_ops \<Rightarrow> virt_addr \<Rightarrow> usize \<Rightarrow> ('q, 'l) heap \<Rightarrow> ('q, 'l) heap option" where
  "free_virt_pages L ptr order h = do {
     uassert (page_offset ptr = 0);
     p \<leftarrow> physmap_to_pfn (containing_page ptr);
     pmm \<leftarrow> pmm_deallocate L (hp_pmm h) p order;
     Some (h\<lparr>hp_pmm := pmm\<rparr>) }"

definition slab_header_from_obj :: "virt_addr \<Rightarrow> usize \<Rightarrow> virt_addr option" where
  "slab_header_from_obj obj order = do {
     slab_size \<leftarrow> ushl PAGE_SIZE order;
     base_addr \<leftarrow> align_down obj slab_size;
     uassert (base_addr \<noteq> 0);
     Some base_addr }"

definition take_partial_slab :: "(virt_addr, 'q) slab_list_ops \<Rightarrow> 'q \<Rightarrow> virt_addr option \<times> 'q" where
  "take_partial_slab Q q = (case ll_pop_front Q q of None \<Rightarrow> (None, q) | Some (slab, q') \<Rightarrow> (Some slab, q'))"

definition alloc_slab :: "(virt_addr, 'l) ll_ops \<Rightarrow> size_class_meta \<Rightarrow> ('q, 'l) heap \<Rightarrow> (virt_addr option \<times> ('q, 'l) heap) option" where
  "alloc_slab L meta h = do {
     nbytes \<leftarrow> bitmap_bytes meta;
     (r, h1) \<leftarrow> alloc_virt_pages L (scm_slab_order meta) h;
     case r of
       None \<Rightarrow> Some (None, h1)
     | Some ptr \<Rightarrow> Some (Some ptr, h1\<lparr>hp_slabs := (hp_slabs h1)(ptr \<mapsto> \<lparr>sl_allocated = 0, sl_bitmap = replicate nbytes 0\<rparr>)\<rparr>) }"

text \<open>\<open>SizeClassInner::allocate\<close>, on the list \<open>q\<close> of the class: a slab with room is taken or made, and its first free object claimed.\<close>

definition inner_take :: "(virt_addr, 'l) ll_ops \<Rightarrow> (virt_addr, 'q) slab_list_ops \<Rightarrow> size_class_meta \<Rightarrow> 'q \<Rightarrow> ('q, 'l) heap \<Rightarrow>
    (virt_addr option \<times> 'q \<times> ('q, 'l) heap) option" where
  "inner_take L Q meta q h =
     (case take_partial_slab Q q of
        (Some slab, q') \<Rightarrow> Some (Some slab, q', h)
      | (None, q') \<Rightarrow> do { (r, h') \<leftarrow> alloc_slab L meta h; Some (r, q', h') })"

definition inner_claim :: "(virt_addr, 'q) slab_list_ops \<Rightarrow> size_class_meta \<Rightarrow> virt_addr \<Rightarrow> 'q \<Rightarrow> ('q, 'l) heap \<Rightarrow>
    (virt_addr \<times> 'q \<times> ('q, 'l) heap) option" where
  "inner_claim Q meta slab q h = do {
     header \<leftarrow> hp_slabs h slab;
     next_allocated \<leftarrow> uadd (sl_allocated header) 1;
     let q' = (if next_allocated < scm_objects_per_slab meta then ll_push_front Q slab q else q);
     z \<leftarrow> first_zero (sl_bitmap header) (scm_objects_per_slab meta);
     offset \<leftarrow> z;
     bitmap \<leftarrow> bm_set (sl_bitmap header) offset;
     first \<leftarrow> first_object_offset meta;
     off \<leftarrow> umul offset (scm_size meta);
     total \<leftarrow> uadd first off;
     ptr \<leftarrow> uadd slab total;
     Some (ptr, q', h\<lparr>hp_slabs := (hp_slabs h)(slab \<mapsto> \<lparr>sl_allocated = next_allocated, sl_bitmap = bitmap\<rparr>)\<rparr>) }"

definition inner_allocate :: "(virt_addr, 'l) ll_ops \<Rightarrow> (virt_addr, 'q) slab_list_ops \<Rightarrow> size_class_meta \<Rightarrow> 'q \<Rightarrow> ('q, 'l) heap \<Rightarrow>
    ((heap_alloc_error + virt_addr) \<times> 'q \<times> ('q, 'l) heap) option" where
  "inner_allocate L Q meta q h = do {
     (r, q1, h1) \<leftarrow> inner_take L Q meta q h;
     case r of
       None \<Rightarrow> Some (Inl HeapAllocError, q1, h1)
     | Some slab \<Rightarrow> do { (ptr, q2, h2) \<leftarrow> inner_claim Q meta slab q1 h1; Some (Inr ptr, q2, h2) } }"

text \<open>\<open>SizeClassInner::deallocate\<close>.\<close>

definition inner_deallocate :: "(virt_addr, 'l) ll_ops \<Rightarrow> (virt_addr, 'q) slab_list_ops \<Rightarrow> size_class_meta \<Rightarrow> virt_addr \<Rightarrow> 'q \<Rightarrow> ('q, 'l) heap \<Rightarrow>
    ('q \<times> ('q, 'l) heap) option" where
  "inner_deallocate L Q meta ptr q h = do {
     slab \<leftarrow> slab_header_from_obj ptr (scm_slab_order meta);
     header \<leftarrow> hp_slabs h slab;
     next_allocated \<leftarrow> usub (sl_allocated header) 1;
     if next_allocated = 0 then do {
       q1 \<leftarrow> (if 1 < scm_objects_per_slab meta
         then do { uassert (ll_is_linked Q slab q); Some (ll_remove Q slab q) }
         else Some q);
       h1 \<leftarrow> free_virt_pages L slab (scm_slab_order meta) h;
       Some (q1, h1\<lparr>hp_slabs := (hp_slabs h1)(slab := None)\<rparr>) }
     else do {
       let q1 = (if sl_allocated header = scm_objects_per_slab meta \<and> next_allocated < scm_objects_per_slab meta
         then ll_push_front Q slab q else q);
       slab_off \<leftarrow> usub ptr slab;
       first \<leftarrow> first_object_offset meta;
       rel \<leftarrow> usub slab_off first;
       index \<leftarrow> udiv rel (scm_size meta);
       bitmap \<leftarrow> bm_unset (sl_bitmap header) index;
       Some (q1, h\<lparr>hp_slabs := (hp_slabs h)(slab \<mapsto> \<lparr>sl_allocated = next_allocated, sl_bitmap = bitmap\<rparr>)\<rparr>) } }"

definition set_partial :: "usize \<Rightarrow> 'q \<Rightarrow> ('q, 'l) heap \<Rightarrow> ('q, 'l) heap" where
  "set_partial i q h = h\<lparr>hp_classes := (hp_classes h)[i := (hp_classes h ! i)\<lparr>sc_partial_slabs := q\<rparr>]\<rparr>"

definition size_class_allocate :: "(virt_addr, 'l) ll_ops \<Rightarrow> (virt_addr, 'q) slab_list_ops \<Rightarrow> usize \<Rightarrow> ('q, 'l) heap \<Rightarrow>
    ((heap_alloc_error + virt_addr) \<times> ('q, 'l) heap) option" where
  "size_class_allocate L Q i h = do {
     let c = hp_classes h ! i;
     (r, q, h') \<leftarrow> inner_allocate L Q (sc_meta c) (sc_partial_slabs c) h;
     Some (r, set_partial i q h') }"

definition size_class_deallocate :: "(virt_addr, 'l) ll_ops \<Rightarrow> (virt_addr, 'q) slab_list_ops \<Rightarrow> usize \<Rightarrow> virt_addr \<Rightarrow> ('q, 'l) heap \<Rightarrow>
    ('q, 'l) heap option" where
  "size_class_deallocate L Q i ptr h = do {
     let c = hp_classes h ! i;
     (q, h') \<leftarrow> inner_deallocate L Q (sc_meta c) ptr (sc_partial_slabs c) h;
     Some (set_partial i q h') }"

section \<open>The allocator\<close>

definition allocator_allocate :: "(virt_addr, 'l) ll_ops \<Rightarrow> (virt_addr, 'q) slab_list_ops \<Rightarrow> usize \<Rightarrow> ('q, 'l) heap \<Rightarrow>
    ((heap_alloc_error + virt_addr \<times> usize) \<times> ('q, 'l) heap) option" where
  "allocator_allocate L Q effective_size h =
     (case get_size_class (hp_classes h) effective_size of
        Some i \<Rightarrow> do {
          (r, h') \<leftarrow> size_class_allocate L Q i h;
          Some (case r of Inl e \<Rightarrow> Inl e | Inr ptr \<Rightarrow> Inr (ptr, sc_size (hp_classes h ! i)), h') }
      | None \<Rightarrow> do {
          order \<leftarrow> raw_page_order effective_size;
          (r, h') \<leftarrow> alloc_virt_pages L order h;
          case r of
            None \<Rightarrow> Some (Inl HeapAllocError, h')
          | Some ptr \<Rightarrow> do { len \<leftarrow> ushl PAGE_SIZE order; Some (Inr (ptr, len), h') } })"

definition allocator_deallocate :: "(virt_addr, 'l) ll_ops \<Rightarrow> (virt_addr, 'q) slab_list_ops \<Rightarrow> virt_addr \<Rightarrow> usize \<Rightarrow> ('q, 'l) heap \<Rightarrow>
    ('q, 'l) heap option" where
  "allocator_deallocate L Q ptr effective_size h =
     (case get_size_class (hp_classes h) effective_size of
        Some i \<Rightarrow> size_class_deallocate L Q i ptr h
      | None \<Rightarrow> do { order \<leftarrow> raw_page_order effective_size; free_virt_pages L ptr order h })"

definition usable_size :: "'q size_class list \<Rightarrow> usize \<Rightarrow> usize option" where
  "usable_size classes effective_size =
     (case get_size_class classes effective_size of
        Some i \<Rightarrow> Some (sc_size (classes ! i))
      | None \<Rightarrow> do { order \<leftarrow> raw_page_order effective_size; ushl PAGE_SIZE order })"

definition heap_allocate :: "(virt_addr, 'l) ll_ops \<Rightarrow> (virt_addr, 'q) slab_list_ops \<Rightarrow> layout \<Rightarrow> ('q, 'l) heap \<Rightarrow>
    ((heap_alloc_error + virt_addr \<times> usize) \<times> ('q, 'l) heap) option" where
  "heap_allocate L Q l h = do { e \<leftarrow> get_effective_size l; allocator_allocate L Q e h }"

definition heap_deallocate :: "(virt_addr, 'l) ll_ops \<Rightarrow> (virt_addr, 'q) slab_list_ops \<Rightarrow> virt_addr \<Rightarrow> layout \<Rightarrow> ('q, 'l) heap \<Rightarrow>
    ('q, 'l) heap option" where
  "heap_deallocate L Q ptr l h = do { e \<leftarrow> get_effective_size l; allocator_deallocate L Q ptr e h }"

definition copy_bytes :: "virt_addr \<Rightarrow> virt_addr \<Rightarrow> usize \<Rightarrow> (virt_addr \<Rightarrow> u8) \<Rightarrow> virt_addr \<Rightarrow> u8" where
  "copy_bytes dst src n mem = (\<lambda>a. if dst \<le> a \<and> a < dst + n then mem (src + (a - dst)) else mem a)"

definition heap_resize :: "(virt_addr, 'l) ll_ops \<Rightarrow> (virt_addr, 'q) slab_list_ops \<Rightarrow> virt_addr \<Rightarrow> layout \<Rightarrow> layout \<Rightarrow> ('q, 'l) heap \<Rightarrow>
    ((heap_alloc_error + virt_addr \<times> usize) \<times> ('q, 'l) heap) option" where
  "heap_resize L Q ptr old_layout new_layout h = do {
     old_effective_size \<leftarrow> get_effective_size old_layout;
     new_effective_size \<leftarrow> get_effective_size new_layout;
     old_usable_size \<leftarrow> usable_size (hp_classes h) old_effective_size;
     new_usable_size \<leftarrow> usable_size (hp_classes h) new_effective_size;
     if old_usable_size = new_usable_size then Some (Inr (ptr, old_usable_size), h)
     else do {
       (r, h1) \<leftarrow> allocator_allocate L Q new_effective_size h;
       case r of
         Inl e \<Rightarrow> Some (Inl e, h1)
       | Inr (new_ptr, len) \<Rightarrow> do {
           let copy_size = min (ly_size old_layout) (ly_size new_layout);
           let h2 = h1\<lparr>hp_mem := copy_bytes new_ptr ptr copy_size (hp_mem h1)\<rparr>;
           h3 \<leftarrow> allocator_deallocate L Q ptr old_effective_size h2;
           Some (Inr (new_ptr, len), h3) } } }"

text \<open>The global allocator of the Rust runtime; the null pointer is 0.\<close>

definition global_alloc :: "(virt_addr, 'l) ll_ops \<Rightarrow> (virt_addr, 'q) slab_list_ops \<Rightarrow> layout \<Rightarrow> ('q, 'l) heap \<Rightarrow> (virt_addr \<times> ('q, 'l) heap) option" where
  "global_alloc L Q l h = do {
     (r, h') \<leftarrow> heap_allocate L Q l h;
     Some (case r of Inl e \<Rightarrow> 0 | Inr (ptr, len) \<Rightarrow> ptr, h') }"

definition global_dealloc :: "(virt_addr, 'l) ll_ops \<Rightarrow> (virt_addr, 'q) slab_list_ops \<Rightarrow> virt_addr \<Rightarrow> layout \<Rightarrow> ('q, 'l) heap \<Rightarrow> ('q, 'l) heap option" where
  "global_dealloc L Q ptr l h = heap_deallocate L Q ptr l h"

definition global_realloc :: "(virt_addr, 'l) ll_ops \<Rightarrow> (virt_addr, 'q) slab_list_ops \<Rightarrow> virt_addr \<Rightarrow> layout \<Rightarrow> usize \<Rightarrow> ('q, 'l) heap \<Rightarrow>
    (virt_addr \<times> ('q, 'l) heap) option" where
  "global_realloc L Q ptr l new_size h =
     (case from_size_align new_size (ly_align l) of
        None \<Rightarrow> Some (0, h)
      | Some new_layout \<Rightarrow> do {
          (r, h') \<leftarrow> heap_resize L Q ptr l new_layout h;
          Some (case r of Inl e \<Rightarrow> 0 | Inr (new_ptr, len) \<Rightarrow> new_ptr, h') })"

section \<open>Powers of two\<close>

lemma count_ones_0: "count_ones n = 0 \<longleftrightarrow> n = 0"
proof (induction n rule: count_ones.induct)
  case (1 n)
  then show ?case by (subst count_ones.simps) (auto elim!: oddE evenE)
qed

lemma power_of_two_iff: "is_power_of_two n \<longleftrightarrow> (\<exists>k. n = 2 ^ k)"
proof
  have "count_ones n = 1 \<Longrightarrow> \<exists>k. n = 2 ^ k"
  proof (induction n rule: count_ones.induct)
    case (1 n)
    have n: "n \<noteq> 0" using "1.prems" count_ones_0 [of n] by linarith
    then have e: "n mod 2 + count_ones (n div 2) = 1" using "1.prems" count_ones.simps [of n] by simp
    show ?case
    proof (cases "even n")
      case True
      then obtain k where "n div 2 = 2 ^ k" using 1 n e by auto
      then have "n = 2 ^ Suc k" using True by auto
      then show ?thesis by blast
    next
      case False
      then have "n div 2 = 0" using e by (simp add: count_ones_0 odd_iff_mod_2_eq_one)
      then have "n = 2 ^ 0" using n by simp
      then show ?thesis by blast
    qed
  qed
  then show "is_power_of_two n \<Longrightarrow> \<exists>k. n = 2 ^ k" by (simp add: is_power_of_two_def)
next
  have "count_ones (2 ^ k) = 1" for k :: nat
  proof (induction k)
    case 0
    have "count_ones 1 = 1 mod 2 + count_ones (1 div 2)" by (subst count_ones.simps) simp
    then show ?case by (simp add: count_ones.simps)
  next
    case (Suc k)
    have "count_ones (2 ^ Suc k) = 2 ^ Suc k mod 2 + count_ones (2 ^ Suc k div 2)" by (subst count_ones.simps) simp
    then show ?case using Suc by simp
  qed
  then show "\<exists>k. n = 2 ^ k \<Longrightarrow> is_power_of_two n" by (auto simp: is_power_of_two_def)
qed

section \<open>The layout of a slab\<close>

text \<open>Bytes taken by the header, the bitmap and \<open>n\<close> objects.\<close>

definition slab_need :: "usize \<Rightarrow> usize \<Rightarrow> usize \<Rightarrow> usize" where
  "slab_need hs sz n = hs + (n + 7) div 8 + n * sz"

lemma slab_need_mono: "n \<le> m \<Longrightarrow> slab_need hs sz n \<le> slab_need hs sz m"
  unfolding slab_need_def by (intro add_mono mult_le_mono1 div_le_mono) simp_all

lemma shrink_objects_spec:
  assumes "n + 8 < USIZE_LIM" "slab_need hs sz n < USIZE_LIM" "hs \<le> S"
  shows "\<exists>r. shrink_objects hs sz S n = Some r \<and> r \<le> n \<and> slab_need hs sz r \<le> S \<and> (r = n \<or> S < slab_need hs sz (r + 1))"
  using assms
proof (induction n)
  case 0
  then show ?case by (subst shrink_objects.simps) (simp add: bytes_required_def div_ceil_def machine_defs slab_need_def)
next
  case (Suc n)
  have b: "bytes_required (Suc n) = Some ((Suc n + 7) div 8)"
    using Suc.prems(1) by (simp add: bytes_required_def panic_simps)
  have u: "uadd hs ((Suc n + 7) div 8) = Some (hs + (Suc n + 7) div 8)" "umul (Suc n) sz = Some (Suc n * sz)"
    "uadd (hs + (Suc n + 7) div 8) (Suc n * sz) = Some (slab_need hs sz (Suc n))"
    using Suc.prems(2) by (simp_all add: uadd_def umul_def slab_need_def)
  have e: "shrink_objects hs sz S (Suc n) = (if S < slab_need hs sz (Suc n) then shrink_objects hs sz S n else Some (Suc n))"
    by (subst shrink_objects.simps) (simp only: b u Option.bind.bind_lunit, simp add: usub_def)
  have m: "slab_need hs sz n < USIZE_LIM" using Suc.prems(2) slab_need_mono [of n "Suc n" hs sz] by linarith
  show ?case
  proof (cases "S < slab_need hs sz (Suc n)")
    case True
    with Suc.IH [OF _ m] Suc.prems show ?thesis unfolding e by (force simp: le_Suc_eq)
  next
    case False
    then show ?thesis unfolding e by simp
  qed
qed

definition slab_bytes :: "size_class_meta \<Rightarrow> usize" where
  "slab_bytes m = 4096 * 2 ^ scm_slab_order m"

definition meta_ok :: "usize \<Rightarrow> size_class_meta \<Rightarrow> bool" where
  "meta_ok hs m \<longleftrightarrow> 0 < scm_size m \<and> scm_slab_order m < ORDER_COUNT \<and> 0 < scm_objects_per_slab m \<and>
     slab_need hs (scm_size m) (scm_objects_per_slab m) \<le> slab_bytes m"

lemma slab_shift: "k < ORDER_COUNT \<Longrightarrow> ushl PAGE_SIZE k = Some (4096 * 2 ^ k) \<and> (4096::nat) * 2 ^ k \<le> 2 ^ 27"
proof -
  assume k: "k < ORDER_COUNT"
  then have "(2::nat) ^ k \<le> 2 ^ 15" by (intro power_increasing) (simp_all add: ORDER_COUNT_def)
  then have "(4096::nat) * 2 ^ k \<le> 2 ^ 27" by simp
  moreover from this have "4096 * 2 ^ k < USIZE_LIM" by (simp add: USIZE_LIM_def)
  ultimately show ?thesis using k by (simp add: ushl_def PAGE_SIZE_eq ORDER_COUNT_def)
qed

lemma size_class_meta_new_run:
  assumes "0 < sz" "k < ORDER_COUNT" "hs + 1 + sz \<le> 4096 * 2 ^ k"
  shows "\<exists>n. size_class_meta_new hs sz k = Some \<lparr>scm_size = sz, scm_slab_order = k, scm_objects_per_slab = n\<rparr> \<and> 0 < n \<and>
    (\<forall>n'. slab_need hs sz n' \<le> 4096 * 2 ^ k \<longleftrightarrow> n' \<le> n)"
proof -
  let ?S = "4096 * 2 ^ k :: nat" let ?n = "(?S - hs) div sz"
  note S = slab_shift [OF assms(2)]
  have "?n * sz \<le> ?S - hs" by simp
  then have up: "?n * sz \<le> ?S" by linarith
  have "?n \<le> ?S - hs" by (rule div_le_dividend)
  then have n: "?n \<le> ?S" by linarith
  have need: "slab_need hs sz ?n \<le> 4 * ?S"
    unfolding slab_need_def using up n assms(3) div_le_dividend [of "?n + 7" 8] by linarith
  have "?n + 8 < USIZE_LIM" "slab_need hs sz ?n < USIZE_LIM" "hs \<le> ?S"
    using n need S assms(3) by (simp_all add: USIZE_LIM_def)
  then obtain r where r: "shrink_objects hs sz ?S ?n = Some r" "r \<le> ?n" "slab_need hs sz r \<le> ?S" "r = ?n \<or> ?S < slab_need hs sz (r + 1)"
    using shrink_objects_spec by blast
  have top: "?S < slab_need hs sz (r + 1)"
  proof (cases "r = ?n")
    case True
    have "?S - hs < (?n + 1) * sz" using assms(1) by (metis Suc_eq_plus1 dividend_less_div_times mult_Suc add.commute)
    moreover have "slab_need hs sz (?n + 1) = hs + (?n + 1 + 7) div 8 + (?n + 1) * sz" by (simp only: slab_need_def)
    moreover have "0 < (?n + 1 + 7) div 8" by (simp add: div_greater_zero_iff)
    ultimately show ?thesis unfolding True by linarith
  qed (use r(4) in blast)
  have max: "n' \<le> r" if "slab_need hs sz n' \<le> ?S" for n'
  proof (rule ccontr)
    assume "\<not> n' \<le> r"
    then have "slab_need hs sz (r + 1) \<le> slab_need hs sz n'" by (intro slab_need_mono) simp
    with top that show False by linarith
  qed
  have "slab_need hs sz n' \<le> ?S" if "n' \<le> r" for n'
    using slab_need_mono [OF that, of hs sz] r(3) by linarith
  moreover have "1 \<le> r" by (rule max) (use assms(3) in \<open>simp add: slab_need_def\<close>)
  moreover have "usub ?S hs = Some (?S - hs)" "udiv (?S - hs) sz = Some ?n"
    using assms(1,3) by (simp_all add: usub_def udiv_def)
  ultimately show ?thesis using S r(1) max by (auto simp: size_class_meta_new_def)
qed

section \<open>The size classes\<close>

definition classes_ok :: "usize \<Rightarrow> 'q size_class list \<Rightarrow> bool" where
  "classes_ok hs cs \<longleftrightarrow> map (\<lambda>c. (scm_size (sc_meta c), scm_slab_order (sc_meta c))) cs = ALLOCATOR_TABLE \<and>
     (\<forall>c\<in>set cs. meta_ok hs (sc_meta c))"

lemma those_map_Some: "(\<And>x. x \<in> set xs \<Longrightarrow> f x = Some (g x)) \<Longrightarrow> those (map f xs) = Some (map g xs)"
  by (induction xs) auto

lemma ALLOCATOR_run:
  fixes Q :: "(virt_addr, 'q) slab_list_ops"
  assumes "hs \<le> 1024"
  shows "\<exists>cs. ALLOCATOR Q hs = Some cs \<and> classes_ok hs cs \<and> (\<forall>c\<in>set cs. sc_partial_slabs c = ll_new Q)"
proof -
  let ?g = "\<lambda>(sz, k). the (size_class_new Q hs sz k)"
  have *: "size_class_new Q hs sz k = Some (?g (sz, k)) \<and> scm_size (sc_meta (?g (sz, k))) = sz \<and>
      scm_slab_order (sc_meta (?g (sz, k))) = k \<and> meta_ok hs (sc_meta (?g (sz, k))) \<and> sc_partial_slabs (?g (sz, k)) = ll_new Q"
    if t: "(sz, k) \<in> set ALLOCATOR_TABLE" for sz k
  proof -
    have "0 < sz" "k < ORDER_COUNT" "sz \<le> 2048" using t by (auto simp: ALLOCATOR_TABLE_def ORDER_COUNT_def)
    moreover have "hs + 1 + sz \<le> 4096 * 2 ^ k"
      using assms \<open>sz \<le> 2048\<close> one_le_power [of "2::nat" k] by linarith
    ultimately obtain n where "size_class_meta_new hs sz k = Some \<lparr>scm_size = sz, scm_slab_order = k, scm_objects_per_slab = n\<rparr>"
      "0 < n" "slab_need hs sz n \<le> 4096 * 2 ^ k"
      using size_class_meta_new_run by blast
    with \<open>0 < sz\<close> \<open>k < ORDER_COUNT\<close> show ?thesis by (simp add: size_class_new_def meta_ok_def slab_bytes_def)
  qed
  then have a: "ALLOCATOR Q hs = Some (map ?g ALLOCATOR_TABLE)"
    unfolding ALLOCATOR_def by (intro those_map_Some) auto
  have "map (\<lambda>c. (scm_size (sc_meta c), scm_slab_order (sc_meta c))) (map ?g ALLOCATOR_TABLE) = ALLOCATOR_TABLE"
    unfolding map_map comp_def using * by (intro map_idI) (auto simp: split_beta)
  with * have "classes_ok hs (map ?g ALLOCATOR_TABLE)" by (force simp: classes_ok_def)
  moreover have "\<forall>c\<in>set (map ?g ALLOCATOR_TABLE). sc_partial_slabs c = ll_new Q" using * by force
  ultimately show ?thesis using a by blast
qed

lemma classes_okD:
  assumes "classes_ok hs cs"
  shows "map sc_size cs = map fst ALLOCATOR_TABLE" "length cs = 25" "i < length cs \<Longrightarrow> meta_ok hs (sc_meta (cs ! i))"
proof -
  have t: "map (\<lambda>c. (scm_size (sc_meta c), scm_slab_order (sc_meta c))) cs = ALLOCATOR_TABLE" using assms by (simp add: classes_ok_def)
  have "map fst (map (\<lambda>c. (scm_size (sc_meta c), scm_slab_order (sc_meta c))) cs) = map sc_size cs" by (simp add: sc_size_def)
  then show "map sc_size cs = map fst ALLOCATOR_TABLE" using t by simp
  have "length cs = length ALLOCATOR_TABLE" using t by (metis length_map)
  then show "length cs = 25" by (simp add: ALLOCATOR_TABLE_def)
  show "i < length cs \<Longrightarrow> meta_ok hs (sc_meta (cs ! i))" using assms by (simp add: classes_ok_def)
qed

text \<open>The binary search returns the first index whose key is not smaller.\<close>

lemma binary_search_loop_spec:
  assumes "sorted_wrt (<) keys" "left \<le> right" "right \<le> length keys" "\<forall>j < left. keys ! j < key" "\<forall>j. right \<le> j \<and> j < length keys \<longrightarrow> key < keys ! j"
  shows "\<exists>i. (binary_search_loop keys key left right = Inl i \<or> binary_search_loop keys key left right = Inr i) \<and>
    i \<le> length keys \<and> (\<forall>j < i. keys ! j < key) \<and> (i < length keys \<longrightarrow> key \<le> keys ! i)"
  using assms
proof (induction keys key left right rule: binary_search_loop.induct)
  case (1 keys key left right)
  let ?mid = "left + (right - left) div 2"
  show ?case
  proof (cases "left < right")
    case False
    then show ?thesis using "1.prems" by (subst (1 2) binary_search_loop.simps) (auto intro!: exI [of _ left] less_imp_le)
  next
    case True
    then have mid: "?mid < right" "?mid < length keys" "left \<le> ?mid" using "1.prems"(3) by linarith+
    have lt: "keys ! j < keys ! k" if "j < k" "k < length keys" for j k using that "1.prems"(1) by (rule sorted_wrt_nth_less [rotated])
    consider "keys ! ?mid < key" | "key < keys ! ?mid" | "key = keys ! ?mid" by linarith
    then show ?thesis
    proof cases
      case c: 1
      have "\<forall>j < ?mid + 1. keys ! j < key" using lt [of _ ?mid] mid c by (metis Suc_eq_plus1 less_SucE order.strict_trans)
      moreover have "binary_search_loop keys key left right = binary_search_loop keys key (?mid + 1) right"
        using True c by (subst binary_search_loop.simps) (simp add: Let_def)
      ultimately show ?thesis using "1.IH"(1) [OF True refl c] "1.prems" mid by simp
    next
      case c: 2
      have "\<forall>j. ?mid \<le> j \<and> j < length keys \<longrightarrow> key < keys ! j" using lt [of ?mid] c by (metis le_neq_implies_less order.strict_trans)
      moreover have "binary_search_loop keys key left right = binary_search_loop keys key left ?mid"
        using True c by (subst binary_search_loop.simps) (simp add: Let_def)
      ultimately show ?thesis using "1.IH"(2) [OF True refl _ c] "1.prems" mid c by simp
    next
      case c: 3
      then have "binary_search_loop keys key left right = Inr ?mid"
        using True by (subst binary_search_loop.simps) (simp add: Let_def)
      then show ?thesis using mid lt [of _ ?mid] c by auto
    qed
  qed
qed

lemma table_sorted: "sorted_wrt (<) (map fst ALLOCATOR_TABLE)"
  by (simp add: ALLOCATOR_TABLE_def)

lemma get_size_class_spec:
  assumes "classes_ok hs cs"
  shows "get_size_class cs e = Some i \<longleftrightarrow> i < length cs \<and> e \<le> sc_size (cs ! i) \<and> (\<forall>j < i. sc_size (cs ! j) < e)"
    "get_size_class cs e = None \<longleftrightarrow> 2048 < e"
proof -
  note sizes = classes_okD(1) [OF assms] and len = classes_okD(2) [OF assms]
  have sorted: "sorted_wrt (<) (map sc_size cs)" unfolding sizes by (rule table_sorted)
  let ?r = "binary_search_loop (map sc_size cs) e 0 (length cs)"
  obtain k where k: "?r = Inl k \<or> ?r = Inr k" "k \<le> length cs" "\<forall>j < k. map sc_size cs ! j < e"
    "k < length cs \<longrightarrow> e \<le> map sc_size cs ! k"
    using binary_search_loop_spec [OF sorted, of 0 "length cs" e] by auto
  have g: "get_size_class cs e = (if k < length cs then Some k else None)"
    using k(1) by (auto simp: get_size_class_def binary_search_by_key_def Let_def)
  have below: "\<forall>j < k. sc_size (cs ! j) < e" using k(2,3) by simp
  have top: "sc_size (cs ! 24) = 2048"
    using arg_cong [OF sizes, of "\<lambda>xs. xs ! 24"] len by (simp add: ALLOCATOR_TABLE_def)
  show "get_size_class cs e = Some i \<longleftrightarrow> i < length cs \<and> e \<le> sc_size (cs ! i) \<and> (\<forall>j < i. sc_size (cs ! j) < e)"
    unfolding g using k(4) below by (auto dest: leD) (metis linorder_neqE_nat leD order.strict_trans)
  show "get_size_class cs e = None \<longleftrightarrow> 2048 < e"
  proof
    assume "get_size_class cs e = None"
    then have "24 < k" using g len by (simp split: if_splits)
    with below top show "2048 < e" by metis
  next
    assume e: "2048 < e"
    have "\<not> k < length cs"
    proof
      assume "k < length cs"
      then have "e \<le> map sc_size cs ! k" "k \<le> 24" using k(4) len by auto
      moreover have "map sc_size cs ! k \<le> map sc_size cs ! 24"
        using sorted \<open>k \<le> 24\<close> len by (intro sorted_nth_mono strict_sorted_imp_sorted) simp_all
      ultimately show False using e top len by simp
    qed
    then show "get_size_class cs e = None" by (simp add: g)
  qed
qed

text \<open>Rounding up to a size class keeps every power of two that divides the size.\<close>

lemma table_skips_nothing:
  "\<forall>(below, c)\<in>set (zip (0 # map fst ALLOCATOR_TABLE) (map fst ALLOCATOR_TABLE)).
     \<exists>t\<in>{1, 3, 4, 5, 6, 7, 8, 9, 10, 11}. c mod 2 ^ t = 0 \<and> (c - 1) div 2 ^ Suc t * 2 ^ Suc t \<le> below"
  by (simp add: ALLOCATOR_TABLE_def)

lemma class_size_bounds:
  assumes "classes_ok hs cs" "i < length cs"
  shows "0 < sc_size (cs ! i)" "sc_size (cs ! i) \<le> 2048"
proof -
  have "sc_size (cs ! i) \<in> set (map sc_size cs)" using assms(2) by simp
  then have "sc_size (cs ! i) \<in> set (map fst ALLOCATOR_TABLE)" by (simp only: classes_okD(1) [OF assms(1)])
  then show "0 < sc_size (cs ! i)" "sc_size (cs ! i) \<le> 2048" by (auto simp: ALLOCATOR_TABLE_def)
qed

lemma class_aligned:
  assumes ok: "classes_ok hs cs" and g: "get_size_class cs e = Some i" and e: "0 < e" "2 ^ k dvd e"
  shows "2 ^ k dvd sc_size (cs ! i)"
proof -
  let ?T = "map fst ALLOCATOR_TABLE"
  have i: "i < 25" "e \<le> sc_size (cs ! i)" "\<forall>j < i. sc_size (cs ! j) < e"
    using g classes_okD(2) [OF ok] by (simp_all add: get_size_class_spec(1) [OF ok])
  have nth: "sc_size (cs ! j) = ?T ! j" if "j < 25" for j
    using that classes_okD(2) [OF ok] by (metis classes_okD(1) [OF ok] nth_map)
  define below where "below = (if i = 0 then 0 else ?T ! (i - 1))"
  have b: "below < e"
  proof (cases i)
    case (Suc j)
    then have "sc_size (cs ! j) < e" using i(3) by simp
    then show ?thesis using Suc i(1) nth [of j] by (simp add: below_def)
  qed (use e in \<open>simp add: below_def\<close>)
  have "below = (0 # ?T) ! i" by (cases i) (simp_all add: below_def)
  moreover have len: "length ?T = 25" by (simp add: ALLOCATOR_TABLE_def)
  ultimately have "zip (0 # ?T) ?T ! i = (below, ?T ! i)" using i(1) by (simp only: nth_zip length_Cons)
  moreover have "i < length (zip (0 # ?T) ?T)" using i(1) len by (simp only: length_zip length_Cons)
  ultimately have "(below, ?T ! i) \<in> set (zip (0 # ?T) ?T)" by (metis nth_mem)
  from bspec [OF table_skips_nothing this, unfolded prod.case]
  obtain t where t: "?T ! i mod 2 ^ t = 0" "(?T ! i - 1) div 2 ^ Suc t * 2 ^ Suc t \<le> below"
    by (elim bexE conjE)
  show ?thesis
  proof (cases "e = ?T ! i \<or> k \<le> t")
    case True
    then show ?thesis using e(2) t(1) nth [OF i(1)] le_imp_power_dvd [of k t "2::nat"] by (auto simp: mod_eq_0_iff_dvd dest: dvd_trans)
  next
    case False
    then have "2 ^ Suc t dvd e" using e(2) le_imp_power_dvd [of "Suc t" k "2::nat"] by (auto dest: dvd_trans)
    moreover have "e \<le> ?T ! i - 1" using False i(2) nth [OF i(1)] by linarith
    then have "e div 2 ^ Suc t * 2 ^ Suc t \<le> (?T ! i - 1) div 2 ^ Suc t * 2 ^ Suc t" by (intro mult_le_mono1 div_le_mono)
    ultimately show ?thesis using t(2) b by simp
  qed
qed

lemma raw_page_order_run:
  assumes "e \<le> ISIZE_MAX"
  shows "\<exists>k. raw_page_order e = Some k \<and> k < 64 \<and> e \<le> 4096 * 2 ^ k \<and> (\<forall>j. e \<le> 4096 * 2 ^ j \<longrightarrow> k \<le> j) \<and> ushl PAGE_SIZE k = Some (4096 * 2 ^ k)"
proof -
  have lim: "e + 4096 < USIZE_LIM" using assms by (simp add: ISIZE_MAX_def USIZE_LIM_def)
  define n where "n = (e + 4095) div 4096"
  have n: "to_page_count e = Some n" using lim by (simp add: to_page_count_def panic_simps PAGE_SIZE_eq n_def)
  have nb: "e \<le> n * 4096" "\<And>m. e \<le> m * 4096 \<Longrightarrow> n \<le> m"
    using div_ceil_spec [of e PAGE_SIZE n] n by (simp_all add: to_page_count_def PAGE_SIZE_eq)
  have "n \<le> 2 ^ 51" by (rule nb(2)) (use assms in \<open>simp add: ISIZE_MAX_def\<close>)
  then have nl: "n < USIZE_LIM" by (simp add: USIZE_LIM_def)
  then obtain k where k: "log2_ceil n = Some k" using log2_ceil_Some by blast
  have "k \<le> 51" using log2_ceil_spec(2) [OF k nl] \<open>n \<le> 2 ^ 51\<close> by blast
  then have p: "(2::nat) ^ k \<le> 2 ^ 51" by (intro power_increasing) simp_all
  then have "PAGE_SIZE * 2 ^ k < USIZE_LIM" by (simp add: PAGE_SIZE_eq USIZE_LIM_def)
  then have s: "ushl PAGE_SIZE k = Some (4096 * 2 ^ k)" using \<open>k \<le> 51\<close> by (subst ushl_small) (simp_all add: PAGE_SIZE_eq)
  have "n * 4096 \<le> 2 ^ k * 4096" using log2_ceil_spec(1) [OF k nl] by (rule mult_le_mono1)
  then have "e \<le> 4096 * 2 ^ k" using nb(1) by linarith
  moreover have "k \<le> j" if "e \<le> 4096 * 2 ^ j" for j
    by (rule log2_ceil_spec(2) [OF k nl], rule nb(2)) (use that in \<open>simp add: mult.commute\<close>)
  ultimately show ?thesis using n k \<open>k \<le> 51\<close> s by (simp add: raw_page_order_def)
qed

text \<open>A layout that the runtime passes to the allocator.\<close>

definition layout_ok :: "layout \<Rightarrow> bool" where
  "layout_ok l \<longleftrightarrow> 0 < ly_size l \<and> from_size_align (ly_size l) (ly_align l) = Some l"

lemma effective_size_run:
  assumes "layout_ok l"
  shows "\<exists>e. get_effective_size l = Some e \<and> 0 < e \<and> ly_size l \<le> e \<and> e \<le> ISIZE_MAX \<and> ly_align l dvd e"
    "\<exists>k. ly_align l = 2 ^ k"
proof -
  have p: "is_power_of_two (ly_align l)" and b: "ly_size l \<le> ISIZE_MAX - (ly_align l - 1)" and pos: "0 < ly_size l"
    using assms by (auto simp: layout_ok_def from_size_align_def split: if_splits)
  from p show "\<exists>k. ly_align l = 2 ^ k" by (simp add: power_of_two_iff)
  then have a: "0 < ly_align l" by auto
  have s: "ly_size l + ly_align l \<le> ISIZE_MAX + 1" using b pos a by linarith
  then have "ly_size l + ly_align l < USIZE_LIM" by (simp add: ISIZE_MAX_def USIZE_LIM_def)
  then obtain e where e: "align_up (ly_size l) (ly_align l) = Some e" using a by (auto simp: align_up_Some_iff)
  from align_up_spec(1,2,3) [OF e] s pos
  show "\<exists>e. get_effective_size l = Some e \<and> 0 < e \<and> ly_size l \<le> e \<and> e \<le> ISIZE_MAX \<and> ly_align l dvd e"
    by (auto simp: get_effective_size_def e)
qed

lemma usable_size_run:
  assumes "classes_ok hs cs" "0 < e" "e \<le> ISIZE_MAX"
  shows "\<exists>u. usable_size cs e = Some u \<and> e \<le> u"
proof (cases "get_size_class cs e")
  case None
  then show ?thesis using raw_page_order_run [OF assms(3)] by (auto simp: usable_size_def)
next
  case (Some i)
  then show ?thesis using get_size_class_spec(1) [OF assms(1), of e i] by (simp add: usable_size_def)
qed

end
