(* ===== verification/Heap_Inv.thy ===== *)
theory Heap_Inv
  imports Heap
begin

text \<open>
  The invariant of the kernel heap, and that every operation keeps it. Two ghost arguments describe the blocks of frames the heap holds:
  \<open>own\<close> maps the first frame of each slab to its size class, and \<open>big\<close> lists the blocks that serve large requests.
  The objects handed out are read off the bitmaps of the slabs and \<open>big\<close>. The links of partially filled slabs are
  specified by the locale \<open>slab_list\<close>.
\<close>

section \<open>The list of partially filled slabs\<close>

locale slab_list =
  fixes Q :: "(virt_addr, 'q) slab_list_ops"
    and qelems :: "'q \<Rightarrow> virt_addr list"
  assumes slab_links: "intrusive_list (ll_ops.truncate Q) qelems"
    and is_linked: "ll_is_linked Q x q \<longleftrightarrow> x \<in> set (qelems q)"
begin

lemmas qelems_laws =
  intrusive_list.elems_new [OF slab_links, unfolded ll_ops.truncate_def, simplified]
  intrusive_list.elems_push_front [OF slab_links, unfolded ll_ops.truncate_def, simplified]
  intrusive_list.elems_remove [OF slab_links, unfolded ll_ops.truncate_def, simplified]

lemma take_partial_run:
  "qelems q = [] \<Longrightarrow> take_partial_slab Q q = (None, q)"
  "qelems q = x # xs \<Longrightarrow> \<exists>q'. take_partial_slab Q q = (Some x, q') \<and> qelems q' = xs"
proof -
  assume "qelems q = []"
  then have "ll_pop_front Q q = None"
    using intrusive_list.pop_front_None [OF slab_links, of q] by (simp add: ll_ops.truncate_def)
  then show "take_partial_slab Q q = (None, q)" by (simp add: take_partial_slab_def)
next
  assume "qelems q = x # xs"
  from intrusive_list.pop_front_Cons [OF slab_links this] obtain q' where
    "ll_pop_front Q q = Some (x, q')" "qelems q' = xs" by (auto simp: ll_ops.truncate_def)
  then show "\<exists>q'. take_partial_slab Q q = (Some x, q') \<and> qelems q' = xs" by (simp add: take_partial_slab_def)
qed

end

definition seq_slabs :: "(virt_addr, virt_addr list) slab_list_ops" where
  "seq_slabs = ll_ops.extend seq_list \<lparr>ll_is_linked = \<lambda>x l. x \<in> set l\<rparr>"

interpretation seq_sl: slab_list seq_slabs "\<lambda>l. l"
proof (rule slab_list.intro)
  have "ll_ops.truncate seq_slabs = seq_list"
    by (simp add: seq_slabs_def ll_ops.truncate_def ll_ops.extend_def)
  then show "intrusive_list (ll_ops.truncate seq_slabs) (\<lambda>l. l)" by (simp add: seq_ll.intrusive_list_axioms)
  show "ll_is_linked seq_slabs x q \<longleftrightarrow> x \<in> set q" for x q by (simp add: seq_slabs_def ll_ops.extend_def)
qed

section \<open>Blocks of frames\<close>

definition blocks_ok :: "('l \<Rightarrow> virt_addr list) \<Rightarrow> nat \<Rightarrow> 'l phys_manager option \<Rightarrow> (pfn \<times> nat) set \<Rightarrow> bool" where
  "blocks_ok elems N st B \<longleftrightarrow> (\<exists>pm. st = Some pm \<and> pmm_inv elems N pm \<and> live_frames B \<inter> free_frames elems pm = {}) \<and> disjoint_blocks B \<and>
     (\<forall>p k. (p, k) \<in> B \<longrightarrow> k < ORDER_COUNT \<and> 2 ^ k dvd p \<and> p + 2 ^ k \<le> N)"

text \<open>The frame allocator has no free block of an order.\<close>

definition no_block :: "('l \<Rightarrow> virt_addr list) \<Rightarrow> 'l phys_manager option \<Rightarrow> nat \<Rightarrow> bool" where
  "no_block elems st k \<longleftrightarrow> (\<forall>pm. st = Some pm \<longrightarrow> ORDER_COUNT \<le> k \<or> \<not> (\<exists>p. 2 ^ k dvd p \<and> blk k p \<subseteq> free_frames elems pm))"

lemma heap_pmm_same [simp]: "h\<lparr>hp_pmm := hp_pmm h\<rparr> = h"
  by simp

lemma link_of_page:
  assumes "p < PHYS_MAP_MAX_PAGES"
  shows "pfn_to_physmap p = Some (PHYS_MAP_BASE + p)" "vpn_addr (PHYS_MAP_BASE + p) = link_of p"
    "page_offset (link_of p) = 0" "physmap_to_pfn (containing_page (link_of p)) = Some p"
  using assms by (simp_all add: pfn_to_physmap_def physmap_to_pfn_def vpn_addr_def link_of_def page_offset_def containing_page_def
      panic_simps layout_consts USIZE_LIM_def PAGE_SHIFT_def PAGE_SIZE_eq)

context frame_list
begin

lemma alloc_virt_pages_run:
  assumes ok: "blocks_ok elems N (hp_pmm h) B"
  shows "alloc_virt_pages L k h = Some (None, h) \<and> no_block elems (hp_pmm h) k \<or>
    (\<exists>p st. alloc_virt_pages L k h = Some (Some (link_of p), h\<lparr>hp_pmm := st\<rparr>) \<and> blocks_ok elems N st (insert (p, k) B) \<and>
       (\<forall>q j. (q, j) \<in> B \<longrightarrow> blk k p \<inter> blk j q = {}))"
proof -
  from ok obtain pm where pm: "hp_pmm h = Some pm" "pmm_inv elems N pm" "live_frames B \<inter> free_frames elems pm = {}" "disjoint_blocks B"
    "\<forall>p k. (p, k) \<in> B \<longrightarrow> k < ORDER_COUNT \<and> 2 ^ k dvd p \<and> p + 2 ^ k \<le> N"
    by (auto simp: blocks_ok_def)
  show ?thesis
  proof (cases "k < ORDER_COUNT")
    case False
    then have "pm_allocate L pm k = Some (None, pm)" by (simp add: pm_allocate_def)
    then have "alloc_virt_pages L k h = Some (None, h) \<and> no_block elems (hp_pmm h) k"
      using pm(1) False by (simp add: alloc_virt_pages_def pmm_allocate_def no_block_def)
    then show ?thesis ..
  next
    case True
    from allocate_spec [OF pm(2) True] show ?thesis
    proof (elim disjE exE conjE)
      fix p pm' assume a: "pm_allocate L pm k = Some (Some p, pm')" "pmm_inv elems N pm'" "2 ^ k dvd p" "blk k p \<subseteq> free_frames elems pm"
        "free_frames elems pm' = free_frames elems pm - blk k p"
      have sub: "blk k p \<subseteq> {..<N}" using a(4) free_frames_bounds(1) [OF pm(2)] by blast
      then have "p < N" using blk_nonempty [of p k] by blast
      moreover have "N \<le> PHYS_MAP_MAX_PAGES" using pm(2) by (simp add: pmm_inv_def pmm_wf_def)
      ultimately have p: "p < PHYS_MAP_MAX_PAGES" "p + 2 ^ k \<le> N" using sub blk_bound [of N k p] by simp_all
      have d: "blk k p \<inter> blk j q = {}" if "(q, j) \<in> B" for q j
        using live_frames_mem [OF that] pm(3) a(4) by blast
      have "live_frames (insert (p, k) B) \<inter> free_frames elems pm' = {}" unfolding a(5) live_frames_insert using pm(3) by blast
      moreover have "disjoint_blocks (insert (p, k) B)" using pm(4) d unfolding disjoint_blocks_def by simp blast
      ultimately have "blocks_ok elems N (Some pm') (insert (p, k) B)"
        using a(2,3) p(2) True pm(5) by (auto simp: blocks_ok_def)
      moreover have "alloc_virt_pages L k h = Some (Some (link_of p), h\<lparr>hp_pmm := Some pm'\<rparr>)"
        using pm(1) a(1) link_of_page(1,2) [OF p(1)] by (simp add: alloc_virt_pages_def pmm_allocate_def)
      ultimately show ?thesis using d by blast
    next
      assume "pm_allocate L pm k = Some (None, pm)" "\<not> (\<exists>p. 2 ^ k dvd p \<and> blk k p \<subseteq> free_frames elems pm)"
      then have "alloc_virt_pages L k h = Some (None, h) \<and> no_block elems (hp_pmm h) k"
        using pm(1) by (simp add: alloc_virt_pages_def pmm_allocate_def no_block_def)
      then show ?thesis ..
    qed
  qed
qed

lemma free_virt_pages_run:
  assumes ok: "blocks_ok elems N (hp_pmm h) B" and b: "(p, k) \<in> B"
  shows "\<exists>st. free_virt_pages L (link_of p) k h = Some (h\<lparr>hp_pmm := st\<rparr>) \<and> blocks_ok elems N st (B - {(p, k)})"
proof -
  from ok obtain pm where pm: "hp_pmm h = Some pm" "pmm_inv elems N pm" "live_frames B \<inter> free_frames elems pm = {}" "disjoint_blocks B"
    and bs: "\<forall>p k. (p, k) \<in> B \<longrightarrow> k < ORDER_COUNT \<and> 2 ^ k dvd p \<and> p + 2 ^ k \<le> N"
    by (auto simp: blocks_ok_def)
  have k: "k < ORDER_COUNT" "2 ^ k dvd p" "p + 2 ^ k \<le> N" using bs b by blast+
  have fresh: "blk k p \<inter> free_frames elems pm = {}" using live_frames_mem [OF b] pm(3) by blast
  from deallocate_spec [OF pm(2) k fresh] obtain pm' where d: "pm_deallocate L pm p k = Some pm'" "pmm_inv elems N pm'"
    "free_frames elems pm' = free_frames elems pm \<union> blk k p" by blast
  have "live_frames (B - {(p, k)}) \<inter> free_frames elems pm' = {}"
    unfolding d(3) live_frames_remove [OF b pm(4)] using pm(3) by blast
  moreover have "disjoint_blocks (B - {(p, k)})" using pm(4) by (auto simp: disjoint_blocks_def)
  ultimately have "blocks_ok elems N (Some pm') (B - {(p, k)})" using d(2) bs by (auto simp: blocks_ok_def)
  moreover have "N \<le> PHYS_MAP_MAX_PAGES" using pm(2) by (simp add: pmm_inv_def pmm_wf_def)
  then have "p < PHYS_MAP_MAX_PAGES" using k(3) one_le_power [of "2::nat" k] by linarith
  ultimately show ?thesis using pm(1) d(1) link_of_page(3,4) [of p] by (auto simp: free_virt_pages_def pmm_deallocate_def uassert_def)
qed

end

section \<open>The invariant\<close>

abbreviation cm :: "('q, 'l) heap \<Rightarrow> nat \<Rightarrow> size_class_meta" where
  "cm h i \<equiv> sc_meta (hp_classes h ! i)"

abbreviation partial_slabs :: "('q, 'l) heap \<Rightarrow> nat \<Rightarrow> 'q" where
  "partial_slabs h i \<equiv> sc_partial_slabs (hp_classes h ! i)"

definition live_bits :: "size_class_meta \<Rightarrow> slab \<Rightarrow> nat set" where
  "live_bits m sl = {j. j < scm_objects_per_slab m \<and> bits (sl_bitmap sl) j}"

definition slab_ok :: "size_class_meta \<Rightarrow> slab \<Rightarrow> bool" where
  "slab_ok m sl \<longleftrightarrow> length (sl_bitmap sl) = (scm_objects_per_slab m + 7) div 8 \<and> sl_allocated sl = card (live_bits m sl)"

lemma slab_ok_len: "slab_ok m sl \<Longrightarrow> scm_objects_per_slab m \<le> bm_len (sl_bitmap sl)"
  by (simp add: slab_ok_def bm_len_def)

definition slab_blocks :: "('q, 'l) heap \<Rightarrow> (pfn \<Rightarrow> nat option) \<Rightarrow> (pfn \<times> nat) set" where
  "slab_blocks h own = {(p, scm_slab_order (cm h i)) |p i. own p = Some i}"

text \<open>The slab \<open>hand\<close>, if any, has been taken off its list and has room.\<close>

definition slabs_ok :: "(pfn \<Rightarrow> nat option) \<Rightarrow> pfn option \<Rightarrow> ('q, 'l) heap \<Rightarrow> bool" where
  "slabs_ok own hand h \<longleftrightarrow> (\<forall>p. hp_slabs h (link_of p) = None \<longleftrightarrow> own p = None) \<and> (\<forall>a sl. hp_slabs h a = Some sl \<longrightarrow> a \<in> range link_of) \<and>
     (\<forall>p i sl. own p = Some i \<longrightarrow> hp_slabs h (link_of p) = Some sl \<longrightarrow> i < length (hp_classes h) \<and> slab_ok (cm h i) sl \<and>
        (if hand = Some p then sl_allocated sl < scm_objects_per_slab (cm h i) else 0 < sl_allocated sl))"

definition has_room :: "(pfn \<Rightarrow> nat option) \<Rightarrow> pfn option \<Rightarrow> ('q, 'l) heap \<Rightarrow> nat \<Rightarrow> virt_addr set" where
  "has_room own hand h i = {link_of p |p sl. own p = Some i \<and> hand \<noteq> Some p \<and> hp_slabs h (link_of p) = Some sl \<and>
     sl_allocated sl < scm_objects_per_slab (cm h i)}"

definition lists_ok :: "('q \<Rightarrow> virt_addr list) \<Rightarrow> (pfn \<Rightarrow> nat option) \<Rightarrow> pfn option \<Rightarrow> ('q, 'l) heap \<Rightarrow> bool" where
  "lists_ok qelems own hand h \<longleftrightarrow> (\<forall>i < length (hp_classes h). distinct (qelems (partial_slabs h i)) \<and>
     set (qelems (partial_slabs h i)) = has_room own hand h i)"

definition heap_inv :: "('l \<Rightarrow> virt_addr list) \<Rightarrow> ('q \<Rightarrow> virt_addr list) \<Rightarrow> usize \<Rightarrow> nat \<Rightarrow> (pfn \<Rightarrow> nat option) \<Rightarrow> (pfn \<times> nat) set \<Rightarrow>
    pfn option \<Rightarrow> ('q, 'l) heap \<Rightarrow> bool" where
  "heap_inv elems qelems hs N own big hand h \<longleftrightarrow> classes_ok hs (hp_classes h) \<and>
     blocks_ok elems N (hp_pmm h) (slab_blocks h own \<union> big) \<and> (\<forall>p k. (p, k) \<in> big \<longrightarrow> own p = None) \<and>
     slabs_ok own hand h \<and> lists_ok qelems own hand h"

lemma lists_okD:
  assumes "lists_ok qelems own hand h" "i < length (hp_classes h)"
  shows "distinct (qelems (partial_slabs h i))" "set (qelems (partial_slabs h i)) = has_room own hand h i"
  using assms by (auto simp: lists_ok_def)

lemma heap_invD:
  assumes "heap_inv elems qelems hs N own big hand h"
  shows "classes_ok hs (hp_classes h)" "blocks_ok elems N (hp_pmm h) (slab_blocks h own \<union> big)"
    "(p, k) \<in> big \<Longrightarrow> own p = None" "slabs_ok own hand h" "lists_ok qelems own hand h"
  using assms by (auto simp: heap_inv_def)

lemma slabs_okD:
  assumes "slabs_ok own hand h" "own p = Some i"
  obtains sl where "hp_slabs h (link_of p) = Some sl" "i < length (hp_classes h)" "slab_ok (cm h i) sl"
    "hand = Some p \<Longrightarrow> sl_allocated sl < scm_objects_per_slab (cm h i)" "hand \<noteq> Some p \<Longrightarrow> 0 < sl_allocated sl"
proof -
  from assms obtain sl where sl: "hp_slabs h (link_of p) = Some sl" unfolding slabs_ok_def by (metis option.distinct(1) not_None_eq)
  with assms have "i < length (hp_classes h) \<and> slab_ok (cm h i) sl \<and>
        (if hand = Some p then sl_allocated sl < scm_objects_per_slab (cm h i) else 0 < sl_allocated sl)"
    unfolding slabs_ok_def by blast
  then show thesis using that [OF sl] by auto
qed

lemma cm_set_partial [simp]: "cm (set_partial i q h) j = cm h j"
  by (cases "i < length (hp_classes h)") (simp_all add: set_partial_def nth_list_update list_update_beyond)

lemma set_partial_simps [simp]:
  "length (hp_classes (set_partial i q h)) = length (hp_classes h)"
  "hp_slabs (set_partial i q h) = hp_slabs h" "hp_mem (set_partial i q h) = hp_mem h" "hp_pmm (set_partial i q h) = hp_pmm h"
  by (simp_all add: set_partial_def)

lemma set_partial_twice [simp]: "set_partial i q (set_partial i q' h) = set_partial i q h"
  by (cases "i < length (hp_classes h)") (simp_all add: set_partial_def list_update_beyond)

lemma map_set_partial: "map (\<lambda>c. f (sc_meta c)) (hp_classes (set_partial i q h)) = map (\<lambda>c. f (sc_meta c)) (hp_classes h)"
  by (rule nth_equalityI) simp_all

lemma partial_set_partial: "i < length (hp_classes h) \<Longrightarrow> partial_slabs (set_partial i q h) j = (if j = i then q else partial_slabs h j)"
  by (simp add: set_partial_def)

lemma classes_ok_set_partial [simp]: "classes_ok hs (hp_classes (set_partial i q h)) \<longleftrightarrow> classes_ok hs (hp_classes h)"
proof -
  have "(\<forall>c\<in>set cs. P (sc_meta c)) \<longleftrightarrow> (\<forall>m\<in>set (map sc_meta cs). P m)" for cs :: "'a size_class list" and P by simp
  then show ?thesis using map_set_partial [of id i q h]
    by (simp add: classes_ok_def map_set_partial [of "\<lambda>m. (scm_size m, scm_slab_order m)"] del: set_map)
qed

lemma slab_blocks_set_partial [simp]: "slab_blocks (set_partial i q h) own = slab_blocks h own"
  by (simp add: slab_blocks_def)

lemma has_room_set_partial [simp]: "has_room own hand (set_partial i q h) j = has_room own hand h j"
  by (simp add: has_room_def)

lemma slabs_ok_set_partial [simp]: "slabs_ok own hand (set_partial i q h) \<longleftrightarrow> slabs_ok own hand h"
  by (simp add: slabs_ok_def)

text \<open>The objects that are handed out, with their usable sizes.\<close>

definition first_off :: "size_class_meta \<Rightarrow> nat" where
  "first_off m = slab_bytes m - scm_size m * scm_objects_per_slab m"

definition slab_objects :: "(pfn \<Rightarrow> nat option) \<Rightarrow> ('q, 'l) heap \<Rightarrow> (virt_addr \<times> usize) set" where
  "slab_objects own h = {(link_of p + first_off (cm h i) + j * scm_size (cm h i), scm_size (cm h i)) |p i sl j.
     own p = Some i \<and> hp_slabs h (link_of p) = Some sl \<and> j \<in> live_bits (cm h i) sl}"

definition big_objects :: "(pfn \<times> nat) set \<Rightarrow> (virt_addr \<times> usize) set" where
  "big_objects big = {(link_of p, 4096 * 2 ^ k) |p k. (p, k) \<in> big}"

lemma slab_objects_set_partial [simp]: "slab_objects own (set_partial i q h) = slab_objects own h"
  by (simp add: slab_objects_def)

lemma first_off_bounds:
  assumes "meta_ok hs m"
  shows "first_object_offset m = Some (first_off m)" "bitmap_bytes m = Some ((scm_objects_per_slab m + 7) div 8)"
    "hs + (scm_objects_per_slab m + 7) div 8 \<le> first_off m" "first_off m + scm_objects_per_slab m * scm_size m = slab_bytes m"
    "slab_bytes m \<le> 2 ^ 27" "scm_objects_per_slab m \<le> 2 ^ 27"
proof -
  have k: "scm_slab_order m < ORDER_COUNT" and sz: "0 < scm_size m"
    and need: "hs + (scm_objects_per_slab m + 7) div 8 + scm_objects_per_slab m * scm_size m \<le> slab_bytes m"
    using assms by (auto simp: meta_ok_def slab_need_def)
  note S = slab_shift [OF k]
  show b: "slab_bytes m \<le> 2 ^ 27" using S by (simp add: slab_bytes_def)
  have le: "scm_objects_per_slab m * scm_size m \<le> slab_bytes m" using need by linarith
  then show "first_off m + scm_objects_per_slab m * scm_size m = slab_bytes m" by (simp add: first_off_def mult.commute)
  show "hs + (scm_objects_per_slab m + 7) div 8 \<le> first_off m" using need by (simp add: first_off_def mult.commute)
  have "scm_objects_per_slab m * 1 \<le> scm_objects_per_slab m * scm_size m" using sz by (intro mult_le_mono2) simp
  then show n: "scm_objects_per_slab m \<le> 2 ^ 27" using le b by linarith
  have lim: "scm_size m * scm_objects_per_slab m < USIZE_LIM" using le b by (simp add: mult.commute USIZE_LIM_def)
  show "first_object_offset m = Some (first_off m)"
    using S lim le by (simp add: first_object_offset_def first_off_def slab_bytes_def umul_def usub_def mult.commute)
  show "bitmap_bytes m = Some ((scm_objects_per_slab m + 7) div 8)"
    using n by (simp add: bitmap_bytes_def bytes_required_def panic_simps USIZE_LIM_def)
qed

section \<open>Objects in memory\<close>

definition region :: "pfn \<Rightarrow> nat \<Rightarrow> virt_addr set" where
  "region p k = {link_of p..<link_of p + 4096 * 2 ^ k}"

lemma region_frame: "x \<in> region p k \<Longrightarrow> x div 4096 - PHYS_MAP_BASE \<in> blk k p"
proof -
  assume "x \<in> region p k"
  then have "(PHYS_MAP_BASE + p) * 4096 \<le> x" "x < (PHYS_MAP_BASE + p + 2 ^ k) * 4096"
    by (auto simp: region_def link_of_def algebra_simps)
  then have "PHYS_MAP_BASE + p \<le> x div 4096" "x div 4096 < PHYS_MAP_BASE + p + 2 ^ k"
    by (simp_all add: less_eq_div_iff_mult_less_eq div_less_iff_less_mult)
  then show ?thesis by (auto simp: blk_def)
qed

lemma region_disjoint: "blk k p \<inter> blk j q = {} \<Longrightarrow> region p k \<inter> region q j = {}"
  using region_frame by blast

lemma blocks_regions:
  assumes "blocks_ok elems N st B" "(p, k) \<in> B" "(q, j) \<in> B" "x \<in> region p k" "x \<in> region q j"
  shows "p = q" "k = j"
proof -
  have "disjoint_blocks B" using assms(1) by (simp add: blocks_ok_def)
  moreover have "blk k p \<inter> blk j q \<noteq> {}" using region_frame [OF assms(4)] region_frame [OF assms(5)] by blast
  ultimately have "(p, k) = (q, j)" using assms(2,3) unfolding disjoint_blocks_def by blast
  then show "p = q" "k = j" by simp_all
qed

lemma object_in_region:
  assumes "meta_ok hs m" "j < scm_objects_per_slab m" "a = link_of p + first_off m + j * scm_size m"
  shows "{a..<a + scm_size m} \<subseteq> region p (scm_slab_order m)" "a \<in> region p (scm_slab_order m)"
    "link_of p + hs + (scm_objects_per_slab m + 7) div 8 \<le> a"
proof -
  note b = first_off_bounds [OF assms(1)]
  have "(j + 1) * scm_size m \<le> scm_objects_per_slab m * scm_size m" using assms(2) by (intro mult_le_mono1) simp
  then have "first_off m + j * scm_size m + scm_size m \<le> 4096 * 2 ^ scm_slab_order m" using b(4) by (simp add: slab_bytes_def)
  then show sub: "{a..<a + scm_size m} \<subseteq> region p (scm_slab_order m)" using assms(3) by (auto simp: region_def)
  have "0 < scm_size m" using assms(1) by (simp add: meta_ok_def)
  then show "a \<in> region p (scm_slab_order m)" using sub by auto
  show "link_of p + hs + (scm_objects_per_slab m + 7) div 8 \<le> a" using b(3) assms(3) by linarith
qed

text \<open>The header of the slab of an object is found by rounding its address down.\<close>

lemma link_aligned: "k < ORDER_COUNT \<Longrightarrow> 2 ^ k dvd p \<Longrightarrow> 4096 * 2 ^ k dvd link_of p"
proof -
  assume k: "k < ORDER_COUNT" and p: "2 ^ k dvd p"
  have "PHYS_MAP_BASE = 2 ^ 35 * 0x1FFFF" by (simp add: PHYS_MAP_BASE_def)
  moreover have "(2::nat) ^ k dvd 2 ^ 35" using k by (intro le_imp_power_dvd) (simp add: ORDER_COUNT_def)
  ultimately have "2 ^ k dvd PHYS_MAP_BASE" by (metis dvd_mult2)
  with p have "2 ^ k dvd PHYS_MAP_BASE + p" by simp
  then show ?thesis unfolding link_of_def by (metis mult.commute mult_dvd_mono dvd_refl)
qed

lemma slab_header_from_obj_run:
  assumes "k < ORDER_COUNT" "2 ^ k dvd p" "p + 2 ^ k \<le> PHYS_MAP_MAX_PAGES" "x \<in> region p k"
  shows "slab_header_from_obj x k = Some (link_of p)"
proof -
  obtain c where c: "link_of p = 4096 * 2 ^ k * c" using link_aligned [OF assms(1,2)] by (elim dvdE)
  have x: "link_of p \<le> x" "x < link_of p + 4096 * 2 ^ k" using assms(4) by (simp_all add: region_def)
  then have "x div (4096 * 2 ^ k) = c" unfolding c by (intro div_nat_eqI) (simp_all add: algebra_simps)
  then have e: "x div (4096 * 2 ^ k) * (4096 * 2 ^ k) = link_of p" by (simp add: c mult.commute)
  have "p < PHYS_MAP_MAX_PAGES" using assms(3) one_le_power [of "2::nat" k] by linarith
  then have l: "link_of p < USIZE_LIM" "link_of p \<noteq> 0" by (simp_all add: link_of_def layout_consts USIZE_LIM_def)
  then have "align_down x (4096 * 2 ^ k) = Some (link_of p)" using e by (simp add: align_down_Some_iff)
  then show ?thesis using slab_shift [OF assms(1)] l(2) by (simp add: slab_header_from_obj_def uassert_def)
qed

section \<open>One slab changes\<close>

abbreviation put_slab :: "pfn \<Rightarrow> slab \<Rightarrow> ('q, 'l) heap \<Rightarrow> ('q, 'l) heap" where
  "put_slab p sl h \<equiv> h\<lparr>hp_slabs := (hp_slabs h)(link_of p \<mapsto> sl)\<rparr>"

lemma put_slab_ok:
  assumes ok: "slabs_ok own hand h" and own: "own p = Some i" and hand: "hand = None \<or> hand = Some p" and sl: "slab_ok (cm h i) sl" "0 < sl_allocated sl"
  shows "slabs_ok own None (put_slab p sl h)"
    "has_room own None (put_slab p sl h) j = (if j = i \<and> sl_allocated sl < scm_objects_per_slab (cm h i)
       then insert (link_of p) (has_room own (Some p) h j) else has_room own (Some p) h j)"
proof -
  have i: "i < length (hp_classes h)" by (rule slabs_okD [OF ok own])
  show "slabs_ok own None (put_slab p sl h)"
    unfolding slabs_ok_def
  proof (intro conjI allI impI)
    fix q i' sl' assume "own q = Some i'" "hp_slabs (put_slab p sl h) (link_of q) = Some sl'"
    then show "i' < length (hp_classes (put_slab p sl h))" "slab_ok (cm (put_slab p sl h) i') sl'"
      "if None = Some q then sl_allocated sl' < scm_objects_per_slab (cm (put_slab p sl h) i') else 0 < sl_allocated sl'"
      using own sl i hand slabs_okD [OF ok, of q i'] by (cases "q = p"; force)+
  qed (use ok own in \<open>auto simp: slabs_ok_def split: if_splits\<close>)
  show "has_room own None (put_slab p sl h) j = (if j = i \<and> sl_allocated sl < scm_objects_per_slab (cm h i)
       then insert (link_of p) (has_room own (Some p) h j) else has_room own (Some p) h j)"
    using own by (auto simp: has_room_def)
qed

lemma has_room_hand: "has_room own (Some p) h j = has_room own None h j - {link_of p}"
  by (auto simp: has_room_def)

lemma put_slab_objects:
  assumes "own p = Some i" "hp_slabs h (link_of p) = Some sl" "live_bits (cm h i) sl' = insert j (live_bits (cm h i) sl)"
  shows "slab_objects own (put_slab p sl' h) = insert (link_of p + first_off (cm h i) + j * scm_size (cm h i), scm_size (cm h i)) (slab_objects own h)"
    (is "?l = insert ?x ?r")
proof (intro equalityI subsetI)
  fix y assume "y \<in> ?l"
  then obtain q i' sl1 j' where y: "y = (link_of q + first_off (cm h i') + j' * scm_size (cm h i'), scm_size (cm h i'))" "own q = Some i'"
    "(if q = p then Some sl' else hp_slabs h (link_of q)) = Some sl1" "j' \<in> live_bits (cm h i') sl1"
    by (auto simp: slab_objects_def)
  then show "y \<in> insert ?x ?r" using assms by (cases "q = p") (auto simp: slab_objects_def)
next
  fix y assume "y \<in> insert ?x ?r"
  then consider "y = ?x" | q i' sl1 j' where "y = (link_of q + first_off (cm h i') + j' * scm_size (cm h i'), scm_size (cm h i'))" "own q = Some i'"
    "hp_slabs h (link_of q) = Some sl1" "j' \<in> live_bits (cm h i') sl1"
    by (auto simp: slab_objects_def)
  then show "y \<in> ?l"
  proof cases
    case 1
    then show ?thesis using assms by (auto simp: slab_objects_def)
  next
    case 2
    then show ?thesis using assms by (cases "q = p") (auto simp: slab_objects_def)
  qed
qed

section \<open>The operations keep the invariant\<close>

lemma slab_block_mem: "own p = Some i \<Longrightarrow> (p, scm_slab_order (cm h i)) \<in> slab_blocks h own"
  by (auto simp: slab_blocks_def)

lemma heap_meta_ok:
  assumes "heap_inv elems qelems hs N own big hand h" "own p = Some i"
  shows "meta_ok hs (cm h i)" "i < length (hp_classes h)"
  using slabs_okD [OF heap_invD(4) [OF assms(1)] assms(2)] classes_okD(3) [OF heap_invD(1) [OF assms(1)], of i] by metis+

text \<open>An address belongs to one slab only, and to no large block.\<close>

lemma slab_address:
  assumes inv: "heap_inv elems qelems hs N own big hand h" and own: "own p = Some i" "own q = Some i'"
    and x: "x \<in> region p (scm_slab_order (cm h i))" "x \<in> region q (scm_slab_order (cm h i'))"
  shows "p = q"
  using blocks_regions(1) [OF heap_invD(2) [OF inv] _ _ x] slab_block_mem [of own p i h] slab_block_mem [of own q i' h] own by blast

lemma big_address:
  assumes inv: "heap_inv elems qelems hs N own big hand h" and own: "own p = Some i" "(q, k) \<in> big"
    and x: "x \<in> region p (scm_slab_order (cm h i))" "x \<in> region q k"
  shows False
proof -
  have "p = q" using blocks_regions(1) [OF heap_invD(2) [OF inv] _ _ x] slab_block_mem [of own p i h] own by blast
  then show False using heap_invD(3) [OF inv own(2)] own(1) by simp
qed

lemma object_fresh:
  assumes inv: "heap_inv elems qelems hs N own big hand h" and own: "own p = Some i" "hp_slabs h (link_of p) = Some sl"
    and j: "j < scm_objects_per_slab (cm h i)" "j \<notin> live_bits (cm h i) sl"
  shows "link_of p + first_off (cm h i) + j * scm_size (cm h i) \<notin> fst ` (slab_objects own h \<union> big_objects big)"
proof
  let ?a = "link_of p + first_off (cm h i) + j * scm_size (cm h i)"
  note m = heap_meta_ok(1) [OF inv]
  have r: "?a \<in> region p (scm_slab_order (cm h i))" by (rule object_in_region(2) [OF m [OF own(1)] j(1) refl])
  assume "?a \<in> fst ` (slab_objects own h \<union> big_objects big)"
  then consider (slab) q i' sl' j' where "?a = link_of q + first_off (cm h i') + j' * scm_size (cm h i')" "own q = Some i'"
      "hp_slabs h (link_of q) = Some sl'" "j' \<in> live_bits (cm h i') sl'"
    | (big) q k where "?a = link_of q" "(q, k) \<in> big"
    by (auto simp: slab_objects_def big_objects_def image_Un)
  then show False
  proof cases
    case slab
    have "?a \<in> region q (scm_slab_order (cm h i'))" using slab(4) by (intro object_in_region(2) [OF m [OF slab(2)] _ slab(1)]) (simp add: live_bits_def)
    then have "p = q" by (rule slab_address [OF inv own(1) slab(2) r])
    then have "i = i'" "sl = sl'" using slab(2,3) own by simp_all
    moreover have "0 < scm_size (cm h i)" using m [OF own(1)] by (simp add: meta_ok_def)
    ultimately have "j = j'" using slab(1) \<open>p = q\<close> by simp
    then show False using slab(4) j(2) \<open>i = i'\<close> \<open>sl = sl'\<close> by simp
  next
    case big
    have "?a \<in> region q k" unfolding big(1) by (simp add: region_def)
    then show False by (rule big_address [OF inv own(1) big(2) r])
  qed
qed

locale heap_lists = frame_list L elems + slab_list Q qelems
  for L :: "(virt_addr, 'l) ll_ops" and elems and Q :: "(virt_addr, 'q) slab_list_ops" and qelems
begin

lemma take_step:
  assumes inv: "heap_inv elems qelems hs N own big None h" and i: "i < length (hp_classes h)"
    and q: "qelems (partial_slabs h i) = x # qelems q"
  obtains p where "x = link_of p" "own p = Some i" "heap_inv elems qelems hs N own big (Some p) (set_partial i q h)"
proof -
  note lists = lists_okD [OF heap_invD(5) [OF inv]]
  have "x \<in> has_room own None h i" using lists(2) [OF i] q by auto
  then obtain p sl where p: "x = link_of p" "own p = Some i" "hp_slabs h (link_of p) = Some sl" "sl_allocated sl < scm_objects_per_slab (cm h i)"
    by (auto simp: has_room_def)
  have "slabs_ok own (Some p) h" using heap_invD(4) [OF inv] p unfolding slabs_ok_def by auto
  moreover have "lists_ok qelems own (Some p) (set_partial i q h)"
    unfolding lists_ok_def
  proof (intro allI impI)
    fix j assume "j < length (hp_classes (set_partial i q h))"
    then have l: "distinct (qelems (partial_slabs h j))" "set (qelems (partial_slabs h j)) = has_room own None h j" using lists [of j] by auto
    show "distinct (qelems (partial_slabs (set_partial i q h) j)) \<and> set (qelems (partial_slabs (set_partial i q h) j)) = has_room own (Some p) (set_partial i q h) j"
    proof (cases "j = i")
      case True
      then show ?thesis using l q i p(1) by (auto simp: partial_set_partial has_room_hand)
    next
      case False
      have "link_of p \<notin> has_room own None h j" using False p(2) by (auto simp: has_room_def)
      then show ?thesis using l False i by (simp add: partial_set_partial has_room_hand)
    qed
  qed
  ultimately have "heap_inv elems qelems hs N own big (Some p) (set_partial i q h)" using inv by (simp add: heap_inv_def)
  with p that show thesis by blast
qed

lemma alloc_slab_step:
  assumes inv: "heap_inv elems qelems hs N own big None h" and i: "i < length (hp_classes h)"
  shows "alloc_slab L (cm h i) h = Some (None, h) \<and> no_block elems (hp_pmm h) (scm_slab_order (cm h i)) \<or>
    (\<exists>p h'. alloc_slab L (cm h i) h = Some (Some (link_of p), h') \<and> heap_inv elems qelems hs N (own(p \<mapsto> i)) big (Some p) h' \<and>
      slab_objects (own(p \<mapsto> i)) h' = slab_objects own h \<and> hp_classes h' = hp_classes h \<and> hp_mem h' = hp_mem h)"
proof -
  let ?m = "cm h i"
  have m: "meta_ok hs ?m" by (rule classes_okD(3) [OF heap_invD(1) [OF inv] i])
  note bb = first_off_bounds(2) [OF m]
  from alloc_virt_pages_run [OF heap_invD(2) [OF inv], of "scm_slab_order ?m"] show ?thesis
  proof (elim disjE exE conjE)
    assume "alloc_virt_pages L (scm_slab_order ?m) h = Some (None, h)" "no_block elems (hp_pmm h) (scm_slab_order ?m)"
    then show ?thesis by (simp add: alloc_slab_def bb)
  next
    fix p st assume a: "alloc_virt_pages L (scm_slab_order ?m) h = Some (Some (link_of p), h\<lparr>hp_pmm := st\<rparr>)"
      "blocks_ok elems N st (insert (p, scm_slab_order ?m) (slab_blocks h own \<union> big))"
      "\<forall>q j. (q, j) \<in> slab_blocks h own \<union> big \<longrightarrow> blk (scm_slab_order ?m) p \<inter> blk j q = {}"
    let ?sl = "\<lparr>sl_allocated = 0, sl_bitmap = replicate ((scm_objects_per_slab ?m + 7) div 8) 0\<rparr>"
    let ?h = "put_slab p ?sl (h\<lparr>hp_pmm := st\<rparr>)" let ?own = "own(p \<mapsto> i)"
    have fresh: "(p, j) \<notin> slab_blocks h own \<union> big" for j using a(3) blk_nonempty [of p] by (metis disjoint_iff)
    have op: "own p = None" using fresh slab_block_mem [of own p _ h] by (cases "own p") auto
    have "slab_blocks ?h ?own = insert (p, scm_slab_order ?m) (slab_blocks h own)" using op by (auto simp: slab_blocks_def split: if_splits)
    moreover have z: "live_bits ?m ?sl = {}" by (auto simp: live_bits_def bits_def)
    have "slab_ok ?m ?sl" "0 < scm_objects_per_slab ?m" using z m by (auto simp: slab_ok_def bm_len_def meta_ok_def)
    then have "slabs_ok ?own (Some p) ?h"
      using heap_invD(4) [OF inv] i unfolding slabs_ok_def by auto
    moreover have hr: "has_room ?own (Some p) ?h j = has_room own None h j" for j
      unfolding has_room_def using op by (intro Collect_cong ex_cong1) auto
    have "lists_ok qelems ?own (Some p) ?h" using heap_invD(5) [OF inv] unfolding lists_ok_def hr by simp
    moreover have "\<forall>q k. (q, k) \<in> big \<longrightarrow> ?own q = None" using heap_invD(3) [OF inv] fresh by auto
    ultimately have "heap_inv elems qelems hs N ?own big (Some p) ?h" using a(2) heap_invD(1) [OF inv] by (simp add: heap_inv_def)
    moreover have "slab_objects ?own ?h = slab_objects own h"
      unfolding slab_objects_def using op z by (intro Collect_cong ex_cong1) auto
    moreover have "alloc_slab L ?m h = Some (Some (link_of p), ?h)" by (simp add: alloc_slab_def bb a(1))
    ultimately show ?thesis by auto
  qed
qed

lemma inner_take_run:
  assumes inv: "heap_inv elems qelems hs N own big None h" and i: "i < length (hp_classes h)"
  shows "inner_take L Q (cm h i) (partial_slabs h i) h = Some (None, partial_slabs h i, h) \<and> no_block elems (hp_pmm h) (scm_slab_order (cm h i)) \<or>
    (\<exists>p q h' own'. inner_take L Q (cm h i) (partial_slabs h i) h = Some (Some (link_of p), q, h') \<and> own' p = Some i \<and>
      heap_inv elems qelems hs N own' big (Some p) (set_partial i q h') \<and> slab_objects own' h' = slab_objects own h \<and>
      hp_classes h' = hp_classes h \<and> hp_mem h' = hp_mem h)"
proof (cases "qelems (partial_slabs h i)")
  case Nil
  have same: "set_partial i (partial_slabs h i) h' = h'" if "hp_classes h' = hp_classes h" for h' :: "('q, 'l) heap"
    using that by (simp add: set_partial_def)
  from alloc_slab_step [OF inv i] take_partial_run(1) [OF Nil] show ?thesis
    by (elim disjE exE conjE) (force simp: inner_take_def same)+
next
  case (Cons x xs)
  from take_partial_run(2) [OF Cons] obtain q where q: "take_partial_slab Q (partial_slabs h i) = (Some x, q)" "qelems q = xs" by blast
  from take_step [OF inv i, of x q] Cons q(2) obtain p where "x = link_of p" "own p = Some i"
    "heap_inv elems qelems hs N own big (Some p) (set_partial i q h)" by blast
  then show ?thesis using q(1) by (auto simp: inner_take_def)
qed

lemma inner_claim_run:
  assumes inv: "heap_inv elems qelems hs N own big (Some p) (set_partial i q h)" and own: "own p = Some i"
  shows "\<exists>ptr q' h'. inner_claim Q (cm h i) (link_of p) q h = Some (ptr, q', h') \<and> heap_inv elems qelems hs N own big None (set_partial i q' h') \<and>
    slab_objects own h' = insert (ptr, scm_size (cm h i)) (slab_objects own h) \<and> ptr \<notin> fst ` (slab_objects own h \<union> big_objects big) \<and>
    hp_classes h' = hp_classes h \<and> hp_mem h' = hp_mem h"
proof -
  let ?m = "cm h i" let ?n = "scm_objects_per_slab ?m"
  from slabs_okD [OF heap_invD(4) [OF inv] own] obtain sl where sl: "hp_slabs h (link_of p) = Some sl" "i < length (hp_classes h)"
    "slab_ok ?m sl" "sl_allocated sl < ?n" by auto
  note len = slab_ok_len [OF sl(3)]
  have alloc: "sl_allocated sl = card (live_bits ?m sl)" using sl(3) by (simp add: slab_ok_def)
  have m: "meta_ok hs ?m" using classes_okD(3) [of hs "hp_classes h" i] heap_invD(1) [OF inv] sl(2) by simp
  note fo = first_off_bounds [OF m]
  have "\<exists>j < ?n. \<not> bits (sl_bitmap sl) j"
  proof (rule ccontr)
    assume "\<not> ?thesis"
    then have "live_bits ?m sl = {..<?n}" by (auto simp: live_bits_def)
    then show False using sl(4) alloc by simp
  qed
  from bm.claim_first [OF len this] obtain j bm' where j: "first_zero (sl_bitmap sl) ?n = Some (Some j)" "j < ?n" "\<not> bits (sl_bitmap sl) j"
    "bm_set (sl_bitmap sl) j = Some bm'" "bm_len bm' = bm_len (sl_bitmap sl)" "bits bm' = (bits (sl_bitmap sl))(j := True)" by blast
  define sl' where "sl' = \<lparr>sl_allocated = sl_allocated sl + 1, sl_bitmap = bm'\<rparr>"
  define q' where "q' = (if sl_allocated sl + 1 < ?n then ll_push_front Q (link_of p) q else q)"
  let ?ptr = "link_of p + first_off ?m + j * scm_size ?m"
  have lb: "live_bits ?m sl' = insert j (live_bits ?m sl)" "j \<notin> live_bits ?m sl" using j by (auto simp: live_bits_def sl'_def)
  have fin: "finite (live_bits ?m sl)" by (simp add: live_bits_def)
  have sl'_ok: "slab_ok ?m sl'" "0 < sl_allocated sl'" using sl(3) j(5) alloc lb fin by (simp_all add: slab_ok_def sl'_def bm_len_def)
  have sl'a: "sl_allocated sl' = sl_allocated sl + 1" by (simp add: sl'_def)
  let ?h = "put_slab p sl' h"
  have fresh: "?ptr \<notin> fst ` (slab_objects own h \<union> big_objects big)"
    using object_fresh [OF inv own, of sl j] sl(1) j(2) lb(2) by simp
  have r: "?ptr \<in> region p (scm_slab_order ?m)" by (rule object_in_region(2) [OF m j(2) refl])
  have "(p, scm_slab_order ?m) \<in> slab_blocks h own" by (rule slab_block_mem [of own p i h, OF own])
  then have "p + 2 ^ scm_slab_order ?m \<le> N" "N \<le> PHYS_MAP_MAX_PAGES" using heap_invD(2) [OF inv] by (auto simp: blocks_ok_def pmm_inv_def pmm_wf_def)
  then have lim: "link_of p + 4096 * 2 ^ scm_slab_order ?m \<le> (PHYS_MAP_BASE + PHYS_MAP_MAX_PAGES) * 4096" by (simp add: link_of_def algebra_simps)
  then have "?ptr < USIZE_LIM" using r by (simp add: region_def layout_consts USIZE_LIM_def)
  moreover have "sl_allocated sl + 1 < USIZE_LIM" using sl(4) fo(6) by (simp add: USIZE_LIM_def)
  ultimately have run: "inner_claim Q ?m (link_of p) q h = Some (?ptr, q', ?h)"
    using sl(1) j(1,4) fo(1) by (simp add: inner_claim_def panic_simps Let_def uadd_def umul_def q'_def sl'_def add.assoc)
  have nq: "link_of p \<notin> has_room own (Some p) h i" by (simp add: has_room_hand)
  have ql: "distinct (qelems q)" "set (qelems q) = has_room own (Some p) h i"
    using lists_okD [OF heap_invD(5) [OF inv], of i] sl(2) by (simp_all add: partial_set_partial)
  have slabs: "slabs_ok own (Some p) h" using heap_invD(4) [OF inv] by simp
  note put = put_slab_ok [OF slabs own disjI2 [OF refl] sl'_ok]
  have "lists_ok qelems own None (set_partial i q' ?h)"
    unfolding lists_ok_def
  proof (intro allI impI)
    fix k assume "k < length (hp_classes (set_partial i q' ?h))"
    then have k: "k < length (hp_classes h)" by simp
    show "distinct (qelems (partial_slabs (set_partial i q' ?h) k)) \<and> set (qelems (partial_slabs (set_partial i q' ?h) k)) = has_room own None (set_partial i q' ?h) k"
    proof (cases "k = i")
      case True
      then show ?thesis using ql nq sl(2) by (simp add: partial_set_partial put(2) q'_def sl'a qelems_laws(2))
    next
      case False
      then show ?thesis using lists_okD [OF heap_invD(5) [OF inv], of k] k sl(2) by (simp add: partial_set_partial put(2))
    qed
  qed
  then have "heap_inv elems qelems hs N own big None (set_partial i q' ?h)"
    using inv put(1) by (simp add: heap_inv_def slab_blocks_def)
  moreover have "slab_objects own ?h = insert (?ptr, scm_size ?m) (slab_objects own h)"
    by (rule put_slab_objects [where own = own and h = h, OF own sl(1) lb(1)])
  ultimately show ?thesis using run fresh by auto
qed

lemma free_slab_step:
  assumes inv: "heap_inv elems qelems hs N own big None h" and own: "own p = Some i" "hp_slabs h (link_of p) = Some sl" "i < length (hp_classes h)"
    and q: "distinct (qelems q)" "set (qelems q) = has_room own (Some p) h i"
  shows "\<exists>st. free_virt_pages L (link_of p) (scm_slab_order (cm h i)) h = Some (h\<lparr>hp_pmm := st\<rparr>) \<and>
    heap_inv elems qelems hs N (own(p := None)) big None (set_partial i q (h\<lparr>hp_pmm := st, hp_slabs := (hp_slabs h)(link_of p := None)\<rparr>))"
proof -
  let ?k = "scm_slab_order (cm h i)" let ?own = "own(p := None)"
  have b: "(p, ?k) \<in> slab_blocks h own \<union> big" using slab_block_mem [of own p i h] own(1) by blast
  from free_virt_pages_run [OF heap_invD(2) [OF inv] b] obtain st where st: "free_virt_pages L (link_of p) ?k h = Some (h\<lparr>hp_pmm := st\<rparr>)"
    "blocks_ok elems N st (slab_blocks h own \<union> big - {(p, ?k)})" by blast
  let ?h = "h\<lparr>hp_pmm := st, hp_slabs := (hp_slabs h)(link_of p := None)\<rparr>"
  have nb: "(p, ?k) \<notin> big" using heap_invD(3) [OF inv, of p] own(1) by auto
  have "slab_blocks ?h ?own = slab_blocks h own - {(p, ?k)}"
  proof (intro equalityI subsetI)
    fix x assume "x \<in> slab_blocks h own - {(p, ?k)}"
    then obtain r j where x: "x = (r, scm_slab_order (cm h j))" "own r = Some j" "x \<noteq> (p, ?k)" by (auto simp: slab_blocks_def)
    then have "?own r = Some j" using own(1) by auto
    then show "x \<in> slab_blocks ?h ?own" using slab_block_mem [of ?own r j ?h] x(1) by simp
  qed (auto simp: slab_blocks_def split: if_splits)
  then have "slab_blocks ?h ?own \<union> big = slab_blocks h own \<union> big - {(p, ?k)}" using nb by blast
  moreover have "slabs_ok ?own None ?h" using heap_invD(4) [OF inv] unfolding slabs_ok_def by auto
  moreover have hr: "has_room ?own None ?h j = has_room own (Some p) h j" for j
    unfolding has_room_def by (intro Collect_cong ex_cong1) auto
  have "lists_ok qelems ?own None (set_partial i q ?h)"
    unfolding lists_ok_def
  proof (intro allI impI)
    fix j assume "j < length (hp_classes (set_partial i q ?h))"
    then have j: "j < length (hp_classes h)" by simp
    have "has_room own (Some p) h j = has_room own None h j" if "j \<noteq> i" using that own(1) by (auto simp: has_room_def)
    then show "distinct (qelems (partial_slabs (set_partial i q ?h) j)) \<and>
        set (qelems (partial_slabs (set_partial i q ?h) j)) = has_room ?own None (set_partial i q ?h) j"
      using lists_okD [OF heap_invD(5) [OF inv] j] q j own(3) unfolding has_room_set_partial hr by (simp add: partial_set_partial)
  qed
  moreover have "\<forall>r k. (r, k) \<in> big \<longrightarrow> ?own r = None" using heap_invD(3) [OF inv] by auto
  ultimately have "heap_inv elems qelems hs N ?own big None (set_partial i q ?h)"
    using heap_invD(1) [OF inv] st(2) by (simp add: heap_inv_def)
  with st(1) show ?thesis by blast
qed

lemma put_slab_step:
  assumes inv: "heap_inv elems qelems hs N own big None h" and own: "own p = Some i" "i < length (hp_classes h)"
    and sl: "slab_ok (cm h i) sl" "0 < sl_allocated sl"
    and q: "distinct (qelems q)" "set (qelems q) = has_room own None (put_slab p sl h) i"
  shows "heap_inv elems qelems hs N own big None (set_partial i q (put_slab p sl h))"
proof -
  let ?h = "put_slab p sl h"
  note put = put_slab_ok [OF heap_invD(4) [OF inv] own(1) disjI1 [OF refl] sl]
  have "lists_ok qelems own None (set_partial i q ?h)"
    unfolding lists_ok_def
  proof (intro allI impI)
    fix j assume "j < length (hp_classes (set_partial i q ?h))"
    then have j: "j < length (hp_classes h)" by simp
    have "has_room own (Some p) h j = has_room own None h j" if "j \<noteq> i" using that own(1) by (auto simp: has_room_def)
    then show "distinct (qelems (partial_slabs (set_partial i q ?h) j)) \<and>
        set (qelems (partial_slabs (set_partial i q ?h) j)) = has_room own None (set_partial i q ?h) j"
      using lists_okD [OF heap_invD(5) [OF inv] j] q j own(2) by (cases "j = i") (simp_all add: partial_set_partial put(2))
  qed
  then show ?thesis using inv put(1) by (simp add: heap_inv_def slab_blocks_def)
qed

lemma slab_of_object:
  assumes inv: "heap_inv elems qelems hs N own big hand h" and own: "own p = Some i" "i < length (hp_classes h)"
    and j: "j < scm_objects_per_slab (cm h i)" and ptr: "ptr = link_of p + first_off (cm h i) + j * scm_size (cm h i)"
  shows "slab_header_from_obj ptr (scm_slab_order (cm h i)) = Some (link_of p)"
proof -
  have m: "meta_ok hs (cm h i)" by (rule classes_okD(3) [OF heap_invD(1) [OF inv] own(2)])
  have "(p, scm_slab_order (cm h i)) \<in> slab_blocks h own" by (rule slab_block_mem [of own p i h, OF own(1)])
  then have "scm_slab_order (cm h i) < ORDER_COUNT" "2 ^ scm_slab_order (cm h i) dvd p" "p + 2 ^ scm_slab_order (cm h i) \<le> PHYS_MAP_MAX_PAGES"
    using heap_invD(2) [OF inv] by (auto simp: blocks_ok_def pmm_inv_def pmm_wf_def intro: le_trans)
  then show ?thesis by (rule slab_header_from_obj_run) (rule object_in_region(2) [OF m j ptr])
qed

lemma dealloc_keep_step:
  assumes inv: "heap_inv elems qelems hs N own big None h" and own: "own p = Some i" "hp_slabs h (link_of p) = Some sl" "i < length (hp_classes h)"
    and j: "j \<in> live_bits (cm h i) sl" and ptr: "ptr = link_of p + first_off (cm h i) + j * scm_size (cm h i)" and more: "1 < sl_allocated sl"
  shows "\<exists>q' h'. inner_deallocate L Q (cm h i) ptr (partial_slabs h i) h = Some (q', h') \<and> heap_inv elems qelems hs N own big None (set_partial i q' h') \<and>
    slab_objects own h = insert (ptr, scm_size (cm h i)) (slab_objects own h') \<and> ptr \<notin> fst ` (slab_objects own h' \<union> big_objects big) \<and>
    hp_classes h' = hp_classes h \<and> hp_mem h' = hp_mem h"
proof -
  let ?m = "cm h i" let ?n = "scm_objects_per_slab ?m" let ?q = "partial_slabs h i"
  have m: "meta_ok hs ?m" by (rule classes_okD(3) [OF heap_invD(1) [OF inv] own(3)])
  note fo = first_off_bounds [OF m]
  have jn: "j < ?n" "bits (sl_bitmap sl) j" using j by (simp_all add: live_bits_def)
  note hdr = slab_of_object [OF inv own(1,3) jn(1) ptr]
  from slabs_okD [OF heap_invD(4) [OF inv] own(1)] own(2) have ok: "slab_ok ?m sl" by (metis option.inject)
  then have len: "?n \<le> bm_len (sl_bitmap sl)" and alloc: "sl_allocated sl = card (live_bits ?m sl)" by (simp_all add: slab_ok_len) (simp add: slab_ok_def)
  obtain bm' where bm': "bm_unset (sl_bitmap sl) j = Some bm'" "bm_len bm' = bm_len (sl_bitmap sl)" "bits bm' = (bits (sl_bitmap sl))(j := False)"
    using bm.unset_spec [of j "sl_bitmap sl"] jn(1) len by auto
  define sl' where "sl' = \<lparr>sl_allocated = sl_allocated sl - 1, sl_bitmap = bm'\<rparr>"
  have sl'a: "sl_allocated sl' = sl_allocated sl - 1" by (simp add: sl'_def)
  have lb: "live_bits ?m sl' = live_bits ?m sl - {j}" using bm'(3) by (auto simp: live_bits_def sl'_def)
  then have sl'_ok: "slab_ok ?m sl'" "0 < sl_allocated sl'" using ok bm'(2) alloc j more by (simp_all add: slab_ok_def sl'_def card_Diff_singleton bm_len_def)
  have le: "sl_allocated sl \<le> ?n" unfolding alloc using card_mono [of "{..<?n}" "live_bits ?m sl"] by (auto simp: live_bits_def)
  let ?h = "put_slab p sl' h"
  define q' where "q' = (if sl_allocated sl = ?n then ll_push_front Q (link_of p) ?q else ?q)"
  note put = put_slab_ok [OF heap_invD(4) [OF inv] own(1) disjI1 [OF refl] sl'_ok]
  note ql = lists_okD [OF heap_invD(5) [OF inv] own(3)]
  have mem: "link_of p \<in> has_room own None h i \<longleftrightarrow> sl_allocated sl < ?n" using own by (auto simp: has_room_def)
  have room: "has_room own None ?h i = insert (link_of p) (has_room own None h i)"
  proof -
    have "sl_allocated sl - 1 < ?n" using le more by linarith
    then show ?thesis unfolding put(2) sl'a has_room_hand by simp
  qed
  have "distinct (qelems q') \<and> set (qelems q') = has_room own None ?h i"
    unfolding room q'_def using ql mem le by (cases "sl_allocated sl = ?n") (auto simp: qelems_laws(2))
  then have inv': "heap_inv elems qelems hs N own big None (set_partial i q' ?h)" using put_slab_step [OF inv own(1,3) sl'_ok] by blast
  have "ptr - link_of p = first_off ?m + j * scm_size ?m" using ptr by simp
  moreover have "0 < scm_size ?m" using m by (simp add: meta_ok_def)
  ultimately have "inner_deallocate L Q ?m ptr ?q h = Some (q', ?h)"
    using hdr own(2) fo(1) bm'(1) more le ptr by (auto simp: inner_deallocate_def usub_def udiv_def q'_def sl'_def Let_def)
  moreover have "live_bits (cm ?h i) sl = insert j (live_bits (cm ?h i) sl')" using lb j by auto
  then have "slab_objects own (put_slab p sl ?h) = insert (ptr, scm_size ?m) (slab_objects own ?h)"
    using put_slab_objects [where own = own and h = ?h and p = p and i = i and sl = sl' and sl' = sl and j = j] own(1) ptr by simp
  then have "slab_objects own h = insert (ptr, scm_size ?m) (slab_objects own ?h)" using own(2) by (simp add: fun_upd_idem)
  moreover have "ptr \<notin> fst ` (slab_objects own ?h \<union> big_objects big)"
    using object_fresh [OF inv' own(1), of sl' j] jn(1) lb ptr by simp
  ultimately show ?thesis using inv' by auto
qed

lemma dealloc_free_step:
  assumes inv: "heap_inv elems qelems hs N own big None h" and own: "own p = Some i" "hp_slabs h (link_of p) = Some sl" "i < length (hp_classes h)"
    and j: "j \<in> live_bits (cm h i) sl" and ptr: "ptr = link_of p + first_off (cm h i) + j * scm_size (cm h i)" and one: "sl_allocated sl = 1"
  shows "\<exists>q' h'. inner_deallocate L Q (cm h i) ptr (partial_slabs h i) h = Some (q', h') \<and> heap_inv elems qelems hs N (own(p := None)) big None (set_partial i q' h') \<and>
    slab_objects own h = insert (ptr, scm_size (cm h i)) (slab_objects (own(p := None)) h') \<and> ptr \<notin> fst ` (slab_objects (own(p := None)) h' \<union> big_objects big) \<and>
    hp_classes h' = hp_classes h \<and> hp_mem h' = hp_mem h"
proof -
  let ?m = "cm h i" let ?n = "scm_objects_per_slab ?m" let ?q = "partial_slabs h i" let ?own = "own(p := None)"
  have m: "meta_ok hs ?m" by (rule classes_okD(3) [OF heap_invD(1) [OF inv] own(3)])
  have jn: "j < ?n" using j by (simp add: live_bits_def)
  note hdr = slab_of_object [OF inv own(1,3) jn ptr]
  from slabs_okD [OF heap_invD(4) [OF inv] own(1)] own(2) have ok: "slab_ok ?m sl" by (metis option.inject)
  then have "card (live_bits ?m sl) = 1" using one by (simp add: slab_ok_def)
  then have lb: "live_bits ?m sl = {j}" using j by (auto simp: card_1_singleton_iff)
  note ql = lists_okD [OF heap_invD(5) [OF inv] own(3)]
  define q' where "q' = (if 1 < ?n then ll_remove Q (link_of p) ?q else ?q)"
  have mem: "link_of p \<in> has_room own None h i \<longleftrightarrow> 1 < ?n" using own one by (auto simp: has_room_def)
  have "distinct (qelems q') \<and> set (qelems q') = has_room own (Some p) h i"
    unfolding q'_def has_room_hand using ql mem by (cases "1 < ?n") (simp_all add: qelems_laws(3))
  then obtain st where st: "free_virt_pages L (link_of p) (scm_slab_order ?m) h = Some (h\<lparr>hp_pmm := st\<rparr>)"
    "heap_inv elems qelems hs N ?own big None (set_partial i q' (h\<lparr>hp_pmm := st, hp_slabs := (hp_slabs h)(link_of p := None)\<rparr>))"
    using free_slab_step [OF inv own] by blast
  let ?h = "h\<lparr>hp_pmm := st, hp_slabs := (hp_slabs h)(link_of p := None)\<rparr>"
  have run: "inner_deallocate L Q ?m ptr ?q h = Some (q', ?h)"
    using hdr own(2) one st(1) ql(2) mem by (simp add: inner_deallocate_def usub_def q'_def uassert_def is_linked)
  have obj: "slab_objects own h = insert (ptr, scm_size ?m) (slab_objects ?own ?h)"
  proof (intro equalityI subsetI)
    fix y assume "y \<in> slab_objects own h"
    then obtain r i' sl1 j' where y: "y = (link_of r + first_off (cm h i') + j' * scm_size (cm h i'), scm_size (cm h i'))" "own r = Some i'"
      "hp_slabs h (link_of r) = Some sl1" "j' \<in> live_bits (cm h i') sl1" by (auto simp: slab_objects_def)
    show "y \<in> insert (ptr, scm_size ?m) (slab_objects ?own ?h)"
    proof (cases "r = p")
      case True
      then show ?thesis using y own lb ptr by simp
    next
      case False
      then show ?thesis using y unfolding slab_objects_def by fastforce
    qed
  next
    fix y assume "y \<in> insert (ptr, scm_size ?m) (slab_objects ?own ?h)"
    then show "y \<in> slab_objects own h" using own j ptr by (auto simp: slab_objects_def split: if_splits)
  qed
  have "ptr \<notin> fst ` (slab_objects ?own ?h \<union> big_objects big)"
  proof
    have r: "ptr \<in> region p (scm_slab_order ?m)" by (rule object_in_region(2) [OF m jn ptr])
    assume "ptr \<in> fst ` (slab_objects ?own ?h \<union> big_objects big)"
    then consider (slab) q i' sl' j' where "ptr = link_of q + first_off (cm h i') + j' * scm_size (cm h i')" "own q = Some i'" "q \<noteq> p"
        "j' \<in> live_bits (cm h i') sl'"
      | (big) q k where "ptr = link_of q" "(q, k) \<in> big"
      by (auto simp: slab_objects_def big_objects_def image_Un split: if_splits)
    then show False
    proof cases
      case slab
      have "ptr \<in> region q (scm_slab_order (cm h i'))"
        using slab(4) by (intro object_in_region(2) [OF heap_meta_ok(1) [OF inv slab(2)] _ slab(1)]) (simp add: live_bits_def)
      then show False using slab_address [OF inv own(1) slab(2) r] slab(3) by blast
    next
      case big
      then have "ptr \<in> region q k" by (simp add: region_def)
      then show False by (rule big_address [OF inv own(1) big(2) r])
    qed
  qed
  with run st(2) obj show ?thesis by auto
qed

lemma size_class_allocate_run:
  assumes inv: "heap_inv elems qelems hs N own big None h" and i: "i < length (hp_classes h)"
  shows "\<exists>r h' own'. size_class_allocate L Q i h = Some (r, h') \<and> heap_inv elems qelems hs N own' big None h' \<and> hp_mem h' = hp_mem h \<and>
    (case r of Inl e \<Rightarrow> slab_objects own' h' = slab_objects own h \<and> h' = h \<and> no_block elems (hp_pmm h) (scm_slab_order (cm h i))
     | Inr ptr \<Rightarrow> slab_objects own' h' = insert (ptr, sc_size (hp_classes h ! i)) (slab_objects own h) \<and>
         ptr \<notin> fst ` (slab_objects own h \<union> big_objects big))"
proof -
  have same: "set_partial i (partial_slabs h i) h = h" by (simp add: set_partial_def)
  from inner_take_run [OF inv i] show ?thesis
  proof (elim disjE exE conjE)
    assume t: "inner_take L Q (cm h i) (partial_slabs h i) h = Some (None, partial_slabs h i, h)" "no_block elems (hp_pmm h) (scm_slab_order (cm h i))"
    then have "size_class_allocate L Q i h = Some (Inl HeapAllocError, h)" by (simp add: size_class_allocate_def inner_allocate_def same)
    then show ?thesis using inv t(2) by auto
  next
    fix p q h1 own' assume t: "inner_take L Q (cm h i) (partial_slabs h i) h = Some (Some (link_of p), q, h1)" "own' p = Some i"
      "heap_inv elems qelems hs N own' big (Some p) (set_partial i q h1)" "slab_objects own' h1 = slab_objects own h" "hp_classes h1 = hp_classes h" "hp_mem h1 = hp_mem h"
    from inner_claim_run [OF t(3,2)] t(4,5,6) obtain ptr q' h' where c: "inner_claim Q (cm h i) (link_of p) q h1 = Some (ptr, q', h')"
      "heap_inv elems qelems hs N own' big None (set_partial i q' h')" "slab_objects own' h' = insert (ptr, scm_size (cm h i)) (slab_objects own h)"
      "ptr \<notin> fst ` (slab_objects own h \<union> big_objects big)" "hp_mem h' = hp_mem h" by auto
    have "size_class_allocate L Q i h = Some (Inr ptr, set_partial i q' h')"
      by (simp add: size_class_allocate_def inner_allocate_def t(1) c(1))
    then show ?thesis using c by (auto simp: sc_size_def)
  qed
qed

lemma size_class_deallocate_run:
  assumes inv: "heap_inv elems qelems hs N own big None h" and own: "own p = Some i" "hp_slabs h (link_of p) = Some sl" "j \<in> live_bits (cm h i) sl"
    and ptr: "ptr = link_of p + first_off (cm h i) + j * scm_size (cm h i)"
  shows "\<exists>h' own'. size_class_deallocate L Q i ptr h = Some h' \<and> heap_inv elems qelems hs N own' big None h' \<and> hp_mem h' = hp_mem h \<and>
    slab_objects own' h' \<union> big_objects big = slab_objects own h \<union> big_objects big - {(ptr, scm_size (cm h i))}"
proof -
  have i: "i < length (hp_classes h)" by (rule heap_meta_ok(2) [OF inv own(1)])
  from slabs_okD [OF heap_invD(4) [OF inv] own(1)] own(2) have "0 < sl_allocated sl" by (metis option.distinct(1) option.inject)
  then have "sl_allocated sl = 1 \<or> 1 < sl_allocated sl" by linarith
  then obtain q' h' own' where d: "inner_deallocate L Q (cm h i) ptr (partial_slabs h i) h = Some (q', h')"
    "heap_inv elems qelems hs N own' big None (set_partial i q' h')" "slab_objects own h = insert (ptr, scm_size (cm h i)) (slab_objects own' h')"
    "ptr \<notin> fst ` (slab_objects own' h' \<union> big_objects big)" "hp_mem h' = hp_mem h"
    using dealloc_free_step [OF inv own(1,2) i own(3) ptr] dealloc_keep_step [OF inv own(1,2) i own(3) ptr] by (elim disjE) metis+
  have "(ptr, scm_size (cm h i)) \<notin> slab_objects own' h' \<union> big_objects big" using d(4) by (force simp: image_iff)
  then have "slab_objects own' h' \<union> big_objects big = slab_objects own h \<union> big_objects big - {(ptr, scm_size (cm h i))}"
    unfolding d(3) by blast
  moreover have "size_class_deallocate L Q i ptr h = Some (set_partial i q' h')" by (simp add: size_class_deallocate_def d(1))
  ultimately show ?thesis using d(2,5) by auto
qed

end

end
