(* ===== verification/Heap_Run.thy ===== *)
theory Heap_Run
  imports Heap_Inv
begin

text \<open>
  The allocator over all size classes and large blocks, runs of calls to the heap, and the properties of the heap.
\<close>

definition heap_objects :: "(pfn \<Rightarrow> nat option) \<Rightarrow> (pfn \<times> nat) set \<Rightarrow> ('q, 'l) heap \<Rightarrow> (virt_addr \<times> usize) set" where
  "heap_objects own big h = slab_objects own h \<union> big_objects big"

lemma classes_same:
  assumes "classes_ok hs cs" "classes_ok hs cs'"
  shows "get_size_class cs e = get_size_class cs' e" "usable_size cs e = usable_size cs' e" "i < length cs \<Longrightarrow> sc_size (cs ! i) = sc_size (cs' ! i)"
proof -
  note sizes = classes_okD(1) [OF assms(1)] classes_okD(1) [OF assms(2)] and len = classes_okD(2) [OF assms(1)] classes_okD(2) [OF assms(2)]
  have s: "sc_size (cs ! i) = sc_size (cs' ! i)" if "i < length cs" for i
    using arg_cong [OF sizes(1), of "\<lambda>l. l ! i"] arg_cong [OF sizes(2), of "\<lambda>l. l ! i"] that len by simp
  show "i < length cs \<Longrightarrow> sc_size (cs ! i) = sc_size (cs' ! i)" by (rule s)
  show g: "get_size_class cs e = get_size_class cs' e"
    by (simp add: get_size_class_def binary_search_by_key_def sizes len)
  show "usable_size cs e = usable_size cs' e"
  proof (cases "get_size_class cs' e")
    case (Some i)
    then have "i < length cs" using g get_size_class_spec(1) [OF assms(1), of e i] by simp
    then show ?thesis using Some g s by (simp add: usable_size_def)
  qed (use g in \<open>simp add: usable_size_def\<close>)
qed

lemma class_size_inj:
  assumes "classes_ok hs cs" "i < length cs" "j < length cs" "sc_size (cs ! i) = sc_size (cs ! j)"
  shows "i = j"
proof -
  have "distinct (map sc_size cs)" using table_sorted unfolding classes_okD(1) [OF assms(1)] by (rule strict_sorted_iff [THEN iffD1, THEN conjunct2])
  then show ?thesis using assms(2-4) nth_eq_iff_index_eq [of "map sc_size cs" i j] by simp
qed

lemma slab_objects_small:
  assumes "heap_inv elems qelems hs N own big hand h" "(a, u) \<in> slab_objects own h"
  shows "u \<le> 2048"
proof -
  obtain p i where p: "own p = Some i" "u = scm_size (cm h i)" using assms(2) by (auto simp: slab_objects_def)
  then show ?thesis using class_size_bounds(2) [OF heap_invD(1) [OF assms(1)] heap_meta_ok(2) [OF assms(1) p(1)]] by (simp add: sc_size_def)
qed

lemma big_objects_large: "(a, u) \<in> big_objects big \<Longrightarrow> 4096 \<le> u"
  using one_le_power [of "2::nat"] by (auto simp: big_objects_def)

lemma big_objects_remove: "big_objects (big - {(p, k)}) = big_objects big - {(link_of p, 4096 * 2 ^ k)}"
  by (auto simp: big_objects_def)

lemma slab_blocks_pmm [simp]: "slab_blocks (h\<lparr>hp_pmm := st\<rparr>) own = slab_blocks h own"
  by (simp add: slab_blocks_def)

lemma slab_objects_pmm [simp]: "slab_objects own (h\<lparr>hp_pmm := st\<rparr>) = slab_objects own h"
  by (simp add: slab_objects_def)

lemma heap_inv_pmm:
  assumes "heap_inv elems qelems hs N own big hand h" "blocks_ok elems N st (slab_blocks h own \<union> big')" "\<forall>p k. (p, k) \<in> big' \<longrightarrow> own p = None"
  shows "heap_inv elems qelems hs N own big' hand (h\<lparr>hp_pmm := st\<rparr>)"
  using assms by (simp add: heap_inv_def slabs_ok_def lists_ok_def has_room_def)

lemma heap_inv_mem [simp]: "heap_inv elems qelems hs N own big hand (h\<lparr>hp_mem := m\<rparr>) \<longleftrightarrow> heap_inv elems qelems hs N own big hand h"
  by (simp add: heap_inv_def slabs_ok_def lists_ok_def has_room_def slab_blocks_def)

lemma heap_objects_mem [simp]: "heap_objects own big (h\<lparr>hp_mem := m\<rparr>) = heap_objects own big h"
  by (simp add: heap_objects_def slab_objects_def)

section \<open>Where objects lie\<close>

lemma object_place:
  assumes inv: "heap_inv elems qelems hs N own big hand h" and a: "(a, u) \<in> heap_objects own big h"
  obtains (slab) p i sl j where "own p = Some i" "hp_slabs h (link_of p) = Some sl" "j \<in> live_bits (cm h i) sl"
      "a = link_of p + first_off (cm h i) + j * scm_size (cm h i)" "u = scm_size (cm h i)" "{a..<a + u} \<subseteq> region p (scm_slab_order (cm h i))"
  | (big) p k where "(p, k) \<in> big" "a = link_of p" "u = 4096 * 2 ^ k" "{a..<a + u} = region p k"
proof -
  from a consider p i sl j where "own p = Some i" "hp_slabs h (link_of p) = Some sl" "j \<in> live_bits (cm h i) sl"
      "a = link_of p + first_off (cm h i) + j * scm_size (cm h i)" "u = scm_size (cm h i)"
    | p k where "(p, k) \<in> big" "a = link_of p" "u = 4096 * 2 ^ k"
    by (auto simp: heap_objects_def slab_objects_def big_objects_def)
  then show thesis
  proof cases
    case c: 1
    have "{a..<a + u} \<subseteq> region p (scm_slab_order (cm h i))"
      unfolding c(5) using c(3) by (intro object_in_region(1) [OF heap_meta_ok(1) [OF inv c(1)] _ c(4)]) (simp add: live_bits_def)
    with c show thesis by (rule slab)
  next
    case c: 2
    then have "{a..<a + u} = region p k" by (simp add: region_def)
    with c show thesis by (rule big)
  qed
qed

lemma object_block:
  assumes inv: "heap_inv elems qelems hs N own big hand h" and a: "(a, u) \<in> heap_objects own big h"
  obtains p k where "(p, k) \<in> slab_blocks h own \<union> big" "{a..<a + u} \<subseteq> region p k"
  using object_place [OF inv a] slab_block_mem [of own _ _ h] by (metis UnI1 UnI2 order_refl)

lemma objects_disjoint:
  assumes inv: "heap_inv elems qelems hs N own big hand h"
    and a: "(a, u) \<in> heap_objects own big h" and b: "(b, v) \<in> heap_objects own big h" and ne: "(a, u) \<noteq> (b, v)"
  shows "{a..<a + u} \<inter> {b..<b + v} = {}"
proof (rule ccontr)
  assume "{a..<a + u} \<inter> {b..<b + v} \<noteq> {}"
  then obtain x where x: "x \<in> {a..<a + u}" "x \<in> {b..<b + v}" by blast
  note bl = heap_invD(2) [OF inv]
  from inv a show False
  proof (cases rule: object_place)
    case s: (slab p i sl j)
    from inv b show False
    proof (cases rule: object_place)
      case t: (slab q i' sl' j')
      have "p = q" using slab_address [OF inv s(1) t(1)] x s(6) t(6) by blast
      then have e: "i' = i" "sl' = sl" using s(1,2) t(1,2) by auto
      have "j \<noteq> j'" using ne s t e \<open>p = q\<close> by auto
      then have "j * u + u \<le> j' * u \<or> j' * u + u \<le> j * u"
        by (metis Suc_leI add.commute linorder_neqE_nat mult_Suc mult_le_mono1)
      then show False using x s(4,5) t(4,5) e \<open>p = q\<close> by auto
    next
      case t: (big q k)
      then show False using big_address [OF inv s(1) t(1)] x s(6) t(4) by blast
    qed
  next
    case s: (big p k)
    from inv b show False
    proof (cases rule: object_place)
      case t: (slab q i sl j)
      then show False using big_address [OF inv t(1) s(1)] x s(4) t(6) by blast
    next
      case t: (big q k')
      have "p = q" "k = k'" using blocks_regions [OF bl UnI2 [OF s(1)] UnI2 [OF t(1)]] x s(4) t(4) by blast+
      then show False using ne s t by simp
    qed
  qed
qed

text \<open>An object overlaps no header or bitmap of a slab.\<close>

lemma object_metadata:
  assumes inv: "heap_inv elems qelems hs N own big hand h" and a: "(a, u) \<in> heap_objects own big h" and q: "own q = Some i'"
  shows "{a..<a + u} \<inter> {link_of q..<link_of q + hs + (scm_objects_per_slab (cm h i') + 7) div 8} = {}"
proof (rule ccontr)
  let ?k = "scm_slab_order (cm h i')"
  have m: "meta_ok hs (cm h i')" by (rule heap_meta_ok(1) [OF inv q])
  have le: "hs + (scm_objects_per_slab (cm h i') + 7) div 8 \<le> slab_bytes (cm h i')" using m by (simp add: meta_ok_def slab_need_def)
  assume "\<not> ?thesis"
  then obtain x where "x \<in> {a..<a + u}" "x \<in> {link_of q..<link_of q + hs + (scm_objects_per_slab (cm h i') + 7) div 8}" by blast
  then have x: "x \<in> {a..<a + u}" "link_of q \<le> x" "x < link_of q + hs + (scm_objects_per_slab (cm h i') + 7) div 8" by simp_all
  then have xq: "x \<in> region q ?k" using le by (auto simp: region_def slab_bytes_def)
  from inv a show False
  proof (cases rule: object_place)
    case s: (slab p i sl j)
    have "p = q" using slab_address [OF inv s(1) q _ xq] x(1) s(6) by blast
    then have i: "i = i'" using s(1) q by simp
    have "link_of p + hs + (scm_objects_per_slab (cm h i) + 7) div 8 \<le> a"
      using s(3) i m by (intro object_in_region(3) [OF _ _ s(4)]) (simp_all add: live_bits_def)
    then show False using x i \<open>p = q\<close> by simp
  next
    case s: (big p k)
    then show False using big_address [OF inv q s(1) xq] x(1) by blast
  qed
qed

text \<open>The order of the block of frames that a request may need.\<close>

definition block_order :: "'q size_class list \<Rightarrow> usize \<Rightarrow> usize" where
  "block_order cs e = (case get_size_class cs e of Some i \<Rightarrow> scm_slab_order (sc_meta (cs ! i)) | None \<Rightarrow> the (raw_page_order e))"

context heap_lists
begin

lemma allocator_allocate_run:
  assumes inv: "heap_inv elems qelems hs N own big None h" and e: "0 < e" "e \<le> ISIZE_MAX"
  shows "\<exists>r h' own' big'. allocator_allocate L Q e h = Some (r, h') \<and> heap_inv elems qelems hs N own' big' None h' \<and> hp_mem h' = hp_mem h \<and>
    (case r of Inl err \<Rightarrow> heap_objects own' big' h' = heap_objects own big h \<and> h' = h \<and> no_block elems (hp_pmm h) (block_order (hp_classes h) e)
     | Inr (ptr, len) \<Rightarrow> usable_size (hp_classes h) e = Some len \<and> heap_objects own' big' h' = insert (ptr, len) (heap_objects own big h) \<and>
         ptr \<notin> fst ` heap_objects own big h)"
proof (cases "get_size_class (hp_classes h) e")
  case (Some i)
  then have "i < length (hp_classes h)" using get_size_class_spec(1) [OF heap_invD(1) [OF inv]] by blast
  from size_class_allocate_run [OF inv this] obtain r h' own' where r: "size_class_allocate L Q i h = Some (r, h')"
    "heap_inv elems qelems hs N own' big None h'" "hp_mem h' = hp_mem h"
    "case r of Inl e \<Rightarrow> slab_objects own' h' = slab_objects own h \<and> h' = h \<and> no_block elems (hp_pmm h) (scm_slab_order (cm h i))
     | Inr ptr \<Rightarrow> slab_objects own' h' = insert (ptr, sc_size (hp_classes h ! i)) (slab_objects own h) \<and>
         ptr \<notin> fst ` (slab_objects own h \<union> big_objects big)" by blast
  show ?thesis
    by (rule exI [of _ "case r of Inl e \<Rightarrow> Inl e | Inr ptr \<Rightarrow> Inr (ptr, sc_size (hp_classes h ! i))"], rule exI [of _ h'], rule exI [of _ own'], rule exI [of _ big])
      (use r Some in \<open>auto simp: allocator_allocate_def usable_size_def heap_objects_def block_order_def split: sum.splits\<close>)
next
  case None
  obtain k where k: "raw_page_order e = Some k" "ushl PAGE_SIZE k = Some (4096 * 2 ^ k)" using raw_page_order_run [OF e(2)] by blast
  from alloc_virt_pages_run [OF heap_invD(2) [OF inv], of k] show ?thesis
  proof (elim disjE exE conjE)
    assume a: "alloc_virt_pages L k h = Some (None, h)" "no_block elems (hp_pmm h) k"
    then have "allocator_allocate L Q e h = Some (Inl HeapAllocError, h)" using None k(1) by (simp add: allocator_allocate_def)
    moreover have "block_order (hp_classes h) e = k" using None k(1) by (simp add: block_order_def)
    ultimately show ?thesis using inv a(2) by auto
  next
    fix p st assume a: "alloc_virt_pages L k h = Some (Some (link_of p), h\<lparr>hp_pmm := st\<rparr>)" "blocks_ok elems N st (insert (p, k) (slab_blocks h own \<union> big))"
      "\<forall>q j. (q, j) \<in> slab_blocks h own \<union> big \<longrightarrow> blk k p \<inter> blk j q = {}"
    have far: "link_of p \<notin> region q j" if "(q, j) \<in> slab_blocks h own \<union> big" for q j
    proof -
      have "region p k \<inter> region q j = {}" by (rule region_disjoint) (use a(3) that in blast)
      moreover have "link_of p \<in> region p k" by (simp add: region_def)
      ultimately show ?thesis by blast
    qed
    have "link_of p \<noteq> link_of q" if "(q, j) \<in> slab_blocks h own \<union> big" for q j using far [OF that] by (auto simp: region_def)
    then have op: "own p = None" using slab_block_mem [of own p _ h] by (cases "own p") auto
    have "link_of p \<notin> fst ` heap_objects own big h"
    proof
      assume "link_of p \<in> fst ` heap_objects own big h"
      then consider (slab) q i sl j where "link_of p = link_of q + first_off (cm h i) + j * scm_size (cm h i)" "own q = Some i" "j \<in> live_bits (cm h i) sl"
        | (big) q j where "link_of p = link_of q" "(q, j) \<in> big"
        by (auto simp: heap_objects_def slab_objects_def big_objects_def image_Un)
      then show False
      proof cases
        case slab
        have "link_of p \<in> region q (scm_slab_order (cm h i))"
          using slab(3) by (intro object_in_region(2) [OF heap_meta_ok(1) [OF inv slab(2)] _ slab(1)]) (simp add: live_bits_def)
        then show False using far slab_block_mem [of own q i h] slab(2) by blast
      next
        case big
        then show False using far [of q j] by (simp add: region_def)
      qed
    qed
    moreover have "heap_inv elems qelems hs N own (insert (p, k) big) None (h\<lparr>hp_pmm := st\<rparr>)"
      using heap_inv_pmm [OF inv, of st "insert (p, k) big"] a(2) op heap_invD(3) [OF inv] by auto
    moreover have "heap_objects own (insert (p, k) big) (h\<lparr>hp_pmm := st\<rparr>) = insert (link_of p, 4096 * 2 ^ k) (heap_objects own big h)"
      by (auto simp: heap_objects_def big_objects_def)
    moreover have "allocator_allocate L Q e h = Some (Inr (link_of p, 4096 * 2 ^ k), h\<lparr>hp_pmm := st\<rparr>)"
      using None k a(1) by (simp add: allocator_allocate_def)
    moreover have "usable_size (hp_classes h) e = Some (4096 * 2 ^ k)" using None k by (simp add: usable_size_def)
    ultimately show ?thesis by force
  qed
qed

lemma allocator_deallocate_run:
  assumes inv: "heap_inv elems qelems hs N own big None h" and e: "0 < e" "e \<le> ISIZE_MAX"
    and u: "usable_size (hp_classes h) e = Some u" "(ptr, u) \<in> heap_objects own big h"
  shows "\<exists>h' own' big'. allocator_deallocate L Q ptr e h = Some h' \<and> heap_inv elems qelems hs N own' big' None h' \<and> hp_mem h' = hp_mem h \<and>
    heap_objects own' big' h' = heap_objects own big h - {(ptr, u)}"
proof (cases "get_size_class (hp_classes h) e")
  case (Some i)
  note ok = heap_invD(1) [OF inv]
  have i: "i < length (hp_classes h)" using Some get_size_class_spec(1) [OF ok] by blast
  have us: "u = sc_size (hp_classes h ! i)" using u(1) Some by (simp add: usable_size_def)
  then have "u \<le> 2048" using class_size_bounds(2) [OF ok i] by simp
  then have "(ptr, u) \<in> slab_objects own h" using u(2) big_objects_large [of ptr u big] by (auto simp: heap_objects_def)
  then obtain p i' sl j where p: "own p = Some i'" "hp_slabs h (link_of p) = Some sl" "j \<in> live_bits (cm h i') sl"
    "ptr = link_of p + first_off (cm h i') + j * scm_size (cm h i')" "u = scm_size (cm h i')" by (auto simp: slab_objects_def)
  have "i' = i" using class_size_inj [OF ok heap_meta_ok(2) [OF inv p(1)] i] us p(5) by (simp add: sc_size_def)
  then show ?thesis using size_class_deallocate_run [OF inv p(1-4)] p(5) Some by (auto simp: allocator_deallocate_def heap_objects_def)
next
  case None
  obtain k where k: "raw_page_order e = Some k" "ushl PAGE_SIZE k = Some (4096 * 2 ^ k)" using raw_page_order_run [OF e(2)] by blast
  then have uk: "u = 4096 * 2 ^ k" using u(1) None by (simp add: usable_size_def)
  then have "\<not> u \<le> 2048" using one_le_power [of "2::nat" k] by linarith
  then have "(ptr, u) \<in> big_objects big" using u(2) slab_objects_small [OF inv, of ptr u] by (auto simp: heap_objects_def)
  then obtain p where p: "ptr = link_of p" "(p, k) \<in> big" using uk by (auto simp: big_objects_def)
  from free_virt_pages_run [OF heap_invD(2) [OF inv] UnI2 [OF p(2)]] obtain st where
    st: "free_virt_pages L (link_of p) k h = Some (h\<lparr>hp_pmm := st\<rparr>)" "blocks_ok elems N st (slab_blocks h own \<union> big - {(p, k)})" by blast
  have op: "own p = None" by (rule heap_invD(3) [OF inv p(2)])
  then have "(p, k) \<notin> slab_blocks h own" by (auto simp: slab_blocks_def)
  then have "slab_blocks h own \<union> big - {(p, k)} = slab_blocks h own \<union> (big - {(p, k)})" by blast
  then have "heap_inv elems qelems hs N own (big - {(p, k)}) None (h\<lparr>hp_pmm := st\<rparr>)"
    using heap_inv_pmm [OF inv, of st "big - {(p, k)}"] st(2) heap_invD(3) [OF inv] by auto
  moreover have "(ptr, u) \<notin> slab_objects own h" using slab_objects_small [OF inv, of ptr u] \<open>\<not> u \<le> 2048\<close> by blast
  then have "heap_objects own (big - {(p, k)}) (h\<lparr>hp_pmm := st\<rparr>) = heap_objects own big h - {(ptr, u)}"
    using p(1) uk by (auto simp: heap_objects_def big_objects_remove)
  moreover have "allocator_deallocate L Q ptr e h = Some (h\<lparr>hp_pmm := st\<rparr>)" using None k(1) st(1) p(1) by (simp add: allocator_deallocate_def)
  ultimately show ?thesis by force
qed

end

section \<open>Runs\<close>

text \<open>The memory an allocation with a layout may use.\<close>

definition room :: "'q size_class list \<Rightarrow> layout \<Rightarrow> usize option" where
  "room cs l = do { e \<leftarrow> get_effective_size l; usable_size cs e }"

lemma room_run:
  assumes "classes_ok hs cs" "layout_ok l"
  obtains e u where "get_effective_size l = Some e" "0 < e" "e \<le> ISIZE_MAX" "ly_size l \<le> e" "ly_align l dvd e"
    "usable_size cs e = Some u" "room cs l = Some u" "ly_size l \<le> u"
proof -
  obtain e where e: "get_effective_size l = Some e" "0 < e" "e \<le> ISIZE_MAX" "ly_size l \<le> e" "ly_align l dvd e"
    using effective_size_run(1) [OF assms(2)] by blast
  from usable_size_run [OF assms(1) e(2,3)] obtain u where "usable_size cs e = Some u" "e \<le> u" by blast
  with e that show thesis by (simp add: room_def)
qed

lemma usable_size_cases:
  assumes ok: "classes_ok hs cs" and e: "0 < e" "e \<le> ISIZE_MAX" "usable_size cs e = Some u"
  obtains (slab) i where "get_size_class cs e = Some i" "u = sc_size (cs ! i)" "0 < u" "u \<le> 2048"
  | (big) k where "get_size_class cs e = None" "raw_page_order e = Some k" "u = 4096 * 2 ^ k" "e \<le> u" "2048 < u"
proof (cases "get_size_class cs e")
  case None
  obtain k where "raw_page_order e = Some k" "e \<le> 4096 * 2 ^ k" "ushl PAGE_SIZE k = Some (4096 * 2 ^ k)"
    using raw_page_order_run [OF e(2)] by blast
  moreover have "(2048::nat) < 4096 * 2 ^ k" using one_le_power [of "2::nat" k] by linarith
  ultimately show thesis using None e(3) big [of k] by (simp add: usable_size_def)
next
  case (Some i)
  then have "i < length cs" using get_size_class_spec(1) [OF ok] by blast
  then show thesis using Some e(3) slab [of i] class_size_bounds [OF ok, of i] by (simp add: usable_size_def)
qed

lemma object_aligned:
  assumes inv: "heap_inv elems qelems hs N own big hand h" and a: "(a, u) \<in> heap_objects own big h"
    and l: "layout_ok l" "room (hp_classes h) l = Some u"
  shows "ly_align l dvd a"
proof -
  note ok = heap_invD(1) [OF inv]
  obtain t where t: "ly_align l = 2 ^ t" using effective_size_run(2) [OF l(1)] by blast
  from ok l(1) obtain e where e: "0 < e" "e \<le> ISIZE_MAX" "2 ^ t dvd e" "usable_size (hp_classes h) e = Some u"
    by (rule room_run) (use l(2) t in auto)
  have al: "4096 * 2 ^ k dvd link_of p" if "(p, k) \<in> slab_blocks h own \<union> big" for p k
    using heap_invD(2) [OF inv] that link_aligned by (auto simp: blocks_ok_def)
  from ok e(1,2,4) show ?thesis
  proof (cases rule: usable_size_cases)
    case u: (slab i')
    then obtain p i sl j where s: "own p = Some i" "a = link_of p + first_off (cm h i) + j * scm_size (cm h i)" "u = scm_size (cm h i)"
      using a big_objects_large [of a u big] by (auto simp: heap_objects_def slab_objects_def)
    have tu: "2 ^ t dvd u" using class_aligned [OF ok u(1) e(1,3)] u(2) by simp
    then have "(2::nat) ^ t \<le> 2048" using u(3,4) dvd_imp_le [of "2 ^ t" u] by linarith
    also have "(2048::nat) = 2 ^ 11" by simp
    finally have "t \<le> 12" using power_le_imp_le_exp [of "2::nat" t 11] by simp
    then have d: "(2::nat) ^ t dvd 4096" using le_imp_power_dvd [of t 12 "2::nat"] by simp
    have m: "meta_ok hs (cm h i)" by (rule heap_meta_ok(1) [OF inv s(1)])
    have "2 ^ t dvd link_of p" using al [of p "scm_slab_order (cm h i)"] slab_block_mem [of own p i h] s(1) d by (metis UnI1 dvd_mult_left dvd_trans)
    moreover have "2 ^ t dvd slab_bytes (cm h i)" using d by (simp add: slab_bytes_def)
    then have "2 ^ t dvd first_off (cm h i)"
      using first_off_bounds(4) [OF m] tu s(3) by (metis dvd_add_left_iff dvd_mult)
    ultimately show ?thesis using s(2,3) tu t by simp
  next
    case u: (big k)
    then have "(a, u) \<in> big_objects big" using a slab_objects_small [OF inv, of a u] by (auto simp: heap_objects_def)
    then obtain p where p: "(p, k) \<in> big" "a = link_of p" using u(3) by (auto simp: big_objects_def)
    have "(4096::nat) * 2 ^ k = 2 ^ (12 + k)" by (simp add: power_add)
    moreover have "(2::nat) ^ t \<le> 4096 * 2 ^ k" using dvd_imp_le [OF e(3,1)] u(3,4) by linarith
    ultimately have "t \<le> 12 + k" using power_le_imp_le_exp [of "2::nat" t "12 + k"] by simp
    then have "(2::nat) ^ t dvd 4096 * 2 ^ k" using le_imp_power_dvd [of t "12 + k" "2::nat"] by (simp add: power_add)
    then show ?thesis using al [of p k] p t by (auto intro: dvd_trans)
  qed
qed

text \<open>The calls of a client that keeps the safety conditions: it frees and resizes only what it held_objects, with the layout it was given.\<close>

record ('q, 'l) heap_run =
  run_heap :: "('q, 'l) heap"
  run_held :: "(virt_addr \<times> layout) set"

inductive heap_reach :: "(virt_addr, 'l) ll_ops \<Rightarrow> (virt_addr, 'q) slab_list_ops \<Rightarrow> ('q, 'l) heap \<Rightarrow> ('q, 'l) heap_run \<Rightarrow> bool"
  for L Q h0 where
  reach_start: "heap_reach L Q h0 \<lparr>run_heap = h0, run_held = {}\<rparr>"
| reach_allocate: "heap_reach L Q h0 s \<Longrightarrow> layout_ok l \<Longrightarrow> heap_allocate L Q l (run_heap s) = Some (Inr (ptr, len), h) \<Longrightarrow>
    heap_reach L Q h0 \<lparr>run_heap = h, run_held = insert (ptr, l) (run_held s)\<rparr>"
| reach_allocate_fail: "heap_reach L Q h0 s \<Longrightarrow> layout_ok l \<Longrightarrow> heap_allocate L Q l (run_heap s) = Some (Inl e, h) \<Longrightarrow>
    heap_reach L Q h0 \<lparr>run_heap = h, run_held = run_held s\<rparr>"
| reach_deallocate: "heap_reach L Q h0 s \<Longrightarrow> (ptr, l) \<in> run_held s \<Longrightarrow> heap_deallocate L Q ptr l (run_heap s) = Some h \<Longrightarrow>
    heap_reach L Q h0 \<lparr>run_heap = h, run_held = run_held s - {(ptr, l)}\<rparr>"
| reach_resize: "heap_reach L Q h0 s \<Longrightarrow> (ptr, l) \<in> run_held s \<Longrightarrow> layout_ok l' \<Longrightarrow>
    heap_resize L Q ptr l l' (run_heap s) = Some (Inr (ptr', len), h) \<Longrightarrow>
    heap_reach L Q h0 \<lparr>run_heap = h, run_held = insert (ptr', l') (run_held s - {(ptr, l)})\<rparr>"
| reach_resize_fail: "heap_reach L Q h0 s \<Longrightarrow> (ptr, l) \<in> run_held s \<Longrightarrow> layout_ok l' \<Longrightarrow>
    heap_resize L Q ptr l l' (run_heap s) = Some (Inl e, h) \<Longrightarrow>
    heap_reach L Q h0 \<lparr>run_heap = h, run_held = run_held s\<rparr>"

text \<open>What the client held_objects is exactly what the slabs and the large blocks record as handed out.\<close>

definition held_objects :: "'q size_class list \<Rightarrow> (virt_addr \<times> layout) set \<Rightarrow> (virt_addr \<times> usize) set" where
  "held_objects cs held = (\<lambda>(ptr, l). (ptr, the (room cs l))) ` held"

definition client_ok :: "('q, 'l) heap \<Rightarrow> (virt_addr \<times> layout) set \<Rightarrow> (virt_addr \<times> usize) set \<Rightarrow> bool" where
  "client_ok h held objs \<longleftrightarrow> (\<forall>ptr l. (ptr, l) \<in> held \<longrightarrow> layout_ok l) \<and> inj_on fst held \<and> objs = held_objects (hp_classes h) held"

definition heap_run_inv :: "('l \<Rightarrow> virt_addr list) \<Rightarrow> ('q \<Rightarrow> virt_addr list) \<Rightarrow> usize \<Rightarrow> nat \<Rightarrow> ('q, 'l) heap \<Rightarrow> (virt_addr \<times> layout) set \<Rightarrow> bool" where
  "heap_run_inv elems qelems hs N h held \<longleftrightarrow>
     (\<exists>own big. heap_inv elems qelems hs N own big None h \<and> client_ok h held (heap_objects own big h))"

lemma held_same: "classes_ok hs cs \<Longrightarrow> classes_ok hs cs' \<Longrightarrow> held_objects cs held = held_objects cs' held"
  by (simp add: held_objects_def room_def classes_same(2) [of hs cs cs'])

lemma held_insert: "held_objects cs (insert (ptr, l) held) = insert (ptr, the (room cs l)) (held_objects cs held)"
  by (simp add: held_objects_def)

lemma held_fst: "fst ` held_objects cs held = fst ` held"
  by (force simp: held_objects_def)

lemma held_remove:
  assumes "inj_on fst held" "(ptr, l) \<in> held"
  shows "held_objects cs (held - {(ptr, l)}) = held_objects cs held - {(ptr, the (room cs l))}"
proof -
  have "fst \<circ> (\<lambda>(ptr, l). (ptr, the (room cs l))) = fst" by auto
  then have "inj_on (\<lambda>(ptr, l). (ptr, the (room cs l))) held" using assms(1) by (metis inj_on_imageI2)
  then show ?thesis using assms(2) unfolding held_objects_def by (subst inj_on_image_set_diff) auto
qed

lemma client_insert:
  assumes "client_ok h held objs" "layout_ok l" "room (hp_classes h) l = Some u" "ptr \<notin> fst ` objs"
    "classes_ok hs (hp_classes h)" "classes_ok hs (hp_classes h')" "objs' = insert (ptr, u) objs"
  shows "client_ok h' (insert (ptr, l) held) objs'"
proof -
  have "ptr \<notin> fst ` held" using assms(1,4) by (simp add: client_ok_def held_fst)
  then have "inj_on fst (insert (ptr, l) held)" using assms(1) by (auto simp: client_ok_def inj_on_def image_iff)
  moreover have "objs' = held_objects (hp_classes h) (insert (ptr, l) held)" using assms(1,3,7) by (simp add: client_ok_def held_insert)
  ultimately show ?thesis using assms(1,2) held_same [OF assms(5,6)] by (auto simp: client_ok_def)
qed

lemma client_remove:
  assumes "client_ok h held objs" "(ptr, l) \<in> held" "room (hp_classes h) l = Some u"
    "classes_ok hs (hp_classes h)" "classes_ok hs (hp_classes h')" "objs' = objs - {(ptr, u)}"
  shows "client_ok h' (held - {(ptr, l)}) objs'"
proof -
  have "inj_on fst held" using assms(1) by (simp add: client_ok_def)
  then have "objs' = held_objects (hp_classes h) (held - {(ptr, l)})" using assms(1,3,6) by (simp add: client_ok_def held_remove [OF _ assms(2)])
  then show ?thesis using assms(1) held_same [OF assms(4,5)] by (auto simp: client_ok_def inj_on_def)
qed

lemma client_mem:
  assumes "client_ok h held objs" "classes_ok hs (hp_classes h)" "(ptr, l) \<in> held"
  obtains e u where "layout_ok l" "get_effective_size l = Some e" "0 < e" "e \<le> ISIZE_MAX" "usable_size (hp_classes h) e = Some u"
    "room (hp_classes h) l = Some u" "ly_size l \<le> u" "(ptr, u) \<in> objs"
proof -
  have ok: "layout_ok l" and o: "objs = held_objects (hp_classes h) held" using assms by (auto simp: client_ok_def)
  from assms(2) ok obtain e u where "get_effective_size l = Some e" "0 < e" "e \<le> ISIZE_MAX" "usable_size (hp_classes h) e = Some u"
    "room (hp_classes h) l = Some u" "ly_size l \<le> u" by (rule room_run)
  moreover from this have "(ptr, u) \<in> objs" unfolding o held_objects_def using assms(3) by force
  ultimately show thesis using ok that by blast
qed

text \<open>What a resize must leave behind: the new block holds the old bytes, every other block keeps its own, and the copy does not overlap.\<close>

definition resize_post :: "(virt_addr \<times> layout) set \<Rightarrow> virt_addr \<Rightarrow> layout \<Rightarrow> virt_addr \<Rightarrow> layout \<Rightarrow> (virt_addr \<Rightarrow> u8) \<Rightarrow> (virt_addr \<Rightarrow> u8) \<Rightarrow> bool" where
  "resize_post held ptr l ptr' l' mem mem' \<longleftrightarrow>
     (\<forall>k < min (ly_size l) (ly_size l'). mem' (ptr' + k) = mem (ptr + k)) \<and>
     (\<forall>b lb k. (b, lb) \<in> held - {(ptr, l)} \<longrightarrow> k < ly_size lb \<longrightarrow> mem' (b + k) = mem (b + k)) \<and>
     (ptr' = ptr \<or> {ptr..<ptr + ly_size l} \<inter> {ptr'..<ptr' + ly_size l'} = {})"

context heap_lists
begin

lemma heap_allocate_run:
  assumes inv: "heap_run_inv elems qelems hs N h held" and l: "layout_ok l"
  shows "\<exists>r h'. heap_allocate L Q l h = Some (r, h') \<and> hp_mem h' = hp_mem h \<and>
    (case r of Inl e \<Rightarrow> h' = h \<and> no_block elems (hp_pmm h) (block_order (hp_classes h) (the (get_effective_size l)))
     | Inr (ptr, len) \<Rightarrow> heap_run_inv elems qelems hs N h' (insert (ptr, l) held) \<and> ptr \<notin> fst ` held \<and> room (hp_classes h) l = Some len)"
proof -
  obtain own big where h: "heap_inv elems qelems hs N own big None h" "client_ok h held (heap_objects own big h)"
    using inv by (auto simp: heap_run_inv_def)
  note ok = heap_invD(1) [OF h(1)]
  from ok l obtain e u where e: "get_effective_size l = Some e" "0 < e" "e \<le> ISIZE_MAX" "usable_size (hp_classes h) e = Some u" "room (hp_classes h) l = Some u"
    by (rule room_run)
  from allocator_allocate_run [OF h(1) e(2,3)] obtain r h' own' big' where a: "allocator_allocate L Q e h = Some (r, h')"
    "heap_inv elems qelems hs N own' big' None h'" "hp_mem h' = hp_mem h"
    "case r of Inl err \<Rightarrow> heap_objects own' big' h' = heap_objects own big h \<and> h' = h \<and> no_block elems (hp_pmm h) (block_order (hp_classes h) e)
     | Inr (ptr, len) \<Rightarrow> usable_size (hp_classes h) e = Some len \<and> heap_objects own' big' h' = insert (ptr, len) (heap_objects own big h) \<and>
         ptr \<notin> fst ` heap_objects own big h" by blast
  note ok' = heap_invD(1) [OF a(2)]
  have run: "heap_allocate L Q l h = Some (r, h')" by (simp add: heap_allocate_def e(1) a(1))
  show ?thesis
  proof (cases r)
    case (Inl err)
    then show ?thesis using run a(3,4) e(1) by simp
  next
    case (Inr x)
    obtain ptr len where x: "x = (ptr, len)" by (cases x)
    have f: "heap_objects own' big' h' = insert (ptr, u) (heap_objects own big h)" "ptr \<notin> fst ` heap_objects own big h" "len = u"
      using a(4) Inr x e(4) by auto
    then have "client_ok h' (insert (ptr, l) held) (heap_objects own' big' h')" using client_insert [OF h(2) l e(5) _ ok ok'] by blast
    moreover have "ptr \<notin> fst ` held" using f(2) h(2) by (simp add: client_ok_def held_fst)
    ultimately show ?thesis using run a(2,3) Inr x f(3) e(5) by (auto simp: heap_run_inv_def)
  qed
qed

lemma heap_deallocate_run:
  assumes inv: "heap_run_inv elems qelems hs N h held" and l: "(ptr, l) \<in> held"
  shows "\<exists>h'. heap_deallocate L Q ptr l h = Some h' \<and> hp_mem h' = hp_mem h \<and> heap_run_inv elems qelems hs N h' (held - {(ptr, l)})"
proof -
  obtain own big where h: "heap_inv elems qelems hs N own big None h" "client_ok h held (heap_objects own big h)"
    using inv by (auto simp: heap_run_inv_def)
  note ok = heap_invD(1) [OF h(1)]
  from h(2) ok l obtain e u where e: "get_effective_size l = Some e" "0 < e" "e \<le> ISIZE_MAX" "usable_size (hp_classes h) e = Some u"
    "room (hp_classes h) l = Some u" "(ptr, u) \<in> heap_objects own big h" by (rule client_mem)
  from allocator_deallocate_run [OF h(1) e(2,3,4,6)] obtain h' own' big' where d: "allocator_deallocate L Q ptr e h = Some h'"
    "heap_inv elems qelems hs N own' big' None h'" "hp_mem h' = hp_mem h" "heap_objects own' big' h' = heap_objects own big h - {(ptr, u)}" by blast
  have "client_ok h' (held - {(ptr, l)}) (heap_objects own' big' h')"
    by (rule client_remove [OF h(2) l e(5) ok heap_invD(1) [OF d(2)] d(4)])
  then show ?thesis using d(1-3) e(1) by (auto simp: heap_deallocate_def heap_run_inv_def)
qed

lemma heap_run_inv_mem [simp]: "heap_run_inv elems qelems hs N (h\<lparr>hp_mem := m\<rparr>) held \<longleftrightarrow> heap_run_inv elems qelems hs N h held"
  by (simp add: heap_run_inv_def client_ok_def)

lemma held_disjoint:
  assumes inv: "heap_run_inv elems qelems hs N h held" and a: "(a, l) \<in> held" "(b, l') \<in> held" "a \<noteq> b"
  shows "{a..<a + ly_size l} \<inter> {b..<b + ly_size l'} = {}"
proof -
  obtain own big where h: "heap_inv elems qelems hs N own big None h" "client_ok h held (heap_objects own big h)"
    using inv by (auto simp: heap_run_inv_def)
  note ok = heap_invD(1) [OF h(1)]
  from h(2) ok a(1) obtain u where u: "ly_size l \<le> u" "(a, u) \<in> heap_objects own big h" by (rule client_mem)
  from h(2) ok a(2) obtain v where v: "ly_size l' \<le> v" "(b, v) \<in> heap_objects own big h" by (rule client_mem)
  have "{a..<a + u} \<inter> {b..<b + v} = {}" using objects_disjoint [OF h(1) u(2) v(2)] a(3) by simp
  moreover have "{a..<a + ly_size l} \<subseteq> {a..<a + u}" "{b..<b + ly_size l'} \<subseteq> {b..<b + v}" using u(1) v(1) by auto
  ultimately show ?thesis by blast
qed

lemma client_relabel:
  assumes c: "client_ok h held objs" and l: "(ptr, l) \<in> held" "layout_ok l'" "room (hp_classes h) l = room (hp_classes h) l'"
  shows "client_ok h (insert (ptr, l') (held - {(ptr, l)})) objs"
proof -
  have inj: "inj_on fst held" and o: "objs = held_objects (hp_classes h) held" using c by (auto simp: client_ok_def)
  have mem: "(ptr, the (room (hp_classes h) l)) \<in> held_objects (hp_classes h) held" using l(1) by (force simp: held_objects_def)
  have "ptr \<notin> fst ` (held - {(ptr, l)})"
  proof
    assume "ptr \<in> fst ` (held - {(ptr, l)})"
    then obtain x where x: "x \<in> held" "x \<noteq> (ptr, l)" "ptr = fst x" by blast
    then have "x = (ptr, l)" using l(1) by (intro inj_onD [OF inj]) simp_all
    with x(2) show False ..
  qed
  then have "inj_on fst (insert (ptr, l') (held - {(ptr, l)}))" using inj by (auto simp: inj_on_def image_iff)
  moreover have "held_objects (hp_classes h) (insert (ptr, l') (held - {(ptr, l)})) = objs"
    unfolding held_insert held_remove [OF inj l(1)] o l(3) [symmetric] using mem by blast
  ultimately show ?thesis using c l(2) by (auto simp: client_ok_def)
qed

lemma copied_post:
  assumes inv: "heap_run_inv elems qelems hs N h (insert (ptr', l') held)" and new: "ptr' \<notin> fst ` held" and l: "(ptr, l) \<in> held"
  shows "resize_post held ptr l ptr' l' mem (copy_bytes ptr' ptr (min (ly_size l) (ly_size l')) mem)"
  unfolding resize_post_def
proof (intro conjI allI impI)
  have dis: "{b..<b + ly_size lb} \<inter> {ptr'..<ptr' + ly_size l'} = {}" if b: "(b, lb) \<in> held" for b lb
  proof (rule held_disjoint [OF inv])
    show "b \<noteq> ptr'" using b new by (force simp: image_iff)
  qed (use b in auto)
  then show "ptr' = ptr \<or> {ptr..<ptr + ly_size l} \<inter> {ptr'..<ptr' + ly_size l'} = {}" using l by blast
  fix b lb k assume b: "(b, lb) \<in> held - {(ptr, l)}" "k < ly_size lb"
  then have "b + k \<in> {b..<b + ly_size lb}" by simp
  then have "b + k \<notin> {ptr'..<ptr' + ly_size l'}" using dis [of b lb] b(1) by blast
  then show "copy_bytes ptr' ptr (min (ly_size l) (ly_size l')) mem (b + k) = mem (b + k)" by (auto simp: copy_bytes_def)
qed (simp add: copy_bytes_def)

lemma heap_resize_run:
  assumes inv: "heap_run_inv elems qelems hs N h held" and l: "(ptr, l) \<in> held" "layout_ok l'"
  shows "\<exists>r h'. heap_resize L Q ptr l l' h = Some (r, h') \<and>
    (case r of Inl e \<Rightarrow> h' = h
     | Inr (ptr', len) \<Rightarrow> heap_run_inv elems qelems hs N h' (insert (ptr', l') (held - {(ptr, l)})) \<and>
         resize_post held ptr l ptr' l' (hp_mem h) (hp_mem h'))"
proof -
  obtain own big where h: "heap_inv elems qelems hs N own big None h" "client_ok h held (heap_objects own big h)"
    using inv by (auto simp: heap_run_inv_def)
  note ok = heap_invD(1) [OF h(1)]
  from h(2) ok l(1) obtain e u where e: "get_effective_size l = Some e" "usable_size (hp_classes h) e = Some u" "room (hp_classes h) l = Some u"
    by (rule client_mem)
  from ok l(2) obtain e' u' where e': "get_effective_size l' = Some e'" "usable_size (hp_classes h) e' = Some u'" "room (hp_classes h) l' = Some u'"
    by (rule room_run)
  show ?thesis
  proof (cases "u = u'")
    case True
    then have "heap_resize L Q ptr l l' h = Some (Inr (ptr, u), h)" by (simp add: heap_resize_def e e')
    moreover have "client_ok h (insert (ptr, l') (held - {(ptr, l)})) (heap_objects own big h)"
      by (rule client_relabel [OF h(2) l]) (simp add: e e' True)
    ultimately show ?thesis using h(1) by (auto simp: heap_run_inv_def resize_post_def)
  next
    case False
    from heap_allocate_run [OF inv l(2)] obtain r h1 where a: "heap_allocate L Q l' h = Some (r, h1)" "hp_mem h1 = hp_mem h"
      "case r of Inl e \<Rightarrow> h1 = h \<and> no_block elems (hp_pmm h) (block_order (hp_classes h) (the (get_effective_size l')))
       | Inr (ptr, len) \<Rightarrow> heap_run_inv elems qelems hs N h1 (insert (ptr, l') held) \<and> ptr \<notin> fst ` held \<and> room (hp_classes h) l' = Some len" by blast
    have aa: "allocator_allocate L Q e' h = Some (r, h1)" using a(1) e'(1) by (simp add: heap_allocate_def)
    show ?thesis
    proof (cases r)
      case (Inl err)
      then have "heap_resize L Q ptr l l' h = Some (Inl err, h1)" using aa e e' False by (simp add: heap_resize_def)
      then show ?thesis using a Inl by auto
    next
      case (Inr x)
      obtain ptr' len where x: "x = (ptr', len)" by (cases x)
      let ?h2 = "h1\<lparr>hp_mem := copy_bytes ptr' ptr (min (ly_size l) (ly_size l')) (hp_mem h1)\<rparr>"
      have i1: "heap_run_inv elems qelems hs N h1 (insert (ptr', l') held)" "ptr' \<notin> fst ` held" using a(3) Inr x by auto
      then have "heap_run_inv elems qelems hs N ?h2 (insert (ptr', l') held)" by simp
      from heap_deallocate_run [OF this insertI2 [OF l(1)]] obtain h3 where
        d: "heap_deallocate L Q ptr l ?h2 = Some h3" "hp_mem h3 = hp_mem ?h2" "heap_run_inv elems qelems hs N h3 (insert (ptr', l') held - {(ptr, l)})" by blast
      have "(ptr', l') \<noteq> (ptr, l)" using i1(2) l(1) by (force simp: image_iff)
      then have s: "insert (ptr', l') held - {(ptr, l)} = insert (ptr', l') (held - {(ptr, l)})" by blast
      have "heap_resize L Q ptr l l' h = Some (Inr (ptr', len), h3)"
        using aa e e' False d(1) Inr x by (simp add: heap_resize_def heap_deallocate_def Let_def)
      then show ?thesis using d(2,3) s copied_post [OF i1 l(1), of "hp_mem h"] a(2) by auto
    qed
  qed
qed

lemma heap_run_reach:
  assumes "heap_reach L Q h0 s" "heap_run_inv elems qelems hs N h0 {}"
  shows "heap_run_inv elems qelems hs N (run_heap s) (run_held s)"
  using assms
proof (induction rule: heap_reach.induct)
  case (reach_allocate s l ptr len h)
  then show ?case using heap_allocate_run [of hs N "run_heap s" "run_held s" l] by auto
next
  case (reach_allocate_fail s l e h)
  then show ?case using heap_allocate_run [of hs N "run_heap s" "run_held s" l] by auto
next
  case (reach_deallocate s ptr l h)
  then show ?case using heap_deallocate_run [of hs N "run_heap s" "run_held s" ptr l] by auto
next
  case (reach_resize s ptr l l' ptr' len h)
  then show ?case using heap_resize_run [of hs N "run_heap s" "run_held s" ptr l l'] by auto
next
  case (reach_resize_fail s ptr l l' e h)
  then show ?case using heap_resize_run [of hs N "run_heap s" "run_held s" ptr l l'] by auto
qed simp

end

section \<open>Properties\<close>

lemma allocator_classes: "ALLOCATOR Q hs = Some cs \<Longrightarrow> hs \<le> 1024 \<Longrightarrow> classes_ok hs cs \<and> (\<forall>c\<in>set cs. sc_partial_slabs c = ll_new Q)"
  using ALLOCATOR_run [of hs Q] by auto

text \<open>The heap before the first call.\<close>

definition heap_start :: "'q size_class list \<Rightarrow> (virt_addr \<Rightarrow> u8) \<Rightarrow> 'l phys_manager \<Rightarrow> ('q, 'l) heap" where
  "heap_start cs mem pm = \<lparr>hp_classes = cs, hp_slabs = Map.empty, hp_mem = mem, hp_pmm = Some pm\<rparr>"

context heap_lists
begin

lemma heap_start_inv:
  assumes "ALLOCATOR Q hs = Some cs" "hs \<le> 1024" "pmm_inv elems N pm"
  shows "heap_run_inv elems qelems hs N (heap_start cs mem pm) {}"
proof -
  let ?own = "\<lambda>p. None :: nat option"
  note cs = allocator_classes [OF assms(1,2)]
  have "qelems (sc_partial_slabs (cs ! i)) = []" if "i < length cs" for i
    using cs that by (simp add: qelems_laws(1))
  then have "heap_inv elems qelems hs N ?own {} None (heap_start cs mem pm)"
    using cs assms(3) by (simp add: heap_inv_def heap_start_def blocks_ok_def slab_blocks_def live_frames_def disjoint_blocks_def
        slabs_ok_def lists_ok_def has_room_def)
  moreover have "heap_objects ?own {} (heap_start cs mem pm) = {}" by (simp add: heap_objects_def slab_objects_def big_objects_def)
  ultimately show ?thesis by (auto simp: heap_run_inv_def client_ok_def held_objects_def intro!: exI [of _ ?own] exI [of _ "{}"])
qed

lemmas heap_reach_inv = heap_run_reach [OF _ heap_start_inv]

lemma held_place:
  assumes inv: "heap_run_inv elems qelems hs N h held" and l: "(a, l) \<in> held"
  shows "ly_align l dvd a"
    "hp_slabs h q = Some sl \<Longrightarrow> {a..<a + ly_size l} \<inter> {q..<q + hs + length (sl_bitmap sl)} = {}"
    "hp_pmm h = Some pm \<Longrightarrow> f \<in> free_frames elems pm \<Longrightarrow> {a..<a + ly_size l} \<inter> {link_of f..<link_of f + PAGE_SIZE} = {}"
proof -
  obtain own big where h: "heap_inv elems qelems hs N own big None h" "client_ok h held (heap_objects own big h)"
    using inv by (auto simp: heap_run_inv_def)
  from h(2) heap_invD(1) [OF h(1)] l obtain u where u: "layout_ok l" "room (hp_classes h) l = Some u" "ly_size l \<le> u" "(a, u) \<in> heap_objects own big h"
    by (rule client_mem)
  show "ly_align l dvd a" by (rule object_aligned [OF h(1) u(4,1,2)])
  have sub: "{a..<a + ly_size l} \<subseteq> {a..<a + u}" using u(3) by auto
  show "{a..<a + ly_size l} \<inter> {q..<q + hs + length (sl_bitmap sl)} = {}" if q: "hp_slabs h q = Some sl"
  proof -
    from q heap_invD(4) [OF h(1)] obtain p i where p: "q = link_of p" "own p = Some i" unfolding slabs_ok_def
      by (metis option.distinct(1) option.exhaust rangeE)
    then have "length (sl_bitmap sl) = (scm_objects_per_slab (cm h i) + 7) div 8"
      using slabs_okD [OF heap_invD(4) [OF h(1)] p(2)] q by (metis option.inject slab_ok_def)
    then show ?thesis using object_metadata [OF h(1) u(4) p(2)] p(1) sub by auto
  qed
  show "{a..<a + ly_size l} \<inter> {link_of f..<link_of f + PAGE_SIZE} = {}" if f: "hp_pmm h = Some pm" "f \<in> free_frames elems pm"
  proof -
    from h(1) u(4) obtain p k where p: "(p, k) \<in> slab_blocks h own \<union> big" "{a..<a + u} \<subseteq> region p k" by (rule object_block)
    have "blk k p \<inter> free_frames elems pm = {}"
      using heap_invD(2) [OF h(1)] f(1) live_frames_mem [OF p(1)] by (auto simp: blocks_ok_def)
    then have "blk k p \<inter> blk 0 f = {}" using f(2) by (auto simp: blk_def)
    then have "region p k \<inter> region f 0 = {}" by (rule region_disjoint)
    then show ?thesis using p(2) sub by (auto simp: region_def PAGE_SIZE_eq)
  qed
qed

end

interpretation seq_heap: heap_lists seq_list "\<lambda>l. l" seq_slabs "\<lambda>l. l"
  by unfold_locales

text \<open>
  C12. In every run of calls to the heap that starts from the static allocator over a consistent frame allocator, and in which memory is
  freed and resized only by its holder with the layout it was allocated with, the blocks handed out never overlap each
  other, the header or bitmap of a slab, or a free frame; each is aligned as its layout demands; and
  freeing any of them does not panic. This is the claim of the comment on the size classes in \<open>mm/heap.rs\<close>, for the whole allocator.
\<close>

theorem heap_run_safe:
  assumes hl: "heap_lists L elems Q qelems" and a: "ALLOCATOR Q hs = Some cs" "hs \<le> 1024" "pmm_inv elems N pm"
    and r: "heap_reach L Q (heap_start cs mem pm) s"
  shows "(\<forall>a l b l'. (a, l) \<in> run_held s \<longrightarrow> (b, l') \<in> run_held s \<longrightarrow> (a, l) \<noteq> (b, l') \<longrightarrow> {a..<a + ly_size l} \<inter> {b..<b + ly_size l'} = {}) \<and>
    (\<forall>a l. (a, l) \<in> run_held s \<longrightarrow> ly_align l dvd a \<and> heap_deallocate L Q a l (run_heap s) \<noteq> None \<and>
      (\<forall>q sl. hp_slabs (run_heap s) q = Some sl \<longrightarrow> {a..<a + ly_size l} \<inter> {q..<q + hs + length (sl_bitmap sl)} = {}) \<and>
      (\<forall>pm f. hp_pmm (run_heap s) = Some pm \<longrightarrow> f \<in> free_frames elems pm \<longrightarrow>
         {a..<a + ly_size l} \<inter> {link_of f..<link_of f + PAGE_SIZE} = {}))"
proof (intro conjI allI impI)
  note inv = heap_lists.heap_reach_inv [OF hl r a]
  note place = heap_lists.held_place [OF hl inv]
  fix a l assume al: "(a, l) \<in> run_held s"
  show "ly_align l dvd a" by (rule place(1) [OF al])
  show "heap_deallocate L Q a l (run_heap s) \<noteq> None" using heap_lists.heap_deallocate_run [OF hl inv al] by auto
  show "{a..<a + ly_size l} \<inter> {q..<q + hs + length (sl_bitmap sl)} = {}" if "hp_slabs (run_heap s) q = Some sl" for q sl
    by (rule place(2) [OF al that])
  show "{a..<a + ly_size l} \<inter> {link_of f..<link_of f + PAGE_SIZE} = {}" if "hp_pmm (run_heap s) = Some pm" "f \<in> free_frames elems pm" for pm f
    by (rule place(3) [OF al that])
  fix b l' assume b: "(b, l') \<in> run_held s" "(a, l) \<noteq> (b, l')"
  have "inj_on fst (run_held s)" using inv by (auto simp: heap_run_inv_def client_ok_def)
  then have "a \<noteq> b" using inj_onD [of fst "run_held s" "(a, l)" "(b, l')"] al b by auto
  then show "{a..<a + ly_size l} \<inter> {b..<b + ly_size l'} = {}" by (rule heap_lists.held_disjoint [OF hl inv al b(1)])
qed

text \<open>An example: the heap over the frame allocator with 44 free frames, and a small layout.\<close>

definition demo_layout :: layout where
  "demo_layout = \<lparr>ly_size = 36, ly_align = 8\<rparr>"

lemma demo_layout_ok: "layout_ok demo_layout" "get_effective_size demo_layout = Some 40"
  by (simp_all add: layout_ok_def demo_layout_def from_size_align_def power_of_two_iff ISIZE_MAX_def get_effective_size_def
      align_up_def align_down_def machine_defs exI [of _ 3])

lemma class_order:
  assumes "classes_ok hs cs" "i < length cs"
  shows "scm_slab_order (sc_meta (cs ! i)) \<le> 3"
proof -
  let ?f = "\<lambda>c. (scm_size (sc_meta c), scm_slab_order (sc_meta c))"
  have "?f (cs ! i) \<in> set (map ?f cs)" using assms(2) by simp
  moreover have "map ?f cs = ALLOCATOR_TABLE" using assms(1) by (simp add: classes_ok_def)
  ultimately have "?f (cs ! i) \<in> set ALLOCATOR_TABLE" by (simp only:)
  then show ?thesis by (auto simp: ALLOCATOR_TABLE_def)
qed

lemma heap_demo_room:
  assumes "classes_ok hs cs" "free_frames (\<lambda>l. l) pm = {256..<300}" "e \<le> 2048"
  shows "\<not> no_block (\<lambda>l. l) (Some pm) (block_order cs e)"
proof -
  obtain i where i: "get_size_class cs e = Some i" using get_size_class_spec(2) [OF assms(1), of e] assms(3) by (cases "get_size_class cs e") auto
  then have "i < length cs" using get_size_class_spec(1) [OF assms(1)] by blast
  then have k: "block_order cs e \<le> 3" using class_order [OF assms(1)] i by (simp add: block_order_def)
  then have "(2::nat) ^ block_order cs e dvd 2 ^ 8" by (intro le_imp_power_dvd) simp
  moreover have "(2::nat) ^ block_order cs e \<le> 2 ^ 3" using k by (intro power_increasing) simp_all
  then have "blk (block_order cs e) 256 \<subseteq> {256..<300}" by (auto simp: blk_def)
  ultimately show ?thesis using k assms(2) by (auto simp: no_block_def ORDER_COUNT_def intro!: exI [of _ 256])
qed

lemma heap_demo_start:
  obtains cs pm where "ALLOCATOR seq_slabs 24 = Some cs" "classes_ok 24 cs" "example_pmm = Some pm" "pmm_inv (\<lambda>l. l) 1024 pm"
    "free_frames (\<lambda>l. l) pm = {256..<300}"
proof -
  obtain cs where cs: "ALLOCATOR seq_slabs 24 = Some cs" "classes_ok 24 cs" using ALLOCATOR_run [of 24 seq_slabs] by auto
  obtain pm where "example_pmm = Some pm" "pmm_inv (\<lambda>l. l) 1024 pm" "free_frames (\<lambda>l. l) pm = {256..<300}" by (rule example_pmm_inv)
  with cs that show thesis by blast
qed

lemma heap_demo_run:
  obtains cs pm ptr h len where "ALLOCATOR seq_slabs 24 = Some cs" "example_pmm = Some pm" "pmm_inv (\<lambda>l. l) 1024 pm"
    "heap_allocate seq_list seq_slabs demo_layout (heap_start cs (\<lambda>a. 0) pm) = Some (Inr (ptr, len), h)"
    "heap_reach seq_list seq_slabs (heap_start cs (\<lambda>a. 0) pm) \<lparr>run_heap = h, run_held = {(ptr, demo_layout)}\<rparr>"
proof -
  obtain cs pm where e: "ALLOCATOR seq_slabs 24 = Some cs" "classes_ok 24 cs" "example_pmm = Some pm" "pmm_inv (\<lambda>l. l) 1024 pm"
    "free_frames (\<lambda>l. l) pm = {256..<300}" by (rule heap_demo_start)
  let ?h = "heap_start cs (\<lambda>a. 0) pm"
  have s: "heap_reach seq_list seq_slabs ?h \<lparr>run_heap = ?h, run_held = {}\<rparr>" by (rule reach_start)
  have inv: "heap_run_inv (\<lambda>l. l) (\<lambda>l. l) 24 1024 ?h {}" by (rule seq_heap.heap_start_inv [OF e(1) _ e(4)]) simp
  have "\<not> no_block (\<lambda>l. l) (hp_pmm ?h) (block_order (hp_classes ?h) (the (get_effective_size demo_layout)))"
    using heap_demo_room [OF e(2,5), of 40] by (simp add: demo_layout_ok heap_start_def)
  moreover from seq_heap.heap_allocate_run [OF inv demo_layout_ok(1)] obtain r h where a: "heap_allocate seq_list seq_slabs demo_layout ?h = Some (r, h)"
    "case r of Inl e \<Rightarrow> h = ?h \<and> no_block (\<lambda>l. l) (hp_pmm ?h) (block_order (hp_classes ?h) (the (get_effective_size demo_layout)))
     | Inr (ptr, len) \<Rightarrow> heap_run_inv (\<lambda>l. l) (\<lambda>l. l) 24 1024 h {(ptr, demo_layout)} \<and> ptr \<notin> fst ` ({} :: (virt_addr \<times> layout) set) \<and> room (hp_classes ?h) demo_layout = Some len"
    by blast
  ultimately obtain ptr len where a: "heap_allocate seq_list seq_slabs demo_layout ?h = Some (Inr (ptr, len), h)" by (cases r) auto
  show thesis using that [OF e(1,3,4) a] reach_allocate [OF s demo_layout_ok(1)] a by simp
qed

theorem heap_run_safe_witness:
  "\<exists>cs pm ptr s. ALLOCATOR seq_slabs 24 = Some cs \<and> example_pmm = Some pm \<and> heap_reach seq_list seq_slabs (heap_start cs (\<lambda>a. 0) pm) s \<and>
     (ptr, demo_layout) \<in> run_held s \<and> 8 dvd ptr \<and> heap_deallocate seq_list seq_slabs ptr demo_layout (run_heap s) \<noteq> None"
proof -
  obtain cs pm ptr h len where d: "ALLOCATOR seq_slabs 24 = Some cs" "example_pmm = Some pm" "pmm_inv (\<lambda>l. l) 1024 pm"
    "heap_reach seq_list seq_slabs (heap_start cs (\<lambda>a. 0) pm) \<lparr>run_heap = h, run_held = {(ptr, demo_layout)}\<rparr>" by (rule heap_demo_run)
  let ?s = "\<lparr>run_heap = h, run_held = {(ptr, demo_layout)}\<rparr>"
  from heap_run_safe [OF seq_heap.heap_lists_axioms d(1) _ d(3,4)]
  have "ly_align demo_layout dvd ptr \<and> heap_deallocate seq_list seq_slabs ptr demo_layout h \<noteq> None" by simp
  then have "8 dvd ptr \<and> heap_deallocate seq_list seq_slabs ptr demo_layout h \<noteq> None" by (simp add: demo_layout_def)
  then show ?thesis using d by (intro exI [of _ cs] exI [of _ pm] exI [of _ ptr] exI [of _ ?s]) simp
qed

text \<open>
  C13. \<open>heap::allocate\<close> never panics for a valid layout. It fails only when the frame allocator has no free block of the order
  the request needs, and then changes nothing; otherwise it returns an aligned block of at least the
  requested size that overlaps nothing handed out before.
\<close>

theorem heap_allocate_correct:
  assumes hl: "heap_lists L elems Q qelems" and a: "ALLOCATOR Q hs = Some cs" "hs \<le> 1024" "pmm_inv elems N pm"
    and r: "heap_reach L Q (heap_start cs mem pm) s" and l: "layout_ok l"
  shows "\<exists>r h'. heap_allocate L Q l (run_heap s) = Some (r, h') \<and>
    (case r of Inl e \<Rightarrow> h' = run_heap s \<and> no_block elems (hp_pmm h') (block_order (hp_classes h') (the (get_effective_size l)))
     | Inr (ptr, len) \<Rightarrow> ly_align l dvd ptr \<and> ly_size l \<le> len \<and>
         (\<forall>b l'. (b, l') \<in> run_held s \<longrightarrow> {ptr..<ptr + ly_size l} \<inter> {b..<b + ly_size l'} = {}))"
proof -
  note inv = heap_lists.heap_reach_inv [OF hl r a]
  from heap_lists.heap_allocate_run [OF hl inv l] obtain r h' where h: "heap_allocate L Q l (run_heap s) = Some (r, h')"
    "case r of Inl e \<Rightarrow> h' = run_heap s \<and> no_block elems (hp_pmm (run_heap s)) (block_order (hp_classes (run_heap s)) (the (get_effective_size l)))
     | Inr (ptr, len) \<Rightarrow> heap_run_inv elems qelems hs N h' (insert (ptr, l) (run_held s)) \<and> ptr \<notin> fst ` run_held s \<and> room (hp_classes (run_heap s)) l = Some len"
    by blast
  show ?thesis
  proof (cases r)
    case (Inl e)
    then show ?thesis using h by simp
  next
    case (Inr x)
    obtain ptr len where x: "x = (ptr, len)" by (cases x)
    have i: "heap_run_inv elems qelems hs N h' (insert (ptr, l) (run_held s))" "ptr \<notin> fst ` run_held s" "room (hp_classes (run_heap s)) l = Some len"
      using h(2) Inr x by auto
    have "classes_ok hs (hp_classes (run_heap s))" using inv by (auto simp: heap_run_inv_def heap_inv_def)
    then have "ly_size l \<le> len" by (rule room_run [OF _ l]) (use i(3) in simp)
    moreover have "{ptr..<ptr + ly_size l} \<inter> {b..<b + ly_size l'} = {}" if b: "(b, l') \<in> run_held s" for b l'
      using b i(2) by (intro heap_lists.held_disjoint [OF hl i(1)]) force+
    ultimately show ?thesis using h(1) Inr x heap_lists.held_place(1) [OF hl i(1), of ptr l] by auto
  qed
qed

theorem heap_allocate_correct_witness:
  "\<exists>cs pm ptr len h. ALLOCATOR seq_slabs 24 = Some cs \<and> example_pmm = Some pm \<and>
     heap_allocate seq_list seq_slabs demo_layout (heap_start cs (\<lambda>a. 0) pm) = Some (Inr (ptr, len), h) \<and> 8 dvd ptr \<and> 36 \<le> len"
proof -
  obtain cs pm ptr h len where d: "ALLOCATOR seq_slabs 24 = Some cs" "example_pmm = Some pm" "pmm_inv (\<lambda>l. l) 1024 pm"
    "heap_allocate seq_list seq_slabs demo_layout (heap_start cs (\<lambda>a. 0) pm) = Some (Inr (ptr, len), h)" by (rule heap_demo_run)
  from heap_allocate_correct [OF seq_heap.heap_lists_axioms d(1) _ d(3) reach_start demo_layout_ok(1), of "\<lambda>a. 0"] d(4)
  have "ly_align demo_layout dvd ptr \<and> ly_size demo_layout \<le> len" by simp
  with d show ?thesis by (auto simp: demo_layout_def)
qed

text \<open>
  C14. \<open>heap::resize\<close> of a held block to a valid layout never panics. When it fails, nothing has changed. When it succeeds, the new block starts with
  the bytes of the old one, up to the smaller of the two sizes, every other held block keeps its bytes, and
  the source and the destination of the copy do not overlap, as \<open>copy_from_nonoverlapping\<close> requires.
\<close>

theorem heap_resize_correct:
  assumes hl: "heap_lists L elems Q qelems" and a: "ALLOCATOR Q hs = Some cs" "hs \<le> 1024" "pmm_inv elems N pm"
    and r: "heap_reach L Q (heap_start cs mem pm) s" and l: "(ptr, l) \<in> run_held s" "layout_ok l'"
  shows "\<exists>r h'. heap_resize L Q ptr l l' (run_heap s) = Some (r, h') \<and>
    (case r of Inl e \<Rightarrow> h' = run_heap s
     | Inr (ptr', len) \<Rightarrow> resize_post (run_held s) ptr l ptr' l' (hp_mem (run_heap s)) (hp_mem h'))"
proof -
  note inv = heap_lists.heap_reach_inv [OF hl r a]
  from heap_lists.heap_resize_run [OF hl inv l] obtain r h' where "heap_resize L Q ptr l l' (run_heap s) = Some (r, h')"
    "case r of Inl e \<Rightarrow> h' = run_heap s
     | Inr (ptr', len) \<Rightarrow> heap_run_inv elems qelems hs N h' (insert (ptr', l') (run_held s - {(ptr, l)})) \<and>
         resize_post (run_held s) ptr l ptr' l' (hp_mem (run_heap s)) (hp_mem h')" by blast
  then show ?thesis by (cases r) auto
qed

definition demo_bigger :: layout where
  "demo_bigger = \<lparr>ly_size = 100, ly_align = 8\<rparr>"

lemma demo_bigger_ok: "layout_ok demo_bigger"
  by (simp add: layout_ok_def demo_bigger_def from_size_align_def power_of_two_iff ISIZE_MAX_def exI [of _ 3])

theorem heap_resize_correct_witness:
  "\<exists>cs pm ptr s r h'. ALLOCATOR seq_slabs 24 = Some cs \<and> example_pmm = Some pm \<and> heap_reach seq_list seq_slabs (heap_start cs (\<lambda>a. 0) pm) s \<and>
     (ptr, demo_layout) \<in> run_held s \<and> heap_resize seq_list seq_slabs ptr demo_layout demo_bigger (run_heap s) = Some (r, h')"
proof -
  obtain cs pm ptr h len where d: "ALLOCATOR seq_slabs 24 = Some cs" "example_pmm = Some pm" "pmm_inv (\<lambda>l. l) 1024 pm"
    "heap_reach seq_list seq_slabs (heap_start cs (\<lambda>a. 0) pm) \<lparr>run_heap = h, run_held = {(ptr, demo_layout)}\<rparr>" by (rule heap_demo_run)
  from heap_resize_correct [OF seq_heap.heap_lists_axioms d(1) _ d(3,4) _ demo_bigger_ok]
  have "\<exists>r h'. heap_resize seq_list seq_slabs ptr demo_layout demo_bigger h = Some (r, h')" by auto
  then show ?thesis using d by (intro exI [of _ cs] exI [of _ pm] exI [of _ ptr] exI [of _ "\<lparr>run_heap = h, run_held = {(ptr, demo_layout)}\<rparr>"]) simp
qed

text \<open>
  C15. The layout \<open>SizeClassMeta::new\<close> computes for a slab fits: the header, a bitmap with a bit for every object, and the objects, in this order and without
  overlap, end exactly at the end of the slab; there is at least one object, and as many as can fit at all.
\<close>

theorem slab_layout_fits:
  assumes "0 < sz" "k < ORDER_COUNT" "hs + 1 + sz \<le> 4096 * 2 ^ k"
  shows "\<exists>m off nb. size_class_meta_new hs sz k = Some m \<and> first_object_offset m = Some off \<and> bitmap_bytes m = Some nb \<and>
    0 < scm_objects_per_slab m \<and> scm_objects_per_slab m \<le> 8 * nb \<and> hs + nb \<le> off \<and> off + scm_objects_per_slab m * sz = 4096 * 2 ^ k \<and>
    (\<forall>n. hs + (n + 7) div 8 + n * sz \<le> 4096 * 2 ^ k \<longleftrightarrow> n \<le> scm_objects_per_slab m)"
proof -
  from size_class_meta_new_run [OF assms] obtain n where n: "size_class_meta_new hs sz k = Some \<lparr>scm_size = sz, scm_slab_order = k, scm_objects_per_slab = n\<rparr>"
    "0 < n" "\<forall>n'. slab_need hs sz n' \<le> 4096 * 2 ^ k \<longleftrightarrow> n' \<le> n" by blast
  let ?m = "\<lparr>scm_size = sz, scm_slab_order = k, scm_objects_per_slab = n\<rparr>"
  have "meta_ok hs ?m" using assms(1,2) n(2,3) by (simp add: meta_ok_def slab_bytes_def)
  from first_off_bounds [OF this] n show ?thesis by (auto simp: slab_need_def slab_bytes_def)
qed

theorem slab_layout_fits_witness:
  "\<exists>m off nb. size_class_meta_new 24 48 0 = Some m \<and> first_object_offset m = Some off \<and> bitmap_bytes m = Some nb \<and> 24 + nb \<le> off"
proof -
  have "\<exists>m off nb. size_class_meta_new 24 48 0 = Some m \<and> first_object_offset m = Some off \<and> bitmap_bytes m = Some nb \<and>
    0 < scm_objects_per_slab m \<and> scm_objects_per_slab m \<le> 8 * nb \<and> 24 + nb \<le> off \<and> off + scm_objects_per_slab m * 48 = 4096 * 2 ^ 0 \<and>
    (\<forall>n. 24 + (n + 7) div 8 + n * 48 \<le> 4096 * 2 ^ 0 \<longleftrightarrow> n \<le> scm_objects_per_slab m)"
    by (rule slab_layout_fits) (simp_all add: ORDER_COUNT_def)
  then show ?thesis by blast
qed

text \<open>
  C16. The static allocator finds a size class for every size up to 2048. The class its binary search selects is the smallest one
  that is large enough, and every power of two that divides the size divides the size of the class, so that
  rounding up to a class never loses alignment.
\<close>

theorem size_class_rounding:
  assumes "ALLOCATOR Q hs = Some cs" "hs \<le> 1024" "0 < e"
  shows "case get_size_class cs e of
      None \<Rightarrow> 2048 < e
    | Some i \<Rightarrow> i < length cs \<and> e \<le> sc_size (cs ! i) \<and> (\<forall>j < i. sc_size (cs ! j) < e) \<and> (\<forall>k. 2 ^ k dvd e \<longrightarrow> 2 ^ k dvd sc_size (cs ! i))"
proof -
  have ok: "classes_ok hs cs" using allocator_classes [OF assms(1,2)] by blast
  show ?thesis
  proof (cases "get_size_class cs e")
    case None
    then show ?thesis using get_size_class_spec(2) [OF ok, of e] by simp
  next
    case (Some i)
    then show ?thesis using get_size_class_spec(1) [OF ok, of e i] class_aligned [OF ok Some assms(3)] by simp
  qed
qed

theorem size_class_rounding_witness:
  "\<exists>cs i. ALLOCATOR seq_slabs 24 = Some cs \<and> get_size_class cs 36 = Some i \<and> 36 \<le> sc_size (cs ! i) \<and> 4 dvd sc_size (cs ! i)"
proof -
  obtain cs where cs: "ALLOCATOR seq_slabs 24 = Some cs" using ALLOCATOR_run [of 24 seq_slabs] by auto
  from size_class_rounding [OF cs, of 36] obtain i where i: "get_size_class cs 36 = Some i" "36 \<le> sc_size (cs ! i)"
    "\<forall>k. 2 ^ k dvd (36::nat) \<longrightarrow> 2 ^ k dvd sc_size (cs ! i)" by (auto split: option.splits)
  have "2 ^ 2 dvd sc_size (cs ! i)" by (rule i(3) [rule_format]) simp
  with cs i show ?thesis by auto
qed

end
