(* ===== verification/Spin_Once.thy ===== *)
theory Spin_Once
  imports Prelude
begin

text \<open>
  One-time initialisation (\<open>lib/spin-once\<close>): \<open>Once\<close>, \<open>Lazy\<close> and \<open>TakeOnce\<close>. Each operation is given as it runs alone. For \<open>Once\<close> the
  atomic steps of \<open>get_or_init_with_raw\<close> and \<open>init_with\<close> are a step relation over any number of callers, interleaved; the memory
  orderings of the atomics are taken to be sequentially consistent.
\<close>

section \<open>\<open>Once\<close>\<close>

definition UNINITIALIZED :: u8 where "UNINITIALIZED = 0"
definition INITIALIZING :: u8 where "INITIALIZING = 1"
definition INITIALIZED :: u8 where "INITIALIZED = 2"

lemmas once_states = UNINITIALIZED_def INITIALIZING_def INITIALIZED_def

text \<open>The storage is \<open>None\<close> while it is uninitialised; reading it then is undefined behaviour, \<open>None\<close> in the operations.\<close>

record 'v once =
  on_value :: "'v option"
  on_state :: u8

definition once_new :: "'v once" where
  "once_new = \<lparr>on_value = None, on_state = UNINITIALIZED\<rparr>"

definition get_unchecked :: "'v once \<Rightarrow> 'v option" where
  "get_unchecked o1 = on_value o1"

definition once_get :: "'v once \<Rightarrow> 'v option option" where
  "once_get o1 = (if on_state o1 = INITIALIZED then map_option Some (get_unchecked o1) else Some None)"

text \<open>\<open>AtomicU8::compare_exchange\<close>: the new state on success, the state found on failure.\<close>

definition compare_exchange :: "u8 \<Rightarrow> u8 \<Rightarrow> 'v once \<Rightarrow> (u8 + u8) \<times> 'v once" where
  "compare_exchange current new o1 =
     (if on_state o1 = current then (Inr current, o1\<lparr>on_state := new\<rparr>) else (Inl (on_state o1), o1))"

definition init_with_unchecked :: "'v option \<Rightarrow> 'v once \<Rightarrow> ('v \<times> 'v once) option" where
  "init_with_unchecked f o1 = do {
     v \<leftarrow> f;
     let o2 = o1\<lparr>on_value := Some v\<rparr>;
     r \<leftarrow> get_unchecked o2;
     Some (r, o2\<lparr>on_state := INITIALIZED\<rparr>) }"

definition once_init :: "'v \<Rightarrow> 'v once \<Rightarrow> ('v \<times> 'v once) option" where
  "once_init v o1 = (case compare_exchange UNINITIALIZED INITIALIZING o1 of
     (Inl _, _) \<Rightarrow> None
   | (Inr _, o2) \<Rightarrow> init_with_unchecked (Some v) o2)"

text \<open>A call that runs alone on a cell that another caller is initialising would spin for ever: \<open>None\<close>.\<close>

definition get_or_init_with :: "'v option \<Rightarrow> 'v once \<Rightarrow> ('v \<times> 'v once) option" where
  "get_or_init_with f o1 = do {
     got \<leftarrow> once_get o1;
     case got of
       Some v \<Rightarrow> Some (v, o1)
     | None \<Rightarrow> (case compare_exchange UNINITIALIZED INITIALIZING o1 of
           (Inr _, o2) \<Rightarrow> init_with_unchecked f o2
         | (Inl st, o2) \<Rightarrow> if st = INITIALIZED then map_option (\<lambda>v. (v, o2)) (get_unchecked o2) else None) }"

section \<open>\<open>Lazy\<close> and \<open>TakeOnce\<close>\<close>

record ('v, 'i) lazy =
  lz_inner :: "'v once"
  lz_initializer :: "'i option"

definition lazy_new :: "'i \<Rightarrow> ('v, 'i) lazy" where
  "lazy_new i = \<lparr>lz_inner = once_new, lz_initializer = Some i\<rparr>"

definition lazy_get :: "('i \<Rightarrow> 'v option) \<Rightarrow> ('v, 'i) lazy \<Rightarrow> ('v \<times> ('v, 'i) lazy) option" where
  "lazy_get call l = do {
     (v, o1) \<leftarrow> get_or_init_with (Option.bind (lz_initializer l) call) (lz_inner l);
     Some (v, if on_state (lz_inner l) = INITIALIZED then l\<lparr>lz_inner := o1\<rparr> else \<lparr>lz_inner = o1, lz_initializer = None\<rparr>) }"

record 'v take_once =
  tk_value :: "'v option"
  tk_taken :: bool

definition take_once_new :: "'v take_once" where
  "take_once_new = \<lparr>tk_value = None, tk_taken = False\<rparr>"

definition take_init_with :: "'v option \<Rightarrow> 'v take_once \<Rightarrow> ('v option \<times> 'v take_once) option" where
  "take_init_with f t =
     (if tk_taken t then Some (None, t)
      else do { v \<leftarrow> f; Some (Some v, \<lparr>tk_value = Some v, tk_taken = True\<rparr>) })"

definition take_init :: "'v \<Rightarrow> 'v take_once \<Rightarrow> ('v option \<times> 'v take_once) option" where
  "take_init v t = take_init_with (Some v) t"

lemma take_init_once:
  assumes "take_init v t = Some (r, t')"
  shows "tk_taken t'" "take_init w t' = Some (None, t')" "r \<noteq> None \<longleftrightarrow> \<not> tk_taken t"
  using assms by (auto simp: take_init_def take_init_with_def split: if_splits)

lemma lazy_get_once:
  "lazy_get call (lazy_new i) = map_option (\<lambda>v. (v, \<lparr>lz_inner = \<lparr>on_value = Some v, on_state = INITIALIZED\<rparr>, lz_initializer = None\<rparr>)) (call i)"
  "lz_inner l = \<lparr>on_value = Some v, on_state = INITIALIZED\<rparr> \<Longrightarrow> lazy_get call l = Some (v, l)"
  by (cases "call i") (simp_all add: lazy_get_def lazy_new_def get_or_init_with_def once_get_def once_new_def compare_exchange_def
      init_with_unchecked_def get_unchecked_def once_states)

section \<open>Concurrent callers\<close>

text \<open>
  Where a caller is: about to load the state (fast path), about to exchange it, running the initialiser, about to publish, spinning, about
  to read the value, done, or panicked. \<open>Initiate\<close> is the start of \<open>init_with\<close>.
\<close>

datatype 'v once_pc = FastPath | Exchange | RunInit | Publish 'v | SpinWait | Fetch | Returned 'v | Panicked | Initiate

text \<open>One atomic step of a caller whose initialiser computes \<open>v\<close>. A finished caller has no step.\<close>

fun once_step :: "'v \<Rightarrow> 'v once_pc \<Rightarrow> 'v once \<Rightarrow> ('v once_pc \<times> 'v once) option" where
  "once_step v FastPath o1 = Some (if on_state o1 = INITIALIZED then Fetch else Exchange, o1)"
| "once_step v Exchange o1 = (case compare_exchange UNINITIALIZED INITIALIZING o1 of
     (Inr _, o2) \<Rightarrow> Some (RunInit, o2)
   | (Inl st, o2) \<Rightarrow> Some (if st = INITIALIZED then Fetch else if st = INITIALIZING then SpinWait else Panicked, o2))"
| "once_step v RunInit o1 = Some (Publish v, o1\<lparr>on_value := Some v\<rparr>)"
| "once_step v (Publish r) o1 = Some (Returned r, o1\<lparr>on_state := INITIALIZED\<rparr>)"
| "once_step v SpinWait o1 = Some (if on_state o1 = INITIALIZING then SpinWait else Fetch, o1)"
| "once_step v Fetch o1 = map_option (\<lambda>r. (Returned r, o1)) (get_unchecked o1)"
| "once_step v Initiate o1 = (case compare_exchange UNINITIALIZED INITIALIZING o1 of
     (Inr _, o2) \<Rightarrow> Some (RunInit, o2)
   | (Inl _, o2) \<Rightarrow> Some (Panicked, o2))"
| "once_step v (Returned r) o1 = None"
| "once_step v Panicked o1 = None"

text \<open>Any interleaving of the steps of the callers; caller \<open>t\<close> would initialise with \<open>vs ! t\<close>. The trace lists who stepped from where.\<close>

type_synonym 'v once_sys = "'v once \<times> 'v once_pc list"

inductive once_run :: "'v list \<Rightarrow> 'v once_sys \<Rightarrow> (nat \<times> 'v once_pc) list \<Rightarrow> 'v once_sys \<Rightarrow> bool" for vs where
  once_refl: "once_run vs s [] s"
| once_trans: "once_run vs s tr (o1, pcs) \<Longrightarrow> t < length pcs \<Longrightarrow> once_step (vs ! t) (pcs ! t) o1 = Some (pc', o2) \<Longrightarrow>
    once_run vs s (tr @ [(t, pcs ! t)]) (o2, pcs[t := pc'])"

text \<open>The invariant, by the state of the cell.\<close>

definition in_init :: "'v once_pc \<Rightarrow> bool" where
  "in_init pc \<longleftrightarrow> (case pc of RunInit \<Rightarrow> True | Publish _ \<Rightarrow> True | _ \<Rightarrow> False)"

definition past_init :: "'v once_pc \<Rightarrow> bool" where
  "past_init pc \<longleftrightarrow> (case pc of Fetch \<Rightarrow> True | Returned _ \<Rightarrow> True | _ \<Rightarrow> False)"

lemma pc_class [simp]:
  "in_init RunInit" "in_init (Publish r)" "\<not> in_init FastPath" "\<not> in_init Exchange" "\<not> in_init SpinWait" "\<not> in_init Fetch"
  "\<not> in_init (Returned r)" "\<not> in_init Panicked" "\<not> in_init Initiate" "past_init Fetch" "past_init (Returned r)"
  "\<not> past_init FastPath" "\<not> past_init Exchange" "\<not> past_init SpinWait" "\<not> past_init RunInit" "\<not> past_init (Publish r)"
  "\<not> past_init Panicked" "\<not> past_init Initiate"
  by (simp_all add: in_init_def past_init_def)

definition uninit_inv :: "(nat \<times> 'v once_pc) list \<Rightarrow> 'v once_sys \<Rightarrow> bool" where
  "uninit_inv tr = (\<lambda>(o1, pcs). on_state o1 = UNINITIALIZED \<and> (\<forall>pc\<in>set pcs. \<not> in_init pc \<and> \<not> past_init pc \<and> pc \<noteq> SpinWait \<and> pc \<noteq> Panicked) \<and>
     (\<forall>x\<in>set tr. snd x \<noteq> RunInit))"

definition initing_inv :: "'v list \<Rightarrow> (nat \<times> 'v once_pc) list \<Rightarrow> 'v once_sys \<Rightarrow> bool" where
  "initing_inv vs tr = (\<lambda>(o1, pcs). on_state o1 = INITIALIZING \<and> (\<forall>pc\<in>set pcs. \<not> past_init pc) \<and>
     (\<exists>t < length pcs. (\<forall>u < length pcs. u \<noteq> t \<longrightarrow> \<not> in_init (pcs ! u)) \<and>
        (pcs ! t = RunInit \<and> (\<forall>x\<in>set tr. snd x \<noteq> RunInit) \<or>
         pcs ! t = Publish (vs ! t) \<and> on_value o1 = Some (vs ! t) \<and> filter (\<lambda>x. snd x = RunInit) tr = [(t, RunInit)])))"

definition inited_inv :: "'v list \<Rightarrow> (nat \<times> 'v once_pc) list \<Rightarrow> 'v once_sys \<Rightarrow> bool" where
  "inited_inv vs tr = (\<lambda>(o1, pcs). on_state o1 = INITIALIZED \<and> (\<forall>pc\<in>set pcs. \<not> in_init pc) \<and>
     (\<exists>t < length pcs. on_value o1 = Some (vs ! t) \<and> filter (\<lambda>x. snd x = RunInit) tr = [(t, RunInit)] \<and>
        (\<forall>r. Returned r \<in> set pcs \<longrightarrow> r = vs ! t)))"

definition once_inv :: "'v list \<Rightarrow> (nat \<times> 'v once_pc) list \<Rightarrow> 'v once_sys \<Rightarrow> bool" where
  "once_inv vs tr s \<longleftrightarrow> uninit_inv tr s \<or> initing_inv vs tr s \<or> inited_inv vs tr s"

lemma set_update: "x \<in> set (xs[i := y]) \<Longrightarrow> x = y \<or> x \<in> set xs"
  using set_update_subset_insert by fastforce

lemma no_init_filter: "\<forall>x\<in>set tr. snd x \<noteq> pc \<Longrightarrow> filter (\<lambda>x. snd x = pc) tr = []"
  by (simp add: filter_empty_conv)

lemma uninit_step:
  assumes "uninit_inv tr (o1, pcs)" "t < length pcs" "once_step (vs ! t) (pcs ! t) o1 = Some (pc', o2)"
  shows "once_inv vs (tr @ [(t, pcs ! t)]) (o2, pcs[t := pc'])"
proof -
  have "pcs ! t \<in> set pcs" using assms(2) by simp
  with assms(1) have pc: "pcs ! t = FastPath \<or> pcs ! t = Exchange \<or> pcs ! t = Initiate"
    by (cases "pcs ! t") (auto simp: uninit_inv_def)
  have other: "\<forall>u < length pcs. \<not> in_init (pcs ! u) \<and> \<not> past_init (pcs ! u)" using assms(1) by (auto simp: uninit_inv_def)
  show ?thesis
  proof (cases "pcs ! t = FastPath")
    case True
    then have "uninit_inv (tr @ [(t, pcs ! t)]) (o2, pcs[t := pc'])"
      using assms by (auto simp: uninit_inv_def once_states dest!: set_update)
    then show ?thesis by (simp add: once_inv_def)
  next
    case False
    then have "pc' = RunInit" "o2 = o1\<lparr>on_state := INITIALIZING\<rparr>"
      using assms(1,3) pc by (auto simp: uninit_inv_def compare_exchange_def)
    then have "initing_inv vs (tr @ [(t, pcs ! t)]) (o2, pcs[t := pc'])"
      using assms(1,2) other False pc
      by (auto simp: initing_inv_def uninit_inv_def nth_list_update dest!: set_update intro!: exI [of _ t])
    then show ?thesis by (simp add: once_inv_def)
  qed
qed

lemma initing_step_other:
  assumes "\<not> in_init pc" "\<not> past_init pc" "on_state o1 = INITIALIZING" "once_step v pc o1 = Some (pc', o2)"
  shows "o2 = o1" "\<not> in_init pc'" "\<not> past_init pc'" "pc \<noteq> RunInit"
  using assms by (cases pc; auto simp: compare_exchange_def once_states)+

lemma initing_step:
  assumes "initing_inv vs tr (o1, pcs)" "t < length pcs" "once_step (vs ! t) (pcs ! t) o1 = Some (pc', o2)"
  shows "once_inv vs (tr @ [(t, pcs ! t)]) (o2, pcs[t := pc'])"
proof -
  obtain t0 where t0: "t0 < length pcs" "\<forall>u < length pcs. u \<noteq> t0 \<longrightarrow> \<not> in_init (pcs ! u)"
    "pcs ! t0 = RunInit \<and> (\<forall>x\<in>set tr. snd x \<noteq> RunInit) \<or>
     pcs ! t0 = Publish (vs ! t0) \<and> on_value o1 = Some (vs ! t0) \<and> filter (\<lambda>x. snd x = RunInit) tr = [(t0, RunInit)]"
    using assms(1) by (auto simp: initing_inv_def)
  have st: "on_state o1 = INITIALIZING" "\<forall>pc\<in>set pcs. \<not> past_init pc" using assms(1) by (auto simp: initing_inv_def)
  consider (run) "t = t0" "pcs ! t0 = RunInit" | (pub) "t = t0" "pcs ! t0 = Publish (vs ! t0)" | (other) "t \<noteq> t0" using t0(3) by blast
  then show ?thesis
  proof cases
    case run
    then have "initing_inv vs (tr @ [(t, pcs ! t)]) (o2, pcs[t := pc'])"
      using assms(3) t0 st no_init_filter [of tr RunInit]
      by (auto simp: initing_inv_def nth_list_update dest!: set_update intro!: exI [of _ t])
    then show ?thesis by (simp add: once_inv_def)
  next
    case pub
    have "\<not> in_init pc" if pc: "pc \<in> set (pcs[t := Returned (vs ! t)])" for pc
    proof -
      obtain i where "i < length pcs" "pc = pcs[t := Returned (vs ! t)] ! i" using pc by (auto simp: in_set_conv_nth)
      then show ?thesis using t0(2) pub(1) by (cases "i = t") auto
    qed
    then have "inited_inv vs (tr @ [(t, pcs ! t)]) (o2, pcs[t := pc'])"
      using assms(3) t0 st pub by (auto simp: inited_inv_def dest!: set_update intro!: exI [of _ t])
    then show ?thesis by (simp add: once_inv_def)
  next
    case other
    have "\<not> in_init (pcs ! t)" "\<not> past_init (pcs ! t)" using other t0(2) st(2) assms(2) by auto
    note o = initing_step_other [OF this st(1) assms(3)]
    have "\<forall>u < length pcs. u \<noteq> t0 \<longrightarrow> \<not> in_init (pcs[t := pc'] ! u)" using o(2) t0(2) assms(2) by (simp add: nth_list_update)
    then have "initing_inv vs (tr @ [(t, pcs ! t)]) (o2, pcs[t := pc'])"
      using o t0 st other by (auto simp: initing_inv_def dest!: set_update intro!: exI [of _ t0])
    then show ?thesis by (simp add: once_inv_def)
  qed
qed

lemma inited_step:
  assumes "inited_inv vs tr (o1, pcs)" "t < length pcs" "once_step (vs ! t) (pcs ! t) o1 = Some (pc', o2)"
  shows "once_inv vs (tr @ [(t, pcs ! t)]) (o2, pcs[t := pc'])"
proof -
  obtain t0 where t0: "t0 < length pcs" "on_value o1 = Some (vs ! t0)" "filter (\<lambda>x. snd x = RunInit) tr = [(t0, RunInit)]"
    "\<forall>r. Returned r \<in> set pcs \<longrightarrow> r = vs ! t0" using assms(1) by (auto simp: inited_inv_def)
  have st: "on_state o1 = INITIALIZED" "\<forall>pc\<in>set pcs. \<not> in_init pc" using assms(1) by (auto simp: inited_inv_def)
  have "\<not> in_init (pcs ! t)" using st(2) assms(2) by auto
  then have "o2 = o1" "\<not> in_init pc'" "pcs ! t \<noteq> RunInit" "\<And>r. pc' = Returned r \<Longrightarrow> r = vs ! t0"
    using assms(3) st(1) t0(2) by (cases "pcs ! t"; auto simp: compare_exchange_def once_states get_unchecked_def)+
  then have "inited_inv vs (tr @ [(t, pcs ! t)]) (o2, pcs[t := pc'])"
    using t0 st by (auto simp: inited_inv_def dest!: set_update intro!: exI [of _ t0])
  then show ?thesis by (simp add: once_inv_def)
qed

lemma once_run_inv:
  assumes "once_run vs s tr s'" "s = (once_new, pcs0)" "\<forall>pc\<in>set pcs0. pc = FastPath \<or> pc = Initiate"
  shows "once_inv vs tr s' \<and> length (snd s') = length pcs0"
  using assms
proof (induction rule: once_run.induct)
  case (once_refl s)
  then show ?case by (auto simp: once_inv_def uninit_inv_def once_new_def)
next
  case (once_trans s tr o1 pcs t pc' o2)
  then have "once_inv vs tr (o1, pcs)" by simp
  then consider "uninit_inv tr (o1, pcs)" | "initing_inv vs tr (o1, pcs)" | "inited_inv vs tr (o1, pcs)" unfolding once_inv_def by blast
  then have "once_inv vs (tr @ [(t, pcs ! t)]) (o2, pcs[t := pc'])"
    using once_trans.hyps(2,3) by cases (rule uninit_step initing_step inited_step; assumption)+
  then show ?case using once_trans by simp
qed

lemma once_run_panic:
  assumes "once_run vs s tr s'" "s = (once_new, pcs0)" "\<forall>pc\<in>set pcs0. pc = FastPath \<or> pc = Initiate"
  shows "\<forall>t < length pcs0. snd s' ! t = Panicked \<or> snd s' ! t = Initiate \<longrightarrow> pcs0 ! t = Initiate"
  using assms
proof (induction rule: once_run.induct)
  case (once_trans s tr o1 pcs t pc' o2)
  have inv: "once_inv vs tr (o1, pcs)" "length pcs = length pcs0" using once_run_inv [OF once_trans.hyps(1) once_trans.prems] by simp_all
  have "on_state o1 = UNINITIALIZED \<or> on_state o1 = INITIALIZING \<or> on_state o1 = INITIALIZED"
    using inv(1) by (auto simp: once_inv_def uninit_inv_def initing_inv_def inited_inv_def)
  then have "pc' \<noteq> Initiate" "pc' = Panicked \<Longrightarrow> pcs ! t = Initiate"
    using once_trans.hyps(3) by (cases "pcs ! t"; auto simp: compare_exchange_def once_states split: if_splits)+
  then show ?case using once_trans inv(2) by (auto simp: nth_list_update)
qed (auto dest: bspec [OF _ nth_mem])

text \<open>Every caller that is not finished can step, and some step is not a spin.\<close>

definition finished :: "'v once_pc \<Rightarrow> bool" where
  "finished pc \<longleftrightarrow> (case pc of Returned _ \<Rightarrow> True | Panicked \<Rightarrow> True | _ \<Rightarrow> False)"

fun pc_weight :: "'v once_pc \<Rightarrow> nat" where
  "pc_weight FastPath = 6" | "pc_weight Initiate = 6" | "pc_weight Exchange = 5" | "pc_weight RunInit = 4" | "pc_weight (Publish r) = 3"
| "pc_weight SpinWait = 3" | "pc_weight Fetch = 2" | "pc_weight (Returned r) = 0" | "pc_weight Panicked = 0"

lemma once_step_weight:
  "once_step v pc o1 = Some (pc', o2) \<Longrightarrow> pc' = pc \<and> pc = SpinWait \<and> o2 = o1 \<or> pc_weight pc' < pc_weight pc"
  by (cases pc) (auto simp: compare_exchange_def split: if_splits)

lemma once_progress:
  assumes "once_inv vs tr (o1, pcs)" "u < length pcs" "\<not> finished (pcs ! u)"
  shows "\<exists>t < length pcs. \<exists>pc' o2. once_step (vs ! t) (pcs ! t) o1 = Some (pc', o2) \<and> pc_weight pc' < pc_weight (pcs ! t)"
proof -
  have step: "\<exists>pc' o2. once_step (vs ! u) (pcs ! u) o1 = Some (pc', o2) \<and> pc_weight pc' < pc_weight (pcs ! u)"
    if "pcs ! u = SpinWait \<Longrightarrow> on_state o1 \<noteq> INITIALIZING" "pcs ! u = Fetch \<Longrightarrow> on_value o1 \<noteq> None"
    using that assms(3) by (cases "pcs ! u") (auto simp: finished_def compare_exchange_def get_unchecked_def)
  have mem: "pcs ! u \<in> set pcs" using assms(2) by simp
  consider "uninit_inv tr (o1, pcs)" | "initing_inv vs tr (o1, pcs)" | "inited_inv vs tr (o1, pcs)" using assms(1) unfolding once_inv_def by blast
  then show ?thesis
  proof cases
    case 1
    then have "pcs ! u \<noteq> SpinWait" "pcs ! u \<noteq> Fetch" using mem by (auto simp: uninit_inv_def)
    then show ?thesis using step assms(2) by blast
  next
    case 2
    then obtain t where "t < length pcs" "pcs ! t = RunInit \<or> pcs ! t = Publish (vs ! t)" by (auto simp: initing_inv_def)
    then show ?thesis by (intro exI [of _ t]) auto
  next
    case 3
    then have "on_state o1 \<noteq> INITIALIZING" "on_value o1 \<noteq> None" by (auto simp: inited_inv_def once_states)
    then show ?thesis using step assms(2) by blast
  qed
qed

lemma weight_update: "t < length pcs \<Longrightarrow> pc_weight pc' < pc_weight (pcs ! t) \<Longrightarrow> sum_list (map pc_weight (pcs[t := pc'])) < sum_list (map pc_weight pcs)"
  by (induction pcs arbitrary: t) (auto simp: nth_Cons' split: nat.splits)

lemma once_finish:
  assumes "once_run vs (once_new, pcs0) tr s" "\<forall>pc\<in>set pcs0. pc = FastPath \<or> pc = Initiate"
  shows "\<exists>tr' s'. once_run vs (once_new, pcs0) (tr @ tr') s' \<and> (\<forall>pc\<in>set (snd s'). finished pc)"
  using assms(1)
proof (induction "sum_list (map pc_weight (snd s))" arbitrary: tr s rule: less_induct)
  case less
  obtain o1 pcs where s: "s = (o1, pcs)" by (cases s)
  show ?case
  proof (cases "\<forall>pc\<in>set pcs. finished pc")
    case True
    then show ?thesis using less.prems s by (intro exI [of _ "[]"] exI [of _ s]) simp
  next
    case False
    then obtain u where "u < length pcs" "\<not> finished (pcs ! u)" by (auto simp: in_set_conv_nth)
    moreover have "once_inv vs tr (o1, pcs)" using once_run_inv [OF less.prems refl assms(2)] s by simp
    ultimately obtain t pc' o2 where t: "t < length pcs" "once_step (vs ! t) (pcs ! t) o1 = Some (pc', o2)" "pc_weight pc' < pc_weight (pcs ! t)"
      using once_progress by blast
    have "once_run vs (once_new, pcs0) (tr @ [(t, pcs ! t)]) (o2, pcs[t := pc'])" using less.prems t s by (auto intro: once_trans)
    moreover have "sum_list (map pc_weight (snd (o2, pcs[t := pc']))) < sum_list (map pc_weight (snd s))"
      using weight_update [OF t(1,3)] s by simp
    ultimately show ?thesis using less.hyps by fastforce
  qed
qed

text \<open>
  C33. However the callers of a fresh \<open>Once\<close> are interleaved, at most one initialiser is ever run, every caller that returns gets the
  value of that one initialiser, and only callers of \<open>init\<close> can have panicked, never one of \<open>get_or_init_with\<close>.
\<close>

theorem once_initialised_once:
  assumes "once_run vs (once_new, pcs0) tr (o1, pcs)" "\<forall>pc\<in>set pcs0. pc = FastPath \<or> pc = Initiate"
  shows "\<exists>w. length (filter (\<lambda>x. snd x = RunInit) tr) \<le> 1 \<and> (\<forall>r. Returned r \<in> set pcs \<longrightarrow> r = vs ! w \<and> filter (\<lambda>x. snd x = RunInit) tr = [(w, RunInit)]) \<and>
    (\<forall>t < length pcs. pcs ! t = Panicked \<longrightarrow> pcs0 ! t = Initiate)"
proof -
  have inv: "once_inv vs tr (o1, pcs)" "length pcs = length pcs0" using once_run_inv [OF assms(1) refl assms(2)] by simp_all
  have "\<exists>w. length (filter (\<lambda>x. snd x = RunInit) tr) \<le> 1 \<and> (\<forall>r. Returned r \<in> set pcs \<longrightarrow> r = vs ! w \<and> filter (\<lambda>x. snd x = RunInit) tr = [(w, RunInit)])"
    using inv(1) by (fastforce simp: once_inv_def uninit_inv_def initing_inv_def inited_inv_def no_init_filter)
  moreover have "\<forall>t < length pcs. pcs ! t = Panicked \<longrightarrow> pcs0 ! t = Initiate"
    using once_run_panic [OF assms(1) refl assms(2)] inv(2) by simp
  ultimately show ?thesis by blast
qed

text \<open>Two callers race; the second wins the exchange while the first is on its way.\<close>

lemma race_run:
  "once_run [10, 20::nat] (once_new, [FastPath, FastPath]) [(0, FastPath), (1, FastPath), (1, Exchange), (0, Exchange), (1, RunInit), (1, Publish 20), (0, SpinWait), (0, Fetch)]
     (\<lparr>on_value = Some 20, on_state = INITIALIZED\<rparr>, [Returned 20, Returned 20])"
proof -
  let ?vs = "[10, 20::nat]" and ?U = "once_new :: nat once" and ?I = "\<lparr>on_value = None, on_state = INITIALIZING\<rparr> :: nat once"
  let ?W = "\<lparr>on_value = Some 20, on_state = INITIALIZING\<rparr>" and ?D = "\<lparr>on_value = Some 20, on_state = INITIALIZED\<rparr>"
  note step = once_trans [simplified, of ?vs]
  have "once_run ?vs (?U, [FastPath, FastPath]) [] (?U, [FastPath, FastPath])" by (rule once_refl)
  from step [OF this, of 0] have "once_run ?vs (?U, [FastPath, FastPath]) [(0, FastPath)] (?U, [Exchange, FastPath])"
    by (simp add: once_new_def once_states)
  from step [OF this, of 1] have "once_run ?vs (?U, [FastPath, FastPath]) [(0, FastPath), (1, FastPath)] (?U, [Exchange, Exchange])"
    by (simp add: once_new_def once_states)
  from step [OF this, of 1] have "once_run ?vs (?U, [FastPath, FastPath]) [(0, FastPath), (1, FastPath), (1, Exchange)] (?I, [Exchange, RunInit])"
    by (simp add: once_new_def compare_exchange_def)
  from step [OF this, of 0] have "once_run ?vs (?U, [FastPath, FastPath]) [(0, FastPath), (1, FastPath), (1, Exchange), (0, Exchange)] (?I, [SpinWait, RunInit])"
    by (simp add: compare_exchange_def once_states)
  from step [OF this, of 1] have "once_run ?vs (?U, [FastPath, FastPath]) [(0, FastPath), (1, FastPath), (1, Exchange), (0, Exchange), (1, RunInit)] (?W, [SpinWait, Publish 20])"
    by simp
  from step [OF this, of 1] have "once_run ?vs (?U, [FastPath, FastPath])
    [(0, FastPath), (1, FastPath), (1, Exchange), (0, Exchange), (1, RunInit), (1, Publish 20)] (?D, [SpinWait, Returned 20])" by simp
  from step [OF this, of 0] have "once_run ?vs (?U, [FastPath, FastPath])
    [(0, FastPath), (1, FastPath), (1, Exchange), (0, Exchange), (1, RunInit), (1, Publish 20), (0, SpinWait)] (?D, [Fetch, Returned 20])"
    by (simp add: once_states)
  from step [OF this, of 0] show ?thesis by (simp add: get_unchecked_def)
qed

theorem once_initialised_once_witness:
  "\<exists>w. (20 :: nat) = [10, 20] ! w \<and> filter (\<lambda>x. snd x = (RunInit :: nat once_pc)) [(0, FastPath), (1, FastPath), (1, Exchange), (0, Exchange), (1, RunInit), (1, Publish 20), (0, SpinWait), (0, Fetch)] = [(w, RunInit)]"
  using once_initialised_once [OF race_run] by simp

text \<open>
  C34. Nobody waits for ever: from every state that callers of a fresh \<open>Once\<close> can reach there is a continuation after which all of them have
  returned or panicked.
\<close>

theorem once_terminates:
  assumes "once_run vs (once_new, pcs0) tr s" "\<forall>pc\<in>set pcs0. pc = FastPath \<or> pc = Initiate"
  shows "\<exists>tr' s'. once_run vs (once_new, pcs0) (tr @ tr') s' \<and> (\<forall>pc\<in>set (snd s'). finished pc)"
  using once_finish [OF assms] .

theorem once_terminates_witness:
  "\<exists>tr' s'. once_run [10, 20 :: nat] (once_new, [FastPath, Initiate]) ([] @ tr') s' \<and> (\<forall>pc\<in>set (snd s'). finished pc)"
  using once_terminates [OF once_refl, of "[FastPath, Initiate]" "[10, 20 :: nat]"] by simp

end
