(* ===== verification/Descriptor.thy ===== *)
theory Descriptor
  imports Mm_Types Spin_Once
begin

text \<open>
  The tables the x86-64 processor reads (\<open>arch/x86_64/descriptor.rs\<close>) and the interrupt vectors (\<open>arch/x86_64/interrupt_vectors.rs\<close>): the
  task state segment, the global descriptor table and the interrupt descriptor table. What the processor makes
  of a descriptor is given by the functions \<open>hw_\<close>, from the layouts in the architecture manual, and the
  descriptors the kernel builds are decoded with them.
\<close>

section \<open>Interrupt vectors\<close>

definition TOTAL_VECTORS :: usize where "TOTAL_VECTORS = 256"

definition VECTOR_DIVIDE_ERROR :: u64 where "VECTOR_DIVIDE_ERROR = 0"
definition VECTOR_DEBUG :: u64 where "VECTOR_DEBUG = 1"
definition VECTOR_NMI :: u64 where "VECTOR_NMI = 2"
definition VECTOR_BREAKPOINT :: u64 where "VECTOR_BREAKPOINT = 3"
definition VECTOR_OVERFLOW :: u64 where "VECTOR_OVERFLOW = 4"
definition VECTOR_BOUND :: u64 where "VECTOR_BOUND = 5"
definition VECTOR_INVALID_OPCODE :: u64 where "VECTOR_INVALID_OPCODE = 6"
definition VECTOR_DEVICE_NOT_AVAIL :: u64 where "VECTOR_DEVICE_NOT_AVAIL = 7"
definition VECTOR_DOUBLE_FAULT :: u64 where "VECTOR_DOUBLE_FAULT = 8"
definition VECTOR_INVALID_TSS :: u64 where "VECTOR_INVALID_TSS = 10"
definition VECTOR_SEGMENT_NP :: u64 where "VECTOR_SEGMENT_NP = 11"
definition VECTOR_STACK_FAULT :: u64 where "VECTOR_STACK_FAULT = 12"
definition VECTOR_GP_FAULT :: u64 where "VECTOR_GP_FAULT = 13"
definition VECTOR_PAGE_FAULT :: u64 where "VECTOR_PAGE_FAULT = 14"
definition VECTOR_FPU_ERROR :: u64 where "VECTOR_FPU_ERROR = 16"
definition VECTOR_ALIGNMENT_CHECK :: u64 where "VECTOR_ALIGNMENT_CHECK = 17"
definition VECTOR_MACHINE_CHECK :: u64 where "VECTOR_MACHINE_CHECK = 18"
definition VECTOR_SIMD_ERROR :: u64 where "VECTOR_SIMD_ERROR = 19"

lemmas vector_defs = VECTOR_DIVIDE_ERROR_def VECTOR_DEBUG_def VECTOR_NMI_def VECTOR_BREAKPOINT_def VECTOR_OVERFLOW_def
  VECTOR_BOUND_def VECTOR_INVALID_OPCODE_def VECTOR_DEVICE_NOT_AVAIL_def VECTOR_DOUBLE_FAULT_def VECTOR_INVALID_TSS_def
  VECTOR_SEGMENT_NP_def VECTOR_STACK_FAULT_def VECTOR_GP_FAULT_def VECTOR_PAGE_FAULT_def VECTOR_FPU_ERROR_def
  VECTOR_ALIGNMENT_CHECK_def VECTOR_MACHINE_CHECK_def VECTOR_SIMD_ERROR_def

text \<open>The macro \<open>for_each_interrupt\<close> runs its argument once for each literal vector, 0 to 255 in order.\<close>

definition interrupt_list :: "nat list" where
  "interrupt_list = [0..<256]"

definition for_each_interrupt :: "(nat \<Rightarrow> 's \<Rightarrow> 's option) \<Rightarrow> 's \<Rightarrow> 's option" where
  "for_each_interrupt f s = fold (\<lambda>v r. do { s \<leftarrow> r; f v s }) interrupt_list (Some s)"

section \<open>Task state segment\<close>

definition IOPB_BITS :: usize where "IOPB_BITS = 0x10000"
definition IOPB_BYTES :: usize where "IOPB_BYTES = 0x2000"

record tss_fixed =
  reserved0 :: u32
  rsp0 :: u64
  rsp1 :: u64
  rsp2 :: u64
  reserved1 :: u32
  reserved2 :: u32
  ist1 :: u64
  ist2 :: u64
  ist3 :: u64
  ist4 :: u64
  ist5 :: u64
  ist6 :: u64
  ist7 :: u64
  reserved3 :: u32
  reserved4 :: u32
  reserved5 :: u16
  iopb_base :: u16

text \<open>The structures are packed: their sizes are the sums of the sizes of their fields.\<close>

definition TSS_FIXED_SIZE :: usize where
  "TSS_FIXED_SIZE = 4 + 3 * 8 + 2 * 4 + 7 * 8 + 2 * 4 + 2 + 2"

definition TSS_SIZE :: usize where
  "TSS_SIZE = TSS_FIXED_SIZE + (IOPB_BYTES + 1)"

definition IST_NMI :: u8 where "IST_NMI = 1"
definition IST_DOUBLE_FAULT :: u8 where "IST_DOUBLE_FAULT = 2"

record tss =
  tss_fixed :: tss_fixed
  tss_iopb :: "u8 list"

definition tss_init :: "virt_addr \<Rightarrow> virt_addr \<Rightarrow> tss" where
  "tss_init nmi_stack double_fault_stack = \<lparr>
     tss_fixed = \<lparr>reserved0 = 0, rsp0 = 0, rsp1 = 0, rsp2 = 0, reserved1 = 0, reserved2 = 0,
       ist1 = word_of_nat nmi_stack, ist2 = word_of_nat double_fault_stack, ist3 = 0, ist4 = 0, ist5 = 0, ist6 = 0, ist7 = 0,
       reserved3 = 0, reserved4 = 0, reserved5 = 0, iopb_base = word_of_nat TSS_FIXED_SIZE\<rparr>,
     tss_iopb = replicate (IOPB_BYTES + 1) 0xff\<rparr>"

definition set_rsp0 :: "virt_addr \<Rightarrow> tss \<Rightarrow> tss" where
  "set_rsp0 a t = t\<lparr>tss_fixed := (tss_fixed t)\<lparr>rsp0 := word_of_nat a\<rparr>\<rparr>"

definition set_iopb :: "u8 list \<Rightarrow> tss \<Rightarrow> tss" where
  "set_iopb iopb t = t\<lparr>tss_iopb := iopb @ drop IOPB_BYTES (tss_iopb t)\<rparr>"

section \<open>Global descriptor table\<close>

definition GDT_WRITE :: u64 where "GDT_WRITE = push_bit 41 1"
definition GDT_NON_SYSTEM :: u64 where "GDT_NON_SYSTEM = push_bit 44 1"
definition GDT_RING3 :: u64 where "GDT_RING3 = push_bit 45 3"
definition GDT_PRESENT :: u64 where "GDT_PRESENT = push_bit 47 1"
definition GDT_LONG_MODE :: u64 where "GDT_LONG_MODE = push_bit 53 1"
definition GDT_TYPE_CODE :: u64 where "GDT_TYPE_CODE = push_bit 43 1"
definition GDT_TYPE_TSS :: u64 where "GDT_TYPE_TSS = push_bit 40 9"

lemmas gdt_flag_defs = GDT_WRITE_def GDT_NON_SYSTEM_def GDT_RING3_def GDT_PRESENT_def GDT_LONG_MODE_def GDT_TYPE_CODE_def GDT_TYPE_TSS_def

definition KERNEL_CODE_SELECTOR :: u16 where "KERNEL_CODE_SELECTOR = 8"
definition TSS_SELECTOR :: u16 where "TSS_SELECTOR = 16"

definition make_gdt_non_system_descriptor :: "u64 \<Rightarrow> u64" where
  "make_gdt_non_system_descriptor flags = flags OR GDT_NON_SYSTEM OR GDT_PRESENT"

definition make_gdt_tss_descriptor :: "u64 \<Rightarrow> u64 \<times> u64" where
  "make_gdt_tss_descriptor base =
     (let flags = GDT_PRESENT OR GDT_TYPE_TSS;
          limit = word_of_nat (TSS_SIZE - 1);
          base_32_63 = drop_bit 32 base;
          base_0_23 = base AND 0xffffff;
          base_24_31 = drop_bit 24 base AND 0xff;
          limit_0_15 = limit AND 0xffff;
          limit_16_19 = drop_bit 16 limit AND 0xf
      in (flags OR limit_0_15 OR push_bit 16 base_0_23 OR limit_16_19 OR push_bit 56 base_24_31, base_32_63))"

definition gdt_new :: "virt_addr \<Rightarrow> u64 list" where
  "gdt_new t = (case make_gdt_tss_descriptor (word_of_nat t) of (tss_lo, tss_hi) \<Rightarrow>
     [0, make_gdt_non_system_descriptor (GDT_TYPE_CODE OR GDT_LONG_MODE), tss_lo, tss_hi])"

section \<open>Interrupt descriptor table\<close>

definition IDT_PRESENT :: u64 where "IDT_PRESENT = push_bit 47 1"
definition IDT_TYPE_INTERRUPT_64 :: u64 where "IDT_TYPE_INTERRUPT_64 = push_bit 40 0xe"

type_synonym idt_entry = "u64 \<times> u64"

definition get_ist :: "u64 \<Rightarrow> u8" where
  "get_ist vector = (if vector = VECTOR_NMI then IST_NMI else if vector = VECTOR_DOUBLE_FAULT then IST_DOUBLE_FAULT else 0)"

definition make_idt_entry :: "u64 \<Rightarrow> u16 \<Rightarrow> u8 \<Rightarrow> idt_entry" where
  "make_idt_entry entry_point cs_selector ist =
     (let selector = ucast cs_selector :: u64;
          ist64 = ucast (ist AND 7) :: u64;
          offset_0_15 = entry_point AND 0xffff;
          offset_16_31 = drop_bit 16 entry_point AND 0xffff;
          offset_32_63 = drop_bit 32 entry_point;
          flags = IDT_PRESENT OR IDT_TYPE_INTERRUPT_64
      in (flags OR offset_0_15 OR push_bit 16 selector OR push_bit 32 ist64 OR push_bit 48 offset_16_31, offset_32_63))"

text \<open>\<open>entry v\<close> is the address of the entry point \<open>interrupt_vector_v\<close>; a slot is \<open>None\<close> until it is written.\<close>

definition set_entry :: "(nat \<Rightarrow> u64) \<Rightarrow> nat \<Rightarrow> idt_entry option list \<Rightarrow> idt_entry option list option" where
  "set_entry entry v slots = do {
     uassert (v < length slots);
     Some (slots[v := Some (make_idt_entry (entry v) KERNEL_CODE_SELECTOR (get_ist (word_of_nat v)))]) }"

definition idt_slots :: "(nat \<Rightarrow> u64) \<Rightarrow> idt_entry option list option" where
  "idt_slots entry = for_each_interrupt (set_entry entry) (replicate TOTAL_VECTORS None)"

definition init_idt :: "(nat \<Rightarrow> u64) \<Rightarrow> idt_entry list once \<Rightarrow> idt_entry list once option" where
  "init_idt entry idt = do {
     slots \<leftarrow> idt_slots entry;
     table \<leftarrow> those slots;
     (_, idt') \<leftarrow> once_init table idt;
     Some idt' }"

text \<open>The address of the table is the one of the static \<open>IDT\<close>; the table itself is what the model returns.\<close>

definition get_idt :: "idt_entry list once \<Rightarrow> idt_entry list option" where
  "get_idt idt = do { t \<leftarrow> once_get idt; t }"

definition get_idt_size :: usize where
  "get_idt_size = TOTAL_VECTORS * 16"

section \<open>What the processor reads\<close>

text \<open>A system segment descriptor of 16 bytes, as two 64-bit words.\<close>

definition hw_tss_base :: "u64 \<times> u64 \<Rightarrow> u64" where
  "hw_tss_base d = (drop_bit 16 (fst d) AND 0xffffff) OR push_bit 24 (drop_bit 56 (fst d)) OR push_bit 32 (snd d)"

definition hw_limit :: "u64 \<Rightarrow> u64" where
  "hw_limit lo = (lo AND 0xffff) OR push_bit 16 (drop_bit 48 lo AND 0xf)"

definition hw_type :: "u64 \<Rightarrow> u64" where
  "hw_type lo = drop_bit 40 lo AND 0xf"

definition hw_present :: "u64 \<Rightarrow> bool" where
  "hw_present lo = bit lo 47"

text \<open>A gate of the interrupt descriptor table.\<close>

definition hw_gate_offset :: "idt_entry \<Rightarrow> u64" where
  "hw_gate_offset d = (fst d AND 0xffff) OR push_bit 16 (drop_bit 48 (fst d)) OR push_bit 32 (snd d)"

definition hw_gate_selector :: "idt_entry \<Rightarrow> u16" where
  "hw_gate_selector d = ucast (drop_bit 16 (fst d))"

definition hw_gate_ist :: "idt_entry \<Rightarrow> u64" where
  "hw_gate_ist d = drop_bit 32 (fst d) AND 7"

definition hw_gate_dpl :: "idt_entry \<Rightarrow> u64" where
  "hw_gate_dpl d = drop_bit 45 (fst d) AND 3"

text \<open>The stack the processor switches to for a gate: the entry of the interrupt stack table it names, none for 0.\<close>

definition hw_ist_stack :: "tss \<Rightarrow> u64 \<Rightarrow> u64 option" where
  "hw_ist_stack t i = (let f = tss_fixed t in
     if i = 0 then None else Some ([ist1 f, ist2 f, ist3 f, ist4 f, ist5 f, ist6 f, ist7 f] ! (unat i - 1)))"

text \<open>The descriptor a selector picks from a table of descriptors.\<close>

definition hw_descriptor :: "u64 list \<Rightarrow> u16 \<Rightarrow> u64" where
  "hw_descriptor gdt sel = gdt ! (unat sel div 8)"

text \<open>A port is open to user code when its bit in the permission map is clear. The processor reads two bytes of the map,
  and both must lie within the limit of the segment.\<close>

definition hw_port_open :: "tss \<Rightarrow> nat \<Rightarrow> bool" where
  "hw_port_open t port = (let i = port div 8 in
     unat (iopb_base (tss_fixed t)) + i + 1 < TSS_SIZE \<and> \<not> bit (tss_iopb t ! i) (port mod 8))"

lemmas hw_defs = hw_tss_base_def hw_limit_def hw_type_def hw_present_def hw_gate_offset_def hw_gate_selector_def hw_gate_ist_def hw_gate_dpl_def

lemma field_masks:
  "(x::u64) AND 0xffff = take_bit 16 x" "x AND 0xffffff = take_bit 24 x" "x AND 0xff = take_bit 8 x" "x AND 0xf = take_bit 4 x"
  "x AND 7 = take_bit 3 x" "x AND 3 = take_bit 2 x" "(i::u8) AND 7 = take_bit 3 i"
  by (simp_all add: take_bit_eq_mask mask_eq_exp_minus_1)

lemma bit_push_one: "bit (push_bit k 1 :: u64) n \<longleftrightarrow> n = k \<and> k < 64"
  by (auto simp: bit_simps)

lemma gate_flag_bits: "bit IDT_PRESENT n \<longleftrightarrow> n = 47" "bit IDT_TYPE_INTERRUPT_64 n \<longleftrightarrow> n = 41 \<or> n = 42 \<or> n = 43"
proof -
  show "bit IDT_PRESENT n \<longleftrightarrow> n = 47" unfolding IDT_PRESENT_def bit_push_one by auto
  have e: "IDT_TYPE_INTERRUPT_64 = push_bit 41 1 OR push_bit 42 1 OR push_bit 43 1" by (simp add: IDT_TYPE_INTERRUPT_64_def)
  show "bit IDT_TYPE_INTERRUPT_64 n \<longleftrightarrow> n = 41 \<or> n = 42 \<or> n = 43" unfolding e bit_or_iff bit_push_one by auto
qed

lemma snd_idt_entry [simp]: "snd (make_idt_entry e cs ist) = drop_bit 32 e"
  by (simp add: make_idt_entry_def Let_def)

lemma bit_idt_entry:
  "bit (fst (make_idt_entry e cs ist)) n \<longleftrightarrow> n < 64 \<and>
     (if n < 16 then bit e n else if n < 32 then bit cs (n - 16) else if n < 35 then bit ist (n - 32)
      else if n < 48 then n = 41 \<or> n = 42 \<or> n = 43 \<or> n = 47 else bit e (n - 32))"
proof -
  have "16 \<le> k \<Longrightarrow> \<not> bit cs k" for k using bit_imp_le_length [of cs k] by auto
  then show ?thesis
    by (auto simp: make_idt_entry_def Let_def gate_flag_bits field_masks bit_simps)
qed

lemma idt_entry_decodes:
  "hw_gate_offset (make_idt_entry e cs ist) = e" "hw_gate_selector (make_idt_entry e cs ist) = cs"
  "hw_gate_ist (make_idt_entry e cs ist) = ucast ist AND 7" "hw_type (fst (make_idt_entry e cs ist)) = 0xe"
  "hw_present (fst (make_idt_entry e cs ist))" "hw_gate_dpl (make_idt_entry e cs ist) = 0"
proof -
  let ?d = "make_idt_entry e cs ist"
  show "hw_gate_offset ?d = e"
  proof (rule bit_word_eqI)
    fix n assume "n < LENGTH(64)"
    then show "bit (hw_gate_offset ?d) n = bit e n"
      by (cases "n < 32") (auto simp: hw_gate_offset_def field_masks bit_simps bit_idt_entry)
  qed
  show "hw_gate_selector ?d = cs"
    by (rule bit_word_eqI) (auto simp: hw_gate_selector_def bit_simps bit_idt_entry)
  show "hw_gate_ist ?d = ucast ist AND 7"
    by (rule bit_word_eqI) (auto simp: hw_gate_ist_def field_masks bit_simps bit_idt_entry)
  show "hw_present (fst ?d)" by (simp add: hw_present_def bit_idt_entry)
  show "hw_gate_dpl ?d = 0"
    by (rule bit_word_eqI) (auto simp: hw_gate_dpl_def field_masks bit_simps bit_idt_entry)
  have "bit (hw_type (fst ?d)) n \<longleftrightarrow> bit (push_bit 1 1 OR push_bit 2 1 OR push_bit 3 1 :: u64) n" if "n < 64" for n
    unfolding bit_or_iff bit_push_one using that by (auto simp: hw_type_def field_masks bit_simps bit_idt_entry)
  then have "hw_type (fst ?d) = push_bit 1 1 OR push_bit 2 1 OR push_bit 3 1" by (intro bit_word_eqI) simp
  then show "hw_type (fst ?d) = 0xe" by simp
qed

lemma gdt_flag_bits:
  "bit GDT_PRESENT n \<longleftrightarrow> n = 47" "bit GDT_TYPE_TSS n \<longleftrightarrow> n = 40 \<or> n = 43" "bit GDT_NON_SYSTEM n \<longleftrightarrow> n = 44"
  "bit GDT_LONG_MODE n \<longleftrightarrow> n = 53" "bit GDT_TYPE_CODE n \<longleftrightarrow> n = 43"
proof -
  show "bit GDT_PRESENT n \<longleftrightarrow> n = 47" "bit GDT_NON_SYSTEM n \<longleftrightarrow> n = 44" "bit GDT_LONG_MODE n \<longleftrightarrow> n = 53" "bit GDT_TYPE_CODE n \<longleftrightarrow> n = 43"
    unfolding gdt_flag_defs bit_push_one by auto
  have e: "GDT_TYPE_TSS = push_bit 40 1 OR push_bit 43 1" by (simp add: GDT_TYPE_TSS_def)
  show "bit GDT_TYPE_TSS n \<longleftrightarrow> n = 40 \<or> n = 43" unfolding e bit_or_iff bit_push_one by auto
qed

lemma tss_limit: "TSS_SIZE - 1 = 8296"
  by (simp add: TSS_SIZE_def TSS_FIXED_SIZE_def IOPB_BYTES_def)

lemma IOPB_BYTES_eq: "bytes_required IOPB_BITS = Some IOPB_BYTES"
  by (simp add: bytes_required_def div_ceil_def IOPB_BITS_def IOPB_BYTES_def machine_defs)

lemma tss_limit_word: "take_bit 16 (word_of_nat (TSS_SIZE - 1) :: u64) = word_of_nat (TSS_SIZE - 1)" "drop_bit 16 (word_of_nat (TSS_SIZE - 1) :: u64) = 0"
  unfolding tss_limit by (simp_all add: take_bit_eq_mask mask_eq_exp_minus_1)

lemma bit_tss_descriptor:
  "bit (fst (make_gdt_tss_descriptor base)) n \<longleftrightarrow> n < 64 \<and>
     (if n < 16 then bit (word_of_nat (TSS_SIZE - 1) :: u64) n else if n < 40 then bit base (n - 16)
      else if n < 56 then n = 40 \<or> n = 43 \<or> n = 47 else bit base (n - 32))"
proof -
  define l where "l = (word_of_nat (TSS_SIZE - 1) :: u64)"
  have "fst (make_gdt_tss_descriptor base) =
      GDT_PRESENT OR GDT_TYPE_TSS OR take_bit 16 l OR push_bit 16 (take_bit 24 base) OR push_bit 56 (take_bit 8 (drop_bit 24 base))"
    unfolding make_gdt_tss_descriptor_def Let_def fst_conv field_masks l_def [symmetric]
    using tss_limit_word(2) by (simp add: l_def or.assoc)
  then show ?thesis unfolding l_def [symmetric] by (auto simp: gdt_flag_bits bit_simps)
qed

lemma tss_descriptor_decodes:
  "hw_tss_base (make_gdt_tss_descriptor base) = base" "hw_limit (fst (make_gdt_tss_descriptor base)) = word_of_nat (TSS_SIZE - 1)"
  "hw_type (fst (make_gdt_tss_descriptor base)) = 9" "hw_present (fst (make_gdt_tss_descriptor base))" "\<not> bit (fst (make_gdt_tss_descriptor base)) 44"
proof -
  let ?d = "make_gdt_tss_descriptor base"
  have s: "snd ?d = drop_bit 32 base" by (simp add: make_gdt_tss_descriptor_def Let_def)
  show "hw_tss_base ?d = base"
  proof (rule bit_word_eqI)
    fix n assume "n < LENGTH(64)"
    then show "bit (hw_tss_base ?d) n = bit base n"
      by (cases "n < 24"; cases "n < 32") (auto simp: hw_tss_base_def s field_masks bit_simps bit_tss_descriptor)
  qed
  define l where "l = (word_of_nat (TSS_SIZE - 1) :: u64)"
  have "take_bit 16 (fst ?d) = take_bit 16 l"
    unfolding l_def by (rule bit_word_eqI) (auto simp: bit_take_bit_iff bit_tss_descriptor)
  moreover have "take_bit 4 (drop_bit 48 (fst ?d)) = 0"
    by (rule bit_word_eqI) (auto simp: bit_take_bit_iff bit_drop_bit_eq bit_tss_descriptor)
  ultimately show "hw_limit (fst ?d) = word_of_nat (TSS_SIZE - 1)"
    using tss_limit_word(1) by (simp add: hw_limit_def field_masks l_def)
  show "hw_present (fst ?d)" "\<not> bit (fst ?d) 44" by (simp_all add: hw_present_def bit_tss_descriptor)
  have "bit (hw_type (fst ?d)) n \<longleftrightarrow> bit (push_bit 0 1 OR push_bit 3 1 :: u64) n" if "n < 64" for n
    unfolding bit_or_iff bit_push_one using that by (auto simp: hw_type_def field_masks bit_take_bit_iff bit_drop_bit_eq bit_tss_descriptor)
  then have "hw_type (fst ?d) = push_bit 0 1 OR push_bit 3 1" by (intro bit_word_eqI) simp
  then show "hw_type (fst ?d) = 9" by simp
qed

lemma code_descriptor_decodes:
  fixes d :: u64
  assumes "d = make_gdt_non_system_descriptor (GDT_TYPE_CODE OR GDT_LONG_MODE)"
  shows "hw_present d" "bit d 44" "bit d 43" "bit d 53" "\<not> bit d 45" "\<not> bit d 46"
  using assms by (simp_all add: make_gdt_non_system_descriptor_def hw_present_def bit_or_iff gdt_flag_bits)

section \<open>The interrupt table\<close>

lemma idt_slots_run: "idt_slots entry = Some (map (\<lambda>v. Some (make_idt_entry (entry v) KERNEL_CODE_SELECTOR (get_ist (word_of_nat v)))) [0..<256])"
proof -
  let ?g = "\<lambda>v. Some (make_idt_entry (entry v) KERNEL_CODE_SELECTOR (get_ist (word_of_nat v)))"
  have "fold (\<lambda>v r. do { s \<leftarrow> r; set_entry entry v s }) [0..<n] (Some (replicate 256 None)) = Some (map ?g [0..<n] @ replicate (256 - n) None)"
    if "n \<le> 256" for n
    using that
  proof (induction n)
    case (Suc n)
    have "replicate (256 - n) None = None # replicate (256 - Suc n) (None :: idt_entry option)"
      using Suc.prems by (metis Suc_diff_Suc Suc_le_eq replicate_Suc)
    then have "(map ?g [0..<n] @ replicate (256 - n) None)[n := ?g n] = map ?g [0..<Suc n] @ replicate (256 - Suc n) None"
      by (simp add: list_update_append)
    then show ?case using Suc by (simp add: set_entry_def uassert_def)
  qed simp
  from this [of 256] show ?thesis
    by (simp add: idt_slots_def for_each_interrupt_def interrupt_list_def TOTAL_VECTORS_def)
qed

lemma init_idt_run:
  "\<exists>idt. init_idt entry once_new = Some idt \<and>
     once_get idt = Some (Some (map (\<lambda>v. make_idt_entry (entry v) KERNEL_CODE_SELECTOR (get_ist (word_of_nat v))) [0..<256]))"
proof -
  have "those (map (\<lambda>v. Some (g v)) xs) = Some (map g xs)" for g :: "nat \<Rightarrow> idt_entry" and xs by (induction xs) auto
  then show ?thesis
    by (simp add: init_idt_def idt_slots_run once_init_def compare_exchange_def once_new_def init_with_unchecked_def get_unchecked_def once_get_def once_states)
qed

lemma init_idt_once:
  assumes "once_get idt = Some (Some t)"
  shows "init_idt entry idt = None"
  using assms
  by (auto simp: init_idt_def once_init_def compare_exchange_def once_get_def once_states split: option.splits if_splits bind_splits)

lemma hw_ist_stack_init:
  "hw_ist_stack (tss_init nmi df) (ucast (get_ist (word_of_nat v)) AND 7) =
     (if v mod 2 ^ 64 = 2 then Some (word_of_nat nmi) else if v mod 2 ^ 64 = 8 then Some (word_of_nat df) else None)"
proof -
  have "(word_of_nat v = (2 :: u64)) \<longleftrightarrow> v mod 2 ^ 64 = 2" "(word_of_nat v = (8 :: u64)) \<longleftrightarrow> v mod 2 ^ 64 = 8"
    by (simp_all add: word_of_nat_eq_iff [of v 2, simplified] word_of_nat_eq_iff [of v 8, simplified] take_bit_eq_mod)
  then show ?thesis
    by (simp add: hw_ist_stack_def tss_init_def get_ist_def vector_defs IST_NMI_def IST_DOUBLE_FAULT_def)
qed

lemma gdt_new_entries:
  "hw_descriptor (gdt_new t) KERNEL_CODE_SELECTOR = make_gdt_non_system_descriptor (GDT_TYPE_CODE OR GDT_LONG_MODE)"
  "(hw_descriptor (gdt_new t) TSS_SELECTOR, hw_descriptor (gdt_new t) (TSS_SELECTOR + 8)) = make_gdt_tss_descriptor (word_of_nat t)"
  by (simp_all add: hw_descriptor_def gdt_new_def KERNEL_CODE_SELECTOR_def TSS_SELECTOR_def split: prod.split)

lemma ports_closed: "port < IOPB_BITS \<Longrightarrow> \<not> hw_port_open (tss_init nmi df) port"
proof -
  have "(255 :: u8) = mask 8" by (simp add: mask_eq_exp_minus_1)
  then have "bit (255 :: u8) (port mod 8)" by (simp only: bit_mask_iff) simp
  moreover assume "port < IOPB_BITS"
  ultimately show ?thesis
    by (simp add: hw_port_open_def tss_init_def Let_def IOPB_BITS_def IOPB_BYTES_def TSS_SIZE_def TSS_FIXED_SIZE_def)
qed

lemma set_iopb_ports:
  assumes "port < IOPB_BITS" "length iopb = IOPB_BYTES"
  shows "hw_port_open (set_iopb iopb (tss_init nmi df)) port \<longleftrightarrow> \<not> bit (iopb ! (port div 8)) (port mod 8)"
  using assms less_mult_imp_div_less [of port 8192 8]
  by (simp add: hw_port_open_def set_iopb_def tss_init_def Let_def IOPB_BITS_def IOPB_BYTES_def TSS_SIZE_def TSS_FIXED_SIZE_def nth_append)

section \<open>The tables as the processor sees them\<close>

lemma idt_gates_run:
  "\<exists>idt table. init_idt entry once_new = Some idt \<and> get_idt idt = Some table \<and> init_idt entry idt = None \<and>
      length table * 16 = get_idt_size \<and> length table = 256 \<and>
      (\<forall>v < 256. let g = table ! v; cs = hw_descriptor (gdt_new t) (hw_gate_selector g) in
         hw_gate_offset g = entry v \<and> hw_type (fst g) = 0xe \<and> hw_present (fst g) \<and> hw_gate_dpl g = 0 \<and>
         hw_ist_stack (tss_init nmi df) (hw_gate_ist g) =
           (if v = 2 then Some (word_of_nat nmi) else if v = 8 then Some (word_of_nat df) else None) \<and>
         hw_present cs \<and> bit cs 44 \<and> bit cs 43 \<and> bit cs 53 \<and> \<not> bit cs 45 \<and> \<not> bit cs 46)"
proof -
  let ?gate = "\<lambda>v. make_idt_entry (entry v) KERNEL_CODE_SELECTOR (get_ist (word_of_nat v))"
  obtain idt where idt: "init_idt entry once_new = Some idt" "once_get idt = Some (Some (map ?gate [0..<256]))"
    using init_idt_run by blast
  have "hw_ist_stack (tss_init nmi df) (hw_gate_ist (?gate v)) =
      (if v = 2 then Some (word_of_nat nmi) else if v = 8 then Some (word_of_nat df) else None)" if "v < 256" for v
    using that by (simp add: idt_entry_decodes hw_ist_stack_init)
  then show ?thesis
    using idt code_descriptor_decodes [OF refl] init_idt_once [OF idt(2)]
    by (intro exI [of _ idt] exI [of _ "map ?gate [0..<256]"])
      (simp add: get_idt_def get_idt_size_def TOTAL_VECTORS_def Let_def idt_entry_decodes(1,2,4-) gdt_new_entries)
qed

lemma gdt_tss_run:
  assumes "t < USIZE_LIM"
  shows "let d = (hw_descriptor (gdt_new t) TSS_SELECTOR, hw_descriptor (gdt_new t) (TSS_SELECTOR + 8)) in
      unat (hw_tss_base d) = t \<and> unat (hw_limit (fst d)) = TSS_SIZE - 1 \<and> hw_type (fst d) = 9 \<and> hw_present (fst d) \<and> \<not> bit (fst d) 44"
proof -
  have "unat (word_of_nat t :: u64) = t" using assms by (simp add: unat_of_nat USIZE_LIM_def)
  then show ?thesis unfolding gdt_new_entries Let_def using tss_limit by (simp add: tss_descriptor_decodes)
qed

text \<open>C24. Initialising the interrupt table fills all 256 gates and can happen only once. Every gate is a present
  ring 0 interrupt gate that leads to the entry point of its own vector through a selector whose descriptor is a present
  64-bit ring 0 code segment; the non-maskable interrupt and the double fault run on their own stacks and
  no other vector switches stacks. The descriptor behind \<open>TSS_SELECTOR\<close> is a present available 64-bit task state segment with the address of the
  segment and its exact limit. A fresh segment opens no port, and after \<open>set_iopb\<close> exactly the ports are open whose bit is clear.\<close>

theorem descriptor_tables_correct:
  assumes "length iopb = IOPB_BYTES" and "t < USIZE_LIM"
  shows "(\<exists>idt table. init_idt entry once_new = Some idt \<and> get_idt idt = Some table \<and> init_idt entry idt = None \<and>
      length table * 16 = get_idt_size \<and> length table = 256 \<and>
      (\<forall>v < 256. let g = table ! v; cs = hw_descriptor (gdt_new t) (hw_gate_selector g) in
         hw_gate_offset g = entry v \<and> hw_type (fst g) = 0xe \<and> hw_present (fst g) \<and> hw_gate_dpl g = 0 \<and>
         hw_ist_stack (tss_init nmi df) (hw_gate_ist g) =
           (if v = 2 then Some (word_of_nat nmi) else if v = 8 then Some (word_of_nat df) else None) \<and>
         hw_present cs \<and> bit cs 44 \<and> bit cs 43 \<and> bit cs 53 \<and> \<not> bit cs 45 \<and> \<not> bit cs 46)) \<and>
    (let d = (hw_descriptor (gdt_new t) TSS_SELECTOR, hw_descriptor (gdt_new t) (TSS_SELECTOR + 8)) in
      unat (hw_tss_base d) = t \<and> unat (hw_limit (fst d)) = TSS_SIZE - 1 \<and> hw_type (fst d) = 9 \<and> hw_present (fst d) \<and> \<not> bit (fst d) 44) \<and>
    (\<forall>port < IOPB_BITS. \<not> hw_port_open (tss_init nmi df) port \<and>
      (hw_port_open (set_iopb iopb (tss_init nmi df)) port \<longleftrightarrow> \<not> bit (iopb ! (port div 8)) (port mod 8)))"
  using idt_gates_run gdt_tss_run [OF assms(2)] ports_closed set_iopb_ports [OF _ assms(1)] by (intro conjI) blast+

theorem descriptor_tables_correct_witness:
  "(\<exists>idt table. init_idt (\<lambda>v. 0x1000 + word_of_nat v) once_new = Some idt \<and> get_idt idt = Some table \<and> hw_gate_offset (table ! 14) = 0x100e \<and>
      hw_ist_stack (tss_init 0x5000 0x6000) (hw_gate_ist (table ! 8)) = Some 0x6000) \<and>
   \<not> hw_port_open (tss_init 0x5000 0x6000) 0x3f8 \<and> hw_port_open (set_iopb (replicate 0x2000 0) (tss_init 0x5000 0x6000)) 0x3f8"
proof -
  have i: "length (replicate 0x2000 0 :: u8 list) = IOPB_BYTES" "(0x7000 :: nat) < USIZE_LIM" "(0x3f8 :: nat) < IOPB_BITS"
    by (simp_all add: IOPB_BYTES_def IOPB_BITS_def USIZE_LIM_def)
  note c = descriptor_tables_correct [OF i(1) i(2), where entry = "\<lambda>v. 0x1000 + word_of_nat v" and nmi = "0x5000" and df = "0x6000"]
  obtain idt table where t: "init_idt (\<lambda>v. 0x1000 + word_of_nat v) once_new = Some idt" "get_idt idt = Some table"
    and g: "\<forall>v < 256. hw_gate_offset (table ! v) = 0x1000 + word_of_nat v \<and> hw_ist_stack (tss_init 0x5000 0x6000) (hw_gate_ist (table ! v)) =
      (if v = 2 then Some (word_of_nat 0x5000) else if v = 8 then Some (word_of_nat 0x6000) else None)"
    using conjunct1 [OF c] by (auto simp: Let_def)
  have "(0x3f8 :: nat) div 8 < 0x2000" "\<not> bit (0 :: u8) k" for k by simp_all
  then show ?thesis using t g [rule_format, of 14] g [rule_format, of 8] conjunct2 [OF conjunct2 [OF c], rule_format, OF i(3)] by auto
qed

end
