(* ===== verification/Cpu.thy ===== *)
theory Cpu
  imports Descriptor
begin

text \<open>
  One x86-64 processor: the instructions of \<open>arch/x86_64/x64_cpu.rs\<close> that the kernel uses outside of the memory
  management unit, the per-processor area of \<open>arch/x86_64/percpu.rs\<close> that is reached through the GS base, and the early
  initialisation in \<open>arch/x86_64/cpu.rs\<close>. The state of the processor is a record; an instruction that would
  fault, and a panic, is \<open>None\<close>.
\<close>

section \<open>Registers and instructions\<close>

definition IA32_PAT :: u32 where "IA32_PAT = 0x277"
definition IA32_MTRR_DEF_TYPE :: u32 where "IA32_MTRR_DEF_TYPE = 0x2ff"
definition IA32_GS_BASE :: u32 where "IA32_GS_BASE = 0xc0000101"
definition IA32_EFER :: u32 where "IA32_EFER = 0xc0000080"

definition RFLAGS_RSVD :: u64 where "RFLAGS_RSVD = push_bit 1 1"
definition RFLAGS_IF :: u64 where "RFLAGS_IF = push_bit 9 1"

record descriptor_register =
  dr_limit :: u16
  dr_ptr :: u64

text \<open>The structure \<open>X64PerCpuWrapper\<close>, with the fields of the \<open>X64PerCpu\<close> inside it. The stacks are only storage, so
  they have an address and no content here.\<close>

record x64_percpu =
  pw_ptr :: u64
  pw_common_ptr :: u64
  pw_preempt_blocks :: u32
  pw_tss :: tss
  pw_gdt :: "u64 list"

text \<open>\<open>co_percpu\<close> is the content of memory at the address of a per-processor area.\<close>

record x64_core =
  co_rflags :: u64
  co_msr :: "u32 \<Rightarrow> u64"
  co_cr2 :: u64
  co_gdtr :: descriptor_register
  co_idtr :: descriptor_register
  co_cs :: u16
  co_tr :: u16
  co_ldtr :: u16
  co_percpu :: "virt_addr \<Rightarrow> x64_percpu"

definition cli :: "x64_core \<Rightarrow> x64_core" where
  "cli c = c\<lparr>co_rflags := co_rflags c AND NOT RFLAGS_IF\<rparr>"

definition sti :: "x64_core \<Rightarrow> x64_core" where
  "sti c = c\<lparr>co_rflags := co_rflags c OR RFLAGS_IF\<rparr>"

definition get_rflags :: "x64_core \<Rightarrow> u64" where
  "get_rflags c = co_rflags c"

definition read_cr2 :: "x64_core \<Rightarrow> virt_addr" where
  "read_cr2 c = unat (co_cr2 c)"

definition lgdt :: "descriptor_register \<Rightarrow> x64_core \<Rightarrow> x64_core" where
  "lgdt desc c = c\<lparr>co_gdtr := desc\<rparr>"

definition lidt :: "descriptor_register \<Rightarrow> x64_core \<Rightarrow> x64_core" where
  "lidt desc c = c\<lparr>co_idtr := desc\<rparr>"

definition lldt :: "u16 \<Rightarrow> x64_core \<Rightarrow> x64_core" where
  "lldt sel c = c\<lparr>co_ldtr := sel\<rparr>"

text \<open>The two halves of a model-specific register travel in \<open>edx\<close> and \<open>eax\<close>.\<close>

definition wrmsr :: "u32 \<Rightarrow> u64 \<Rightarrow> x64_core \<Rightarrow> x64_core" where
  "wrmsr num val c =
     (let eax = ucast val :: u32; edx = ucast (drop_bit 32 val) :: u32
      in c\<lparr>co_msr := (co_msr c)(num := push_bit 32 (ucast edx) OR ucast eax)\<rparr>)"

definition rdmsr :: "u32 \<Rightarrow> x64_core \<Rightarrow> u64" where
  "rdmsr num c =
     (let eax = ucast (co_msr c num) :: u32; edx = ucast (drop_bit 32 (co_msr c num)) :: u32
      in push_bit 32 (ucast edx) OR ucast eax)"

definition wrgsbase :: "virt_addr \<Rightarrow> x64_core \<Rightarrow> x64_core" where
  "wrgsbase base c = wrmsr IA32_GS_BASE (word_of_nat base) c"

lemma msr_halves: "push_bit 32 (ucast (ucast (drop_bit 32 (v :: u64)) :: u32)) OR ucast (ucast v :: u32) = v"
  by (rule bit_word_eqI) (auto simp: bit_simps)

lemma rdmsr_wrmsr [simp]: "rdmsr num (wrmsr num' val c) = (if num = num' then val else rdmsr num c)"
  by (simp add: rdmsr_def wrmsr_def Let_def msr_halves)

lemma wrmsr_fields [simp]: "co_msr (wrmsr num val c) = (co_msr c)(num := val)"
  by (simp add: wrmsr_def Let_def msr_halves)

text \<open>An access relative to GS, at an offset of the area the GS base points to.\<close>

definition PERCPU_PTR_OFFSET :: usize where "PERCPU_PTR_OFFSET = 0"
definition PERCPU_COMMON_PTR_OFFSET :: usize where "PERCPU_COMMON_PTR_OFFSET = 8"
definition PERCPU_RESCHED_BLOCKS_OFFSET :: usize where "PERCPU_RESCHED_BLOCKS_OFFSET = 0x10"

lemmas percpu_offsets = PERCPU_PTR_OFFSET_def PERCPU_COMMON_PTR_OFFSET_def PERCPU_RESCHED_BLOCKS_OFFSET_def

definition gs_area :: "x64_core \<Rightarrow> virt_addr" where
  "gs_area c = unat (co_msr c IA32_GS_BASE)"

definition read_gs_qword :: "usize \<Rightarrow> x64_core \<Rightarrow> u64 option" where
  "read_gs_qword off c = (let w = co_percpu c (gs_area c) in
     if off = 0 then Some (pw_ptr w) else if off = 8 then Some (pw_common_ptr w) else None)"

definition read_gs_dword :: "usize \<Rightarrow> x64_core \<Rightarrow> u32 option" where
  "read_gs_dword off c = (if off = 0x10 then Some (pw_preempt_blocks (co_percpu c (gs_area c))) else None)"

definition xadd_gs_dword :: "usize \<Rightarrow> u32 \<Rightarrow> x64_core \<Rightarrow> (u32 \<times> x64_core) option" where
  "xadd_gs_dword off addend c = do {
     old \<leftarrow> read_gs_dword off c;
     let w = co_percpu c (gs_area c);
     Some (old, c\<lparr>co_percpu := (co_percpu c)(gs_area c := w\<lparr>pw_preempt_blocks := old + addend\<rparr>)\<rparr>) }"

section \<open>The per-processor area\<close>

definition INTERRUPT_STACK_SIZE :: usize where "INTERRUPT_STACK_SIZE = 0x2000"

text \<open>The compiler chooses the places of the fields of \<open>X64PerCpu\<close>.\<close>

record percpu_layout =
  pl_tss :: usize
  pl_gdt :: usize
  pl_nmi_stack :: usize
  pl_double_fault_stack :: usize

definition current_wrapper :: "x64_core \<Rightarrow> virt_addr option" where
  "current_wrapper c = map_option unat (read_gs_qword PERCPU_PTR_OFFSET c)"

definition current_x64 :: "x64_core \<Rightarrow> x64_percpu option" where
  "current_x64 c = map_option (co_percpu c) (current_wrapper c)"

definition current_common :: "x64_core \<Rightarrow> u64 option" where
  "current_common c = read_gs_qword PERCPU_COMMON_PTR_OFFSET c"

definition disable_resched :: "x64_core \<Rightarrow> x64_core option" where
  "disable_resched c = map_option snd (xadd_gs_dword PERCPU_RESCHED_BLOCKS_OFFSET 1 c)"

text \<open>The subtraction after the exchange is checked.\<close>

definition enable_resched :: "x64_core \<Rightarrow> (u32 \<times> x64_core) option" where
  "enable_resched c = do {
     (old, c') \<leftarrow> xadd_gs_dword PERCPU_RESCHED_BLOCKS_OFFSET (- 1) c;
     uassert (1 \<le> old);
     Some (old - 1, c') }"

definition resched_disable_count :: "x64_core \<Rightarrow> u32 option" where
  "resched_disable_count c = read_gs_dword PERCPU_RESCHED_BLOCKS_OFFSET c"

definition init_current_with :: "percpu_layout \<Rightarrow> virt_addr \<Rightarrow> u64 \<Rightarrow> x64_core \<Rightarrow> x64_core option" where
  "init_current_with pl wrapper common_percpu c = do {
     let w1 = (co_percpu c wrapper)\<lparr>pw_ptr := word_of_nat wrapper\<rparr>;
     let w2 = w1\<lparr>pw_common_ptr := common_percpu\<rparr>;
     nmi \<leftarrow> uadd wrapper (pl_nmi_stack pl);
     nmi_stack \<leftarrow> uadd nmi INTERRUPT_STACK_SIZE;
     df \<leftarrow> uadd wrapper (pl_double_fault_stack pl);
     double_fault_stack \<leftarrow> uadd df INTERRUPT_STACK_SIZE;
     tss \<leftarrow> uadd wrapper (pl_tss pl);
     let w3 = w2\<lparr>pw_tss := tss_init nmi_stack double_fault_stack\<rparr>;
     let w4 = w3\<lparr>pw_gdt := gdt_new tss\<rparr>;
     Some (wrgsbase wrapper (c\<lparr>co_percpu := (co_percpu c)(wrapper := w4)\<rparr>)) }"

text \<open>The static area of the bootstrap processor: its address is \<open>bsp\<close>, and the cell records that it was taken.\<close>

definition percpu_init_bsp :: "percpu_layout \<Rightarrow> virt_addr \<Rightarrow> u64 \<Rightarrow> virt_addr take_once \<Rightarrow> x64_core \<Rightarrow> (virt_addr take_once \<times> x64_core) option" where
  "percpu_init_bsp pl bsp common_percpu cell c = do {
     let c' = init_current_with pl bsp common_percpu c;
     (r, cell') \<leftarrow> take_init_with (map_option (\<lambda>_. bsp) c') cell;
     _ \<leftarrow> r;
     map_option (Pair cell') c' }"

section \<open>Interrupt flag and early initialisation\<close>

definition irq_enabled :: "x64_core \<Rightarrow> bool" where
  "irq_enabled c = flag_contains (get_rflags c) RFLAGS_IF"

definition disable_irq :: "x64_core \<Rightarrow> x64_core" where
  "disable_irq c = cli c"

definition enable_irq :: "x64_core \<Rightarrow> x64_core" where
  "enable_irq c = sti c"

definition cpu_current_percpu :: "x64_core \<Rightarrow> u64 option" where
  "cpu_current_percpu c = current_common c"

text \<open>Loading a segment register checks the descriptor, which the processor reads from the table its
  register points to; loading the task register also marks the segment busy.\<close>

definition hw_gdt_area :: "percpu_layout \<Rightarrow> x64_core \<Rightarrow> virt_addr" where
  "hw_gdt_area pl c = unat (dr_ptr (co_gdtr c)) - pl_gdt pl"

definition hw_fetch :: "percpu_layout \<Rightarrow> x64_core \<Rightarrow> u16 \<Rightarrow> u64 option" where
  "hw_fetch pl c sel = (if unat sel + 7 \<le> unat (dr_limit (co_gdtr c)) then Some (hw_descriptor (pw_gdt (co_percpu c (hw_gdt_area pl c))) sel) else None)"

definition load_kernel_cs :: "percpu_layout \<Rightarrow> x64_core \<Rightarrow> x64_core option" where
  "load_kernel_cs pl c = do {
     d \<leftarrow> hw_fetch pl c KERNEL_CODE_SELECTOR;
     uassert (hw_present d \<and> bit d 44 \<and> bit d 43 \<and> bit d 53);
     Some (c\<lparr>co_cs := KERNEL_CODE_SELECTOR\<rparr>) }"

definition ltr :: "percpu_layout \<Rightarrow> u16 \<Rightarrow> x64_core \<Rightarrow> x64_core option" where
  "ltr pl sel c = do {
     d \<leftarrow> hw_fetch pl c sel;
     _ \<leftarrow> hw_fetch pl c (sel + 8);
     uassert (hw_present d \<and> \<not> bit d 44 \<and> hw_type d = 9);
     let a = hw_gdt_area pl c;
     let w = co_percpu c a;
     Some (c\<lparr>co_tr := sel, co_percpu := (co_percpu c)(a := w\<lparr>pw_gdt := (pw_gdt w)[unat sel div 8 := d OR push_bit 41 1]\<rparr>)\<rparr>) }"

definition load_gdt :: "percpu_layout \<Rightarrow> virt_addr \<Rightarrow> x64_core \<Rightarrow> x64_core option" where
  "load_gdt pl gdt c = do {
     let desc = \<lparr>dr_limit = word_of_nat (4 * 8 - 1), dr_ptr = word_of_nat gdt\<rparr>;
     c1 \<leftarrow> load_kernel_cs pl (lgdt desc c);
     c2 \<leftarrow> ltr pl TSS_SELECTOR c1;
     Some (lldt 0 c2) }"

text \<open>\<open>get_idt\<close> panics when the table is not initialised; its address is the one of the static, \<open>idt_addr\<close>.\<close>

definition load_idt :: "virt_addr \<Rightarrow> idt_entry list once \<Rightarrow> x64_core \<Rightarrow> x64_core option" where
  "load_idt idt_addr idt c = do {
     limit \<leftarrow> usub get_idt_size 1;
     _ \<leftarrow> get_idt idt;
     Some (lidt \<lparr>dr_limit = word_of_nat limit, dr_ptr = word_of_nat idt_addr\<rparr> c) }"

definition finish_init_current_early :: "percpu_layout \<Rightarrow> virt_addr \<Rightarrow> idt_entry list once \<Rightarrow> x64_core \<Rightarrow> x64_core option" where
  "finish_init_current_early pl idt_addr idt c = do {
     w \<leftarrow> current_wrapper c;
     c1 \<leftarrow> load_gdt pl (w + pl_gdt pl) c;
     load_idt idt_addr idt c1 }"

definition cpu_init_bsp_early :: "percpu_layout \<Rightarrow> virt_addr \<Rightarrow> virt_addr \<Rightarrow> (nat \<Rightarrow> u64) \<Rightarrow> u64 \<Rightarrow>
    (idt_entry list once \<times> virt_addr take_once \<times> x64_core) \<Rightarrow> (idt_entry list once \<times> virt_addr take_once \<times> x64_core) option" where
  "cpu_init_bsp_early pl bsp idt_addr entry common_percpu = (\<lambda>(idt, cell, c). do {
     idt' \<leftarrow> init_idt entry idt;
     (cell', c1) \<leftarrow> percpu_init_bsp pl bsp common_percpu cell c;
     c2 \<leftarrow> finish_init_current_early pl idt_addr idt' c1;
     Some (idt', cell', c2) })"

section \<open>What the operations guarantee\<close>

lemma bit_RFLAGS_IF: "bit RFLAGS_IF n \<longleftrightarrow> n = 9"
  unfolding RFLAGS_IF_def bit_push_one by auto

lemma flag_contains_IF: "flag_contains f RFLAGS_IF \<longleftrightarrow> bit f 9"
proof
  assume "flag_contains f RFLAGS_IF"
  then have "bit (f AND RFLAGS_IF) 9" by (simp add: flag_contains_def bit_RFLAGS_IF)
  then show "bit f 9" by (simp add: bit_and_iff)
next
  assume "bit f 9"
  then show "flag_contains f RFLAGS_IF" unfolding flag_contains_def
    by (intro bit_word_eqI) (auto simp: bit_and_iff bit_RFLAGS_IF)
qed

lemmas irq_flag_defs = irq_enabled_def flag_contains_IF get_rflags_def disable_irq_def enable_irq_def cli_def sti_def

lemma irq_enabled_ops [simp]: "\<not> irq_enabled (disable_irq c)" "irq_enabled (enable_irq c)"
  by (simp_all add: irq_flag_defs bit_and_iff bit_or_iff bit_not_iff bit_RFLAGS_IF)

lemma enable_after_disable: "irq_enabled c \<Longrightarrow> enable_irq (disable_irq c) = c"
proof -
  assume "irq_enabled c"
  then have "bit (co_rflags c) 9" by (simp add: irq_flag_defs)
  then have "(co_rflags c AND NOT RFLAGS_IF) OR RFLAGS_IF = co_rflags c"
    by (intro bit_word_eqI) (auto simp: bit_and_iff bit_or_iff bit_not_iff bit_RFLAGS_IF)
  then show ?thesis by (simp add: irq_flag_defs)
qed

lemma disable_when_disabled: "\<not> irq_enabled c \<Longrightarrow> disable_irq c = c"
proof -
  assume "\<not> irq_enabled c"
  then have "\<not> bit (co_rflags c) 9" by (simp add: irq_flag_defs)
  then have "co_rflags c AND NOT RFLAGS_IF = co_rflags c"
    by (intro bit_word_eqI) (auto simp: bit_and_iff bit_not_iff bit_RFLAGS_IF)
  then show ?thesis by (simp add: irq_flag_defs)
qed

text \<open>The number of rescheduling blocks as a number.\<close>

definition resched_blocks :: "x64_core \<Rightarrow> nat" where
  "resched_blocks c = unat (pw_preempt_blocks (co_percpu c (gs_area c)))"

definition set_blocks :: "nat \<Rightarrow> x64_core \<Rightarrow> x64_core" where
  "set_blocks n c = c\<lparr>co_percpu := (co_percpu c)(gs_area c := (co_percpu c (gs_area c))\<lparr>pw_preempt_blocks := word_of_nat n\<rparr>)\<rparr>"

lemma resched_disable_count_run: "resched_disable_count c = Some (word_of_nat (resched_blocks c))"
  by (simp add: resched_disable_count_def read_gs_dword_def percpu_offsets resched_blocks_def)

lemma disable_resched_run: "disable_resched c = Some (set_blocks (Suc (resched_blocks c)) c)"
  by (simp add: disable_resched_def xadd_gs_dword_def read_gs_dword_def percpu_offsets set_blocks_def resched_blocks_def Let_def add.commute)

lemma enable_resched_run:
  "enable_resched c = (if resched_blocks c = 0 then None else Some (word_of_nat (resched_blocks c - 1), set_blocks (resched_blocks c - 1) c))"
proof -
  define w where "w = pw_preempt_blocks (co_percpu c (gs_area c))"
  have 1: "1 \<le> w \<longleftrightarrow> unat w \<noteq> 0" by (auto simp: word_le_nat_alt)
  have 2: "word_of_nat (unat w - 1) = w - 1" if "unat w \<noteq> 0" using that 1 by (simp add: of_nat_diff)
  show ?thesis using 1 2
    by (auto simp: enable_resched_def xadd_gs_dword_def read_gs_dword_def percpu_offsets set_blocks_def resched_blocks_def Let_def uassert_def w_def)
qed

lemma gs_area_set_blocks [simp]: "gs_area (set_blocks n c) = gs_area c"
  by (simp add: gs_area_def set_blocks_def)

lemma set_blocks_blocks: "n < 2 ^ 32 \<Longrightarrow> resched_blocks (set_blocks n c) = n"
  by (simp add: resched_blocks_def set_blocks_def unat_of_nat gs_area_def)

lemma set_blocks_back: "set_blocks (resched_blocks c) (set_blocks n c) = c"
  by (simp add: resched_blocks_def set_blocks_def gs_area_def)

lemma set_blocks_flags [simp]:
  "co_rflags (set_blocks n c) = co_rflags c" "irq_enabled (set_blocks n c) = irq_enabled c"
  "set_blocks n (disable_irq c) = disable_irq (set_blocks n c)" "set_blocks n (enable_irq c) = enable_irq (set_blocks n c)"
  "resched_blocks (disable_irq c) = resched_blocks c" "resched_blocks (enable_irq c) = resched_blocks c"
  by (simp_all add: set_blocks_def irq_flag_defs resched_blocks_def gs_area_def)

text \<open>Disabling and enabling again is the identity as long as the counter does not wrap.\<close>

lemma resched_disable_enable:
  assumes "resched_blocks c + 1 < 2 ^ 32"
  shows "\<exists>c1. disable_resched c = Some c1 \<and> map_option snd (enable_resched c1) = Some c"
  using assms by (simp add: disable_resched_run enable_resched_run set_blocks_blocks set_blocks_back)

section \<open>Early initialisation of the bootstrap processor\<close>

definition layout_fits :: "percpu_layout \<Rightarrow> virt_addr \<Rightarrow> bool" where
  "layout_fits pl bsp \<longleftrightarrow> bsp + pl_tss pl < USIZE_LIM \<and> bsp + pl_gdt pl < USIZE_LIM \<and>
     bsp + pl_nmi_stack pl + INTERRUPT_STACK_SIZE < USIZE_LIM \<and> bsp + pl_double_fault_stack pl + INTERRUPT_STACK_SIZE < USIZE_LIM"

lemma unat_usize: "n < USIZE_LIM \<Longrightarrow> unat (word_of_nat n :: u64) = n"
  by (simp add: unat_of_nat USIZE_LIM_def)

lemma init_current_with_run:
  assumes "layout_fits pl bsp"
  shows "init_current_with pl bsp common c = Some (wrgsbase bsp (c\<lparr>co_percpu := (co_percpu c)(bsp :=
     \<lparr>pw_ptr = word_of_nat bsp, pw_common_ptr = common, pw_preempt_blocks = pw_preempt_blocks (co_percpu c bsp),
      pw_tss = tss_init (bsp + pl_nmi_stack pl + INTERRUPT_STACK_SIZE) (bsp + pl_double_fault_stack pl + INTERRUPT_STACK_SIZE),
      pw_gdt = gdt_new (bsp + pl_tss pl)\<rparr>)\<rparr>))"
  using assms by (cases "co_percpu c bsp") (simp add: init_current_with_def layout_fits_def Let_def uadd_def)

lemma load_gdt_run:
  assumes "pw_gdt (co_percpu c w) = gdt_new t" "w + pl_gdt pl < USIZE_LIM"
  shows "load_gdt pl (w + pl_gdt pl) c = Some (c\<lparr>co_gdtr := \<lparr>dr_limit = 31, dr_ptr = word_of_nat (w + pl_gdt pl)\<rparr>,
      co_cs := KERNEL_CODE_SELECTOR, co_tr := TSS_SELECTOR, co_ldtr := 0,
      co_percpu := (co_percpu c)(w := (co_percpu c w)\<lparr>pw_gdt := (gdt_new t)[2 := hw_descriptor (gdt_new t) TSS_SELECTOR OR push_bit 41 1]\<rparr>)\<rparr>)"
proof -
  have area: "unat (word_of_nat (w + pl_gdt pl) :: u64) - pl_gdt pl = w" using unat_usize [OF assms(2)] by simp
  have sel: "unat KERNEL_CODE_SELECTOR = 8" "unat TSS_SELECTOR = 16" "unat (TSS_SELECTOR + 8) = 24"
    by (simp_all add: KERNEL_CODE_SELECTOR_def TSS_SELECTOR_def)
  have tss: "hw_descriptor (gdt_new t) TSS_SELECTOR = fst (make_gdt_tss_descriptor (word_of_nat t))"
    using gdt_new_entries(2) [of t] by (metis fst_conv)
  show ?thesis
    using code_descriptor_decodes [OF refl] tss_descriptor_decodes(3-5) [of "word_of_nat t"] assms(1)
    by (simp add: load_gdt_def load_kernel_cs_def ltr_def hw_fetch_def hw_gdt_area_def lgdt_def lldt_def Let_def uassert_def sel area tss gdt_new_entries(1) del: of_nat_add)
qed

lemma cpu_init_bsp_early_run:
  assumes "layout_fits pl bsp" "idt_addr < USIZE_LIM"
  shows "\<exists>idt cell c'. cpu_init_bsp_early pl bsp idt_addr entry common (once_new, take_once_new, c) = Some (idt, cell, c') \<and>
      current_wrapper c' = Some bsp \<and> current_common c' = Some common \<and>
      pw_tss (co_percpu c' bsp) = tss_init (bsp + pl_nmi_stack pl + INTERRUPT_STACK_SIZE) (bsp + pl_double_fault_stack pl + INTERRUPT_STACK_SIZE) \<and>
      co_cs c' = KERNEL_CODE_SELECTOR \<and> co_tr c' = TSS_SELECTOR \<and> unat (dr_ptr (co_gdtr c')) = bsp + pl_gdt pl \<and>
      unat (dr_ptr (co_idtr c')) = idt_addr \<and> unat (dr_limit (co_idtr c')) = get_idt_size - 1 \<and>
      co_rflags c' = co_rflags c \<and> resched_blocks c' = unat (pw_preempt_blocks (co_percpu c bsp)) \<and>
      cpu_init_bsp_early pl bsp idt_addr entry common (idt, cell, c') = None"
proof -
  obtain idt table where idt: "init_idt entry once_new = Some idt" "once_get idt = Some (Some table)" using init_idt_run by blast
  have u: "unat (word_of_nat bsp :: u64) = bsp" "unat (word_of_nat (bsp + pl_gdt pl) :: u64) = bsp + pl_gdt pl"
      "unat (word_of_nat idt_addr :: u64) = idt_addr" and fits: "bsp + pl_gdt pl < USIZE_LIM"
    using assms unat_usize by (simp_all add: layout_fits_def del: of_nat_add)
  define w where "w = \<lparr>pw_ptr = word_of_nat bsp, pw_common_ptr = common, pw_preempt_blocks = pw_preempt_blocks (co_percpu c bsp),
      pw_tss = tss_init (bsp + pl_nmi_stack pl + INTERRUPT_STACK_SIZE) (bsp + pl_double_fault_stack pl + INTERRUPT_STACK_SIZE),
      pw_gdt = gdt_new (bsp + pl_tss pl)\<rparr>"
  define c1 where "c1 = wrgsbase bsp (c\<lparr>co_percpu := (co_percpu c)(bsp := w)\<rparr>)"
  have c1: "co_msr c1 IA32_GS_BASE = word_of_nat bsp" "co_percpu c1 bsp = w" "co_rflags c1 = co_rflags c"
    by (simp_all add: c1_def wrgsbase_def) (simp_all add: wrmsr_def Let_def)
  have bsp: "percpu_init_bsp pl bsp common take_once_new c = Some (\<lparr>tk_value = Some bsp, tk_taken = True\<rparr>, c1)"
    by (simp add: percpu_init_bsp_def init_current_with_run [OF assms(1)] Let_def take_init_with_def take_once_new_def c1_def w_def)
  have cur: "current_wrapper c1 = Some bsp"
    by (simp add: current_wrapper_def read_gs_qword_def percpu_offsets gs_area_def c1 u Let_def) (simp add: w_def u)
  have gdt: "pw_gdt (co_percpu c1 bsp) = gdt_new (bsp + pl_tss pl)" by (simp add: c1 w_def)
  have lim: "usub get_idt_size 1 = Some 4095" "get_idt_size - 1 = 4095" by (simp_all add: get_idt_size_def TOTAL_VECTORS_def usub_def)
  obtain c2 where c2: "load_gdt pl (bsp + pl_gdt pl) c1 = Some c2" "co_msr c2 = co_msr c1" "co_rflags c2 = co_rflags c1"
      "co_cs c2 = KERNEL_CODE_SELECTOR" "co_tr c2 = TSS_SELECTOR" "unat (dr_ptr (co_gdtr c2)) = bsp + pl_gdt pl"
      "\<exists>g. co_percpu c2 bsp = w\<lparr>pw_gdt := g\<rparr>"
    using load_gdt_run [OF gdt fits] c1(2) u(2) by (simp del: of_nat_add) blast
  define c3 where "c3 = c2\<lparr>co_idtr := \<lparr>dr_limit = 4095, dr_ptr = word_of_nat idt_addr\<rparr>\<rparr>"
  have run: "cpu_init_bsp_early pl bsp idt_addr entry common (once_new, take_once_new, c) = Some (idt, \<lparr>tk_value = Some bsp, tk_taken = True\<rparr>, c3)"
    using lim by (simp add: cpu_init_bsp_early_def idt(1) bsp finish_init_current_early_def cur c2(1) load_idt_def get_idt_def idt(2) lidt_def c3_def)
  obtain g where w: "co_percpu c3 bsp = w\<lparr>pw_gdt := g\<rparr>" using c2(7) by (auto simp: c3_def)
  have gs: "gs_area c3 = bsp" by (simp add: gs_area_def c3_def c2(2) c1 u)
  have "cpu_init_bsp_early pl bsp idt_addr entry common (idt, \<lparr>tk_value = Some bsp, tk_taken = True\<rparr>, c3) = None"
    by (simp add: cpu_init_bsp_early_def init_idt_once [OF idt(2)])
  moreover have "current_wrapper c3 = Some bsp" "current_common c3 = Some common" "resched_blocks c3 = unat (pw_preempt_blocks (co_percpu c bsp))"
      "pw_tss (co_percpu c3 bsp) = tss_init (bsp + pl_nmi_stack pl + INTERRUPT_STACK_SIZE) (bsp + pl_double_fault_stack pl + INTERRUPT_STACK_SIZE)"
    by (simp_all add: current_wrapper_def current_common_def read_gs_qword_def percpu_offsets Let_def resched_blocks_def gs w)
      (simp_all add: w_def u)
  moreover have "co_cs c3 = KERNEL_CODE_SELECTOR" "co_tr c3 = TSS_SELECTOR" "unat (dr_ptr (co_gdtr c3)) = bsp + pl_gdt pl"
      "unat (dr_ptr (co_idtr c3)) = idt_addr" "unat (dr_limit (co_idtr c3)) = get_idt_size - 1" "co_rflags c3 = co_rflags c"
    using lim(2) by (simp_all add: c3_def c2 u c1)
  ultimately show ?thesis using run by blast
qed

end
