(* ===== verification/Sync.thy ===== *)
theory Sync
  imports Cpu
begin

text \<open>
  Interrupt masking and spinlocks (\<open>sync/irq.rs\<close>, \<open>sync/spinlock.rs\<close>, and the counter of \<open>sync/resched.rs\<close>). The lock is a step
  relation: any number of processors call \<open>SpinLock::with\<close> at once, and each atomic access of each call is one step. The theorem is what
  lets the other components treat a call of \<open>with\<close> as one operation.
\<close>

section \<open>Interrupts and rescheduling\<close>

definition irq_disabled_new :: "x64_core \<Rightarrow> unit option" where
  "irq_disabled_new c = uassert (\<not> irq_enabled c)"

definition disable_with :: "(x64_core \<Rightarrow> ('r \<times> x64_core) option) \<Rightarrow> x64_core \<Rightarrow> ('r \<times> x64_core) option" where
  "disable_with f c = do {
     let prev_state = irq_enabled c;
     (ret, c') \<leftarrow> f (disable_irq c);
     Some (ret, if prev_state then enable_irq c' else c') }"

definition enable_no_resched :: "x64_core \<Rightarrow> x64_core option" where
  "enable_no_resched c = map_option snd (enable_resched c)"

definition enabled_in_irq :: "x64_core \<Rightarrow> bool option" where
  "enabled_in_irq c = map_option (\<lambda>n. n = 0) (resched_disable_count c)"

definition resched_enabled :: "x64_core \<Rightarrow> bool option" where
  "resched_enabled c = map_option (\<lambda>b. b \<and> irq_enabled c) (enabled_in_irq c)"

lemma disable_with_restores:
  assumes "f (disable_irq c) = Some (r, disable_irq c)"
  shows "disable_with f c = Some (r, c)"
  using assms by (cases "irq_enabled c") (simp_all add: disable_with_def Let_def enable_after_disable disable_when_disabled)

section \<open>The spinlock\<close>

text \<open>The program counter of a call of \<open>with\<close>. All but the first two points carry the interrupt state to restore; \<open>Update\<close> carries the data as the callee
  found them.\<close>

datatype 'd lock_pc = Start | Disable bool | Block bool | Spin bool | Enter bool | Update bool 'd | Release bool
  | Unblock bool | Restore bool | Finished

text \<open>One step of a processor whose callee maps the data by \<open>f\<close>. A finished call has no step, and a panic would be one with no step either.\<close>

fun lock_step :: "('d \<Rightarrow> 'd) \<Rightarrow> 'd lock_pc \<Rightarrow> bool \<times> 'd \<times> x64_core \<Rightarrow> ('d lock_pc \<times> bool \<times> 'd \<times> x64_core) option" where
  "lock_step f Start (locked, d, c) = Some (Disable (irq_enabled c), locked, d, c)"
| "lock_step f (Disable p) (locked, d, c) = Some (Block p, locked, d, disable_irq c)"
| "lock_step f (Block p) (locked, d, c) = map_option (\<lambda>c'. (Spin p, locked, d, c')) (disable_resched c)"
| "lock_step f (Spin p) (locked, d, c) = Some (if locked then Spin p else Enter p, True, d, c)"
| "lock_step f (Enter p) (locked, d, c) = Some (Update p d, locked, d, c)"
| "lock_step f (Update p x) (locked, d, c) = Some (Release p, locked, f x, c)"
| "lock_step f (Release p) (locked, d, c) = Some (Unblock p, False, d, c)"
| "lock_step f (Unblock p) (locked, d, c) = map_option (\<lambda>c'. (Restore p, locked, d, c')) (enable_no_resched c)"
| "lock_step f (Restore p) (locked, d, c) = Some (Finished, locked, d, if p then enable_irq c else c)"
| "lock_step f Finished (locked, d, c) = None"

type_synonym 'd lock_sys = "bool \<times> 'd \<times> ('d lock_pc \<times> x64_core) list"

text \<open>Any processor may move next; \<open>tr\<close> records the processors whose callee has written the data, in order.\<close>

inductive lock_run :: "('d \<Rightarrow> 'd) list \<Rightarrow> 'd lock_sys \<Rightarrow> nat list \<Rightarrow> 'd lock_sys \<Rightarrow> bool" for fs where
  lock_refl: "lock_run fs s [] s"
| lock_trans: "lock_run fs s tr (l, d, ps) \<Longrightarrow> t < length ps \<Longrightarrow>
    lock_step (fs ! t) (fst (ps ! t)) (l, d, snd (ps ! t)) = Some (pc', l', d', c') \<Longrightarrow>
    lock_run fs s (tr @ (if \<exists>p x. fst (ps ! t) = Update p x then [t] else [])) (l', d', ps[t := (pc', c')])"

definition lock_new :: "'d \<Rightarrow> x64_core list \<Rightarrow> 'd lock_sys" where
  "lock_new d cs = (False, d, map (Pair Start) cs)"

definition in_section :: "'d lock_pc \<Rightarrow> bool" where
  "in_section pc \<longleftrightarrow> (case pc of Enter _ \<Rightarrow> True | Update _ _ \<Rightarrow> True | Release _ \<Rightarrow> True | _ \<Rightarrow> False)"

definition has_written :: "'d lock_pc \<Rightarrow> bool" where
  "has_written pc \<longleftrightarrow> (case pc of Release _ \<Rightarrow> True | Unblock _ \<Rightarrow> True | Restore _ \<Rightarrow> True | Finished \<Rightarrow> True | _ \<Rightarrow> False)"

lemma pc_points [simp]:
  "in_section (Enter p)" "in_section (Update p x)" "in_section (Release p)" "\<not> in_section Start" "\<not> in_section (Disable p)"
  "\<not> in_section (Block p)" "\<not> in_section (Spin p)" "\<not> in_section (Unblock p)" "\<not> in_section (Restore p)" "\<not> in_section Finished"
  "has_written (Release p)" "has_written (Unblock p)" "has_written (Restore p)" "has_written Finished" "\<not> has_written Start"
  "\<not> has_written (Disable p)" "\<not> has_written (Block p)" "\<not> has_written (Spin p)" "\<not> has_written (Enter p)" "\<not> has_written (Update p x)"
  by (simp_all add: in_section_def has_written_def)

text \<open>The state of a processor at each point of the call, from the state \<open>c0\<close> it called with.\<close>

fun core_at :: "x64_core \<Rightarrow> 'd lock_pc \<Rightarrow> x64_core \<Rightarrow> bool" where
  "core_at c0 Start c = (c = c0)"
| "core_at c0 (Disable p) c = (p = irq_enabled c0 \<and> c = c0)"
| "core_at c0 (Block p) c = (p = irq_enabled c0 \<and> c = disable_irq c0)"
| "core_at c0 (Spin p) c = (p = irq_enabled c0 \<and> c = set_blocks (Suc (resched_blocks c0)) (disable_irq c0))"
| "core_at c0 (Enter p) c = (p = irq_enabled c0 \<and> c = set_blocks (Suc (resched_blocks c0)) (disable_irq c0))"
| "core_at c0 (Update p x) c = (p = irq_enabled c0 \<and> c = set_blocks (Suc (resched_blocks c0)) (disable_irq c0))"
| "core_at c0 (Release p) c = (p = irq_enabled c0 \<and> c = set_blocks (Suc (resched_blocks c0)) (disable_irq c0))"
| "core_at c0 (Unblock p) c = (p = irq_enabled c0 \<and> c = set_blocks (Suc (resched_blocks c0)) (disable_irq c0))"
| "core_at c0 (Restore p) c = (p = irq_enabled c0 \<and> c = disable_irq c0)"
| "core_at c0 Finished c = (c = c0)"

definition blocks_fit :: "x64_core \<Rightarrow> bool" where
  "blocks_fit c \<longleftrightarrow> resched_blocks c + 1 < 2 ^ 32"

text \<open>A call never panics, keeps to \<open>core_at\<close>, and every step but a failed swap brings it nearer to its end.\<close>

fun lock_rank :: "'d lock_pc \<Rightarrow> nat" where
  "lock_rank Start = 9"
| "lock_rank (Disable p) = 8"
| "lock_rank (Block p) = 7"
| "lock_rank (Spin p) = 6"
| "lock_rank (Enter p) = 5"
| "lock_rank (Update p x) = 4"
| "lock_rank (Release p) = 3"
| "lock_rank (Unblock p) = 2"
| "lock_rank (Restore p) = 1"
| "lock_rank Finished = 0"

lemma unblock_run:
  assumes "blocks_fit c0"
  shows "enable_no_resched (set_blocks (Suc (resched_blocks c0)) (disable_irq c0)) = Some (disable_irq c0)"
proof -
  let ?c = "disable_irq c0"
  have "resched_blocks (set_blocks (Suc (resched_blocks c0)) ?c) = Suc (resched_blocks c0)"
    using assms by (intro set_blocks_blocks) (simp add: blocks_fit_def)
  moreover have "set_blocks (resched_blocks c0) (set_blocks (Suc (resched_blocks c0)) ?c) = ?c"
    using set_blocks_back [of ?c] by simp
  ultimately show ?thesis by (simp add: enable_no_resched_def enable_resched_run del: set_blocks_flags)
qed

lemma lock_step_run:
  assumes "core_at c0 pc c" "blocks_fit c0" "pc \<noteq> Finished"
  shows "\<exists>pc' l' d' c'. lock_step f pc (l, d, c) = Some (pc', l', d', c') \<and> core_at c0 pc' c' \<and>
    (lock_rank pc' < lock_rank pc \<or> l \<and> (\<exists>p. pc = Spin p))"
proof (cases pc)
  case (Block p)
  then show ?thesis using assms by (simp add: disable_resched_run)
next
  case (Unblock p)
  then show ?thesis using assms by (simp add: unblock_run del: set_blocks_flags)
next
  case (Restore p)
  then show ?thesis using assms by (cases p) (auto simp: enable_after_disable disable_when_disabled)
qed (use assms in auto)

section \<open>Mutual exclusion and atomicity\<close>

definition lock_inv :: "('d \<Rightarrow> 'd) list \<Rightarrow> x64_core list \<Rightarrow> 'd \<Rightarrow> nat list \<Rightarrow> 'd lock_sys \<Rightarrow> bool" where
  "lock_inv fs cs d0 tr = (\<lambda>(l, d, ps). length ps = length cs \<and>
     (\<forall>t < length cs. core_at (cs ! t) (fst (ps ! t)) (snd (ps ! t))) \<and>
     (l \<longleftrightarrow> (\<exists>t < length cs. in_section (fst (ps ! t)))) \<and>
     (\<forall>t < length cs. \<forall>u < length cs. in_section (fst (ps ! t)) \<longrightarrow> in_section (fst (ps ! u)) \<longrightarrow> t = u) \<and>
     (\<forall>t < length cs. \<forall>p x. fst (ps ! t) = Update p x \<longrightarrow> x = d) \<and>
     d = fold (\<lambda>t. fs ! t) tr d0 \<and> distinct tr \<and> set tr = {t. t < length cs \<and> has_written (fst (ps ! t))})"

lemma lock_inv_new: "lock_inv fs cs d [] (lock_new d cs)"
  by (auto simp: lock_inv_def lock_new_def)

lemma core_step:
  assumes "core_at c0 pc c" "blocks_fit c0" "lock_step f pc (l, d, c) = Some (pc', l', d', c')"
  shows "core_at c0 pc' c'"
proof -
  have "pc \<noteq> Finished" using assms(3) by auto
  from lock_step_run [OF assms(1,2) this, of f l d] assms(3) show ?thesis by auto
qed

lemma step_shape:
  assumes "lock_step f pc (l, d, c) = Some (pc', l', d', c')"
  shows "in_section pc' \<Longrightarrow> \<not> in_section pc \<Longrightarrow> \<not> l"
    and "has_written pc' \<longleftrightarrow> has_written pc \<or> (\<exists>p x. pc = Update p x)"
    and "\<not> in_section pc \<Longrightarrow> d' = d"
    and "d' = (case pc of Update p x \<Rightarrow> f x | _ \<Rightarrow> d)"
    and "pc' = Update p x \<Longrightarrow> x = d'"
    and "(in_section pc \<longrightarrow> l) \<Longrightarrow> l' \<longleftrightarrow> in_section pc' \<or> l \<and> \<not> in_section pc"
  using assms by (cases pc; force split: if_splits)+

lemma lock_inv_step:
  assumes inv: "lock_inv fs cs d0 tr (l, d, ps)" and t: "t < length ps" and fit: "\<forall>c\<in>set cs. blocks_fit c"
    and st: "lock_step (fs ! t) (fst (ps ! t)) (l, d, snd (ps ! t)) = Some (pc', l', d', c')"
  shows "lock_inv fs cs d0 (tr @ (if \<exists>p x. fst (ps ! t) = Update p x then [t] else [])) (l', d', ps[t := (pc', c')])"
proof -
  let ?pc = "fst (ps ! t)"
  have n: "length ps = length cs" "t < length cs" using inv t by (auto simp: lock_inv_def)
  have core: "core_at (cs ! t) pc' c'"
    using core_step [OF _ _ st] inv n fit by (auto simp: lock_inv_def)
  have sect: "in_section (fst (ps ! u)) \<Longrightarrow> u < length cs \<Longrightarrow> l" and uniq: "in_section (fst (ps ! u)) \<Longrightarrow> u < length cs \<Longrightarrow> in_section ?pc \<Longrightarrow> u = t" for u
    using inv n by (auto simp: lock_inv_def)
  have wrt: "set tr = {t. t < length cs \<and> has_written (fst (ps ! t))}" "distinct tr" "d = fold (\<lambda>t. fs ! t) tr d0"
    and upd: "\<And>u p x. u < length cs \<Longrightarrow> fst (ps ! u) = Update p x \<Longrightarrow> x = d"
    and lk: "l \<longleftrightarrow> (\<exists>t < length cs. in_section (fst (ps ! t)))"
    and one: "\<And>u v. u < length cs \<Longrightarrow> v < length cs \<Longrightarrow> in_section (fst (ps ! u)) \<Longrightarrow> in_section (fst (ps ! v)) \<Longrightarrow> u = v"
    using inv by (auto simp: lock_inv_def)
  note shape = step_shape [OF st]
  have le: "l' \<longleftrightarrow> in_section pc' \<or> l \<and> \<not> in_section ?pc" using shape(6) sect n(2) by blast
  have l': "l' \<longleftrightarrow> (\<exists>u < length cs. in_section (fst (ps[t := (pc', c')] ! u)))"
  proof (cases "in_section pc'")
    case True
    then show ?thesis using le n by (auto intro: exI [of _ t])
  next
    case False
    then have "in_section (fst (ps[t := (pc', c')] ! u)) \<longleftrightarrow> u \<noteq> t \<and> in_section (fst (ps ! u))" for u
      using n by (cases "u = t") simp_all
    then show ?thesis using False le lk uniq by metis
  qed
  have one': "u = v" if "u < length cs" "v < length cs" "in_section (fst (ps[t := (pc', c')] ! u))" "in_section (fst (ps[t := (pc', c')] ! v))" for u v
    using that one [of u v] one [of t v] one [of u t] sect [of u] sect [of v] shape(1) n by (auto simp: nth_list_update split: if_splits)
  have upd': "x = d'" if "u < length cs" "fst (ps[t := (pc', c')] ! u) = Update p x" for u p x
  proof (cases "u = t")
    case True
    then show ?thesis using that shape(5) n by simp
  next
    case False
    then have "fst (ps ! u) = Update p x" using that by simp
    moreover from this have "\<not> in_section ?pc" using False uniq [of u] that(1) by auto
    ultimately show ?thesis using upd [OF that(1)] shape(3) by simp
  qed
  have d': "d' = fold (\<lambda>t. fs ! t) (tr @ (if \<exists>p x. ?pc = Update p x then [t] else [])) d0"
    using shape(4) upd [OF n(2)] wrt(3) by (cases ?pc) auto
  define b where "b \<longleftrightarrow> (\<exists>p x. ?pc = Update p x)"
  have hw: "has_written (fst (ps[t := (pc', c')] ! u)) \<longleftrightarrow> has_written (fst (ps ! u)) \<or> u = t \<and> b" for u
    using n shape(2) by (cases "u = t") (simp_all add: b_def)
  have "b \<Longrightarrow> \<not> has_written ?pc" unfolding b_def by auto
  then have new: "b \<Longrightarrow> t \<notin> set tr" using wrt(1) by simp
  have w1: "distinct (tr @ (if b then [t] else []))" using wrt(2) new by (cases b) simp_all
  have w2: "set (tr @ (if b then [t] else [])) = {u. u < length cs \<and> has_written (fst (ps[t := (pc', c')] ! u))}"
    unfolding hw set_append wrt(1) using n(2) by (cases b) auto
  note w' = w1 w2
  have "core_at (cs ! u) (fst (ps[t := (pc', c')] ! u)) (snd (ps[t := (pc', c')] ! u))" if "u < length cs" for u
    using that core inv n by (auto simp: lock_inv_def nth_list_update)
  then show ?thesis unfolding lock_inv_def split_conv using n(1) l' one' upd' d' w' [unfolded b_def] by (intro conjI allI impI) (simp only: length_list_update | blast)+
qed

lemma lock_run_inv:
  assumes "lock_run fs s tr s'" "s = lock_new d0 cs" "\<forall>c\<in>set cs. blocks_fit c"
  shows "lock_inv fs cs d0 tr s'"
  using assms
proof (induction rule: lock_run.induct)
  case (lock_refl s)
  then show ?case using lock_inv_new by simp
next
  case (lock_trans s tr l d ps t pc' l' d' c')
  then show ?case by (intro lock_inv_step) simp_all
qed

text \<open>Some processor can always take a step that is not a failed swap, so every call can still finish.\<close>

lemma lock_progress:
  assumes inv: "lock_inv fs cs d0 tr (l, d, ps)" and fit: "\<forall>c\<in>set cs. blocks_fit c" and "\<exists>t < length cs. fst (ps ! t) \<noteq> Finished"
  shows "\<exists>t pc' l' d' c'. t < length ps \<and> lock_step (fs ! t) (fst (ps ! t)) (l, d, snd (ps ! t)) = Some (pc', l', d', c') \<and> lock_rank pc' < lock_rank (fst (ps ! t))"
proof -
  obtain t where t: "t < length cs" "fst (ps ! t) \<noteq> Finished" "\<not> (l \<and> (\<exists>p. fst (ps ! t) = Spin p))"
  proof (cases l)
    case True
    with inv obtain t where "t < length cs" "in_section (fst (ps ! t))" by (auto simp: lock_inv_def)
    then show thesis by (intro that [of t]) auto
  next
    case False
    then show thesis using assms(3) that by blast
  qed
  have n: "length ps = length cs" and at: "core_at (cs ! t) (fst (ps ! t)) (snd (ps ! t))" using inv t(1) by (auto simp: lock_inv_def)
  have "blocks_fit (cs ! t)" using fit t(1) by simp
  from lock_step_run [OF at this t(2), of "fs ! t" l d] t(3) n t(1) show ?thesis by metis
qed

lemma lock_can_finish:
  assumes "lock_run fs (lock_new d0 cs) tr (l, d, ps)" "\<forall>c\<in>set cs. blocks_fit c"
  shows "\<exists>tr' l' d' ps'. lock_run fs (lock_new d0 cs) (tr @ tr') (l', d', ps') \<and> (\<forall>t < length cs. fst (ps' ! t) = Finished)"
  using assms(1)
proof (induction "\<Sum>p\<leftarrow>ps. lock_rank (fst p)" arbitrary: tr l d ps rule: less_induct)
  case less
  note inv = lock_run_inv [OF less.prems refl assms(2)]
  show ?case
  proof (cases "\<forall>t < length cs. fst (ps ! t) = Finished")
    case True
    then show ?thesis using less.prems by (intro exI [of _ "[]"]) auto
  next
    case False
    then obtain t pc' l' d' c' where t: "t < length ps" "lock_step (fs ! t) (fst (ps ! t)) (l, d, snd (ps ! t)) = Some (pc', l', d', c')"
        "lock_rank pc' < lock_rank (fst (ps ! t))"
      using lock_progress [OF inv assms(2)] by blast
    have "(\<Sum>p\<leftarrow>ps[t := (pc', c')]. lock_rank (fst p)) < (\<Sum>p\<leftarrow>ps. lock_rank (fst p))"
    proof -
      have "ps = take t ps @ ps ! t # drop (Suc t) ps" using t(1) by (rule id_take_nth_drop)
      then have "(\<Sum>p\<leftarrow>ps. lock_rank (fst p)) = (\<Sum>p\<leftarrow>take t ps. lock_rank (fst p)) + (lock_rank (fst (ps ! t)) + (\<Sum>p\<leftarrow>drop (Suc t) ps. lock_rank (fst p)))"
        by (metis map_append list.map(2) sum_list_append sum_list.Cons)
      then show ?thesis using t by (simp add: upd_conv_take_nth_drop)
    qed
    from less.hyps [OF this lock_trans [OF less.prems t(1,2)]] show ?thesis by (metis append.assoc)
  qed
qed

text \<open>C17. However the calls of \<open>SpinLock::with\<close> of several processors interleave, at most one of them is in its critical section, and there it holds
  the lock with interrupts disabled and rescheduling blocked; the data are the result of running the callees one after the other, each once; a call that returned
  has run its callee and left interrupts and the rescheduling count of its processor as they were; no call panics; and all calls can finish.\<close>

theorem spinlock_with_correct:
  assumes "lock_run fs (lock_new d cs) tr (l, d', ps)" and "\<forall>c\<in>set cs. resched_blocks c + 1 < 2 ^ 32"
  shows "(\<forall>t < length cs. in_section (fst (ps ! t)) \<longrightarrow> l \<and> \<not> irq_enabled (snd (ps ! t)) \<and> resched_blocks (snd (ps ! t)) = resched_blocks (cs ! t) + 1 \<and>
        (\<forall>u < length cs. in_section (fst (ps ! u)) \<longrightarrow> u = t)) \<and>
      d' = fold (\<lambda>t. fs ! t) tr d \<and> distinct tr \<and>
      (\<forall>t < length cs. if fst (ps ! t) = Finished then t \<in> set tr \<and> snd (ps ! t) = cs ! t
         else lock_step (fs ! t) (fst (ps ! t)) (l, d', snd (ps ! t)) \<noteq> None) \<and>
      (\<exists>tr' d'' ps'. lock_run fs (lock_new d cs) (tr @ tr') (False, d'', ps') \<and> (\<forall>t < length cs. fst (ps' ! t) = Finished) \<and>
         set (tr @ tr') = {..<length cs} \<and> distinct (tr @ tr'))"
proof -
  have fit: "\<forall>c\<in>set cs. blocks_fit c" using assms(2) by (simp add: blocks_fit_def)
  note inv = lock_run_inv [OF assms(1) refl fit]
  have at: "core_at (cs ! t) (fst (ps ! t)) (snd (ps ! t))" "blocks_fit (cs ! t)" if "t < length cs" for t
    using inv fit that by (auto simp: lock_inv_def)
  have "\<not> irq_enabled (snd (ps ! t)) \<and> resched_blocks (snd (ps ! t)) = resched_blocks (cs ! t) + 1" if "t < length cs" "in_section (fst (ps ! t))" for t
    using at [OF that(1)] that(2) by (cases "fst (ps ! t)") (simp_all add: blocks_fit_def set_blocks_blocks del: set_blocks_flags(3))
  then have 1: "\<forall>t < length cs. in_section (fst (ps ! t)) \<longrightarrow> l \<and> \<not> irq_enabled (snd (ps ! t)) \<and> resched_blocks (snd (ps ! t)) = resched_blocks (cs ! t) + 1 \<and>
        (\<forall>u < length cs. in_section (fst (ps ! u)) \<longrightarrow> u = t)"
    using inv by (auto simp: lock_inv_def)
  have 2: "if fst (ps ! t) = Finished then t \<in> set tr \<and> snd (ps ! t) = cs ! t else lock_step (fs ! t) (fst (ps ! t)) (l, d', snd (ps ! t)) \<noteq> None"
    if "t < length cs" for t
  proof (cases "fst (ps ! t) = Finished")
    case True
    then show ?thesis using inv at(1) [OF that] that by (auto simp: lock_inv_def)
  next
    case False
    then show ?thesis using lock_step_run [OF at [OF that] False, of "fs ! t" l d'] by auto
  qed
  obtain tr' l' d'' ps' where fin: "lock_run fs (lock_new d cs) (tr @ tr') (l', d'', ps')" "\<forall>t < length cs. fst (ps' ! t) = Finished"
    using lock_can_finish [OF assms(1) fit] by blast
  from lock_run_inv [OF fin(1) refl fit] fin(2) have 3: "l' = False" "set (tr @ tr') = {..<length cs}" "distinct (tr @ tr')"
    by (auto simp: lock_inv_def)
  have "d' = fold (\<lambda>t. fs ! t) tr d" "distinct tr" using inv by (auto simp: lock_inv_def)
  moreover have "\<exists>tr' d'' ps'. lock_run fs (lock_new d cs) (tr @ tr') (False, d'', ps') \<and> (\<forall>t < length cs. fst (ps' ! t) = Finished) \<and>
      set (tr @ tr') = {..<length cs} \<and> distinct (tr @ tr')"
    using fin 3 by blast
  ultimately show ?thesis using 1 2 by (intro conjI allI impI) (assumption | blast)+
qed

text \<open>A processor with interrupts enabled and no rescheduling block.\<close>

definition demo_core :: x64_core where
  "demo_core = \<lparr>co_rflags = RFLAGS_IF, co_msr = (\<lambda>_. 0), co_cr2 = 0, co_gdtr = \<lparr>dr_limit = 0, dr_ptr = 0\<rparr>, co_idtr = \<lparr>dr_limit = 0, dr_ptr = 0\<rparr>,
     co_cs = 0, co_tr = 0, co_ldtr = 0,
     co_percpu = (\<lambda>_. \<lparr>pw_ptr = 0, pw_common_ptr = 0, pw_preempt_blocks = 0, pw_tss = tss_init 0 0, pw_gdt = []\<rparr>)\<rparr>"

theorem spinlock_with_correct_witness:
  "\<exists>tr' d'' ps'. lock_run [\<lambda>x. 2 * x, \<lambda>x. x + 1] (lock_new (5 :: nat) [demo_core, demo_core]) ([] @ tr') (False, d'', ps') \<and>
     fst (ps' ! 0) = Finished \<and> fst (ps' ! 1) = Finished \<and> set tr' = {0, 1}"
proof -
  have fit: "\<forall>c\<in>set [demo_core, demo_core]. resched_blocks c + 1 < 2 ^ 32" by (simp add: resched_blocks_def demo_core_def)
  have "lock_run [\<lambda>x. 2 * x, \<lambda>x. x + 1] (lock_new (5 :: nat) [demo_core, demo_core]) [] (False, 5, map (Pair Start) [demo_core, demo_core])"
    using lock_refl [of _ "lock_new 5 [demo_core, demo_core]"] by (simp add: lock_new_def)
  note w = spinlock_with_correct [OF this fit]
  obtain tr' d'' ps' where "lock_run [\<lambda>x. 2 * x, \<lambda>x. x + 1] (lock_new (5 :: nat) [demo_core, demo_core]) ([] @ tr') (False, d'', ps')"
      "\<forall>t < length [demo_core, demo_core]. fst (ps' ! t) = Finished" "set ([] @ tr') = {..<length [demo_core, demo_core]}"
    using conjunct2 [OF conjunct2 [OF conjunct2 [OF conjunct2 [OF w]]]] by blast
  moreover have "{..<length [demo_core, demo_core]} = {0, 1}" by auto
  ultimately show ?thesis by (intro exI [of _ tr'] exI [of _ d''] exI [of _ ps']) simp
qed

end
