(* ===== verification/Spec2Isabelle.thy ===== *)
theory Spec2Isabelle
  imports Pmm Boot_Loader Object_Name Kernel_Aspace Heap_Run Sync
begin

text \<open>Verification of the corrosios kernel.\<close>

end
